(* ===== verification/Prelude.thy ===== *)
theory Prelude
  imports Main "HOL-Library.Word"
begin

text \<open>
  Vocabulary shared by every component: the machine types of the C++ code, the
  integer value of a byte string in either byte order, and the generic facts on
  words and lists that the component proofs use through the collections
  \<open>word_int\<close> (the integer value of a word operation) and \<open>byte_codec\<close>
  (byte strings against integers).
\<close>

unbundle bit_operations_syntax

section \<open>Machine types\<close>

type_synonym u8 = "8 word"
type_synonym u16 = "16 word"
type_synonym u32 = "32 word"
type_synonym u64 = "64 word"
type_synonym u128 = "128 word"
type_synonym i8 = "8 word"
type_synonym bytes = "u8 list"

named_theorems word_int \<open>the integer value of operations on machine words\<close>
named_theorems byte_codec \<open>byte strings and the integers they denote\<close>

section \<open>Integer values of words\<close>

lemma uint_bounds:
  "0 \<le> uint (w :: 'a :: len word)" "uint w < 2 ^ LENGTH('a)"
  by simp_all

lemma uint_ucast_mod [word_int]:
  "uint (ucast (w :: 'a :: len word) :: 'b :: len word) = uint w mod 2 ^ LENGTH('b)"
  by (simp add: unsigned_ucast_eq take_bit_eq_mod)

lemma uint_drop_bit_div [word_int]:
  "uint (drop_bit n (w :: 'a :: len word)) = uint w div 2 ^ n"
proof -
  have "take_bit LENGTH('a) (uint w) = uint w"
    by (rule take_bit_int_eq_self) simp_all
  then show ?thesis
    by (simp only: unsigned_drop_bit_eq drop_bit_eq_div [where 'a = int])
qed

lemma uint_u8: "uint (w :: u8) < 256"
  using uint_bounds(2) [of w] by simp

lemma uint_u32: "uint (w :: u32) < 4294967296"
  using uint_bounds(2) [of w] by simp

lemma uint_u64: "uint (w :: u64) < 18446744073709551616"
  using uint_bounds(2) [of w] by simp

lemma uint_u128: "uint (w :: u128) < 340282366920938463463374607431768211456"
  using uint_bounds(2) [of w] by simp

lemma uint_and_mask: "uint ((w :: 'a :: len word) AND mask n) = uint w mod 2 ^ n"
  by (metis take_bit_eq_mask take_bit_eq_mod unsigned_take_bit_eq)

section \<open>Byte strings as integers\<close>

primrec le_val :: "bytes \<Rightarrow> int" where
  "le_val [] = 0"
| "le_val (b # bs) = uint b + 256 * le_val bs"

definition be_val :: "bytes \<Rightarrow> int" where
  "be_val bs = le_val (rev bs)"

primrec le_bytes :: "nat \<Rightarrow> int \<Rightarrow> bytes" where
  "le_bytes 0 v = []"
| "le_bytes (Suc n) v = word_of_int v # le_bytes n (v div 256)"

definition be_bytes :: "nat \<Rightarrow> int \<Rightarrow> bytes" where
  "be_bytes n v = rev (le_bytes n v)"

lemma length_le_bytes [simp]: "length (le_bytes n v) = n"
  by (induction n arbitrary: v) auto

lemma length_be_bytes [simp]: "length (be_bytes n v) = n"
  by (simp add: be_bytes_def)

lemma le_val_bounds: "0 \<le> le_val bs \<and> le_val bs < 256 ^ length bs"
proof (induction bs)
  case Nil
  then show ?case by simp
next
  case (Cons b bs)
  have "uint b < 256" by (rule uint_u8)
  with Cons show ?case by simp
qed

lemma le_val_nonneg [simp]: "0 \<le> le_val bs"
  using le_val_bounds by blast

lemma le_val_less: "le_val bs < 256 ^ length bs"
  using le_val_bounds by blast

lemma be_val_nonneg [simp]: "0 \<le> be_val bs"
  by (simp add: be_val_def)

lemma be_val_less: "be_val bs < 256 ^ length bs"
  using le_val_less [of "rev bs"] by (simp add: be_val_def)

lemma le_val_append: "le_val (xs @ ys) = le_val xs + 256 ^ length xs * le_val ys"
  by (induction xs) (auto simp: algebra_simps)

lemma be_val_append: "be_val (xs @ ys) = be_val xs * 256 ^ length ys + be_val ys"
  by (simp add: be_val_def le_val_append)

lemma be_val_Nil [simp]: "be_val [] = 0"
  by (simp add: be_val_def)

lemma be_val_Cons: "be_val (b # bs) = uint b * 256 ^ length bs + be_val bs"
  using be_val_append [of "[b]" bs] by (simp add: be_val_def)

lemma le_val_le_bytes [byte_codec]: "le_val (le_bytes n v) = v mod 256 ^ n"
proof (induction n arbitrary: v)
  case 0
  then show ?case by simp
next
  case (Suc n)
  have "uint (word_of_int v :: u8) = v mod 256"
    by (simp add: uint_word_of_int)
  with Suc show ?case
    by (simp add: zmod_zmult2_eq)
qed

lemma be_val_be_bytes [byte_codec]: "be_val (be_bytes n v) = v mod 256 ^ n"
  by (simp add: be_val_def be_bytes_def le_val_le_bytes)

lemma le_bytes_le_val [byte_codec]: "le_bytes (length bs) (le_val bs) = bs"
proof (induction bs)
  case Nil
  then show ?case by simp
next
  case (Cons b bs)
  have "(uint b + 256 * le_val bs) div 256 = le_val bs"
    using uint_u8 [of b] by simp
  moreover have "(word_of_int (uint b + 256 * le_val bs) :: u8) = b"
    by (rule word_uint_eqI) (simp only: uint_word_of_int, simp add: uint_u8)
  ultimately show ?case using Cons by simp
qed

lemma be_bytes_be_val [byte_codec]: "be_bytes (length bs) (be_val bs) = bs"
  using le_bytes_le_val [of "rev bs"] by (simp add: be_bytes_def be_val_def)

lemma le_val_inj: "length xs = length ys \<Longrightarrow> le_val xs = le_val ys \<Longrightarrow> xs = ys"
  by (metis le_bytes_le_val)

lemma be_val_inj: "length xs = length ys \<Longrightarrow> be_val xs = be_val ys \<Longrightarrow> xs = ys"
  by (metis be_bytes_be_val)

lemma le_bytes_inj:
  assumes "le_bytes n v = le_bytes n w" "0 \<le> v" "v < 256 ^ n" "0 \<le> w" "w < 256 ^ n"
  shows "v = w"
  by (metis assms le_val_le_bytes mod_pos_pos_trivial)

section \<open>Lists\<close>

lemma length_Suc_conv_list: "length xs = Suc n \<longleftrightarrow> (\<exists>y ys. xs = y # ys \<and> length ys = n)"
  by (rule length_Suc_conv)

lemma length_4E:
  assumes "length xs = 4"
  obtains a b c d where "xs = [a, b, c, d]"
  using assms by (auto simp: numeral_eq_Suc length_Suc_conv)

lemma length_8E:
  assumes "length xs = 8"
  obtains a b c d e f g h where "xs = [a, b, c, d, e, f, g, h]"
  using assms by (auto simp: numeral_eq_Suc length_Suc_conv)

text \<open>\<open>memcpy (buf + pos, data, len)\<close>: overwrite the bytes from a position on.\<close>

definition memcpy_at :: "'a list \<Rightarrow> nat \<Rightarrow> 'a list \<Rightarrow> 'a list" where
  "memcpy_at buf pos data = take pos buf @ data @ drop (pos + length data) buf"

lemma length_memcpy_at [simp]:
  "pos + length data \<le> length buf \<Longrightarrow> length (memcpy_at buf pos data) = length buf"
  by (simp add: memcpy_at_def)

lemma take_memcpy_at:
  "pos + length data \<le> length buf \<Longrightarrow>
     take (pos + length data) (memcpy_at buf pos data) = take pos buf @ data"
  by (simp add: memcpy_at_def)

lemma memcpy_at_segment:
  "length a = pos \<Longrightarrow> length b = length data \<Longrightarrow> memcpy_at (a @ b @ c) pos data = a @ data @ c"
  by (simp add: memcpy_at_def)

end
