(* ===== verification/Hash_Stream.thy ===== *)
theory Hash_Stream
  imports Prelude
begin

text \<open>
  The interface of the streaming hash contexts (\<open>SHA256\<close>, \<open>SHA512\<close>): a chaining value, a buffer
  of fewer bytes than a block, and a byte counter. \<open>absorb\<close> is the block loop of their
  \<open>update\<close>; \<open>buffered_update\<close> and \<open>buffered_final\<close> are the buffer handling of
  \<open>update\<close> and \<open>finalize\<close> for any block size. The locale \<open>block_hasher\<close> states what a client
  of \<open>update\<close> relies on, \<open>block_digest\<close> adds \<open>finalize\<close>; their lemmas say that the result only
  depends on the concatenation of the chunks.
\<close>

section \<open>The block loop\<close>

function absorb :: "(bytes \<Rightarrow> 's \<Rightarrow> 's) \<Rightarrow> nat \<Rightarrow> 's \<Rightarrow> bytes \<Rightarrow> 's \<times> bytes" where
  "absorb compress B st ptr =
     (if B = 0 \<or> length ptr < B then (st, ptr)
      else absorb compress B (compress (take B ptr) st) (drop B ptr))"
  by pat_completeness auto
termination by (relation "measure (\<lambda>(_, _, _, ptr). length ptr)") auto

declare absorb.simps [simp del]

lemma absorb_short: "length ptr < B \<Longrightarrow> absorb compress B st ptr = (st, ptr)"
  by (simp add: absorb.simps)

lemma absorb_block:
  "0 < B \<Longrightarrow> length blk = B \<Longrightarrow>
   absorb compress B st (blk @ rest) = absorb compress B (compress blk st) rest"
  by (subst absorb.simps) simp

lemma absorb_snd_length: "0 < B \<Longrightarrow> length (snd (absorb compress B st ptr)) = length ptr mod B"
proof (induction compress B st ptr rule: absorb.induct)
  case (1 compress B st ptr)
  then show ?case
    by (subst absorb.simps) (auto simp: le_mod_geq)
qed

lemma absorb_append:
  assumes "0 < B"
  shows "absorb compress B st (xs @ ys) =
    (let (st', r) = absorb compress B st xs in absorb compress B st' (r @ ys))"
  using assms
proof (induction compress B st xs rule: absorb.induct)
  case (1 compress B st ptr)
  show ?case
  proof (cases "length ptr < B")
    case True
    then show ?thesis by (simp add: absorb_short)
  next
    case False
    have l: "absorb compress B st (ptr @ ys)
        = absorb compress B (compress (take B ptr) st) (drop B ptr @ ys)"
      using 1(2) False by (subst absorb.simps) simp
    have r: "absorb compress B st ptr = absorb compress B (compress (take B ptr) st) (drop B ptr)"
      using 1(2) False by (subst absorb.simps) simp
    show ?thesis
      unfolding l r using 1(1) 1(2) False by simp
  qed
qed

section \<open>Buffered update and finalize\<close>

definition buffered_tail ::
  "(bytes \<Rightarrow> 's \<Rightarrow> 's) \<Rightarrow> nat \<Rightarrow> 's \<times> bytes \<times> nat \<Rightarrow> bytes \<Rightarrow> 's \<times> bytes \<times> nat" where
  "buffered_tail compress B = (\<lambda>(st, buf, n) ptr.
     let (st, rest) = absorb compress B st ptr
     in if length rest > 0 then (st, memcpy_at buf 0 rest, length rest) else (st, buf, n))"

definition buffered_update ::
  "(bytes \<Rightarrow> 's \<Rightarrow> 's) \<Rightarrow> nat \<Rightarrow> 's \<times> bytes \<times> nat \<Rightarrow> bytes \<Rightarrow> 's \<times> bytes \<times> nat" where
  "buffered_update compress B = (\<lambda>(st, buf, n) ptr.
     if n > 0 then
       let fill = B - n in
       if length ptr < fill then (st, memcpy_at buf n ptr, n + length ptr)
       else let buf = memcpy_at buf n (take fill ptr)
            in buffered_tail compress B (compress buf st, buf, 0) (drop fill ptr)
     else buffered_tail compress B (st, buf, n) ptr)"

definition buffered_final ::
  "(bytes \<Rightarrow> 's \<Rightarrow> 's) \<Rightarrow> nat \<Rightarrow> nat \<Rightarrow> bytes \<Rightarrow> 's \<times> bytes \<times> nat \<Rightarrow> 's \<times> bytes \<times> nat" where
  "buffered_final compress B L lenb = (\<lambda>(st, buf, n).
     let n = (if n \<ge> B then 0 else n);
         buf = buf[n := 0x80];
         n = n + 1;
         (st, buf, n) =
           (if n > B - L then
              let buf = (if n < B then memcpy_at buf n (replicate (B - n) 0) else buf)
              in (compress buf st, buf, 0)
            else (st, buf, n));
         buf = memcpy_at buf n (replicate (B - L - n) 0);
         buf = memcpy_at buf (B - L) lenb
     in (compress buf st, buf, n))"

definition md_pad :: "nat \<Rightarrow> nat \<Rightarrow> nat \<Rightarrow> bytes \<Rightarrow> bytes" where
  "md_pad B L n lenb = 0x80 # replicate ((2 * B - L - 1 - n mod B) mod B) 0 @ lenb"

lemma memcpy_at_0_full: "length data = length buf \<Longrightarrow> memcpy_at buf 0 data = data"
  by (simp add: memcpy_at_def)

lemma memcpy_at_to_end:
  "n + length data = length buf \<Longrightarrow> memcpy_at buf n data = take n buf @ data"
  by (simp add: memcpy_at_def)

lemma buffered_tail_absorb:
  assumes "0 < B" "length buf = B" "n = 0"
    and "buffered_tail compress B (st, buf, n) ptr = (st', buf', n')"
  shows "absorb compress B st ptr = (st', take n' buf') \<and> length buf' = B \<and> n' < B"
proof -
  obtain s r where a: "absorb compress B st ptr = (s, r)" by (rule prod.exhaust)
  have "length r < B"
    using absorb_snd_length [OF assms(1), of compress st ptr] a assms(1) by simp
  then show ?thesis
    using assms a by (auto simp: buffered_tail_def memcpy_at_def split: if_splits)
qed

lemma buffered_update_absorb:
  assumes "0 < B" "length buf = B" "n < B"
    and u: "buffered_update compress B (st, buf, n) ptr = (st', buf', n')"
  shows "absorb compress B st (take n buf @ ptr) = (st', take n' buf') \<and> length buf' = B \<and> n' < B"
proof (cases "n = 0")
  case True
  then show ?thesis
    using buffered_tail_absorb [of B buf n compress st ptr st' buf' n'] assms
    by (simp add: buffered_update_def)
next
  case False
  show ?thesis
  proof (cases "length ptr < B - n")
    case True
    then have "st' = st \<and> buf' = memcpy_at buf n ptr \<and> n' = n + length ptr"
      using u False by (simp add: buffered_update_def)
    then show ?thesis
      using True assms by (simp add: take_memcpy_at absorb_short)
  next
    case ge: False
    define b where "b = memcpy_at buf n (take (B - n) ptr)"
    have b: "b = take n buf @ take (B - n) ptr" "length b = B"
      using ge assms by (simp_all add: b_def memcpy_at_to_end)
    have t: "buffered_tail compress B (compress b st, b, 0) (drop (B - n) ptr) = (st', buf', n')"
      using u False ge by (simp add: buffered_update_def b_def Let_def)
    have "take n buf @ ptr = b @ drop (B - n) ptr"
      by (simp add: b)
    then have "absorb compress B st (take n buf @ ptr)
        = absorb compress B (compress b st) (drop (B - n) ptr)"
      using absorb_block [OF assms(1) b(2)] by simp
    then show ?thesis
      using buffered_tail_absorb [OF assms(1) b(2) refl t] by simp
  qed
qed

lemma take_list_update_Suc: "n < length buf \<Longrightarrow> take (Suc n) (buf[n := x]) = take n buf @ [x]"
  by (simp add: take_Suc_conv_app_nth)

lemma buffered_final_absorb:
  assumes B: "0 < B" "length buf = B" "n < B" and L: "length lenb = L" "L < B"
    and n: "n = m mod B"
  shows "fst (buffered_final compress B L lenb (st, buf, n))
    = fst (absorb compress B st (take n buf @ md_pad B L m lenb))"
proof (cases "n + 1 > B - L")
  case True
  define b1 where "b1 = take n buf @ [0x80] @ replicate (B - (n + 1)) 0"
  define b2 where "b2 = replicate (B - L) 0 @ lenb"
  have len: "length b1 = B" "length b2 = B" using B L by (simp_all add: b1_def b2_def)
  have z: "(2 * B - L - 1 - m mod B) mod B = (B - (n + 1)) + (B - L)"
  proof -
    have "2 * B - L - 1 - n = (B - (n + 1)) + (B - L)" using B L by linarith
    moreover have "(B - (n + 1)) + (B - L) < B" using True B L by linarith
    ultimately show ?thesis unfolding n [symmetric] by simp
  qed
  have w1: "(if n + 1 < B then memcpy_at (buf[n := 0x80]) (n + 1) (replicate (B - (n + 1)) 0)
      else buf[n := 0x80]) = b1"
  proof (cases "n + 1 < B")
    case True
    then show ?thesis using B by (simp add: b1_def memcpy_at_to_end take_list_update_Suc)
  next
    case False
    then have "buf[n := 0x80] = take (Suc n) (buf[n := 0x80])" using B by simp
    also have "\<dots> = take n buf @ [0x80]" using B by (intro take_list_update_Suc) simp
    finally show ?thesis using False by (simp add: b1_def)
  qed
  have w2: "memcpy_at (memcpy_at b1 0 (replicate (B - L) 0)) (B - L) lenb = b2"
    using len L by (simp add: b2_def memcpy_at_def)
  have "fst (buffered_final compress B L lenb (st, buf, n)) = compress b2 (compress b1 st)"
    using True B w1 w2 by (cases "Suc n < B") (simp_all add: buffered_final_def Let_def)
  moreover have "take n buf @ md_pad B L m lenb = b1 @ b2 @ []"
    unfolding md_pad_def z b1_def b2_def by (simp add: replicate_add)
  then have "absorb compress B st (take n buf @ md_pad B L m lenb)
      = (compress b2 (compress b1 st), [])"
    using len B by (simp only: absorb_block) (simp add: absorb_short)
  ultimately show ?thesis by simp
next
  case False
  define b where "b = take n buf @ [0x80] @ replicate (B - L - (n + 1)) 0 @ lenb"
  have len: "length b = B" using False B L by (simp add: b_def)
  have z: "(2 * B - L - 1 - m mod B) mod B = B - L - (n + 1)"
  proof -
    have "2 * B - L - 1 - n = (B - L - (n + 1)) + B" using False B L by linarith
    moreover have "B - L - (n + 1) < B" using B by linarith
    ultimately show ?thesis unfolding n [symmetric] by (metis mod_add_self2 mod_less)
  qed
  have "memcpy_at (memcpy_at (buf[n := 0x80]) (Suc n) (replicate (B - L - Suc n) 0)) (B - L) lenb = b"
  proof -
    have "B - (L + n) = Suc (B - Suc (L + n))" using False B L by linarith
    then show ?thesis
      using False B L by (simp add: b_def memcpy_at_def take_list_update_Suc)
  qed
  then have "fst (buffered_final compress B L lenb (st, buf, n)) = compress b st"
    using False B by (simp add: buffered_final_def Let_def)
  moreover have "take n buf @ md_pad B L m lenb = b @ []"
    unfolding md_pad_def z b_def by simp
  then have "absorb compress B st (take n buf @ md_pad B L m lenb) = (compress b st, [])"
    using len B by (simp only: absorb_block) (simp add: absorb_short)
  ultimately show ?thesis by simp
qed

section \<open>Interfaces\<close>

locale block_hasher =
  fixes upd :: "'c \<Rightarrow> bytes \<Rightarrow> 'c"
    and chain :: "'c \<Rightarrow> 's"
    and pending :: "'c \<Rightarrow> bytes"
    and count :: "'c \<Rightarrow> u64"
    and ctx_ok :: "'c \<Rightarrow> bool"
    and compress :: "bytes \<Rightarrow> 's \<Rightarrow> 's"
    and B :: nat
  assumes B_pos: "0 < B"
    and upd_ok: "ctx_ok c \<Longrightarrow> ctx_ok (upd c d)"
    and upd_count: "count (upd c d) = count c + of_nat (length d)"
    and upd_absorb: "ctx_ok c \<Longrightarrow>
      (chain (upd c d), pending (upd c d)) = absorb compress B (chain c) (pending c @ d)"
begin

definition represents :: "'s \<Rightarrow> 'c \<Rightarrow> bytes \<Rightarrow> bool" where
  "represents iv c msg \<longleftrightarrow> ctx_ok c \<and> count c = of_nat (length msg) \<and>
     (chain c, pending c) = absorb compress B iv msg"

lemma represents_upd:
  assumes "represents iv c msg"
  shows "represents iv (upd c d) (msg @ d)"
proof -
  have "absorb compress B iv (msg @ d) = absorb compress B (chain c) (pending c @ d)"
    using absorb_append [OF B_pos] assms by (metis (no_types, lifting) case_prod_conv represents_def)
  then show ?thesis
    using assms upd_absorb upd_ok upd_count by (simp add: represents_def)
qed

lemma represents_fold:
  "represents iv c msg \<Longrightarrow> represents iv (fold (\<lambda>d c. upd c d) chunks c) (msg @ concat chunks)"
proof (induction chunks arbitrary: c msg)
  case Nil
  then show ?case by simp
next
  case (Cons d chunks)
  show ?case using Cons.IH [OF represents_upd [OF Cons.prems, of d]] by simp
qed

lemma pending_length: "represents iv c msg \<Longrightarrow> length (pending c) = length msg mod B"
  using absorb_snd_length [OF B_pos, of compress iv msg]
  by (metis represents_def snd_conv)

end

locale block_digest = block_hasher upd chain pending count ctx_ok compress B
  for upd :: "'c \<Rightarrow> bytes \<Rightarrow> 'c" and chain :: "'c \<Rightarrow> 's" and pending :: "'c \<Rightarrow> bytes"
    and count :: "'c \<Rightarrow> u64" and ctx_ok :: "'c \<Rightarrow> bool"
    and compress :: "bytes \<Rightarrow> 's \<Rightarrow> 's" and B :: nat +
  fixes ctx0 :: 'c and iv :: 's and fin :: "'c \<Rightarrow> bytes"
    and pad :: "nat \<Rightarrow> bytes" and out :: "'s \<Rightarrow> bytes"
  assumes init_represents: "ctx_ok ctx0 \<and> count ctx0 = 0 \<and> chain ctx0 = iv \<and> pending ctx0 = []"
    and fin_absorb: "ctx_ok c \<Longrightarrow> count c = of_nat n \<Longrightarrow> length (pending c) = n mod B \<Longrightarrow>
      fin c = out (fst (absorb compress B (chain c) (pending c @ pad n)))"
begin

definition digest :: "bytes \<Rightarrow> bytes" where
  "digest msg = out (fst (absorb compress B iv (msg @ pad (length msg))))"

lemma init_represents_Nil: "represents iv ctx0 []"
  using init_represents B_pos by (simp add: represents_def absorb_short)

lemma fin_represents:
  assumes "represents iv c msg"
  shows "fin c = digest msg"
proof -
  have "fin c = out (fst (absorb compress B (chain c) (pending c @ pad (length msg))))"
    using assms pending_length [OF assms] by (intro fin_absorb) (auto simp: represents_def)
  moreover have "absorb compress B iv (msg @ pad (length msg))
      = absorb compress B (chain c) (pending c @ pad (length msg))"
    using absorb_append [OF B_pos] assms by (metis (no_types, lifting) case_prod_conv represents_def)
  ultimately show ?thesis by (simp add: digest_def)
qed

lemma fin_chunks: "fin (fold (\<lambda>d c. upd c d) chunks ctx0) = digest (concat chunks)"
  using fin_represents [OF represents_fold [OF init_represents_Nil, of chunks]] by simp

lemma fin_one: "fin (upd ctx0 msg) = digest msg"
  using fin_chunks [of "[msg]"] by simp

lemma fin_two: "fin (upd (upd ctx0 x) y) = digest (x @ y)"
  using fin_chunks [of "[x, y]"] by simp

end

end
