(* ===== verification/Sha256.thy ===== *)
theory Sha256
  imports Hash_Stream
begin

text \<open>
  \<open>SHA256\<close> of \<open>sha256.hpp\<close> over the portable compression function of \<open>hash_accel.cpp\<close>
  (namespace \<open>scalar\<close>; the SHA-NI and ARMv8 intrinsics are not modelled), the one-block
  specialisations \<open>sha256_33\<close>, \<open>sha256_32\<close>, the midstate, and the tagged hash of
  \<open>tagged_hash.hpp\<close>. The context is an interpretation of \<open>block_digest\<close>, so a digest depends
  only on the bytes fed.
\<close>

section \<open>Compression (hash_accel.cpp)\<close>

definition SHA256_K :: "u32 list" where
  "SHA256_K =
    [0x428A2F98, 0x71374491, 0xB5C0FBCF, 0xE9B5DBA5,
     0x3956C25B, 0x59F111F1, 0x923F82A4, 0xAB1C5ED5,
     0xD807AA98, 0x12835B01, 0x243185BE, 0x550C7DC3,
     0x72BE5D74, 0x80DEB1FE, 0x9BDC06A7, 0xC19BF174,
     0xE49B69C1, 0xEFBE4786, 0x0FC19DC6, 0x240CA1CC,
     0x2DE92C6F, 0x4A7484AA, 0x5CB0A9DC, 0x76F988DA,
     0x983E5152, 0xA831C66D, 0xB00327C8, 0xBF597FC7,
     0xC6E00BF3, 0xD5A79147, 0x06CA6351, 0x14292967,
     0x27B70A85, 0x2E1B2138, 0x4D2C6DFC, 0x53380D13,
     0x650A7354, 0x766A0ABB, 0x81C2C92E, 0x92722C85,
     0xA2BFE8A1, 0xA81A664B, 0xC24B8B70, 0xC76C51A3,
     0xD192E819, 0xD6990624, 0xF40E3585, 0x106AA070,
     0x19A4C116, 0x1E376C08, 0x2748774C, 0x34B0BCB5,
     0x391C0CB3, 0x4ED8AA4A, 0x5B9CCA4F, 0x682E6FF3,
     0x748F82EE, 0x78A5636F, 0x84C87814, 0x8CC70208,
     0x90BEFFFA, 0xA4506CEB, 0xBEF9A3F7, 0xC67178F2]"

definition SHA256_IV :: "u32 list" where
  "SHA256_IV = [0x6a09e667, 0xbb67ae85, 0x3c6ef372, 0xa54ff53a,
     0x510e527f, 0x9b05688c, 0x1f83d9ab, 0x5be0cd19]"

definition rotr32 :: "u32 \<Rightarrow> nat \<Rightarrow> u32" where
  "rotr32 x n = drop_bit n x OR push_bit (32 - n) x"

definition rotl32 :: "u32 \<Rightarrow> nat \<Rightarrow> u32" where
  "rotl32 x n = push_bit n x OR drop_bit (32 - n) x"

definition load_be32 :: "bytes \<Rightarrow> u32" where
  "load_be32 p = push_bit 24 (ucast (p ! 0)) OR push_bit 16 (ucast (p ! 1))
     OR push_bit 8 (ucast (p ! 2)) OR ucast (p ! 3)"

definition store_be32 :: "u32 \<Rightarrow> bytes" where
  "store_be32 v = [ucast (drop_bit 24 v), ucast (drop_bit 16 v), ucast (drop_bit 8 v), ucast v]"

definition load_le32 :: "bytes \<Rightarrow> u32" where
  "load_le32 p = ucast (p ! 0) OR push_bit 8 (ucast (p ! 1))
     OR push_bit 16 (ucast (p ! 2)) OR push_bit 24 (ucast (p ! 3))"

definition store_le32 :: "u32 \<Rightarrow> bytes" where
  "store_le32 v = [ucast v, ucast (drop_bit 8 v), ucast (drop_bit 16 v), ucast (drop_bit 24 v)]"

definition sha256_expand :: "nat \<Rightarrow> u32 list \<Rightarrow> u32 list" where
  "sha256_expand i w =
     (let s0 = rotr32 (w ! (i - 15)) 7 XOR rotr32 (w ! (i - 15)) 18 XOR drop_bit 3 (w ! (i - 15));
          s1 = rotr32 (w ! (i - 2)) 17 XOR rotr32 (w ! (i - 2)) 19 XOR drop_bit 10 (w ! (i - 2))
      in w @ [w ! (i - 16) + s0 + w ! (i - 7) + s1])"

definition sha256_schedule :: "bytes \<Rightarrow> u32 list" where
  "sha256_schedule block =
     fold sha256_expand [16..<64] (map (\<lambda>i. load_be32 (drop (i * 4) block)) [0..<16])"

type_synonym regs32 = "u32 \<times> u32 \<times> u32 \<times> u32 \<times> u32 \<times> u32 \<times> u32 \<times> u32"

fun sha256_round :: "u32 \<Rightarrow> u32 \<Rightarrow> regs32 \<Rightarrow> regs32" where
  "sha256_round k w (a, b, c, d, e, f, g, h) =
     (let S1 = rotr32 e 6 XOR rotr32 e 11 XOR rotr32 e 25;
          ch = (e AND f) XOR (NOT e AND g);
          temp1 = h + S1 + ch + k + w;
          S0 = rotr32 a 2 XOR rotr32 a 13 XOR rotr32 a 22;
          maj = (a AND b) XOR (a AND c) XOR (b AND c);
          temp2 = S0 + maj
      in (temp1 + temp2, a, b, c, d + temp1, e, f, g))"

definition sha256_compress :: "bytes \<Rightarrow> u32 list \<Rightarrow> u32 list" where
  "sha256_compress block st =
     (let w = sha256_schedule block;
          (a, b, c, d, e, f, g, h) =
            fold (\<lambda>i. sha256_round (SHA256_K ! i) (w ! i)) [0..<64]
              (st ! 0, st ! 1, st ! 2, st ! 3, st ! 4, st ! 5, st ! 6, st ! 7)
      in [st ! 0 + a, st ! 1 + b, st ! 2 + c, st ! 3 + d,
          st ! 4 + e, st ! 5 + f, st ! 6 + g, st ! 7 + h])"

text \<open>One padded block, written out (\<open>scalar::sha256_33\<close>, \<open>scalar::sha256_32\<close>).\<close>

definition sha256_33 :: "bytes \<Rightarrow> bytes" where
  "sha256_33 pubkey33 =
     (let block = take 33 pubkey33 @ [0x80] @ replicate 22 0 @ [0, 0, 0, 0, 0, 0, 0x01, 0x08];
          st = sha256_compress block SHA256_IV
      in concat (map (\<lambda>i. store_be32 (st ! i)) [0..<8]))"

definition sha256_32 :: "bytes \<Rightarrow> bytes" where
  "sha256_32 in32 =
     (let block = take 32 in32 @ [0x80] @ replicate 23 0 @ [0, 0, 0, 0, 0, 0, 0x01, 0x00];
          st = sha256_compress block SHA256_IV
      in concat (map (\<lambda>i. store_be32 (st ! i)) [0..<8]))"

section \<open>The streaming context (sha256.hpp)\<close>

record sha256 =
  state256 :: "u32 list"
  buf256 :: bytes
  buf_len256 :: nat
  total256 :: u64

definition sha256_reset :: "sha256 \<Rightarrow> sha256" where
  "sha256_reset ctx = ctx\<lparr>state256 := [0x6a09e667, 0xbb67ae85, 0x3c6ef372, 0xa54ff53a,
     0x510e527f, 0x9b05688c, 0x1f83d9ab, 0x5be0cd19], total256 := 0, buf_len256 := 0\<rparr>"

definition sha256_new :: sha256 where
  "sha256_new = sha256_reset
     \<lparr>state256 = replicate 8 0, buf256 = replicate 64 0, buf_len256 = 0, total256 = 0\<rparr>"

definition sha256_update :: "sha256 \<Rightarrow> bytes \<Rightarrow> sha256" where
  "sha256_update ctx ptr =
     (let ctx = ctx\<lparr>total256 := total256 ctx + of_nat (length ptr)\<rparr>;
          tail = (\<lambda>ctx ptr.
            let (st, rest) = absorb sha256_compress 64 (state256 ctx) ptr;
                ctx = ctx\<lparr>state256 := st\<rparr>
            in if length rest > 0
               then ctx\<lparr>buf256 := memcpy_at (buf256 ctx) 0 rest, buf_len256 := length rest\<rparr>
               else ctx)
      in if buf_len256 ctx > 0 then
           let fill = 64 - buf_len256 ctx in
           if length ptr < fill then
             ctx\<lparr>buf256 := memcpy_at (buf256 ctx) (buf_len256 ctx) ptr,
                 buf_len256 := buf_len256 ctx + length ptr\<rparr>
           else
             let ctx = ctx\<lparr>buf256 := memcpy_at (buf256 ctx) (buf_len256 ctx) (take fill ptr)\<rparr>;
                 ctx = ctx\<lparr>state256 := sha256_compress (buf256 ctx) (state256 ctx), buf_len256 := 0\<rparr>
             in tail ctx (drop fill ptr)
         else tail ctx ptr)"

definition sha256_finalize :: "sha256 \<Rightarrow> bytes \<times> sha256" where
  "sha256_finalize ctx =
     (let bits = total256 ctx * 8;
          ctx = (if buf_len256 ctx \<ge> 64 then ctx\<lparr>buf_len256 := 0\<rparr> else ctx);
          pos = buf_len256 ctx;
          ctx = ctx\<lparr>buf_len256 := pos + 1, buf256 := (buf256 ctx)[pos := 0x80]\<rparr>;
          ctx = (if buf_len256 ctx > 56 then
                   let ctx = (if buf_len256 ctx < 64
                              then ctx\<lparr>buf256 := memcpy_at (buf256 ctx) (buf_len256 ctx)
                                                 (replicate (64 - buf_len256 ctx) 0)\<rparr>
                              else ctx)
                   in ctx\<lparr>state256 := sha256_compress (buf256 ctx) (state256 ctx), buf_len256 := 0\<rparr>
                 else ctx);
          ctx = ctx\<lparr>buf256 := memcpy_at (buf256 ctx) (buf_len256 ctx)
                             (replicate (56 - buf_len256 ctx) 0)\<rparr>;
          ctx = ctx\<lparr>buf256 := memcpy_at (buf256 ctx) 56
                  [ucast (drop_bit 56 bits), ucast (drop_bit 48 bits), ucast (drop_bit 40 bits),
                   ucast (drop_bit 32 bits), ucast (drop_bit 24 bits), ucast (drop_bit 16 bits),
                   ucast (drop_bit 8 bits), ucast bits]\<rparr>;
          ctx = ctx\<lparr>state256 := sha256_compress (buf256 ctx) (state256 ctx)\<rparr>
      in (concat (map (\<lambda>i. store_be32 (state256 ctx ! i)) [0..<8]), ctx))"

definition sha256_hash :: "bytes \<Rightarrow> bytes" where
  "sha256_hash data = fst (sha256_finalize (sha256_update sha256_new data))"

definition hash256 :: "bytes \<Rightarrow> bytes" where
  "hash256 data = (let h1 = sha256_hash data in sha256_hash h1)"

record midstate =
  mid_state :: "u32 list"
  mid_total :: u64

definition capture_midstate :: "sha256 \<Rightarrow> midstate" where
  "capture_midstate ctx = \<lparr>mid_state = state256 ctx, mid_total = total256 ctx\<rparr>"

definition from_midstate :: "midstate \<Rightarrow> sha256" where
  "from_midstate m = sha256_new\<lparr>state256 := mid_state m, total256 := mid_total m\<rparr>"

section \<open>Tagged hashes (tagged_hash.hpp)\<close>

definition make_tag_midstate :: "bytes \<Rightarrow> sha256" where
  "make_tag_midstate tag =
     (let tag_hash = sha256_hash tag;
          ctx = sha256_new;
          ctx = sha256_update ctx tag_hash;
          ctx = sha256_update ctx tag_hash
      in ctx)"

definition cached_tagged_hash :: "sha256 \<Rightarrow> bytes \<Rightarrow> bytes" where
  "cached_tagged_hash mid data = fst (sha256_finalize (sha256_update mid data))"

section \<open>The context implements the streaming interface\<close>

definition sha256_ok :: "sha256 \<Rightarrow> bool" where
  "sha256_ok ctx \<longleftrightarrow> length (buf256 ctx) = 64 \<and> buf_len256 ctx < 64"

definition sha256_pending :: "sha256 \<Rightarrow> bytes" where
  "sha256_pending ctx = take (buf_len256 ctx) (buf256 ctx)"

definition sha256_view :: "sha256 \<Rightarrow> u32 list \<times> bytes \<times> nat" where
  "sha256_view ctx = (state256 ctx, buf256 ctx, buf_len256 ctx)"

definition be64_bytes :: "u64 \<Rightarrow> bytes" where
  "be64_bytes v = [ucast (drop_bit 56 v), ucast (drop_bit 48 v), ucast (drop_bit 40 v),
     ucast (drop_bit 32 v), ucast (drop_bit 24 v), ucast (drop_bit 16 v),
     ucast (drop_bit 8 v), ucast v]"

definition sha256_pad :: "nat \<Rightarrow> bytes" where
  "sha256_pad n = md_pad 64 8 n (be64_bytes (of_nat n * 8))"

definition sha256_out :: "u32 list \<Rightarrow> bytes" where
  "sha256_out st = concat (map (\<lambda>i. store_be32 (st ! i)) [0..<8])"

lemma sha256_update_view:
  "sha256_view (sha256_update ctx ptr) = buffered_update sha256_compress 64 (sha256_view ctx) ptr"
  by (simp add: sha256_update_def sha256_view_def buffered_update_def buffered_tail_def Let_def
      split: prod.splits)

lemma sha256_update_total: "total256 (sha256_update ctx ptr) = total256 ctx + of_nat (length ptr)"
  by (simp add: sha256_update_def Let_def split: prod.splits)

lemma sha256_update_absorb:
  assumes "sha256_ok c"
  shows "sha256_ok (sha256_update c d)"
    and "(state256 (sha256_update c d), sha256_pending (sha256_update c d))
      = absorb sha256_compress 64 (state256 c) (sha256_pending c @ d)"
proof -
  let ?c = "sha256_update c d"
  have "buffered_update sha256_compress 64 (state256 c, buf256 c, buf_len256 c) d
      = (state256 ?c, buf256 ?c, buf_len256 ?c)"
    using sha256_update_view [of c d] by (simp add: sha256_view_def)
  then have "absorb sha256_compress 64 (state256 c) (take (buf_len256 c) (buf256 c) @ d)
      = (state256 ?c, take (buf_len256 ?c) (buf256 ?c)) \<and> length (buf256 ?c) = 64 \<and> buf_len256 ?c < 64"
    using assms by (intro buffered_update_absorb) (auto simp: sha256_ok_def)
  then show "sha256_ok ?c"
    and "(state256 ?c, sha256_pending ?c)
      = absorb sha256_compress 64 (state256 c) (sha256_pending c @ d)"
    by (simp_all add: sha256_ok_def sha256_pending_def)
qed

lemma sha256_finalize_view:
  "fst (sha256_finalize ctx) = sha256_out (fst (buffered_final sha256_compress 64 8
     (be64_bytes (total256 ctx * 8)) (sha256_view ctx)))"
  by (simp add: sha256_finalize_def sha256_view_def buffered_final_def sha256_out_def
      be64_bytes_def Let_def)

lemma length_be64_bytes [simp]: "length (be64_bytes v) = 8"
  by (simp add: be64_bytes_def)

lemma sha256_finalize_absorb:
  assumes "sha256_ok c" "total256 c = of_nat n" "length (sha256_pending c) = n mod 64"
  shows "fst (sha256_finalize c)
    = sha256_out (fst (absorb sha256_compress 64 (state256 c) (sha256_pending c @ sha256_pad n)))"
proof -
  have "buf_len256 c = n mod 64"
    using assms by (simp add: sha256_ok_def sha256_pending_def)
  then have "fst (buffered_final sha256_compress 64 8 (be64_bytes (total256 c * 8))
        (state256 c, buf256 c, buf_len256 c))
      = fst (absorb sha256_compress 64 (state256 c)
          (take (buf_len256 c) (buf256 c) @ md_pad 64 8 n (be64_bytes (total256 c * 8))))"
    using assms(1) by (intro buffered_final_absorb) (auto simp: sha256_ok_def)
  then show ?thesis
    by (simp add: sha256_finalize_view sha256_view_def sha256_pad_def sha256_pending_def assms(2))
qed

interpretation sha: block_digest sha256_update state256 sha256_pending total256 sha256_ok
  sha256_compress 64 sha256_new SHA256_IV "\<lambda>c. fst (sha256_finalize c)" sha256_pad sha256_out
proof
  fix c d n
  show "sha256_ok c \<Longrightarrow> sha256_ok (sha256_update c d)"
    and "sha256_ok c \<Longrightarrow> (state256 (sha256_update c d), sha256_pending (sha256_update c d))
      = absorb sha256_compress 64 (state256 c) (sha256_pending c @ d)"
    by (rule sha256_update_absorb; assumption)+
  show "sha256_ok c \<Longrightarrow> total256 c = of_nat n \<Longrightarrow> length (sha256_pending c) = n mod 64 \<Longrightarrow>
      fst (sha256_finalize c) =
        sha256_out (fst (absorb sha256_compress 64 (state256 c) (sha256_pending c @ sha256_pad n)))"
    by (rule sha256_finalize_absorb)
qed (simp_all add: sha256_update_total sha256_ok_def sha256_new_def sha256_reset_def
    sha256_pending_def SHA256_IV_def)

section \<open>Digests\<close>

lemma sha256_hash_digest: "sha256_hash msg = sha.digest msg"
  by (simp add: sha256_hash_def sha.fin_one)

lemma length_sha256_hash [simp]: "length (sha256_hash msg) = 32"
  by (simp add: sha256_hash_digest sha.digest_def sha256_out_def store_be32_def length_concat comp_def
      sum_list_triv)

lemma length_sha256_compress [simp]: "length (sha256_compress blk st) = 8"
  by (simp add: sha256_compress_def Let_def split: prod.splits)

lemma sha256_one_block:
  assumes "length (msg @ sha256_pad (length msg)) = 64"
  shows "sha256_hash msg = sha256_out (sha256_compress (msg @ sha256_pad (length msg)) SHA256_IV)"
proof -
  have "absorb sha256_compress 64 SHA256_IV ((msg @ sha256_pad (length msg)) @ [])
      = (sha256_compress (msg @ sha256_pad (length msg)) SHA256_IV, [])"
    by (subst absorb_block) (simp_all add: assms [unfolded length_append] absorb_short)
  then show ?thesis by (simp add: sha256_hash_digest sha.digest_def)
qed

lemma sha256_pad_32: "sha256_pad 32 = 0x80 # replicate 23 0 @ [0, 0, 0, 0, 0, 0, 1, 0]"
  by (simp add: sha256_pad_def md_pad_def be64_bytes_def)

lemma sha256_pad_33: "sha256_pad 33 = 0x80 # replicate 22 0 @ [0, 0, 0, 0, 0, 0, 1, 8]"
  by (simp add: sha256_pad_def md_pad_def be64_bytes_def)

lemma sha256_33_eq: "length p = 33 \<Longrightarrow> sha256_33 p = sha256_hash p"
  by (subst sha256_one_block) (simp_all add: sha256_pad_33 sha256_33_def sha256_out_def)

lemma sha256_32_eq: "length p = 32 \<Longrightarrow> sha256_32 p = sha256_hash p"
  by (subst sha256_one_block) (simp_all add: sha256_pad_32 sha256_32_def sha256_out_def)

lemma length_md_pad:
  assumes "L < B" "length lenb = L"
  shows "(n + length (md_pad B L n lenb)) mod B = 0"
proof -
  define r where "r = n mod B"
  define X where "X = 2 * B - L - 1 - r"
  have r: "r < B" using assms by (simp add: r_def)
  have X: "X + (L + 1 + r) = 2 * B" using r assms(1) unfolding X_def by linarith
  have "n + (1 + X mod B + L) + B * (X div B) = B * (n div B) + (r + 1 + L + X)"
    using div_mult_mod_eq [of n B] div_mult_mod_eq [of X B] by (simp add: r_def ac_simps)
  also have "\<dots> = B * (n div B + 2)" using X by (simp add: ac_simps)
  finally have "B dvd n + (1 + X mod B + L) + B * (X div B)" by simp
  then have "B dvd n + (1 + X mod B + L)" by (simp only: dvd_add_left_iff dvd_triv_left)
  then show ?thesis
    using assms(2) unfolding md_pad_def r_def [symmetric] X_def [symmetric]
    by (simp add: ac_simps dvd_eq_mod_eq_0)
qed

text \<open>A tag midstate has consumed exactly one block, so it carries no buffered byte.\<close>

lemma tag_midstate_represents:
  "sha.represents SHA256_IV (make_tag_midstate tag) (sha256_hash tag @ sha256_hash tag)"
proof -
  have "sha.represents SHA256_IV (fold (\<lambda>d c. sha256_update c d) [sha256_hash tag, sha256_hash tag] sha256_new)
      ([] @ concat [sha256_hash tag, sha256_hash tag])"
    by (rule sha.represents_fold [OF sha.init_represents_Nil])
  then show ?thesis by (simp add: make_tag_midstate_def Let_def)
qed

lemma cached_tagged_hash_represents:
  "sha.represents SHA256_IV c msg \<Longrightarrow> cached_tagged_hash c data = sha256_hash (msg @ data)"
  by (simp add: cached_tagged_hash_def sha256_hash_digest sha.fin_represents [OF sha.represents_upd])

lemma midstate_represents:
  assumes "sha.represents SHA256_IV c msg" "length msg mod 64 = 0"
  shows "sha.represents SHA256_IV (from_midstate (capture_midstate c)) msg"
proof -
  have "sha256_pending c = []"
    using sha.pending_length [OF assms(1)] assms(2) by simp
  then show ?thesis
    using assms(1) by (auto simp: sha.represents_def from_midstate_def capture_midstate_def
        sha256_ok_def sha256_new_def sha256_reset_def sha256_pending_def)
qed

section \<open>Properties\<close>

text \<open>a SHA-256 digest is the chain of the compression function over the 64-byte blocks of the
  message followed by 0x80, zeros and the 64-bit bit length, and the in-place padding of
  \<open>finalize\<close> produces exactly that; it does not matter in how many pieces \<open>update\<close> got the
  message.\<close>
theorem sha256_stream_spec:
  "fst (sha256_finalize (fold (\<lambda>d c. sha256_update c d) chunks sha256_new))
     = sha256_out (fst (absorb sha256_compress 64 SHA256_IV
         (concat chunks @ sha256_pad (length (concat chunks)))))
   \<and> snd (absorb sha256_compress 64 SHA256_IV
         (concat chunks @ sha256_pad (length (concat chunks)))) = []
   \<and> sha256_hash (concat chunks)
     = fst (sha256_finalize (fold (\<lambda>d c. sha256_update c d) chunks sha256_new))"
proof -
  have "length (snd (absorb sha256_compress 64 SHA256_IV
         (concat chunks @ sha256_pad (length (concat chunks))))) = 0"
    using length_md_pad [of 8 64 "be64_bytes (of_nat (length (concat chunks)) * 8)" "length (concat chunks)"]
    by (simp add: absorb_snd_length sha256_pad_def)
  then show ?thesis
    using sha.fin_chunks [of chunks] by (simp add: sha256_hash_digest sha.digest_def)
qed

text \<open>the one-block specialisations with precomputed padding for 33-byte public keys and
  32-byte digests agree with the general hash.\<close>
theorem sha256_fixed_length_eq:
  assumes "length p = 33" "length d = 32"
  shows "sha256_33 p = sha256_hash p \<and> sha256_32 d = sha256_hash d"
  using assms by (simp add: sha256_33_eq sha256_32_eq)

theorem sha256_fixed_length_eq_witness:
  "sha256_33 (replicate 33 2) = sha256_hash (replicate 33 2)
    \<and> sha256_32 (replicate 32 0) = sha256_hash (replicate 32 0)"
  by (rule sha256_fixed_length_eq) simp_all

text \<open>a cached BIP-340 tag midstate, also after the 40-byte capture and restore that drops
  the buffer, hashes a message exactly as SHA256(SHA256(tag) || SHA256(tag) || message).\<close>
theorem tagged_hash_spec:
  "cached_tagged_hash (make_tag_midstate tag) data
     = sha256_hash (sha256_hash tag @ sha256_hash tag @ data)
   \<and> cached_tagged_hash (from_midstate (capture_midstate (make_tag_midstate tag))) data
     = sha256_hash (sha256_hash tag @ sha256_hash tag @ data)"
  using cached_tagged_hash_represents [OF tag_midstate_represents]
    cached_tagged_hash_represents [OF midstate_represents [OF tag_midstate_represents]]
  by simp

end
