(* ===== verification/Wire_Format.thy ===== *)
theory Wire_Format
  imports Prelude
begin

text \<open>
  Self-delimiting encodings: the law that makes a concatenation of fields readable
  again. \<open>self_delimiting\<close> is the contract of one field, fixed-width or length-prefixed;
  \<open>counted_items\<close> derives the contract of a vector written as its CompactSize
  count followed by its elements. The serializers of \<open>bip144.cpp\<close> and
  \<open>bip143.cpp\<close> are interpretations.
\<close>

named_theorems field_split \<open>equations between concatenations of fields\<close>

lemma append_fixed [field_split]:
  "length a = length b \<Longrightarrow> a @ r = b @ s \<longleftrightarrow> a = b \<and> r = s"
  by simp

section \<open>The contract of one field\<close>

locale self_delimiting =
  fixes enc :: "'a \<Rightarrow> bytes" and ok :: "'a \<Rightarrow> bool"
  assumes delimited: "ok x \<Longrightarrow> ok y \<Longrightarrow> enc x @ r = enc y @ s \<Longrightarrow> x = y \<and> r = s"
begin

lemma field_iff: "ok x \<Longrightarrow> ok y \<Longrightarrow> enc x @ r = enc y @ s \<longleftrightarrow> x = y \<and> r = s"
  using delimited by blast

lemma enc_inj: "ok x \<Longrightarrow> ok y \<Longrightarrow> enc x = enc y \<longleftrightarrow> x = y"
  using delimited [of x y "[]" "[]"] by auto

lemma items_delimited:
  "length xs = length ys \<Longrightarrow> \<forall>x\<in>set xs. ok x \<Longrightarrow> \<forall>y\<in>set ys. ok y \<Longrightarrow>
   concat (map enc xs) @ r = concat (map enc ys) @ s \<Longrightarrow> xs = ys \<and> r = s"
proof (induction xs ys rule: list_induct2)
  case Nil
  then show ?case by simp
next
  case (Cons x xs y ys)
  then have "x = y \<and> concat (map enc xs) @ r = concat (map enc ys) @ s"
    using field_iff [of x y "concat (map enc xs) @ r" "concat (map enc ys) @ s"] by simp
  with Cons show ?case by simp
qed

end

section \<open>Counted vectors\<close>

definition counted :: "(u64 \<Rightarrow> bytes) \<Rightarrow> ('a \<Rightarrow> bytes) \<Rightarrow> 'a list \<Rightarrow> bytes" where
  "counted count enc xs = count (of_nat (length xs)) @ concat (map enc xs)"

definition counted_ok :: "('a \<Rightarrow> bool) \<Rightarrow> 'a list \<Rightarrow> bool" where
  "counted_ok ok xs \<longleftrightarrow> length xs < 2 ^ 64 \<and> (\<forall>x\<in>set xs. ok x)"

lemma of_nat_u64_inj: "n < 2 ^ 64 \<Longrightarrow> m < 2 ^ 64 \<Longrightarrow> (of_nat n :: u64) = of_nat m \<longleftrightarrow> n = m"
  by (simp add: word_unat_eq_iff unat_of_nat take_bit_nat_eq_self_iff flip: take_bit_eq_mod)

locale counted_items =
  item: self_delimiting enc ok + cnt: self_delimiting count "\<lambda>_. True"
  for enc :: "'a \<Rightarrow> bytes" and ok :: "'a \<Rightarrow> bool" and count :: "u64 \<Rightarrow> bytes"
begin

lemma counted_delimited:
  assumes "counted_ok ok xs" "counted_ok ok ys"
    and "counted count enc xs @ r = counted count enc ys @ s"
  shows "xs = ys \<and> r = s"
proof -
  have "(of_nat (length xs) :: u64) = of_nat (length ys) \<and>
      concat (map enc xs) @ r = concat (map enc ys) @ s"
    using assms(3) cnt.delimited unfolding counted_def by (metis append.assoc)
  then show ?thesis
    using assms(1,2) item.items_delimited [of xs ys r s] of_nat_u64_inj
    unfolding counted_ok_def by blast
qed

end

sublocale counted_items \<subseteq> items: self_delimiting "counted count enc" "counted_ok ok"
  by unfold_locales (rule counted_delimited)

section \<open>Little-endian integers\<close>

lemma byte_of_drop: "(ucast (drop_bit k (v :: 'a :: len word)) :: u8) = word_of_int (uint v div 2 ^ k)"
proof -
  have "uint (ucast (drop_bit k v) :: u8) = uint (word_of_int (uint v div 2 ^ k) :: u8)"
    by (simp add: uint_ucast_mod uint_drop_bit_div uint_word_of_int)
  then show ?thesis by (simp only: word_uint_eq_iff)
qed

lemma le32_bytes: "[ucast v, ucast (drop_bit 8 v), ucast (drop_bit 16 v), ucast (drop_bit 24 v)]
   = le_bytes 4 (uint (v :: u32))"
  using byte_of_drop [of 0 v] by (simp add: eval_nat_numeral byte_of_drop zdiv_zmult2_eq [symmetric])

lemma le64_bytes: "[ucast v, ucast (drop_bit 8 v), ucast (drop_bit 16 v), ucast (drop_bit 24 v),
     ucast (drop_bit 32 v), ucast (drop_bit 40 v), ucast (drop_bit 48 v), ucast (drop_bit 56 v)]
   = le_bytes 8 (uint (v :: u64))"
  using byte_of_drop [of 0 v] by (simp add: eval_nat_numeral byte_of_drop zdiv_zmult2_eq [symmetric])

interpretation le32: self_delimiting "\<lambda>v :: u32. le_bytes 4 (uint v)" "\<lambda>_. True"
proof
  fix x y :: u32 and r s :: bytes
  assume "le_bytes 4 (uint x) @ r = le_bytes 4 (uint y) @ s"
  then have "le_val (le_bytes 4 (uint x)) = le_val (le_bytes 4 (uint y)) \<and> r = s"
    by simp
  then show "x = y \<and> r = s"
    using uint_u32 [of x] uint_u32 [of y] by (simp add: le_val_le_bytes word_uint_eq_iff)
qed

interpretation le64: self_delimiting "\<lambda>v :: u64. le_bytes 8 (uint v)" "\<lambda>_. True"
proof
  fix x y :: u64 and r s :: bytes
  assume "le_bytes 8 (uint x) @ r = le_bytes 8 (uint y) @ s"
  then have "le_val (le_bytes 8 (uint x)) = le_val (le_bytes 8 (uint y)) \<and> r = s"
    by simp
  then show "x = y \<and> r = s"
    using uint_u64 [of x] uint_u64 [of y] by (simp add: le_val_le_bytes word_uint_eq_iff)
qed

end
