(* ===== verification/Sha256_Fips.thy ===== *)
theory Sha256_Fips
  imports Sha256 Wire_Format
begin

text \<open>
  SHA-256 as FIPS 180-4 defines it, written from the standard: the message schedule as a recurrence
  over the index, the eight working variables by round, the constants from the fractional parts of
  the roots of the first primes, padding by the equation for the number of zero bits. The theorem
  says that the streaming code computes it.
\<close>

section \<open>The standard\<close>

text \<open>The largest \<open>r\<close> below \<open>2 ^ 36\<close> with \<open>r ^ k \<le> n\<close>.\<close>

definition root_floor :: "nat \<Rightarrow> int \<Rightarrow> int" where
  "root_floor k n = fold (\<lambda>b r. if (r + 2 ^ b) ^ k \<le> n then r + 2 ^ b else r) (rev [0 ..< 36]) 0"

definition fips_primes :: "int list" where
  "fips_primes =
    [2, 3, 5, 7, 11, 13, 17, 19, 23, 29, 31, 37, 41, 43, 47, 53, 59, 61, 67, 71, 73, 79, 83, 89, 97, 101,
     103, 107, 109, 113, 127, 131, 137, 139, 149, 151, 157, 163, 167, 173, 179, 181, 191, 193, 197, 199,
     211, 223, 227, 229, 233, 239, 241, 251, 257, 263, 269, 271, 277, 281, 283, 293, 307, 311]"

text \<open>The first 32 bits of the fractional parts of the cube and the square roots.\<close>

definition fips_K :: "u32 list" where
  "fips_K = map (\<lambda>p. word_of_int (root_floor 3 (p * 2 ^ 96))) fips_primes"

definition fips_H0 :: "u32 list" where
  "fips_H0 = map (\<lambda>p. word_of_int (root_floor 2 (p * 2 ^ 64))) (take 8 fips_primes)"

definition fips_Ch :: "u32 \<Rightarrow> u32 \<Rightarrow> u32 \<Rightarrow> u32" where
  "fips_Ch x y z = (x AND y) XOR (NOT x AND z)"

definition fips_Maj :: "u32 \<Rightarrow> u32 \<Rightarrow> u32 \<Rightarrow> u32" where
  "fips_Maj x y z = (x AND y) XOR (x AND z) XOR (y AND z)"

definition fips_Sigma0 :: "u32 \<Rightarrow> u32" where
  "fips_Sigma0 x = word_rotr 2 x XOR word_rotr 13 x XOR word_rotr 22 x"

definition fips_Sigma1 :: "u32 \<Rightarrow> u32" where
  "fips_Sigma1 x = word_rotr 6 x XOR word_rotr 11 x XOR word_rotr 25 x"

definition fips_sigma0 :: "u32 \<Rightarrow> u32" where
  "fips_sigma0 x = word_rotr 7 x XOR word_rotr 18 x XOR drop_bit 3 x"

definition fips_sigma1 :: "u32 \<Rightarrow> u32" where
  "fips_sigma1 x = word_rotr 17 x XOR word_rotr 19 x XOR drop_bit 10 x"

fun fips_W :: "(nat \<Rightarrow> u32) \<Rightarrow> nat \<Rightarrow> u32" where
  "fips_W M t =
     (if t < 16 then M t
      else fips_sigma1 (fips_W M (t - 2)) + fips_W M (t - 7) + fips_sigma0 (fips_W M (t - 15)) + fips_W M (t - 16))"

declare fips_W.simps [simp del]

primrec fips_vars :: "(nat \<Rightarrow> u32) \<Rightarrow> regs32 \<Rightarrow> nat \<Rightarrow> regs32" where
  "fips_vars W v 0 = v"
| "fips_vars W v (Suc t) =
     (case fips_vars W v t of (a, b, c, d, e, f, g, h) \<Rightarrow>
        let T1 = h + fips_Sigma1 e + fips_Ch e f g + fips_K ! t + W t;
            T2 = fips_Sigma0 a + fips_Maj a b c
        in (T1 + T2, a, b, c, d + T1, e, f, g))"

text \<open>The big-endian word at an offset.\<close>

definition fips_word :: "bytes \<Rightarrow> nat \<Rightarrow> u32" where
  "fips_word m i = word_of_int (be_val (take 4 (drop (4 * i) m)))"

definition fips_block :: "bytes \<Rightarrow> u32 list \<Rightarrow> u32 list" where
  "fips_block m H =
     (case fips_vars (fips_W (fips_word m)) (H ! 0, H ! 1, H ! 2, H ! 3, H ! 4, H ! 5, H ! 6, H ! 7) 64 of
        (a, b, c, d, e, f, g, h) \<Rightarrow>
          [a + H ! 0, b + H ! 1, c + H ! 2, d + H ! 3, e + H ! 4, f + H ! 5, g + H ! 6, h + H ! 7])"

text \<open>A one bit, the least number of zero bits that makes the length 448 modulo 512, the length in bits.\<close>

definition fips_padded :: "bytes \<Rightarrow> bytes" where
  "fips_padded m =
     m @ [0x80] @ replicate (nat ((55 - int (length m)) mod 64)) 0 @ be_bytes 8 (8 * int (length m) mod 2 ^ 64)"

definition fips_sha256 :: "bytes \<Rightarrow> bytes" where
  "fips_sha256 m =
     (let bs = fips_padded m;
          H = fold (\<lambda>i. fips_block (take 64 (drop (64 * i) bs))) [0 ..< length bs div 64] fips_H0
      in concat (map (\<lambda>h. be_bytes 4 (uint h)) H))"

section \<open>The code computes it\<close>

text \<open>A root is found by its two bounds.\<close>

lemma root_steps:
  assumes "0 \<le> (r :: int)" "r ^ k \<le> n" "n < (r + 2 ^ m) ^ k" "0 < k"
  defines "s \<equiv> fold (\<lambda>b r. if (r + 2 ^ b) ^ k \<le> n then r + 2 ^ b else r) (rev [0 ..< m]) r"
  shows "0 \<le> s \<and> s ^ k \<le> n \<and> n < (s + 1) ^ k"
  using assms(1-3) unfolding s_def
proof (induction m arbitrary: r)
  case (Suc m)
  show ?case
  proof (cases "(r + 2 ^ m) ^ k \<le> n")
    case True
    then show ?thesis using Suc.prems by (simp add: Suc.IH add.assoc)
  next
    case False
    then show ?thesis using Suc.prems by (simp add: Suc.IH)
  qed
qed simp

lemma root_floor_eq:
  assumes "0 < k" "0 \<le> (r :: int)" "r ^ k \<le> n" "n < (r + 1) ^ k" "n < (2 ^ 36) ^ k"
  shows "root_floor k n = r"
proof -
  have "0 \<le> n" using assms(2,3) by (rule order_trans [OF zero_le_power])
  then have s: "0 \<le> root_floor k n \<and> root_floor k n ^ k \<le> n \<and> n < (root_floor k n + 1) ^ k"
    using root_steps [of 0 k n 36] assms(1,5) unfolding root_floor_def by (simp add: zero_power)
  have "a \<le> b" if "a ^ k \<le> n" "n < (b + 1) ^ k" "0 \<le> a" "0 \<le> b" for a b :: int
  proof -
    have "a ^ k < (b + 1) ^ k" using that by simp
    then have "a < b + 1" using power_less_imp_less_base [of a k "b + 1"] that by simp
    then show ?thesis by simp
  qed
  then show ?thesis using s assms(2-4) by (intro antisym) blast+
qed

lemma cube_roots:
    "root_floor 3 (2 * 2 ^ 96) = 5411319704"
    "root_floor 3 (3 * 2 ^ 96) = 6194414737"
    "root_floor 3 (5 * 2 ^ 96) = 7344290767"
    "root_floor 3 (7 * 2 ^ 96) = 8215976869"
    "root_floor 3 (11 * 2 ^ 96) = 9551921755"
    "root_floor 3 (13 * 2 ^ 96) = 10098905585"
    "root_floor 3 (17 * 2 ^ 96) = 11043570340"
    "root_floor 3 (19 * 2 ^ 96) = 11460697813"
    "root_floor 3 (23 * 2 ^ 96) = 12214315672"
    "root_floor 3 (29 * 2 ^ 96) = 13195500289"
    "root_floor 3 (31 * 2 ^ 96) = 13492127166"
    "root_floor 3 (37 * 2 ^ 96) = 14311783875"
    "root_floor 3 (41 * 2 ^ 96) = 14809980276"
    "root_floor 3 (43 * 2 ^ 96) = 15046980094"
    "root_floor 3 (47 * 2 ^ 96) = 15499789991"
    "root_floor 3 (53 * 2 ^ 96) = 16133124468"
    "root_floor 3 (59 * 2 ^ 96) = 16720292289"
    "root_floor 3 (61 * 2 ^ 96) = 16907126662"
    "root_floor 3 (67 * 2 ^ 96) = 17444216262"
    "root_floor 3 (71 * 2 ^ 96) = 17784676812"
    "root_floor 3 (73 * 2 ^ 96) = 17950125167"
    "root_floor 3 (79 * 2 ^ 96) = 18429019306"
    "root_floor 3 (83 * 2 ^ 96) = 18734950876"
    "root_floor 3 (89 * 2 ^ 96) = 19175934170"
    "root_floor 3 (97 * 2 ^ 96) = 19734090066"
    "root_floor 3 (101 * 2 ^ 96) = 20001703533"
    "root_floor 3 (103 * 2 ^ 96) = 20132865992"
    "root_floor 3 (107 * 2 ^ 96) = 20390182855"
    "root_floor 3 (109 * 2 ^ 96) = 20516441075"
    "root_floor 3 (113 * 2 ^ 96) = 20764397895"
    "root_floor 3 (127 * 2 ^ 96) = 21588763473"
    "root_floor 3 (131 * 2 ^ 96) = 21813078375"
    "root_floor 3 (137 * 2 ^ 96) = 22141143685"
    "root_floor 3 (139 * 2 ^ 96) = 22248366392"
    "root_floor 3 (149 * 2 ^ 96) = 22769593852"
    "root_floor 3 (151 * 2 ^ 96) = 22871018771"
    "root_floor 3 (157 * 2 ^ 96) = 23170020180"
    "root_floor 3 (163 * 2 ^ 96) = 23461497531"
    "root_floor 3 (167 * 2 ^ 96) = 23651862830"
    "root_floor 3 (173 * 2 ^ 96) = 23931792517"
    "root_floor 3 (179 * 2 ^ 96) = 24205322401"
    "root_floor 3 (181 * 2 ^ 96) = 24295138891"
    "root_floor 3 (191 * 2 ^ 96) = 24734567280"
    "root_floor 3 (193 * 2 ^ 96) = 24820601251"
    "root_floor 3 (197 * 2 ^ 96) = 24990902297"
    "root_floor 3 (199 * 2 ^ 96) = 25075189284"
    "root_floor 3 (211 * 2 ^ 96) = 25569408389"
    "root_floor 3 (223 * 2 ^ 96) = 26045227120"
    "root_floor 3 (227 * 2 ^ 96) = 26200031510"
    "root_floor 3 (229 * 2 ^ 96) = 26276752392"
    "root_floor 3 (233 * 2 ^ 96) = 26428864332"
    "root_floor 3 (239 * 2 ^ 96) = 26653801653"
    "root_floor 3 (241 * 2 ^ 96) = 26727943347"
    "root_floor 3 (251 * 2 ^ 96) = 27092625994"
    "root_floor 3 (257 * 2 ^ 96) = 27306805839"
    "root_floor 3 (263 * 2 ^ 96) = 27517677555"
    "root_floor 3 (269 * 2 ^ 96) = 27725365998"
    "root_floor 3 (271 * 2 ^ 96) = 27793908591"
    "root_floor 3 (277 * 2 ^ 96) = 27997534228"
    "root_floor 3 (281 * 2 ^ 96) = 28131656200"
    "root_floor 3 (283 * 2 ^ 96) = 28198240250"
    "root_floor 3 (293 * 2 ^ 96) = 28526537963"
    "root_floor 3 (307 * 2 ^ 96) = 28973835255"
    "root_floor 3 (311 * 2 ^ 96) = 29099129074"
  by (rule root_floor_eq; simp)+

lemma square_roots:
    "root_floor 2 (2 * 2 ^ 64) = 6074000999"
    "root_floor 2 (3 * 2 ^ 64) = 7439101573"
    "root_floor 2 (5 * 2 ^ 64) = 9603838834"
    "root_floor 2 (7 * 2 ^ 64) = 11363415354"
    "root_floor 2 (11 * 2 ^ 64) = 14244795007"
    "root_floor 2 (13 * 2 ^ 64) = 15485724812"
    "root_floor 2 (17 * 2 ^ 64) = 17708603819"
    "root_floor 2 (19 * 2 ^ 64) = 18721328409"
  by (rule root_floor_eq; simp)+

lemma fips_K_eq: "fips_K = SHA256_K"
  unfolding fips_K_def fips_primes_def SHA256_K_def by (simp only: list.map cube_roots) simp

lemma take_8: "take 8 (a # b # c # d # e # f # g # h # xs) = [a, b, c, d, e, f, g, h]"
  by (simp add: eval_nat_numeral)

lemma fips_H0_eq: "fips_H0 = SHA256_IV"
  unfolding fips_H0_def fips_primes_def SHA256_IV_def by (simp only: take_8 list.map square_roots) simp

lemma rotr32_word_rotr: "0 < n \<Longrightarrow> n < 32 \<Longrightarrow> rotr32 x n = word_rotr n x"
  unfolding rotr32_def
  by (rule bit_word_eqI) (auto simp: bit_simps not_le mod_if add.commute [of n] dest: bit_imp_le_length)

lemma load_be32_value: "load_be32 p = word_of_int (be_val (take 4 p))" if "4 \<le> length p"
proof -
  define t q where "t = take 4 p" and "q = drop 4 p"
  have p0: "p = t @ q" "length t = 4" using that by (simp_all add: t_def q_def)
  then obtain a b c d where t: "t = [a, b, c, d]" by (auto simp: length_Suc_conv numeral_eq_Suc)
  have p: "p = a # b # c # d # q" using p0 t by simp
  define A B C D :: u32 where "A = push_bit 24 (ucast a)" and "B = push_bit 16 (ucast b)"
    and "C = push_bit 8 (ucast c)" and "D = ucast d"
  note abcd = A_def B_def C_def D_def
  have z: "A AND B = 0" "(A OR B) AND C = 0" "((A OR B) OR C) AND D = 0"
    unfolding abcd by (rule bit_word_eqI; auto simp: bit_simps dest: bit_imp_le_length)+
  have "A OR B OR C OR D = A + B + C + D"
    by (simp only: disjunctive_add_eq_or [OF z(1)] disjunctive_add_eq_or [OF z(2)] disjunctive_add_eq_or [OF z(3)])
      (simp only: or.assoc)
  then have "load_be32 p = A + B + C + D" by (simp add: load_be32_def p abcd)
  also have "\<dots> = word_of_int (uint a * 16777216 + uint b * 65536 + uint c * 256 + uint d)"
    unfolding abcd push_bit_eq_mult ucast_eq by (simp add: mult.commute)
  finally show ?thesis by (simp add: p be_val_Cons)
qed

lemma store_be32_value: "store_be32 v = be_bytes 4 (uint v)"
  by (simp add: store_be32_def be_bytes_def le32_bytes [symmetric])

lemma sha256_schedule_fips:
  assumes "length block = 64" "m \<le> 64" "16 \<le> m"
  shows "fold sha256_expand [16 ..< m] (map (\<lambda>i. load_be32 (drop (i * 4) block)) [0..<16])
    = map (fips_W (fips_word block)) [0 ..< m]"
  using assms(3,2)
proof (induction m rule: dec_induct)
  case base
  show ?case
    using assms(1) by (auto simp: fips_W.simps fips_word_def load_be32_value mult.commute)
next
  case (step m)
  have w: "fold sha256_expand [16 ..< m] (map (\<lambda>i. load_be32 (drop (i * 4) block)) [0..<16])
      = map (fips_W (fips_word block)) [0 ..< m]" using step by simp
  have "fips_W (fips_word block) m = fips_sigma1 (fips_W (fips_word block) (m - 2)) + fips_W (fips_word block) (m - 7)
      + fips_sigma0 (fips_W (fips_word block) (m - 15)) + fips_W (fips_word block) (m - 16)"
    using step(1) by (subst fips_W.simps) simp
  then have "sha256_expand m (map (fips_W (fips_word block)) [0 ..< m]) = map (fips_W (fips_word block)) [0 ..< Suc m]"
    using step(1) by (simp add: sha256_expand_def Let_def fips_sigma0_def fips_sigma1_def rotr32_word_rotr ac_simps)
  then show ?case using step(1) by (simp add: w)
qed

lemma sha256_rounds_fips:
  "n \<le> 64 \<Longrightarrow> fold (\<lambda>i. sha256_round (SHA256_K ! i) (map W [0 ..< 64] ! i)) [0 ..< n] v = fips_vars W v n"
proof (induction n)
  case (Suc n)
  obtain a b c d e f g h where r: "fips_vars W v n = (a, b, c, d, e, f, g, h)" by (metis prod.exhaust)
  show ?case
    using Suc by (simp add: r Let_def fips_K_eq fips_Ch_def fips_Maj_def fips_Sigma0_def fips_Sigma1_def
        rotr32_word_rotr ac_simps)
qed simp

lemma sha256_compress_fips:
  assumes "length block = 64"
  shows "sha256_compress block st = fips_block block st"
proof -
  have w: "sha256_schedule block = map (fips_W (fips_word block)) [0 ..< 64]"
    unfolding sha256_schedule_def by (rule sha256_schedule_fips [OF assms]) simp_all
  show ?thesis
    unfolding sha256_compress_def fips_block_def w Let_def sha256_rounds_fips [OF order_refl]
    by (simp only: add.commute split: prod.split)
qed

lemma sha256_pad_fips: "msg @ sha256_pad (length msg) = fips_padded msg"
proof -
  have "(119 - length msg mod 64) mod 64 = nat ((55 - int (length msg)) mod 64)"
  proof -
    have "int ((119 - length msg mod 64) mod 64) = (119 - int (length msg) mod 64) mod 64"
      by (simp add: zmod_int of_nat_diff mod_le_divisor order_trans [of _ 64])
    also have "\<dots> = (119 - int (length msg)) mod 64" by (simp add: mod_diff_right_eq)
    also have "\<dots> = (55 - int (length msg) + 64) mod 64" by simp
    also have "\<dots> = (55 - int (length msg)) mod 64" by (simp only: mod_add_self2)
    finally show ?thesis by simp
  qed
  moreover have "be64_bytes (of_nat n * 8) = be_bytes 8 (8 * int n mod 2 ^ 64)" for n
  proof -
    define v :: u64 where "v = of_nat n * 8"
    have v: "uint v = 8 * int n mod 2 ^ 64" by (simp add: v_def uint_word_ariths mult.commute unsigned_of_nat take_bit_eq_mod of_nat_mod mod_mult_right_eq)
    show ?thesis
      unfolding v [symmetric] v_def [symmetric] by (simp add: be64_bytes_def be_bytes_def le64_bytes [symmetric])
  qed
  ultimately show ?thesis by (simp add: sha256_pad_def md_pad_def fips_padded_def)
qed

lemma absorb_blocks:
  assumes "length bs = 64 * n" "\<And>blk st. length blk = 64 \<Longrightarrow> c blk st = d blk st"
  shows "absorb c 64 st bs = (fold (\<lambda>i. d (take 64 (drop (64 * i) bs))) [0 ..< n] st, [])"
  using assms(1)
proof (induction n arbitrary: bs st)
  case 0
  then show ?case by (simp add: absorb_short)
next
  case (Suc n)
  have s: "bs = take 64 bs @ drop 64 bs" by simp
  have "absorb c 64 st bs = absorb c 64 (c (take 64 bs) st) (drop 64 bs)"
    by (subst s, rule absorb_block) (use Suc.prems in simp_all)
  also have "\<dots> = (fold (\<lambda>i. d (take 64 (drop (64 * i) (drop 64 bs)))) [0 ..< n] (d (take 64 bs) st), [])"
    using Suc by (subst Suc.IH) (simp_all add: assms(2))
  also have "fold (\<lambda>i. d (take 64 (drop (64 * i) (drop 64 bs)))) [0 ..< n] (d (take 64 bs) st)
      = fold (\<lambda>i. d (take 64 (drop (64 * i) bs))) [0 ..< Suc n] st"
  proof -
    have u: "[0 ..< Suc n] = 0 # map Suc [0 ..< n]" by (simp add: map_Suc_upt upt_conv_Cons del: upt_Suc)
    show ?thesis unfolding u by (simp add: fold_map comp_def add.commute)
  qed
  finally show ?case .
qed

lemma length_fips_block [simp]: "length (fips_block m H) = 8"
  by (simp add: fips_block_def split: prod.split)

section \<open>Properties\<close>

text \<open>C11: For every sequence of updates, the streaming context and the one-shot function return the SHA-256
  of FIPS 180-4, written from the standard with its own schedule, round, constants and padding.\<close>
theorem sha256_is_fips:
  "fst (sha256_finalize (fold (\<lambda>d c. sha256_update c d) chunks sha256_new)) = fips_sha256 (concat chunks)
   \<and> sha256_hash (concat chunks) = fips_sha256 (concat chunks)"
proof -
  define m bs where "m = concat chunks" and "bs = fips_padded m"
  have "length bs mod 64 = 0"
    using length_md_pad [of 8 64 "be64_bytes (of_nat (length m) * 8)" "length m"]
    by (simp add: bs_def sha256_pad_fips [symmetric] sha256_pad_def)
  then have "length bs = 64 * (length bs div 64)" by auto
  from absorb_blocks [OF this sha256_compress_fips] have
    a: "absorb sha256_compress 64 SHA256_IV bs = (fold (\<lambda>i. fips_block (take 64 (drop (64 * i) bs))) [0 ..< length bs div 64] SHA256_IV, [])"
    by simp
  define H where "H = fold (\<lambda>i. fips_block (take 64 (drop (64 * i) bs))) [0 ..< length bs div 64] SHA256_IV"
  have "length (fold (\<lambda>i. fips_block (f i)) is st) = 8" if "length st = 8" for f :: "nat \<Rightarrow> bytes" and "is" st
    using that by (induction "is" arbitrary: st) simp_all
  then have "length H = 8" by (simp add: H_def SHA256_IV_def)
  then have "sha256_out H = concat (map (\<lambda>h. be_bytes 4 (uint h)) H)"
  proof -
    have "map (\<lambda>i. be_bytes 4 (uint (H ! i))) [0 ..< length H] = map (\<lambda>h. be_bytes 4 (uint h)) (map ((!) H) [0 ..< length H])"
      by (simp add: comp_def)
    then show ?thesis unfolding sha256_out_def store_be32_value map_nth using \<open>length H = 8\<close> by simp
  qed
  then have "sha.digest m = fips_sha256 m"
    using a by (simp add: sha.digest_def fips_sha256_def fips_H0_eq sha256_pad_fips bs_def [symmetric] H_def)
  then show ?thesis using sha.fin_chunks [of chunks] by (simp add: sha256_hash_digest m_def)
qed

end
