(* ===== verification/Arith64.thy ===== *)
theory Arith64
  imports Prelude
begin

text \<open>
  The carry and borrow primitives of \<open>detail/arith64.hpp\<close> (the 128-bit branch,
  which every GCC and Clang build on a 64-bit target takes) and the four-limb
  integers built on them. Each primitive is characterised by the integer value of
  its outputs; the four-limb loops then follow by adding the four equations up.
\<close>

section \<open>add64, sub64, mulhi64\<close>

definition add64 :: "u64 \<Rightarrow> u64 \<Rightarrow> u8 \<Rightarrow> u64 \<times> u8" where
  "add64 a b carry =
     (let sum = (ucast a :: u128) + ucast b + ucast carry
      in (ucast sum, ucast (drop_bit 64 sum)))"

definition sub64 :: "u64 \<Rightarrow> u64 \<Rightarrow> u8 \<Rightarrow> u64 \<times> u8" where
  "sub64 a b borrow =
     (let temp = a - ucast borrow;
          borrow1 = (if a < ucast borrow then 1 else 0);
          result = temp - b;
          borrow2 = (if temp < b then 1 else 0)
      in (result, borrow1 OR borrow2))"

definition mulhi64 :: "u64 \<Rightarrow> u64 \<Rightarrow> u64" where
  "mulhi64 a b = ucast (drop_bit 64 ((ucast a :: u128) * ucast b))"

text \<open>The schoolbook fallback for compilers without a 128-bit type.\<close>

definition mulhi64_fallback :: "u64 \<Rightarrow> u64 \<Rightarrow> u64" where
  "mulhi64_fallback a b =
     (let ah = (ucast (drop_bit 32 a) :: u32); al = (ucast a :: u32);
          bh = (ucast (drop_bit 32 b) :: u32); bl = (ucast b :: u32);
          mid = (ucast al :: u64) * ucast bh + ((ucast ah :: u64) * ucast bl)
                + drop_bit 32 ((ucast al :: u64) * ucast bl)
      in (ucast ah :: u64) * ucast bh + drop_bit 32 mid)"

lemma add64_value:
  assumes "add64 a b c = (s, c')" "uint c \<le> 1"
  shows "uint s + 18446744073709551616 * uint c' = uint a + uint b + uint c"
    and "uint c' \<le> 1"
proof -
  let ?S = "uint a + uint b + uint c"
  have lt: "?S < 2 * 18446744073709551616"
    using uint_u64 [of a] uint_u64 [of b] assms(2) by linarith
  have sum: "uint ((ucast a :: u128) + ucast b + ucast c) = ?S"
    using uint_u64 [of a] uint_u64 [of b] assms(2) uint_u8 [of c]
    by (simp add: uint_word_ariths word_int)
  have s: "uint s = ?S mod 18446744073709551616"
    and c': "uint c' = (?S div 18446744073709551616) mod 256"
    using assms(1) sum by (auto simp: add64_def Let_def word_int)
  have d: "?S div 18446744073709551616 \<le> 1"
    using lt by linarith
  have "0 \<le> ?S div 18446744073709551616"
    by (simp add: pos_imp_zdiv_nonneg_iff)
  with d c' have c'': "uint c' = ?S div 18446744073709551616"
    by simp
  show "uint s + 18446744073709551616 * uint c' = ?S"
    by (simp add: s c'')
  show "uint c' \<le> 1" using c'' d by simp
qed

lemma sub64_value:
  assumes "sub64 a b c = (s, c')" "uint c \<le> 1"
  shows "uint s - 18446744073709551616 * uint c' = uint a - uint b - uint c"
    and "uint c' \<le> 1"
proof -
  have cc: "uint (ucast c :: u64) = uint c"
    using uint_u8 [of c] by (simp add: word_int)
  note bd = uint_u64 [of a] uint_u64 [of b] uint_bounds(1) [of a] uint_bounds(1) [of b]
    uint_bounds(1) [of c]
  have "uint s - 18446744073709551616 * uint c' = uint a - uint b - uint c \<and> uint c' \<le> 1"
    using assms bd
    by (auto simp: sub64_def Let_def word_less_def cc uint_sub_if' split: if_splits)
      (use uint_bounds(1) [of a] in linarith)
  then show "uint s - 18446744073709551616 * uint c' = uint a - uint b - uint c" "uint c' \<le> 1"
    by simp_all
qed

lemma mulhi64_value: "uint (mulhi64 a b) = (uint a * uint b) div 18446744073709551616"
proof -
  have "uint a * uint b \<le> 18446744073709551615 * 18446744073709551615"
    using uint_u64 [of a] uint_u64 [of b] by (intro mult_mono) auto
  then have lt: "uint a * uint b < 340282366920938463463374607431768211456"
    by simp
  have "uint ((ucast a :: u128) * ucast b) = uint a * uint b"
    using uint_u64 [of a] uint_u64 [of b] lt by (simp add: uint_word_ariths word_int)
  moreover have "(uint a * uint b) div 18446744073709551616 < 18446744073709551616"
    using lt by linarith
  moreover have "0 \<le> (uint a * uint b) div 18446744073709551616"
    by (simp add: pos_imp_zdiv_nonneg_iff)
  ultimately show ?thesis
    by (simp add: mulhi64_def uint_ucast_mod uint_drop_bit_div)
qed

section \<open>Four 64-bit limbs\<close>

text \<open>\<open>std::array<std::uint64_t, 4>\<close>, limb 0 the least significant.\<close>

datatype limbs4 = Limbs4 u64 u64 u64 u64

fun limbs_val :: "limbs4 \<Rightarrow> int" where
  "limbs_val (Limbs4 a0 a1 a2 a3) =
     uint a0 + 18446744073709551616 * uint a1
     + 340282366920938463463374607431768211456 * uint a2
     + 6277101735386680763835789423207666416102355444464034512896 * uint a3"

abbreviation (input) two256 :: int where
  "two256 \<equiv> 115792089237316195423570985008687907853269984665640564039457584007913129639936"

fun limbs_add :: "limbs4 \<Rightarrow> limbs4 \<Rightarrow> limbs4 \<times> u8" where
  "limbs_add (Limbs4 a0 a1 a2 a3) (Limbs4 b0 b1 b2 b3) =
     (let (s0, c) = add64 a0 b0 0;
          (s1, c) = add64 a1 b1 c;
          (s2, c) = add64 a2 b2 c;
          (s3, c) = add64 a3 b3 c
      in (Limbs4 s0 s1 s2 s3, c))"

fun limbs_sub :: "limbs4 \<Rightarrow> limbs4 \<Rightarrow> limbs4 \<times> u8" where
  "limbs_sub (Limbs4 a0 a1 a2 a3) (Limbs4 b0 b1 b2 b3) =
     (let (s0, c) = sub64 a0 b0 0;
          (s1, c) = sub64 a1 b1 c;
          (s2, c) = sub64 a2 b2 c;
          (s3, c) = sub64 a3 b3 c
      in (Limbs4 s0 s1 s2 s3, c))"

lemma limbs_val_bounds: "0 \<le> limbs_val a \<and> limbs_val a < two256"
proof (cases a)
  case (Limbs4 a0 a1 a2 a3)
  then show ?thesis
    using uint_u64 [of a0] uint_u64 [of a1] uint_u64 [of a2] uint_u64 [of a3] by simp
qed


lemma base64_digit_eq:
  assumes "x + 18446744073709551616 * y = x' + 18446744073709551616 * (y' :: int)"
    "0 \<le> x" "x < 18446744073709551616" "0 \<le> x'" "x' < 18446744073709551616"
  shows "x = x'" "y = y'"
proof -
  have "(x + 18446744073709551616 * y) mod 18446744073709551616 = x"
    using assms(2,3) by simp
  moreover have "(x' + 18446744073709551616 * y') mod 18446744073709551616 = x'"
    using assms(4,5) by simp
  ultimately show x: "x = x'" using assms(1) by metis
  show "y = y'" using assms(1) x by simp
qed

lemma limbs_val_inj:
  assumes "limbs_val a = limbs_val b"
  shows "a = b"
proof (cases a; cases b)
  fix a0 a1 a2 a3 b0 b1 b2 b3
  assume ab: "a = Limbs4 a0 a1 a2 a3" "b = Limbs4 b0 b1 b2 b3"
  let ?B = "18446744073709551616 :: int"
  have "uint a0 + ?B * (uint a1 + ?B * (uint a2 + ?B * uint a3))
      = uint b0 + ?B * (uint b1 + ?B * (uint b2 + ?B * uint b3))"
    using assms by (simp add: ab)
  note d0 = base64_digit_eq [OF this uint_bounds(1) uint_u64 uint_bounds(1) uint_u64]
  note d1 = base64_digit_eq [OF d0(2) uint_bounds(1) uint_u64 uint_bounds(1) uint_u64]
  note d2 = base64_digit_eq [OF d1(2) uint_bounds(1) uint_u64 uint_bounds(1) uint_u64]
  show "a = b" using d0(1) d1(1) d2 by (simp add: ab word_uint_eq_iff)
qed

text \<open>Limb arrays are ordered by the number they stand for, the order \<open>ge\<close> decides.\<close>

instantiation limbs4 :: linorder
begin

definition less_eq_limbs4 :: "limbs4 \<Rightarrow> limbs4 \<Rightarrow> bool" where
  "less_eq_limbs4 a b \<longleftrightarrow> limbs_val a \<le> limbs_val b"

definition less_limbs4 :: "limbs4 \<Rightarrow> limbs4 \<Rightarrow> bool" where
  "less_limbs4 a b \<longleftrightarrow> limbs_val a < limbs_val b"

instance
  by standard (auto simp: less_eq_limbs4_def less_limbs4_def intro: limbs_val_inj)

end

lemma limbs_add_value:
  assumes "limbs_add a b = (s, c)"
  shows "limbs_val s + two256 * uint c = limbs_val a + limbs_val b" and "uint c \<le> 1"
proof -
  obtain a0 a1 a2 a3 b0 b1 b2 b3 where ab: "a = Limbs4 a0 a1 a2 a3" "b = Limbs4 b0 b1 b2 b3"
    by (meson limbs4.exhaust)
  obtain s0 c0 where e0: "add64 a0 b0 0 = (s0, c0)" by fastforce
  obtain s1 c1 where e1: "add64 a1 b1 c0 = (s1, c1)" by fastforce
  obtain s2 c2 where e2: "add64 a2 b2 c1 = (s2, c2)" by fastforce
  obtain s3 c3 where e3: "add64 a3 b3 c2 = (s3, c3)" by fastforce
  have s: "s = Limbs4 s0 s1 s2 s3" and c: "c = c3"
    using assms by (simp_all add: ab e0 e1 e2 e3)
  note v0 = add64_value [OF e0]
  note v1 = add64_value [OF e1] note v2 = add64_value [OF e2] note v3 = add64_value [OF e3]
  have b0: "uint c0 \<le> 1" using v0(2) by simp
  have b1: "uint c1 \<le> 1" by (rule v1(2) [OF b0])
  have b2: "uint c2 \<le> 1" by (rule v2(2) [OF b1])
  show "uint c \<le> 1" using v3(2) [OF b2] by (simp add: c)
  show "limbs_val s + two256 * uint c = limbs_val a + limbs_val b"
    using v0(1) v1(1) [OF b0] v2(1) [OF b1] v3(1) [OF b2] by (simp add: ab s c)
qed

lemma limbs_sub_value:
  assumes "limbs_sub a b = (s, c)"
  shows "limbs_val s - two256 * uint c = limbs_val a - limbs_val b" and "uint c \<le> 1"
proof -
  obtain a0 a1 a2 a3 b0 b1 b2 b3 where ab: "a = Limbs4 a0 a1 a2 a3" "b = Limbs4 b0 b1 b2 b3"
    by (meson limbs4.exhaust)
  obtain s0 c0 where e0: "sub64 a0 b0 0 = (s0, c0)" by fastforce
  obtain s1 c1 where e1: "sub64 a1 b1 c0 = (s1, c1)" by fastforce
  obtain s2 c2 where e2: "sub64 a2 b2 c1 = (s2, c2)" by fastforce
  obtain s3 c3 where e3: "sub64 a3 b3 c2 = (s3, c3)" by fastforce
  have s: "s = Limbs4 s0 s1 s2 s3" and c: "c = c3"
    using assms by (simp_all add: ab e0 e1 e2 e3)
  note v0 = sub64_value [OF e0]
  note v1 = sub64_value [OF e1] note v2 = sub64_value [OF e2] note v3 = sub64_value [OF e3]
  have b0: "uint c0 \<le> 1" using v0(2) by simp
  have b1: "uint c1 \<le> 1" by (rule v1(2) [OF b0])
  have b2: "uint c2 \<le> 1" by (rule v2(2) [OF b1])
  show "uint c \<le> 1" using v3(2) [OF b2] by (simp add: c)
  show "limbs_val s - two256 * uint c = limbs_val a - limbs_val b"
    using v0(1) v1(1) [OF b0] v2(1) [OF b1] v3(1) [OF b2] by (simp add: ab s c)
qed

text \<open>The borrow of the subtraction chain decides the comparison.\<close>

lemma limbs_sub_borrow:
  assumes "limbs_sub a b = (s, c)"
  shows "c = (if limbs_val a < limbs_val b then 1 else 0)"
proof -
  have "uint c = 0 \<or> uint c = 1"
    using limbs_sub_value(2) [OF assms] uint_bounds(1) [of c] by linarith
  then have "c = 0 \<or> c = 1"
    by (simp add: word_uint_eq_iff)
  moreover have "limbs_val s - two256 * uint c = limbs_val a - limbs_val b"
    by (rule limbs_sub_value(1) [OF assms])
  ultimately show ?thesis
    using limbs_val_bounds [of s] by auto
qed

section \<open>The fallback without a 128-bit type\<close>

lemma mulhi_split:
  fixes ah al bh bl :: int
  shows "(4294967296 * ah + al) * (4294967296 * bh + bl) div 18446744073709551616
    = ah * bh + (al * bh + ah * bl + al * bl div 4294967296) div 4294967296"
proof -
  define q r where "q = al * bl div 4294967296" and "r = al * bl mod 4294967296"
  have r: "al * bl = 4294967296 * q + r" "0 \<le> r" "r < 4294967296"
    by (simp_all add: q_def r_def)
  have "(4294967296 * ah + al) * (4294967296 * bh + bl)
      = 4294967296 * (4294967296 * (ah * bh) + (al * bh + ah * bl + q)) + r"
    using r(1) by (simp add: algebra_simps)
  then have "(4294967296 * ah + al) * (4294967296 * bh + bl) div 4294967296
      = 4294967296 * (ah * bh) + (al * bh + ah * bl + q)"
    using r(2,3) by simp
  then have "(4294967296 * ah + al) * (4294967296 * bh + bl) div 4294967296 div 4294967296
      = ah * bh + (al * bh + ah * bl + q) div 4294967296"
    by simp
  then show ?thesis by (simp add: q_def zdiv_zmult2_eq [symmetric])
qed

lemma word_eq_u64: "(x :: u64) = y \<longleftrightarrow> uint x = uint y"
  by (simp add: word_uint_eq_iff)

lemma mulhi64_fallback_value:
  fixes a b :: u64
  defines "ah \<equiv> uint a div 4294967296" and "al \<equiv> uint a mod 4294967296"
    and "bh \<equiv> uint b div 4294967296" and "bl \<equiv> uint b mod 4294967296"
  shows "uint (mulhi64_fallback a b) = (ah * bh +
    (al * bh + ah * bl + al * bl div 4294967296) mod 18446744073709551616 div 4294967296)
      mod 18446744073709551616"
proof -
  have b: "0 \<le> ah" "ah < 4294967296" "0 \<le> al" "al < 4294967296"
    "0 \<le> bh" "bh < 4294967296" "0 \<le> bl" "bl < 4294967296"
    using uint_u64 [of a] uint_u64 [of b] by (auto simp: ah_def al_def bh_def bl_def pos_imp_zdiv_nonneg_iff)
  have p: "0 \<le> x * y \<and> x * y < 18446744073709551616"
    if "0 \<le> x" "x < 4294967296" "0 \<le> y" "y < 4294967296" for x y :: int
  proof -
    have "x * y < 4294967296 * 4294967296" using that by (intro mult_strict_mono) auto
    then show ?thesis using that by simp
  qed
  define wah wal wbh wbl :: u64 where "wah = ucast (ucast (drop_bit 32 a) :: u32)"
    and "wal = ucast (ucast a :: u32)" and "wbh = ucast (ucast (drop_bit 32 b) :: u32)"
    and "wbl = ucast (ucast b :: u32)"
  have w: "uint wah = ah" "uint wal = al" "uint wbh = bh" "uint wbl = bl"
    using b by (simp_all add: wah_def wal_def wbh_def wbl_def uint_ucast_mod uint_drop_bit_div
        ah_def al_def bh_def bl_def)
  have m: "uint (x * y) = uint x * uint y"
    if "uint x < 4294967296" "uint y < 4294967296" for x y :: u64
    using p [of "uint x" "uint y"] that by (simp add: uint_word_ariths)
  have ms: "uint (wal * wbh) = al * bh" "uint (wah * wbl) = ah * bl" "uint (wal * wbl) = al * bl"
    "uint (wah * wbh) = ah * bh"
    using m [of wal wbh] m [of wah wbl] m [of wal wbl] m [of wah wbh] b w by simp_all
  have "uint (wal * wbh + wah * wbl + drop_bit 32 (wal * wbl))
      = (uint (wal * wbh) + uint (wah * wbl) + uint (drop_bit 32 (wal * wbl))) mod 18446744073709551616"
    by (simp only: uint_word_ariths(1)) (simp add: mod_add_left_eq)
  also have "\<dots> = (al * bh + ah * bl + al * bl div 4294967296) mod 18446744073709551616"
    by (simp only: ms uint_drop_bit_div) simp
  finally have mid: "uint (wal * wbh + wah * wbl + drop_bit 32 (wal * wbl)) = \<dots>" .
  have "uint (wah * wbh + drop_bit 32 (wal * wbh + wah * wbl + drop_bit 32 (wal * wbl)))
      = (uint (wah * wbh) + uint (wal * wbh + wah * wbl + drop_bit 32 (wal * wbl)) div 4294967296)
        mod 18446744073709551616"
    by (simp only: uint_word_ariths(1) [of "wah * wbh"] uint_drop_bit_div) simp
  also have "uint (wah * wbh) = ah * bh" by (rule ms)
  finally show ?thesis
    unfolding mid by (simp only: mulhi64_fallback_def Let_def wah_def wal_def wbh_def wbl_def)
qed

text \<open>With high and low halves \<open>ah\<close>, \<open>al\<close>, \<open>bh\<close>, \<open>bl\<close> and the middle sum \<open>S\<close>: dropping the carry of the
  middle sum changes the high word exactly when there is one.\<close>

lemma middle_sum_bounds:
  fixes ah al bh bl :: int
  assumes "0 \<le> ah" "ah < 4294967296" "0 \<le> al" "al < 4294967296"
    "0 \<le> bh" "bh < 4294967296" "0 \<le> bl" "bl < 4294967296"
  shows "0 \<le> al * bh + ah * bl + al * bl div 4294967296"
    "al * bh + ah * bl + al * bl div 4294967296 < 2 * 18446744073709551616"
    "0 \<le> ah * bh"
proof -
  have p: "0 \<le> x * y \<and> x * y \<le> 18446744065119617025"
    if "0 \<le> x" "x < 4294967296" "0 \<le> y" "y < 4294967296" for x y :: int
  proof -
    have "x * y \<le> 4294967295 * 4294967295" using that by (intro mult_mono) auto
    then show ?thesis using that by simp
  qed
  have "0 \<le> al * bl div 4294967296" "al * bl div 4294967296 < 4294967296"
    using p [of al bl] assms by (simp_all add: pos_imp_zdiv_nonneg_iff)
  then show "0 \<le> al * bh + ah * bl + al * bl div 4294967296"
    "al * bh + ah * bl + al * bl div 4294967296 < 2 * 18446744073709551616" "0 \<le> ah * bh"
    using p [of al bh] p [of ah bl] p [of ah bh] assms by linarith+
qed

lemma dropped_carry:
  fixes h S :: int
  assumes "0 \<le> S" "S < 2 * 18446744073709551616" "0 \<le> h" "h + S div 4294967296 < 18446744073709551616"
  shows "(h + S mod 18446744073709551616 div 4294967296) mod 18446744073709551616 = h + S div 4294967296
    \<longleftrightarrow> S < 18446744073709551616"
proof (cases "S < 18446744073709551616")
  case True
  then show ?thesis using assms by simp
next
  case False
  then have "S = (S - 18446744073709551616) + 18446744073709551616" by simp
  then have "S mod 18446744073709551616 = (S - 18446744073709551616) mod 18446744073709551616"
    by (metis mod_add_self2)
  also have "\<dots> = S - 18446744073709551616" using False assms(2) by (intro mod_pos_pos_trivial) auto
  finally have m: "S mod 18446744073709551616 = S - 18446744073709551616" .
  have "(S - 18446744073709551616) div 4294967296 = S div 4294967296 - 4294967296" by simp
  then show ?thesis using False assms by (simp add: m)
qed

text \<open>C40: without a 128-bit type, \<open>mulhi64\<close> is the high word of the product exactly when the sum of
  the two cross products and the carry fits 64 bits; it is wrong on the square of the largest
  word.\<close>
theorem mulhi64_fallback_iff:
  "(mulhi64_fallback a b = mulhi64 a b \<longleftrightarrow>
     (uint a mod 2 ^ 32) * (uint b div 2 ^ 32) + (uint a div 2 ^ 32) * (uint b mod 2 ^ 32)
       + (uint a mod 2 ^ 32) * (uint b mod 2 ^ 32) div 2 ^ 32 < 2 ^ 64)
   \<and> mulhi64 a b = word_of_int (uint a * uint b div 2 ^ 64)
   \<and> mulhi64_fallback 0xFFFFFFFFFFFFFFFF 0xFFFFFFFFFFFFFFFF
       \<noteq> mulhi64 0xFFFFFFFFFFFFFFFF 0xFFFFFFFFFFFFFFFF"
proof -
  define ah al bh bl where "ah = uint a div 4294967296" and "al = uint a mod 4294967296"
    and "bh = uint b div 4294967296" and "bl = uint b mod 4294967296"
  have b: "0 \<le> ah" "ah < 4294967296" "0 \<le> al" "al < 4294967296"
    "0 \<le> bh" "bh < 4294967296" "0 \<le> bl" "bl < 4294967296"
    using uint_u64 [of a] uint_u64 [of b] by (auto simp: ah_def al_def bh_def bl_def pos_imp_zdiv_nonneg_iff)
  define S where "S = al * bh + ah * bl + al * bl div 4294967296"
  have S: "0 \<le> S" "S < 2 * 18446744073709551616" "0 \<le> ah * bh"
    unfolding S_def by (rule middle_sum_bounds [OF b])+
  have ab: "uint a = 4294967296 * ah + al" "uint b = 4294967296 * bh + bl"
    by (simp_all add: ah_def al_def bh_def bl_def)
  have hi: "uint (mulhi64 a b) = ah * bh + S div 4294967296"
    unfolding mulhi64_value ab S_def by (rule mulhi_split)
  have lo: "uint (mulhi64_fallback a b)
      = (ah * bh + S mod 18446744073709551616 div 4294967296) mod 18446744073709551616"
    using mulhi64_fallback_value [of a b] by (simp only: S_def ah_def al_def bh_def bl_def)
  have "ah * bh + S div 4294967296 < 18446744073709551616"
    unfolding hi [symmetric] by (simp add: uint_u64)
  then have eq: "mulhi64_fallback a b = mulhi64 a b \<longleftrightarrow> S < 18446744073709551616"
    unfolding word_eq_u64 hi lo by (rule dropped_carry [OF S])
  have "mulhi64 a b = word_of_int (uint (mulhi64 a b))" by simp
  then have w: "mulhi64 a b = word_of_int (uint a * uint b div 2 ^ 64)"
    by (simp only: mulhi64_value) simp
  have "mulhi64_fallback 0xFFFFFFFFFFFFFFFF 0xFFFFFFFFFFFFFFFF
       \<noteq> mulhi64 0xFFFFFFFFFFFFFFFF 0xFFFFFFFFFFFFFFFF"
    by code_simp
  then show ?thesis using eq w by (simp add: S_def ah_def al_def bh_def bl_def)
qed

end
