(* ===== verification/Ct_Ops.thy ===== *)
theory Ct_Ops
  imports Arith64
begin

text \<open>
  The branch-free primitives of \<open>ct/ops.hpp\<close> and \<open>ct_carry_helpers_p.hpp\<close>: masks,
  conditional moves and swaps, table lookups that read every entry, and the bitwise carry and
  borrow. \<open>value_barrier\<close> is the identity on values. A mask is all ones or zero;
  \<open>mask_of\<close> names the two, and every primitive is characterised by the branch it replaces.
\<close>

section \<open>The code\<close>

definition is_zero_mask :: "u64 \<Rightarrow> u64" where
  "is_zero_mask v = (let nv = 0 - v in - (drop_bit 63 (NOT (v OR nv))))"

definition is_nonzero_mask :: "u64 \<Rightarrow> u64" where
  "is_nonzero_mask v = NOT (is_zero_mask v)"

definition eq_mask :: "u64 \<Rightarrow> u64 \<Rightarrow> u64" where
  "eq_mask a b = is_zero_mask (a XOR b)"

definition bool_to_mask :: "bool \<Rightarrow> u64" where
  "bool_to_mask flag = (let v = (if flag then 1 else 0) in 0 - v)"

definition lt_mask :: "u64 \<Rightarrow> u64 \<Rightarrow> u64" where
  "lt_mask a b =
     (let diff = a - b;
          borrow = drop_bit 63 (a XOR ((a XOR b) OR (diff XOR a)))
      in 0 - borrow)"

definition cmov64 :: "u64 \<Rightarrow> u64 \<Rightarrow> u64 \<Rightarrow> u64" where
  "cmov64 dst src msk = dst XOR ((dst XOR src) AND msk)"

fun cmov256 :: "limbs4 \<Rightarrow> limbs4 \<Rightarrow> u64 \<Rightarrow> limbs4" where
  "cmov256 (Limbs4 d0 d1 d2 d3) (Limbs4 s0 s1 s2 s3) msk =
     Limbs4 (d0 XOR ((d0 XOR s0) AND msk)) (d1 XOR ((d1 XOR s1) AND msk))
            (d2 XOR ((d2 XOR s2) AND msk)) (d3 XOR ((d3 XOR s3) AND msk))"

fun cswap256 :: "limbs4 \<Rightarrow> limbs4 \<Rightarrow> u64 \<Rightarrow> limbs4 \<times> limbs4" where
  "cswap256 (Limbs4 a0 a1 a2 a3) (Limbs4 b0 b1 b2 b3) msk =
     (let diff0 = (a0 XOR b0) AND msk; diff1 = (a1 XOR b1) AND msk;
          diff2 = (a2 XOR b2) AND msk; diff3 = (a3 XOR b3) AND msk
      in (Limbs4 (a0 XOR diff0) (a1 XOR diff1) (a2 XOR diff2) (a3 XOR diff3),
          Limbs4 (b0 XOR diff0) (b1 XOR diff1) (b2 XOR diff2) (b3 XOR diff3)))"

definition ct_select :: "u64 \<Rightarrow> u64 \<Rightarrow> u64 \<Rightarrow> u64" where
  "ct_select a b msk = (a AND msk) OR (b AND NOT msk)"

definition ct_lookup :: "bytes \<Rightarrow> nat \<Rightarrow> nat \<Rightarrow> nat \<Rightarrow> bytes" where
  "ct_lookup table n stride index =
     foldl (\<lambda>dst i.
        let msk = eq_mask (of_nat i) (of_nat index);
            mask8 = (ucast (msk AND 0xFF) :: u8)
        in map (\<lambda>b. dst ! b OR (table ! (i * stride + b) AND mask8)) [0..<stride])
      (replicate stride 0) [0..<n]"

fun or_masked :: "u64 \<Rightarrow> limbs4 \<Rightarrow> limbs4 \<Rightarrow> limbs4" where
  "or_masked msk (Limbs4 o0 o1 o2 o3) (Limbs4 t0 t1 t2 t3) =
     Limbs4 (o0 OR (t0 AND msk)) (o1 OR (t1 AND msk)) (o2 OR (t2 AND msk)) (o3 OR (t3 AND msk))"

definition ct_lookup_256 :: "limbs4 list \<Rightarrow> nat \<Rightarrow> nat \<Rightarrow> limbs4" where
  "ct_lookup_256 table n index =
     foldl (\<lambda>out i. or_masked (eq_mask (of_nat i) (of_nat index)) out (table ! i))
      (Limbs4 0 0 0 0) [0..<n]"

definition add_carry_u64 :: "u64 \<Rightarrow> u64 \<Rightarrow> u64 \<Rightarrow> u64" where
  "add_carry_u64 a b s = drop_bit 63 ((a AND b) OR ((a OR b) AND NOT s))"

definition sub_borrow_u64 :: "u64 \<Rightarrow> u64 \<Rightarrow> u64 \<Rightarrow> u64" where
  "sub_borrow_u64 a b diff = drop_bit 63 (a XOR ((a XOR b) OR (diff XOR a)))"

section \<open>The top bit\<close>

definition mask_of :: "bool \<Rightarrow> u64" where
  "mask_of b = (if b then - 1 else 0)"

named_theorems masks \<open>branch-free primitives as the branches they replace\<close>

lemma top_bit_div: "uint (w :: u64) div 9223372036854775808 = (if 9223372036854775808 \<le> uint w then 1 else 0)"
proof (cases "9223372036854775808 \<le> uint w")
  case True
  have "uint w div 9223372036854775808 = 1"
    by (rule int_div_pos_eq [of _ _ 1 "uint w - 9223372036854775808"]) (use True uint_u64 [of w] in simp_all)
  with True show ?thesis by simp
next
  case False
  with uint_bounds(1) [of w] show ?thesis by (simp add: div_pos_pos_trivial)
qed

lemma bit63_iff: "bit (w :: u64) 63 \<longleftrightarrow> 9223372036854775808 \<le> uint w"
proof -
  have "bit w 63 = bit (uint w) 63" by (simp add: bit_uint_iff)
  also have "\<dots> \<longleftrightarrow> odd (uint w div 9223372036854775808)" by (simp add: bit_iff_odd)
  finally show ?thesis by (simp add: top_bit_div)
qed

lemma drop_bit_63: "drop_bit 63 (w :: u64) = (if bit w 63 then 1 else 0)"
proof -
  have "uint (drop_bit 63 w) = (if bit w 63 then 1 else 0)"
    by (simp add: uint_drop_bit_div top_bit_div bit63_iff)
  then show ?thesis by (simp add: word_uint_eq_iff split: if_splits)
qed

lemma is_zero_mask_of [masks]: "is_zero_mask v = mask_of (v = 0)"
proof -
  have "bit (v OR (0 - v)) 63 \<longleftrightarrow> v \<noteq> 0"
  proof (cases "v = 0")
    case False
    then have "0 < uint v" using uint_bounds(1) [of v] by (simp add: word_uint_eq_iff order_less_le)
    moreover from this have "uint (0 - v) = 18446744073709551616 - uint v"
      by (simp add: uint_sub_if' del: diff_0)
    ultimately show ?thesis
      using False unfolding bit_or_iff unfolding bit63_iff by linarith
  qed simp
  then have "drop_bit 63 (NOT (v OR (0 - v))) = (if v = 0 then 1 else 0)"
    unfolding drop_bit_63 bit_not_iff by simp
  then show ?thesis
    by (simp add: is_zero_mask_def mask_of_def Let_def del: diff_0)
qed

lemma mask_of_simps [masks]: "NOT (mask_of b) = mask_of (\<not> b)" "mask_of b OR mask_of c = mask_of (b \<or> c)"
  "mask_of b AND mask_of c = mask_of (b \<and> c)" "mask_of b = 0 \<longleftrightarrow> \<not> b"
  by (auto simp: mask_of_def)

lemma mask_of_inj: "mask_of b = mask_of c \<longleftrightarrow> b = c"
  by (auto simp: mask_of_def)

lemma is_nonzero_mask_of [masks]: "is_nonzero_mask v = mask_of (v \<noteq> 0)"
  by (simp add: is_nonzero_mask_def masks)

lemma eq_mask_of [masks]: "eq_mask a b = mask_of (a = b)"
  proof -
  have "a XOR b = 0 \<longleftrightarrow> a = b" by (auto simp: bit_eq_iff bit_xor_iff)
  then show ?thesis by (simp add: eq_mask_def is_zero_mask_of)
qed

lemma bool_to_mask_of [masks]: "bool_to_mask b = mask_of b"
  by (simp add: bool_to_mask_def mask_of_def)

lemma borrow_msb:
  fixes x y d :: int
  assumes "0 \<le> x" "x < 18446744073709551616" "0 \<le> y" "y < 18446744073709551616" "0 \<le> d" "d < 18446744073709551616"
    and "d = x - y \<or> d = x - y + 18446744073709551616 \<and> x < y"
  defines "m \<equiv> 9223372036854775808"
  shows "((m \<le> x) \<noteq> ((m \<le> x) \<noteq> (m \<le> y) \<or> (m \<le> d) \<noteq> (m \<le> x))) \<longleftrightarrow> x < y"
  using assms by auto

lemma carry_msb:
  fixes x y s :: int
  assumes "0 \<le> x" "x < 18446744073709551616" "0 \<le> y" "y < 18446744073709551616"
    and "s = x + y \<and> x + y < 18446744073709551616
      \<or> s = x + y - 18446744073709551616 \<and> 18446744073709551616 \<le> x + y"
  defines "m \<equiv> 9223372036854775808"
  shows "((m \<le> x) \<and> (m \<le> y) \<or> ((m \<le> x) \<or> (m \<le> y)) \<and> \<not> m \<le> s) \<longleftrightarrow> \<not> x + y < 18446744073709551616"
  using assms by auto

lemma sub_borrow_bit:
  "drop_bit 63 (a XOR ((a XOR b) OR ((a - b) XOR a))) = (if a < (b :: u64) then 1 else 0)"
proof -
  have d: "uint (a - b) = uint a - uint b \<or> uint (a - b) = uint a - uint b + 18446744073709551616 \<and> uint a < uint b"
    by (simp add: uint_sub_if')
  have "bit (a XOR ((a XOR b) OR ((a - b) XOR a))) 63 \<longleftrightarrow> uint a < uint b"
    unfolding bit_xor_iff bit_or_iff unfolding bit63_iff
    by (rule borrow_msb [OF uint_bounds(1) uint_u64 uint_bounds(1) uint_u64 uint_bounds(1) uint_u64 d])
  then show ?thesis by (simp only: drop_bit_63 word_less_def)
qed

lemma add_carry_bit:
  "add_carry_u64 a b (a + b) = (if uint a + uint b < 18446744073709551616 then 0 else 1)"
proof -
  have d: "uint (a + b) = uint a + uint b \<and> uint a + uint b < 18446744073709551616
      \<or> uint (a + b) = uint a + uint b - 18446744073709551616 \<and> 18446744073709551616 \<le> uint a + uint b"
    by (simp add: uint_plus_if')
  have "bit ((a AND b) OR ((a OR b) AND NOT (a + b))) 63 \<longleftrightarrow> \<not> uint a + uint b < 18446744073709551616"
    unfolding bit_and_iff bit_or_iff bit_not_iff unfolding bit63_iff
    using carry_msb [OF uint_bounds(1) uint_u64 uint_bounds(1) uint_u64 d] by simp
  then show ?thesis
    by (simp only: add_carry_u64_def drop_bit_63, cases "uint a + uint b < 18446744073709551616", simp_all)
qed

lemma sub_borrow_less [masks]: "sub_borrow_u64 a b (a - b) = (if a < b then 1 else 0)"
  unfolding sub_borrow_u64_def by (rule sub_borrow_bit)

lemma lt_mask_of [masks]: "lt_mask a b = mask_of (a < b)"
  unfolding lt_mask_def Let_def sub_borrow_bit by (simp add: mask_of_def)

lemma xor_back: "p XOR (p XOR q) = q" "q XOR (p XOR q) = p" for p q :: u64
  by (metis xor.assoc xor.left_neutral xor_self_eq, metis xor.assoc xor.commute xor.left_neutral xor_self_eq)

lemma cmov64_of [masks]: "cmov64 d s (mask_of b) = (if b then s else d)"
  by (simp add: cmov64_def mask_of_def xor_back)

lemma cmov256_of [masks]: "cmov256 d s (mask_of b) = (if b then s else d)"
  by (cases d; cases s) (simp add: mask_of_def xor_back)

lemma cswap256_of [masks]: "cswap256 x y (mask_of b) = (if b then (y, x) else (x, y))"
  by (cases x; cases y) (simp add: mask_of_def xor_back)

lemma ct_select_of [masks]: "ct_select x y (mask_of b) = (if b then x else y)"
  by (simp add: ct_select_def mask_of_def)

section \<open>Table lookups\<close>

lemma or_masked_of [masks]: "or_masked (mask_of False) x t = x" "or_masked (mask_of True) (Limbs4 0 0 0 0) t = t"
  by (cases x; cases t; simp add: mask_of_def)+

lemma index_eq: "i < 2 ^ 64 \<Longrightarrow> j < 2 ^ 64 \<Longrightarrow> (of_nat i :: u64) = of_nat j \<longleftrightarrow> i = j"
  by (simp add: word_unat_eq_iff unat_of_nat take_bit_nat_eq_self_iff flip: take_bit_eq_mod)

lemma ct_lookup_fold:
  assumes "n \<le> 2 ^ 64" "index < 2 ^ 64" "n \<le> k"
  shows "foldl (\<lambda>dst i.
        let msk = eq_mask (of_nat i) (of_nat index); mask8 = (ucast (msk AND 0xFF) :: u8)
        in map (\<lambda>b. dst ! b OR (table ! (i * stride + b) AND mask8)) [0..<stride])
      (replicate stride 0) [0..<n]
    = (if index < n then map (\<lambda>b. table ! (index * stride + b)) [0..<stride] else replicate stride 0)"
  using assms(1)
proof (induction n)
  case (Suc n)
  have m: "eq_mask (of_nat n) (of_nat index) = mask_of (n = index)"
    using Suc.prems assms(2) by (simp add: eq_mask_of index_eq)
  have u: "(ucast (mask_of b AND 0xFF) :: u8) = (if b then - 1 else 0)" for b
    by (simp add: mask_of_def)
  show ?case
    using Suc by (auto simp: Let_def m u intro!: nth_equalityI)
qed (auto intro: nth_equalityI)

lemma ct_lookup_256_fold:
  assumes "n \<le> 2 ^ 64" "index < 2 ^ 64"
  shows "foldl (\<lambda>out i. or_masked (eq_mask (of_nat i) (of_nat index)) out (table ! i)) (Limbs4 0 0 0 0) [0..<n]
    = (if index < n then table ! index else Limbs4 0 0 0 0)"
  using assms(1)
proof (induction n)
  case (Suc n)
  have "eq_mask (of_nat n) (of_nat index) = mask_of (n = index)"
    using Suc.prems assms(2) by (simp add: eq_mask_of index_eq)
  with Suc show ?case by (cases "n = index") (auto simp: or_masked_of)
qed simp

section \<open>Properties\<close>

text \<open>the branch-free primitives are the branches they stand for: each mask is all ones exactly when
  its test holds and zero otherwise (the bitwise unsigned comparison included), conditional move, swap
  and select choose by the mask, the bitwise carry and borrow are the carry and borrow, and a table
  lookup that reads every entry returns the indexed one, or zeros when the index is out of range.\<close>
theorem ct_primitives:
  assumes "n < 2 ^ 64" "index < 2 ^ 64"
  shows "is_zero_mask v = mask_of (v = 0) \<and> is_nonzero_mask v = mask_of (v \<noteq> 0)
    \<and> eq_mask a b = mask_of (a = b) \<and> lt_mask a b = mask_of (a < b) \<and> bool_to_mask c = mask_of c
    \<and> cmov64 d s (mask_of c) = (if c then s else d) \<and> ct_select d s (mask_of c) = (if c then d else s)
    \<and> cmov256 x y (mask_of c) = (if c then y else x) \<and> cswap256 x y (mask_of c) = (if c then (y, x) else (x, y))
    \<and> uint a + uint b = uint (a + b) + 18446744073709551616 * uint (add_carry_u64 a b (a + b))
    \<and> uint a - uint b = uint (a - b) - 18446744073709551616 * uint (sub_borrow_u64 a b (a - b))
    \<and> ct_lookup table n stride index = (if index < n then map (\<lambda>b. table ! (index * stride + b)) [0..<stride]
        else replicate stride 0)
    \<and> ct_lookup_256 table4 n index = (if index < n then table4 ! index else Limbs4 0 0 0 0)"
proof -
  have "uint a + uint b = uint (a + b) + 18446744073709551616 * uint (add_carry_u64 a b (a + b))"
    by (simp add: add_carry_bit uint_plus_if')
  moreover have "uint a - uint b = uint (a - b) - 18446744073709551616 * uint (sub_borrow_u64 a b (a - b))"
    by (simp add: sub_borrow_less uint_sub_if' word_less_def)
  moreover have "ct_lookup table n stride index = (if index < n
      then map (\<lambda>b. table ! (index * stride + b)) [0..<stride] else replicate stride 0)"
    unfolding ct_lookup_def using assms by (intro ct_lookup_fold [of n index n]) simp_all
  moreover have "ct_lookup_256 table4 n index = (if index < n then table4 ! index else Limbs4 0 0 0 0)"
    unfolding ct_lookup_256_def using assms by (intro ct_lookup_256_fold) simp_all
  ultimately show ?thesis by (simp add: masks)
qed

theorem ct_primitives_witness:
  "ct_lookup [1, 2, 3, 4, 5, 6] 3 2 1 = [3, 4] \<and> lt_mask 3 5 = mask_of True"
  using ct_primitives [of 3 1 0 3 5 False 0 0 "Limbs4 0 0 0 0" "Limbs4 0 0 0 0" "[1, 2, 3, 4, 5, 6]" 2 "[]"]
  by (simp add: upt_rec)

end
