(* ===== verification/Scalar.thy ===== *)
theory Scalar
  imports Arith64
begin

text \<open>
  The scalar field of \<open>scalar.cpp\<close>: integers modulo the group order in four
  64-bit limbs. The theory follows the file: comparison and the carry chains,
  construction and reduction, byte parsing and serialisation, the multiplication
  with its three complement reductions (the 128-bit branch), and negation. The
  theorems give every operation its value modulo the order and show that canonical
  scalars stay canonical.
\<close>

section \<open>Constants, comparison, addition and subtraction\<close>

definition ORDER :: limbs4 where
  "ORDER = Limbs4 0xBFD25E8CD0364141 0xBAAEDCE6AF48A03B 0xFFFFFFFFFFFFFFFE 0xFFFFFFFFFFFFFFFF"

definition ONE :: limbs4 where
  "ONE = Limbs4 1 0 0 0"

abbreviation (input) group_order :: int where
  "group_order \<equiv> 0xFFFFFFFFFFFFFFFFFFFFFFFFFFFFFFFEBAAEDCE6AF48A03BBFD25E8CD0364141"

definition limbs_ge :: "limbs4 \<Rightarrow> limbs4 \<Rightarrow> bool" where
  "limbs_ge a b \<longleftrightarrow> snd (limbs_sub a b) = 0"

definition sub_impl :: "limbs4 \<Rightarrow> limbs4 \<Rightarrow> limbs4" where
  "sub_impl a b =
     (let (out, borrow) = limbs_sub a b
      in if borrow \<noteq> 0 then fst (limbs_add out ORDER) else out)"

definition add_impl :: "limbs4 \<Rightarrow> limbs4 \<Rightarrow> limbs4" where
  "add_impl a b =
     (let (sum, carry) = limbs_add a b
      in if carry = 0 \<and> \<not> limbs_ge sum ORDER then sum else fst (limbs_sub sum ORDER))"

section \<open>The class Scalar: construction\<close>

datatype scalar = Scalar (scalar_limbs: limbs4)

definition scalar_zero :: scalar where
  "scalar_zero = Scalar (Limbs4 0 0 0 0)"

definition scalar_one :: scalar where
  "scalar_one = Scalar ONE"

definition from_uint64 :: "u64 \<Rightarrow> scalar" where
  "from_uint64 value = Scalar (Limbs4 value 0 0 0)"

definition from_limbs :: "limbs4 \<Rightarrow> scalar" where
  "from_limbs limbs = Scalar (if limbs_ge limbs ORDER then sub_impl limbs ORDER else limbs)"

fun is_zero :: "scalar \<Rightarrow> bool" where
  "is_zero (Scalar (Limbs4 l0 l1 l2 l3)) \<longleftrightarrow> l0 OR l1 OR l2 OR l3 = 0"

fun is_zero_ct :: "scalar \<Rightarrow> bool" where
  "is_zero_ct (Scalar (Limbs4 l0 l1 l2 l3)) \<longleftrightarrow> (((0 OR l0) OR l1) OR l2) OR l3 = 0"

definition scalar_add :: "scalar \<Rightarrow> scalar \<Rightarrow> scalar" where
  "scalar_add a b = Scalar (add_impl (scalar_limbs a) (scalar_limbs b))"

definition scalar_sub :: "scalar \<Rightarrow> scalar \<Rightarrow> scalar" where
  "scalar_sub a b = Scalar (sub_impl (scalar_limbs a) (scalar_limbs b))"

fun is_even :: "scalar \<Rightarrow> bool" where
  "is_even (Scalar (Limbs4 l0 l1 l2 l3)) \<longleftrightarrow> l0 AND 1 = 0"

section \<open>Bytes\<close>

text \<open>
  \<open>load_be64\<close> and \<open>store_be64\<close> copy eight bytes to or from a word on a
  little-endian host and reverse them (\<open>__builtin_bswap64\<close>).
\<close>

definition bswap64 :: "u64 \<Rightarrow> u64" where
  "bswap64 v = word_of_int (be_val (le_bytes 8 (uint v)))"

definition load_be64 :: "bytes \<Rightarrow> u64" where
  "load_be64 p = bswap64 (word_of_int (le_val (take 8 p)))"

definition store_be64 :: "u64 \<Rightarrow> bytes" where
  "store_be64 v = le_bytes 8 (uint (bswap64 v))"

definition load_limbs_be :: "bytes \<Rightarrow> limbs4" where
  "load_limbs_be p =
     Limbs4 (load_be64 (drop 24 p)) (load_be64 (drop 16 p)) (load_be64 (drop 8 p)) (load_be64 p)"

fun limbs_select :: "u64 \<Rightarrow> limbs4 \<Rightarrow> limbs4 \<Rightarrow> limbs4" where
  "limbs_select msk (Limbs4 r0 r1 r2 r3) (Limbs4 l0 l1 l2 l3) =
     Limbs4 ((r0 AND msk) OR (l0 AND NOT msk)) ((r1 AND msk) OR (l1 AND NOT msk))
            ((r2 AND msk) OR (l2 AND NOT msk)) ((r3 AND msk) OR (l3 AND NOT msk))"

definition from_bytes :: "bytes \<Rightarrow> scalar" where
  "from_bytes bytes32 =
     (let limbs = load_limbs_be bytes32;
          reduced = sub_impl limbs ORDER;
          msk = 0 - (if limbs_ge limbs ORDER then 1 else 0)
      in Scalar (limbs_select msk reduced limbs))"

definition parse_bytes_strict :: "bytes \<Rightarrow> scalar option" where
  "parse_bytes_strict bytes32 =
     (let limbs = load_limbs_be bytes32
      in if limbs_ge limbs ORDER then None else Some (Scalar limbs))"

definition parse_bytes_strict_nonzero :: "bytes \<Rightarrow> scalar option" where
  "parse_bytes_strict_nonzero bytes32 =
     (case parse_bytes_strict bytes32 of
        None \<Rightarrow> None
      | Some out \<Rightarrow> if is_zero out then None else Some out)"

primrec load_le64_loop :: "nat \<Rightarrow> bytes \<Rightarrow> u64 \<Rightarrow> u64" where
  "load_le64_loop 0 p v = v"
| "load_le64_loop (Suc j) p v = (load_le64_loop j p v) OR push_bit (j * 8) (ucast (p ! j))"

definition parse_bytes_strict_le :: "bytes \<Rightarrow> scalar option" where
  "parse_bytes_strict_le le32 =
     (let limbs = Limbs4 (load_le64_loop 8 le32 0) (load_le64_loop 8 (drop 8 le32) 0)
                         (load_le64_loop 8 (drop 16 le32) 0) (load_le64_loop 8 (drop 24 le32) 0)
      in if limbs_ge limbs ORDER then None else Some (Scalar limbs))"

fun to_bytes :: "scalar \<Rightarrow> bytes" where
  "to_bytes (Scalar (Limbs4 l0 l1 l2 l3)) =
     store_be64 l3 @ store_be64 l2 @ store_be64 l1 @ store_be64 l0"

section \<open>Hexadecimal\<close>

datatype exn = Invalid_argument string

definition hex_chars :: string where
  "hex_chars = ''0123456789abcdef''"

definition bytes_to_hex :: "bytes \<Rightarrow> string" where
  "bytes_to_hex bs =
     concat (map (\<lambda>b. [hex_chars ! unat (drop_bit 4 b AND 0xF), hex_chars ! unat (b AND 0xF)]) bs)"

definition to_hex :: "scalar \<Rightarrow> string" where
  "to_hex s = bytes_to_hex (to_bytes s)"

definition hex_to_nibble :: "char \<Rightarrow> exn + u8" where
  "hex_to_nibble c =
     (let v = (of_char c :: nat)
      in if 48 \<le> v \<and> v \<le> 57 then Inr (of_nat (v - 48))
         else if 97 \<le> v \<and> v \<le> 102 then Inr (of_nat (v - 97 + 10))
         else if 65 \<le> v \<and> v \<le> 70 then Inr (of_nat (v - 65 + 10))
         else Inl (Invalid_argument ''Invalid hex character''))"

fun hex_decode :: "string \<Rightarrow> exn + bytes" where
  "hex_decode (c1 # c2 # rest) =
     (case hex_to_nibble c1 of
        Inl e \<Rightarrow> Inl e
      | Inr n1 \<Rightarrow>
          (case hex_to_nibble c2 of
             Inl e \<Rightarrow> Inl e
           | Inr n2 \<Rightarrow>
               (case hex_decode rest of
                  Inl e \<Rightarrow> Inl e
                | Inr bs \<Rightarrow> Inr ((push_bit 4 n1 OR n2) # bs))))"
| "hex_decode _ = Inr []"

definition from_hex :: "string \<Rightarrow> exn + scalar" where
  "from_hex hex =
     (if length hex \<noteq> 64
      then Inl (Invalid_argument ''Hex string must be exactly 64 characters (32 bytes)'')
      else case hex_decode hex of Inl e \<Rightarrow> Inl e | Inr bs \<Rightarrow> Inr (from_bytes bs))"

section \<open>Multiplication\<close>

text \<open>
  The 160-bit accumulator \<open>{c0, c1, c2}\<close> and the lambdas \<open>muladd\<close>,
  \<open>sumadd\<close> and \<open>extract_to\<close> of \<open>operator*\<close>; a column is a list of
  accumulations.
\<close>

type_synonym acc160 = "u64 \<times> u64 \<times> u32"

fun muladd :: "acc160 \<Rightarrow> u64 \<Rightarrow> u64 \<Rightarrow> acc160" where
  "muladd (c0, c1, c2) x y =
     (let p = (ucast x :: u128) * ucast y;
          tl = (ucast p :: u64);
          th = (ucast (drop_bit 64 p) :: u64);
          c0 = c0 + tl;
          th = th + (if c0 < tl then 1 else 0);
          c1 = c1 + th;
          c2 = c2 + (if c1 < th then 1 else 0)
      in (c0, c1, c2))"

fun sumadd :: "acc160 \<Rightarrow> u64 \<Rightarrow> acc160" where
  "sumadd (c0, c1, c2) x =
     (let c0 = c0 + x;
          ov = (if c0 < x then 1 else 0 :: u64);
          c1 = c1 + ov;
          c2 = c2 + (if c1 < ov then 1 else 0)
      in (c0, c1, c2))"

fun extract_to :: "acc160 \<Rightarrow> u64 \<times> acc160" where
  "extract_to (c0, c1, c2) = (c0, (c1, ucast c2, 0))"

datatype mac = Mul u64 u64 | Sum u64

fun mac_step :: "acc160 \<Rightarrow> mac \<Rightarrow> acc160" where
  "mac_step s (Mul x y) = muladd s x y"
| "mac_step s (Sum x) = sumadd s x"

definition column :: "acc160 \<Rightarrow> mac list \<Rightarrow> u64 \<times> acc160" where
  "column s ops = extract_to (foldl mac_step s ops)"

definition NC0 :: u64 where
  "NC0 = 0x402DA1732FC9BEBF"

definition NC1 :: u64 where
  "NC1 = 0x4551231950B75FC4"

text \<open>The schoolbook product, as its eight limbs.\<close>

fun mul_512 :: "limbs4 \<Rightarrow> limbs4 \<Rightarrow> limbs4 \<times> limbs4" where
  "mul_512 (Limbs4 a0 a1 a2 a3) (Limbs4 b0 b1 b2 b3) =
     (let (l0, s) = column (0, 0, 0) [Mul a0 b0];
          (l1, s) = column s [Mul a0 b1, Mul a1 b0];
          (l2, s) = column s [Mul a0 b2, Mul a1 b1, Mul a2 b0];
          (l3, s) = column s [Mul a0 b3, Mul a1 b2, Mul a2 b1, Mul a3 b0];
          (l4, s) = column s [Mul a1 b3, Mul a2 b2, Mul a3 b1];
          (l5, s) = column s [Mul a2 b3, Mul a3 b2];
          (l6, s) = column s [Mul a3 b3];
          l7 = fst s
      in (Limbs4 l0 l1 l2 l3, Limbs4 l4 l5 l6 l7))"

text \<open>512 to 385 bits: fold the high four limbs with \<open>N_C = 2^256 - n\<close>.\<close>

fun reduce_385 :: "limbs4 \<times> limbs4 \<Rightarrow> limbs4 \<times> u64 \<times> u64 \<times> u64" where
  "reduce_385 (Limbs4 l0 l1 l2 l3, Limbs4 l4 l5 l6 l7) =
     (let (m0, s) = column (l0, 0, 0) [Mul l4 NC0];
          (m1, s) = column s [Sum l1, Mul l5 NC0, Mul l4 NC1];
          (m2, s) = column s [Sum l2, Mul l6 NC0, Mul l5 NC1, Sum l4];
          (m3, s) = column s [Sum l3, Mul l7 NC0, Mul l6 NC1, Sum l5];
          (m4, s) = column s [Mul l7 NC1, Sum l6];
          (m5, s) = column s [Sum l7];
          m6 = fst s
      in (Limbs4 m0 m1 m2 m3, m4, m5, m6))"

text \<open>385 to 258 bits.\<close>

fun reduce_258 :: "limbs4 \<times> u64 \<times> u64 \<times> u64 \<Rightarrow> limbs4 \<times> u32" where
  "reduce_258 (Limbs4 m0 m1 m2 m3, m4, m5, m6) =
     (let (p0, s) = column (m0, 0, 0) [Mul m4 NC0];
          (p1, s) = column s [Sum m1, Mul m5 NC0, Mul m4 NC1];
          (p2, s) = column s [Sum m2, Mul m6 NC0, Mul m5 NC1, Sum m4];
          (p3, s) = column s [Sum m3, Mul m6 NC1, Sum m5];
          p4 = (ucast (fst s + m6) :: u32)
      in (Limbs4 p0 p1 p2 p3, p4))"

text \<open>One pass of \<open>r + k * N_C\<close> over a 128-bit accumulator: the limbs and what is
  left above bit 256.\<close>

fun add_k_NC :: "limbs4 \<Rightarrow> u32 \<Rightarrow> limbs4 \<times> u128" where
  "add_k_NC (Limbs4 p0 p1 p2 p3) k =
     (let acc = (ucast p0 :: u128) + ucast NC0 * ucast k;
          r0 = (ucast acc :: u64);
          acc = drop_bit 64 acc + ((ucast p1 :: u128) + ucast NC1 * ucast k);
          r1 = (ucast acc :: u64);
          acc = drop_bit 64 acc + ((ucast p2 :: u128) + ucast k);
          r2 = (ucast acc :: u64);
          acc = drop_bit 64 acc + ucast p3;
          r3 = (ucast acc :: u64)
      in (Limbs4 r0 r1 r2 r3, drop_bit 64 acc))"

definition reduce_256 :: "limbs4 \<times> u32 \<Rightarrow> limbs4" where
  "reduce_256 p =
     (let (r, tp) = add_k_NC (fst p) (snd p);
          carry = (ucast tp :: u32);
          reduce_count = carry + (if limbs_ge r ORDER then 1 else 0)
      in if reduce_count \<noteq> 0 then fst (add_k_NC r reduce_count) else r)"

definition mul_impl :: "limbs4 \<Rightarrow> limbs4 \<Rightarrow> limbs4" where
  "mul_impl a b = reduce_256 (reduce_258 (reduce_385 (mul_512 a b)))"

definition scalar_mul :: "scalar \<Rightarrow> scalar \<Rightarrow> scalar" where
  "scalar_mul a b = Scalar (mul_impl (scalar_limbs a) (scalar_limbs b))"

section \<open>Negation and bits\<close>

fun negate :: "scalar \<Rightarrow> scalar" where
  "negate (Scalar (Limbs4 l0 l1 l2 l3)) =
     (case ORDER of Limbs4 n0 n1 n2 n3 \<Rightarrow>
       let nonzero = 0xFFFFFFFFFFFFFFFF * (if is_zero_ct (Scalar (Limbs4 l0 l1 l2 l3)) then 0 else 1);
           t = (ucast (NOT l0) :: u128) + ucast n0 + 1;
           r0 = (ucast t :: u64) AND nonzero;
           t = drop_bit 64 t + ((ucast (NOT l1) :: u128) + ucast n1);
           r1 = (ucast t :: u64) AND nonzero;
           t = drop_bit 64 t + ((ucast (NOT l2) :: u128) + ucast n2);
           r2 = (ucast t :: u64) AND nonzero;
           t = drop_bit 64 t + ((ucast (NOT l3) :: u128) + ucast n3);
           r3 = (ucast t :: u64) AND nonzero
       in Scalar (Limbs4 r0 r1 r2 r3))"

definition negate_var :: "scalar \<Rightarrow> scalar" where
  "negate_var s = (if is_zero s then scalar_zero else Scalar (sub_impl ORDER (scalar_limbs s)))"

fun limb_at :: "limbs4 \<Rightarrow> nat \<Rightarrow> u64" where
  "limb_at (Limbs4 l0 l1 l2 l3) i = [l0, l1, l2, l3] ! i"

definition scalar_bit :: "scalar \<Rightarrow> nat \<Rightarrow> u8" where
  "scalar_bit s index =
     (if 256 \<le> index then 0
      else ucast (drop_bit (index mod 64) (limb_at (scalar_limbs s) (index div 64)) AND 1))"

section \<open>Values\<close>

abbreviation sval :: "scalar \<Rightarrow> int" where
  "sval s \<equiv> limbs_val (scalar_limbs s)"

definition scalar_ok :: "scalar \<Rightarrow> bool" where
  "scalar_ok s \<longleftrightarrow> sval s < group_order"

lemma ORDER_val: "limbs_val ORDER = group_order"
  by (simp add: ORDER_def)

lemma limbs_ge_iff: "limbs_ge a b \<longleftrightarrow> limbs_val b \<le> limbs_val a"
proof -
  obtain s c where sc: "limbs_sub a b = (s, c)" by fastforce
  show ?thesis using limbs_sub_borrow [OF sc] by (simp add: limbs_ge_def sc)
qed

lemma limbs_ge_order: "limbs_ge a b \<longleftrightarrow> b \<le> a"
  by (simp add: limbs_ge_iff less_eq_limbs4_def)

lemma sub_impl_value:
  "limbs_val (sub_impl a b) =
     (if limbs_val b \<le> limbs_val a then limbs_val a - limbs_val b
      else (limbs_val a - limbs_val b + group_order) mod two256)"
proof -
  obtain s c where sc: "limbs_sub a b = (s, c)" by fastforce
  note v = limbs_sub_value(1) [OF sc]
  obtain t d where td: "limbs_add s ORDER = (t, d)" by fastforce
  note w = limbs_add_value [OF td]
  show ?thesis
  proof (cases "limbs_val b \<le> limbs_val a")
    case True
    then have "c = 0" using limbs_sub_borrow [OF sc] by simp
    with True v show ?thesis by (simp add: sub_impl_def sc)
  next
    case False
    then have c: "c = 1" using limbs_sub_borrow [OF sc] by simp
    have "limbs_val a - limbs_val b + group_order = limbs_val t + two256 * (uint d - 1)"
      using v w by (simp add: c ORDER_val)
    then have "(limbs_val a - limbs_val b + group_order) mod two256 = limbs_val t mod two256"
      by (simp only: mod_mult_self2)
    also have "\<dots> = limbs_val t"
      using limbs_val_bounds [of t] by simp
    finally show ?thesis using False by (simp add: sub_impl_def sc c td)
  qed
qed

lemma sub_impl_mod:
  assumes "limbs_val a < group_order" "limbs_val b < group_order"
  shows "limbs_val (sub_impl a b) = (limbs_val a - limbs_val b) mod group_order"
proof (cases "limbs_val b \<le> limbs_val a")
  case True
  then show ?thesis
    using assms limbs_val_bounds [of a] limbs_val_bounds [of b]
    by (simp add: sub_impl_value)
next
  case False
  have "(limbs_val a - limbs_val b) mod group_order
      = (limbs_val a - limbs_val b + group_order) mod group_order"
    by simp
  also have "\<dots> = limbs_val a - limbs_val b + group_order"
    using False assms limbs_val_bounds [of a] limbs_val_bounds [of b]
    by (intro mod_pos_pos_trivial) auto
  finally show ?thesis
    using False assms limbs_val_bounds [of a] limbs_val_bounds [of b]
    by (simp add: sub_impl_value)
qed

lemma add_impl_value:
  "limbs_val (add_impl a b) =
     (if limbs_val a + limbs_val b < group_order then limbs_val a + limbs_val b
      else (limbs_val a + limbs_val b - group_order) mod two256)"
proof -
  obtain s c where sc: "limbs_add a b = (s, c)" by fastforce
  note v = limbs_add_value [OF sc]
  obtain t d where td: "limbs_sub s ORDER = (t, d)" by fastforce
  note w = limbs_sub_value [OF td]
  have c01: "c = 0 \<or> uint c = 1"
  proof -
    have "uint c = 0 \<or> uint c = 1"
      using v(2) uint_bounds(1) [of c] by linarith
    then show ?thesis by (simp add: word_uint_eq_iff)
  qed
  show ?thesis
  proof (cases "limbs_val a + limbs_val b < group_order")
    case True
    then have "c = 0" using v(1) c01 limbs_val_bounds [of s] by auto
    with True v show ?thesis by (simp add: add_impl_def sc limbs_ge_iff ORDER_val)
  next
    case False
    then have "\<not> (c = 0 \<and> \<not> limbs_ge s ORDER)"
      using v(1) by (auto simp: limbs_ge_iff ORDER_val)
    then have r: "add_impl a b = t"
      by (auto simp: add_impl_def sc td)
    have "limbs_val a + limbs_val b - group_order = limbs_val t + two256 * (uint c - uint d)"
      using v w by (simp add: ORDER_val)
    then have "(limbs_val a + limbs_val b - group_order) mod two256 = limbs_val t mod two256"
      by (simp only: mod_mult_self2)
    also have "\<dots> = limbs_val t"
      using limbs_val_bounds [of t] by simp
    finally show ?thesis using False by (simp add: r)
  qed
qed

lemma add_impl_mod:
  assumes "limbs_val a < group_order" "limbs_val b < group_order"
  shows "limbs_val (add_impl a b) = (limbs_val a + limbs_val b) mod group_order"
proof (cases "limbs_val a + limbs_val b < group_order")
  case True
  then show ?thesis
    using limbs_val_bounds [of a] limbs_val_bounds [of b] by (simp add: add_impl_value)
next
  case False
  have "(limbs_val a + limbs_val b) mod group_order
      = (limbs_val a + limbs_val b - group_order) mod group_order"
    by simp
  also have "\<dots> = limbs_val a + limbs_val b - group_order"
    using False assms by (intro mod_pos_pos_trivial) auto
  finally show ?thesis
    using False assms by (simp add: add_impl_value)
qed
lemma is_zero_iff: "is_zero s \<longleftrightarrow> sval s = 0"
proof (cases s)
  case (Scalar l)
  show ?thesis
  proof (cases l)
    case (Limbs4 l0 l1 l2 l3)
    have "limbs_val l = 0 \<longleftrightarrow> limbs_val l = limbs_val (Limbs4 0 0 0 0)" by simp
    also have "\<dots> \<longleftrightarrow> l = Limbs4 0 0 0 0" using limbs_val_inj by metis
    finally show ?thesis by (simp add: Scalar Limbs4 or_eq_0_iff del: limbs_val.simps)
  qed
qed

lemma is_zero_ct_iff: "is_zero_ct s \<longleftrightarrow> is_zero s"
  by (cases s rule: is_zero.cases) (auto simp: or_eq_0_iff)

lemma from_limbs_value:
  "sval (from_limbs l) = limbs_val l mod group_order" "scalar_ok (from_limbs l)"
proof -
  have "sval (from_limbs l) = limbs_val l mod group_order"
  proof (cases "limbs_val l < group_order")
    case True
    then show ?thesis using limbs_val_bounds [of l]
      by (simp add: from_limbs_def limbs_ge_iff ORDER_val)
  next
    case False
    have "limbs_val l mod group_order = (limbs_val l - group_order) mod group_order" by simp
    also have "\<dots> = limbs_val l - group_order"
      using False limbs_val_bounds [of l] by (intro mod_pos_pos_trivial) auto
    finally show ?thesis using False
      by (simp add: from_limbs_def limbs_ge_iff ORDER_val sub_impl_value)
  qed
  then show "sval (from_limbs l) = limbs_val l mod group_order" "scalar_ok (from_limbs l)"
    by (simp_all add: scalar_ok_def)
qed

lemma load_be64_value: "8 \<le> length p \<Longrightarrow> uint (load_be64 p) = be_val (take 8 p)"
proof -
  assume p: "8 \<le> length p"
  have l: "le_val (take 8 p) < 2 ^ 64"
    using le_val_less [of "take 8 p"] p by simp
  have "uint (word_of_int (le_val (take 8 p)) :: u64) = le_val (take 8 p)"
    using l by (simp add: uint_word_of_int)
  moreover have "le_bytes 8 (le_val (take 8 p)) = take 8 p"
    using le_bytes_le_val [of "take 8 p"] p by simp
  moreover have "be_val (take 8 p) < 2 ^ 64"
    using be_val_less [of "take 8 p"] p by simp
  ultimately show ?thesis
    by (simp add: load_be64_def bswap64_def uint_word_of_int)
qed

lemma store_be64_value: "store_be64 v = be_bytes 8 (uint v)"
proof -
  have "uint (bswap64 v) = be_val (le_bytes 8 (uint v))"
    using be_val_less [of "le_bytes 8 (uint v)"]
    by (simp add: bswap64_def uint_word_of_int)
  then show ?thesis
    using le_bytes_le_val [of "be_bytes 8 (uint v)"]
    by (simp add: store_be64_def be_bytes_def be_val_def)
qed

lemma take_take_8: "length p = 32 \<Longrightarrow>
    p = take 8 p @ take 8 (drop 8 p) @ take 8 (drop 16 p) @ take 8 (drop 24 p)"
proof -
  assume p: "length p = 32"
  have "drop 24 p = take 8 (drop 24 p)" using p by simp
  moreover have "drop 16 p = take 8 (drop 16 p) @ drop 24 p"
    using append_take_drop_id [of 8 "drop 16 p"] by simp
  moreover have "drop 8 p = take 8 (drop 8 p) @ drop 16 p"
    using append_take_drop_id [of 8 "drop 8 p"] by simp
  moreover have "p = take 8 p @ drop 8 p" by simp
  ultimately show ?thesis by metis
qed

lemma load_limbs_be_value: "length p = 32 \<Longrightarrow> limbs_val (load_limbs_be p) = be_val p"
proof -
  assume p: "length p = 32"
  have "be_val p = be_val (take 8 p @ take 8 (drop 8 p) @ take 8 (drop 16 p) @ take 8 (drop 24 p))"
    using take_take_8 [OF p] by metis
  also have "\<dots> = be_val (take 8 p) * 256 ^ 24 + be_val (take 8 (drop 8 p)) * 256 ^ 16
        + be_val (take 8 (drop 16 p)) * 256 ^ 8 + be_val (take 8 (drop 24 p))"
    using p by (simp add: be_val_append)
  finally show ?thesis
    using p by (simp add: load_limbs_be_def load_be64_value)
qed

lemma to_bytes_value: "to_bytes s = be_bytes 32 (sval s)"
proof (cases s rule: to_bytes.cases)
  case (1 l0 l1 l2 l3)
  have len: "length (to_bytes s) = 32"
    by (simp add: 1 store_be64_value)
  have "be_val (to_bytes s) = sval s"
    using uint_u64 [of l0] uint_u64 [of l1] uint_u64 [of l2] uint_u64 [of l3]
    by (simp add: 1 store_be64_value be_val_append be_val_be_bytes)
  then show ?thesis
    using be_bytes_be_val [of "to_bytes s"] len by simp
qed

lemma length_to_bytes [simp]: "length (to_bytes s) = 32"
  by (simp add: to_bytes_value)

lemma be_val_to_bytes: "be_val (to_bytes s) = sval s"
  using limbs_val_bounds [of "scalar_limbs s"] by (simp add: to_bytes_value be_val_be_bytes)

lemma limbs_select_all: "limbs_select (- 1) r l = r" "limbs_select 0 r l = l"
  by (cases r; cases l; simp)+

text \<open>The branch-free reduction of \<open>from_bytes\<close> selects what \<open>from_limbs\<close> selects.\<close>

lemma from_bytes_from_limbs: "from_bytes p = from_limbs (load_limbs_be p)"
  by (simp add: from_bytes_def from_limbs_def limbs_select_all Let_def)

lemma from_bytes_value:
  "length p = 32 \<Longrightarrow> sval (from_bytes p) = be_val p mod group_order"
  by (simp add: from_bytes_from_limbs from_limbs_value load_limbs_be_value)

lemma from_bytes_ok: "scalar_ok (from_bytes p)"
  by (simp add: from_bytes_from_limbs from_limbs_value)

lemma sval_inj: "sval s = sval t \<Longrightarrow> s = t"
  by (metis limbs_val_inj scalar.expand)

lemma from_bytes_to_bytes: "scalar_ok s \<Longrightarrow> from_bytes (to_bytes s) = s"
  using limbs_val_bounds [of "scalar_limbs s"]
  by (intro sval_inj) (simp add: from_bytes_value be_val_to_bytes scalar_ok_def)

lemma parse_bytes_strict_iff:
  "length p = 32 \<Longrightarrow>
     parse_bytes_strict p = (if be_val p < group_order then Some (from_bytes p) else None)"
  by (simp add: parse_bytes_strict_def from_bytes_from_limbs from_limbs_def limbs_ge_iff ORDER_val
      load_limbs_be_value Let_def)

lemma not_bit_small:
  assumes "uint (v :: 'a :: len word) < 2 ^ m" "m \<le> k"
  shows "\<not> bit v k"
proof
  assume "bit v k"
  then have "bit (uint v) k"
    using bit_imp_le_length [of v k] by (simp add: bit_uint_iff)
  moreover have "take_bit m (uint v) = uint v"
    using assms(1) by (intro take_bit_int_eq_self) simp_all
  ultimately have "bit (take_bit m (uint v)) k" by simp
  then show False using assms(2) by (simp add: bit_take_bit_iff)
qed

lemma pow_256: "(256 :: int) ^ n = 2 ^ (n * 8)"
proof -
  have "(256 :: int) ^ n = (2 ^ 8) ^ n" by simp
  also have "\<dots> = 2 ^ (8 * n)" by (rule power_mult [symmetric])
  finally show ?thesis by (simp only: mult.commute)
qed

lemma load_le64_loop_value:
  "n \<le> 8 \<Longrightarrow> n \<le> length p \<Longrightarrow> uint (load_le64_loop n p 0) = le_val (take n p)"
proof (induction n)
  case 0
  then show ?case by simp
next
  case (Suc n)
  let ?v = "load_le64_loop n p 0" and ?b = "p ! n"
  have IH: "uint ?v = le_val (take n p)" using Suc by simp
  have tk: "take (Suc n) p = take n p @ [?b]"
    using Suc.prems by (simp add: take_Suc_conv_app_nth)
  have vlt: "uint ?v < 2 ^ (n * 8)"
    using IH le_val_less [of "take n p"] Suc.prems by (simp add: pow_256)
  have "n \<in> {0,1,2,3,4,5,6,7}" using Suc.prems by auto
  then have sh: "uint (push_bit (n * 8) (ucast ?b :: u64)) = 2 ^ (n * 8) * uint ?b"
    using uint_u8 [of ?b]
    by (auto simp: push_bit_eq_mult uint_word_ariths word_int)
  have "?v AND push_bit (n * 8) (ucast ?b :: u64) = 0"
  proof (rule bit_word_eqI)
    fix k
    have "\<not> bit ?v k" if "n * 8 \<le> k"
      using vlt that by (rule not_bit_small)
    then show "bit (?v AND push_bit (n * 8) (ucast ?b :: u64)) k = bit (0 :: u64) k"
      by (auto simp: bit_and_iff bit_push_bit_iff)
  qed
  then have "?v OR push_bit (n * 8) (ucast ?b :: u64) = ?v + push_bit (n * 8) (ucast ?b)"
    by (rule disjunctive_add_eq_or [symmetric])
  moreover have "uint ?v + 2 ^ (n * 8) * uint ?b < 2 ^ 64"
  proof -
    have "le_val (take (Suc n) p) < 256 ^ Suc n"
      using le_val_less [of "take (Suc n) p"] Suc.prems by simp
    also have "(256 :: int) ^ Suc n \<le> 256 ^ 8"
      using Suc.prems by (intro power_increasing) auto
    finally show ?thesis
      using Suc.prems IH by (simp add: tk le_val_append pow_256)
  qed
  ultimately show ?case
    using Suc.prems IH sh
    by (simp add: tk le_val_append uint_word_ariths pow_256)
qed

lemma parse_bytes_strict_le_rev:
  assumes p: "length p = 32"
  shows "parse_bytes_strict_le p = parse_bytes_strict (rev p)"
proof -
  let ?L = "Limbs4 (load_le64_loop 8 p 0) (load_le64_loop 8 (drop 8 p) 0)
                   (load_le64_loop 8 (drop 16 p) 0) (load_le64_loop 8 (drop 24 p) 0)"
  have "le_val p = le_val (take 8 p @ take 8 (drop 8 p) @ take 8 (drop 16 p) @ take 8 (drop 24 p))"
    using take_take_8 [OF p] by metis
  also have "\<dots> = limbs_val ?L"
    using p by (simp add: le_val_append load_le64_loop_value)
  finally have "limbs_val ?L = limbs_val (load_limbs_be (rev p))"
    using p load_limbs_be_value [of "rev p"] by (simp add: be_val_def)
  then have "?L = load_limbs_be (rev p)" by (rule limbs_val_inj)
  then show ?thesis
    by (simp add: parse_bytes_strict_le_def parse_bytes_strict_def Let_def)
qed

lemma hex_to_nibble_hex_chars: "k < 16 \<Longrightarrow> hex_to_nibble (hex_chars ! k) = Inr (of_nat k)"
proof -
  have "\<forall>k \<in> set [0..<16]. hex_to_nibble (hex_chars ! k) = Inr (of_nat k)" by code_simp
  then show "k < 16 \<Longrightarrow> hex_to_nibble (hex_chars ! k) = Inr (of_nat k)" by simp
qed

lemma nibble_less: "unat ((b :: u8) AND 0xF) < 16"
proof -
  have "unat (b AND 15) \<le> unat (15 :: u8)"
    by (rule word_and_le1 [THEN word_le_nat_alt [THEN iffD1]])
  then show ?thesis by simp
qed

lemma nibbles_join: "push_bit 4 (drop_bit 4 b AND 0xF) OR (b AND 0xF) = (b :: u8)"
proof -
  have m: "(0xF :: u8) = mask 4" by (simp add: mask_eq_exp_minus_1)
  show ?thesis
    unfolding m by (rule bit_word_eqI) (auto simp: bit_simps)
qed

lemma hex_decode_bytes_to_hex: "hex_decode (bytes_to_hex bs) = Inr bs"
proof (induction bs)
  case Nil
  then show ?case by (simp add: bytes_to_hex_def)
next
  case (Cons b bs)
  have "bytes_to_hex (b # bs) =
    hex_chars ! unat (drop_bit 4 b AND 0xF) # hex_chars ! unat (b AND 0xF) # bytes_to_hex bs"
    by (simp add: bytes_to_hex_def)
  then show ?case
    using Cons nibbles_join [of b] by (simp add: hex_to_nibble_hex_chars nibble_less)
qed

lemma length_bytes_to_hex: "length (bytes_to_hex bs) = 2 * length bs"
  by (induction bs) (auto simp: bytes_to_hex_def)

lemma hex_roundtrip: "scalar_ok s \<Longrightarrow> from_hex (to_hex s) = Inr s"
  by (simp add: from_hex_def to_hex_def length_bytes_to_hex hex_decode_bytes_to_hex
      from_bytes_to_bytes)

fun acc_val :: "acc160 \<Rightarrow> int" where
  "acc_val (c0, c1, c2) = uint c0 + 18446744073709551616 * uint c1
     + 340282366920938463463374607431768211456 * uint c2"

fun mac_val :: "mac \<Rightarrow> int" where
  "mac_val (Mul x y) = uint x * uint y"
| "mac_val (Sum x) = uint x"

lemma mult_u64_bounds: "0 \<le> uint x * uint (y :: u64)"
  "uint (x :: u64) * uint (y :: u64) \<le> 340282366920938463426481119284349108225"
proof -
  have "uint x * uint y \<le> 18446744073709551615 * 18446744073709551615"
    using uint_u64 [of x] uint_u64 [of y] by (intro mult_mono) auto
  then show "uint x * uint y \<le> 340282366920938463426481119284349108225" by simp
qed simp

lemma uint_add_carry:
  "uint (a + b) + 2 ^ LENGTH('a) * (if a + b < b then 1 else 0) = uint a + uint (b :: 'a :: len word)"
  using uint_bounds(2) [of a] uint_bounds(2) [of b] uint_bounds(1) [of a]
  by (auto simp: uint_plus_if' word_less_def)

lemma top_limb_bound:
  assumes "a + 18446744073709551616 * b + 340282366920938463463374607431768211456 * c
      < (1461501637330902918203684832716283019655932542976 :: int)" "0 \<le> a" "0 \<le> b"
  shows "c < 4294967296"
  using assms by linarith

lemma mac_step_value:
  assumes "acc_val s + mac_val m < 1461501637330902918203684832716283019655932542976"
  shows "acc_val (mac_step s m) = acc_val s + mac_val m"
proof -
  obtain c0 c1 c2 where s: "s = (c0, c1, c2)" by (metis prod.exhaust)
  have c2lt: "uint c2 < 4294967296" by (rule uint_u32)
  show ?thesis
  proof (cases m)
    case (Mul x y)
    define p where "p = (ucast x :: u128) * ucast y"
    define tl :: u64 where "tl = ucast p"
    define th :: u64 where "th = ucast (drop_bit 64 p)"
    have p: "uint p = uint x * uint y"
      using mult_u64_bounds [of x y] uint_u64 [of x] uint_u64 [of y]
      by (simp add: p_def uint_word_ariths word_int)
    have tl: "uint tl = uint p mod 18446744073709551616"
      by (simp add: tl_def word_int)
    have th: "uint th = uint p div 18446744073709551616"
    proof -
      have "uint p div 18446744073709551616 < 18446744073709551616"
        using uint_u128 [of p] by linarith
      then show ?thesis
        by (simp add: th_def uint_ucast_mod uint_drop_bit_div pos_imp_zdiv_nonneg_iff)
    qed
    have prod: "uint tl + 18446744073709551616 * uint th = uint x * uint y"
      by (simp add: tl th p)
    have thb: "uint th \<le> 18446744073709551614"
      using p mult_u64_bounds(2) [of x y] th by linarith
    define d0 where "d0 = c0 + tl"
    define k0 :: u64 where "k0 = (if d0 < tl then 1 else 0)"
    define th' where "th' = th + k0"
    define d1 where "d1 = c1 + th'"
    define k1 :: u32 where "k1 = (if d1 < th' then 1 else 0)"
    have r: "mac_step s m = (d0, d1, c2 + k1)"
      by (simp add: s Mul Let_def p_def tl_def th_def d0_def k0_def th'_def d1_def k1_def)
    have e0: "uint d0 + 18446744073709551616 * uint k0 = uint c0 + uint tl"
      using uint_add_carry [of c0 tl] by (simp add: d0_def k0_def split: if_splits)
    have eth: "uint th' = uint th + uint k0"
      using thb by (simp add: th'_def k0_def uint_plus_if')
    have e1: "uint d1 + 18446744073709551616 * uint k1 = uint c1 + uint th'"
      using uint_add_carry [of c1 th'] by (simp add: d1_def k1_def split: if_splits)
    have tot: "uint d0 + 18446744073709551616 * uint d1
        + 340282366920938463463374607431768211456 * (uint c2 + uint k1) = acc_val s + mac_val m"
      using e0 eth e1 prod by (simp add: s Mul)
    have "uint c2 + uint k1 < 4294967296"
      by (rule top_limb_bound [OF _ uint_bounds(1) [of d0] uint_bounds(1) [of d1]])
        (use tot assms in simp)
    then have "uint (c2 + k1) = uint c2 + uint k1"
      by (simp add: uint_plus_if')
    then show ?thesis using tot r by simp
  next
    case (Sum x)
    define d0 where "d0 = c0 + x"
    define k0 :: u64 where "k0 = (if d0 < x then 1 else 0)"
    define d1 where "d1 = c1 + k0"
    define k1 :: u32 where "k1 = (if d1 < k0 then 1 else 0)"
    have r: "mac_step s m = (d0, d1, c2 + k1)"
      by (simp add: s Sum Let_def d0_def k0_def d1_def k1_def)
    have e0: "uint d0 + 18446744073709551616 * uint k0 = uint c0 + uint x"
      using uint_add_carry [of c0 x] by (simp add: d0_def k0_def split: if_splits)
    have e1: "uint d1 + 18446744073709551616 * uint k1 = uint c1 + uint k0"
      using uint_add_carry [of c1 k0] by (simp add: d1_def k1_def split: if_splits)
    have tot: "uint d0 + 18446744073709551616 * uint d1
        + 340282366920938463463374607431768211456 * (uint c2 + uint k1) = acc_val s + mac_val m"
      using e0 e1 by (simp add: s Sum)
    have "uint c2 + uint k1 < 4294967296"
      by (rule top_limb_bound [OF _ uint_bounds(1) [of d0] uint_bounds(1) [of d1]])
        (use tot assms in simp)
    then have "uint (c2 + k1) = uint c2 + uint k1"
      by (simp add: uint_plus_if')
    then show ?thesis using tot r by simp
  qed
qed

lemma mac_val_bounds: "0 \<le> mac_val m" "mac_val m < 340282366920938463463374607431768211456"
proof -
  show "0 \<le> mac_val m" by (cases m) auto
  show "mac_val m < 340282366920938463463374607431768211456"
  proof (cases m)
    case (Mul x y)
    show ?thesis using mult_u64_bounds(2) [of x y] unfolding Mul mac_val.simps by linarith
  next
    case (Sum x)
    show ?thesis using uint_u64 [of x] unfolding Sum mac_val.simps by linarith
  qed
qed

lemma foldl_mac_value:
  "acc_val s + 340282366920938463463374607431768211456 * int (length ops)
     \<le> 1461501637330902918203684832716283019655932542976 \<Longrightarrow>
   acc_val (foldl mac_step s ops) = acc_val s + sum_list (map mac_val ops)"
proof (induction ops arbitrary: s)
  case Nil
  then show ?case by simp
next
  case (Cons m ops)
  note b = mac_val_bounds [of m]
  have st: "acc_val (mac_step s m) = acc_val s + mac_val m"
  proof (rule mac_step_value)
    have "(0 :: int) \<le> int (length ops)" by simp
    then show "acc_val s + mac_val m < 1461501637330902918203684832716283019655932542976"
      using Cons.prems b by simp
  qed
  show ?case
    using Cons.IH [of "mac_step s m"] Cons.prems b by (simp add: st algebra_simps)
qed

lemma extract_to_value:
  assumes "extract_to s = (l, t)"
  shows "acc_val s = uint l + 18446744073709551616 * acc_val t"
    and "acc_val t < 79228162514264337593543950336"
proof -
  obtain c0 c1 c2 where s: "s = (c0, c1, c2)" by (metis prod.exhaust)
  have "uint (ucast c2 :: u64) = uint c2"
    using uint_u32 [of c2] by (simp add: word_int)
  then show "acc_val s = uint l + 18446744073709551616 * acc_val t"
    "acc_val t < 79228162514264337593543950336"
    using assms uint_u64 [of c1] uint_u32 [of c2] by (auto simp: s algebra_simps)
qed

text \<open>One column: what it emits and what it carries on.\<close>

lemma column_value:
  assumes "column s ops = (l, t)" "acc_val s < 79228162514264337593543950336" "length ops \<le> 8"
  shows "acc_val s + sum_list (map mac_val ops) = uint l + 18446744073709551616 * acc_val t"
    and "acc_val t < 79228162514264337593543950336"
proof -
  have "340282366920938463463374607431768211456 * int (length ops)
      \<le> 340282366920938463463374607431768211456 * 8"
    using assms(3) by simp
  then have "acc_val (foldl mac_step s ops) = acc_val s + sum_list (map mac_val ops)"
    using assms(2) by (intro foldl_mac_value) simp
  then show "acc_val s + sum_list (map mac_val ops) = uint l + 18446744073709551616 * acc_val t"
    "acc_val t < 79228162514264337593543950336"
    using extract_to_value [of "foldl mac_step s ops" l t] assms(1)
    by (simp_all add: column_def)
qed

lemma acc_val_nonneg: "0 \<le> acc_val s"
  by (cases s) auto

lemma acc_val_small: "acc_val s < 18446744073709551616 \<Longrightarrow> uint (fst s) = acc_val s"
proof -
  obtain c0 c1 c2 where s: "s = (c0, c1, c2)" by (metis prod.exhaust)
  assume a: "acc_val s < 18446744073709551616"
  then have "uint c1 = 0" "uint c2 = 0"
    using uint_bounds(1) [of c0] uint_bounds(1) [of c1] uint_bounds(1) [of c2]
    unfolding s acc_val.simps by linarith+
  then show ?thesis by (simp add: s)
qed

lemma mul_512_value:
  assumes "mul_512 a b = (lo, hi)"
  shows "limbs_val lo + two256 * limbs_val hi = limbs_val a * limbs_val b"
proof -
  obtain a0 a1 a2 a3 b0 b1 b2 b3 where ab: "a = Limbs4 a0 a1 a2 a3" "b = Limbs4 b0 b1 b2 b3"
    by (meson limbs4.exhaust)
  obtain l0 s0 where e0: "column (0, 0, 0) [Mul a0 b0] = (l0, s0)" by (rule prod.exhaust)
  obtain l1 s1 where e1: "column s0 [Mul a0 b1, Mul a1 b0] = (l1, s1)" by (rule prod.exhaust)
  obtain l2 s2 where e2: "column s1 [Mul a0 b2, Mul a1 b1, Mul a2 b0] = (l2, s2)" by (rule prod.exhaust)
  obtain l3 s3 where e3: "column s2 [Mul a0 b3, Mul a1 b2, Mul a2 b1, Mul a3 b0] = (l3, s3)" by (rule prod.exhaust)
  obtain l4 s4 where e4: "column s3 [Mul a1 b3, Mul a2 b2, Mul a3 b1] = (l4, s4)" by (rule prod.exhaust)
  obtain l5 s5 where e5: "column s4 [Mul a2 b3, Mul a3 b2] = (l5, s5)" by (rule prod.exhaust)
  obtain l6 s6 where e6: "column s5 [Mul a3 b3] = (l6, s6)" by (rule prod.exhaust)
  note c0 = column_value [OF e0] note c1 = column_value [OF e1] note c2 = column_value [OF e2]
  note c3 = column_value [OF e3] note c4 = column_value [OF e4] note c5 = column_value [OF e5]
  note c6 = column_value [OF e6]
  have v0: "acc_val s0 < 79228162514264337593543950336" by (rule c0(2)) simp_all
  have v1: "acc_val s1 < 79228162514264337593543950336" by (rule c1(2) [OF v0]) simp
  have v2: "acc_val s2 < 79228162514264337593543950336" by (rule c2(2) [OF v1]) simp
  have v3: "acc_val s3 < 79228162514264337593543950336" by (rule c3(2) [OF v2]) simp
  have v4: "acc_val s4 < 79228162514264337593543950336" by (rule c4(2) [OF v3]) simp
  have v5: "acc_val s5 < 79228162514264337593543950336" by (rule c5(2) [OF v4]) simp
  define lo6 where "lo6 = uint l0 + 18446744073709551616 * (uint l1 + 18446744073709551616 * (uint l2
    + 18446744073709551616 * (uint l3 + 18446744073709551616 * (uint l4 + 18446744073709551616 *
    (uint l5 + 18446744073709551616 * uint l6)))))"
  have prod: "limbs_val a * limbs_val b = lo6 + 18446744073709551616 ^ 7 * acc_val s6"
    using c0(1) c1(1) [OF v0] c2(1) [OF v1] c3(1) [OF v2] c4(1) [OF v3] c5(1) [OF v4] c6(1) [OF v5]
    by (simp add: ab lo6_def algebra_simps)
  have "limbs_val a * limbs_val b \<le> (two256 - 1) * (two256 - 1)"
    using limbs_val_bounds [of a] limbs_val_bounds [of b] by (intro mult_mono) auto
  moreover have "0 \<le> lo6" by (simp add: lo6_def)
  ultimately have "acc_val s6 < 18446744073709551616"
    using prod by simp
  then have l7: "uint (fst s6) = acc_val s6" by (rule acc_val_small)
  have "lo = Limbs4 l0 l1 l2 l3" "hi = Limbs4 l4 l5 l6 (fst s6)"
    using assms by (simp_all add: ab e0 e1 e2 e3 e4 e5 e6)
  then show ?thesis
    using prod l7 by (simp add: lo6_def algebra_simps)
qed

abbreviation (input) N_C :: int where
  "N_C \<equiv> 432420386565659656852420866394968145599"

lemma NC_value: "uint NC0 + 18446744073709551616 * uint NC1
    + 340282366920938463463374607431768211456 = N_C"
  "uint NC0 = 0x402DA1732FC9BEBF" "uint NC1 = 0x4551231950B75FC4"
  by (simp_all add: NC0_def NC1_def)

lemma order_NC: "two256 - group_order = N_C"
  by simp

lemma reduce_385_value:
  assumes "reduce_385 (lo, hi) = (m, m4, m5, m6)"
  shows "limbs_val m + two256 * (uint m4 + 18446744073709551616 * uint m5
           + 340282366920938463463374607431768211456 * uint m6)
         = limbs_val lo + N_C * limbs_val hi"
proof -
  obtain l0 l1 l2 l3 l4 l5 l6 l7 where l: "lo = Limbs4 l0 l1 l2 l3" "hi = Limbs4 l4 l5 l6 l7"
    by (meson limbs4.exhaust)
  obtain m0 s0 where e0: "column (l0, 0, 0) [Mul l4 NC0] = (m0, s0)" by (rule prod.exhaust)
  obtain m1 s1 where e1: "column s0 [Sum l1, Mul l5 NC0, Mul l4 NC1] = (m1, s1)" by (rule prod.exhaust)
  obtain m2 s2 where e2: "column s1 [Sum l2, Mul l6 NC0, Mul l5 NC1, Sum l4] = (m2, s2)" by (rule prod.exhaust)
  obtain m3 s3 where e3: "column s2 [Sum l3, Mul l7 NC0, Mul l6 NC1, Sum l5] = (m3, s3)" by (rule prod.exhaust)
  obtain m4' s4 where e4: "column s3 [Mul l7 NC1, Sum l6] = (m4', s4)" by (rule prod.exhaust)
  obtain m5' s5 where e5: "column s4 [Sum l7] = (m5', s5)" by (rule prod.exhaust)
  note c0 = column_value [OF e0] note c1 = column_value [OF e1] note c2 = column_value [OF e2]
  note c3 = column_value [OF e3] note c4 = column_value [OF e4] note c5 = column_value [OF e5]
  have vi: "acc_val (l0, 0, 0) < 79228162514264337593543950336"
    using uint_u64 [of l0] by simp
  have v0: "acc_val s0 < 79228162514264337593543950336" by (rule c0(2) [OF vi]) simp
  have v1: "acc_val s1 < 79228162514264337593543950336" by (rule c1(2) [OF v0]) simp
  have v2: "acc_val s2 < 79228162514264337593543950336" by (rule c2(2) [OF v1]) simp
  have v3: "acc_val s3 < 79228162514264337593543950336" by (rule c3(2) [OF v2]) simp
  have v4: "acc_val s4 < 79228162514264337593543950336" by (rule c4(2) [OF v3]) simp
  define lo6 where "lo6 = uint m0 + 18446744073709551616 * (uint m1 + 18446744073709551616 * (uint m2
    + 18446744073709551616 * (uint m3 + 18446744073709551616 * (uint m4' + 18446744073709551616 *
    uint m5'))))"
  have tot: "limbs_val lo + N_C * limbs_val hi = lo6 + 18446744073709551616 ^ 6 * acc_val s5"
    using c0(1) [OF vi] c1(1) [OF v0] c2(1) [OF v1] c3(1) [OF v2] c4(1) [OF v3] c5(1) [OF v4]
    by (simp add: l lo6_def NC_value(2,3) algebra_simps)
  have "0 \<le> lo6" by (simp add: lo6_def)
  then have "acc_val s5 < 18446744073709551616"
    using tot limbs_val_bounds [of lo] limbs_val_bounds [of hi] by simp
  then have l7: "uint (fst s5) = acc_val s5" by (rule acc_val_small)
  have "m = Limbs4 m0 m1 m2 m3" "m4 = m4'" "m5 = m5'" "m6 = fst s5"
    using assms by (simp_all add: l e0 e1 e2 e3 e4 e5)
  then show ?thesis
    using tot l7 by (simp add: lo6_def algebra_simps)
qed

lemma reduce_258_value:
  assumes "reduce_258 (m, m4, m5, m6) = (p, p4)"
    and hi: "uint m4 + 18446744073709551616 * uint m5
           + 340282366920938463463374607431768211456 * uint m6 \<le> N_C"
  shows "limbs_val p + two256 * uint p4 = limbs_val m + N_C * (uint m4
           + 18446744073709551616 * uint m5 + 340282366920938463463374607431768211456 * uint m6)"
    and "uint p4 < 8"
proof -
  obtain m0 m1 m2 m3 where m: "m = Limbs4 m0 m1 m2 m3"
    by (meson limbs4.exhaust)
  obtain p0 s0 where e0: "column (m0, 0, 0) [Mul m4 NC0] = (p0, s0)" by (rule prod.exhaust)
  obtain p1 s1 where e1: "column s0 [Sum m1, Mul m5 NC0, Mul m4 NC1] = (p1, s1)" by (rule prod.exhaust)
  obtain p2 s2 where e2: "column s1 [Sum m2, Mul m6 NC0, Mul m5 NC1, Sum m4] = (p2, s2)" by (rule prod.exhaust)
  obtain p3 s3 where e3: "column s2 [Sum m3, Mul m6 NC1, Sum m5] = (p3, s3)" by (rule prod.exhaust)
  note c0 = column_value [OF e0] note c1 = column_value [OF e1] note c2 = column_value [OF e2]
  note c3 = column_value [OF e3]
  have vi: "acc_val (m0, 0, 0) < 79228162514264337593543950336"
    using uint_u64 [of m0] by simp
  have v0: "acc_val s0 < 79228162514264337593543950336" by (rule c0(2) [OF vi]) simp
  have v1: "acc_val s1 < 79228162514264337593543950336" by (rule c1(2) [OF v0]) simp
  have v2: "acc_val s2 < 79228162514264337593543950336" by (rule c2(2) [OF v1]) simp
  let ?hi = "uint m4 + 18446744073709551616 * uint m5
           + 340282366920938463463374607431768211456 * uint m6"
  define lo where "lo = uint p0 + 18446744073709551616 * (uint p1 + 18446744073709551616 * (uint p2
    + 18446744073709551616 * uint p3))"
  have tot: "limbs_val m + N_C * ?hi = lo + two256 * (acc_val s3 + uint m6)"
    using c0(1) [OF vi] c1(1) [OF v0] c2(1) [OF v1] c3(1) [OF v2]
    by (simp add: m lo_def NC_value(2,3) algebra_simps)
  have "0 \<le> lo" by (simp add: lo_def)
  moreover have "N_C * ?hi \<le> N_C * N_C" using hi by simp
  ultimately have tp: "acc_val s3 + uint m6 < 8"
    using tot limbs_val_bounds [of m] by simp
  then have "acc_val s3 < 18446744073709551616"
    using uint_bounds(1) [of m6] by linarith
  then have f: "uint (fst s3) = acc_val s3" by (rule acc_val_small)
  have p: "p = Limbs4 p0 p1 p2 p3" "p4 = ucast (fst s3 + m6)"
    using assms(1) by (simp_all add: m e0 e1 e2 e3)
  have p4: "uint p4 = acc_val s3 + uint m6"
    using tp f acc_val_nonneg [of s3] uint_bounds(1) [of m6]
    by (simp add: p uint_ucast_mod uint_word_ariths)
  show "uint p4 < 8" using p4 tp by simp
  show "limbs_val p + two256 * uint p4 = limbs_val m + N_C * ?hi"
    using tot p4 by (simp add: p lo_def algebra_simps)
qed

lemma add_k_NC_value:
  assumes "add_k_NC p k = (r, tp)" "uint k < 16"
  shows "limbs_val r + two256 * uint tp = limbs_val p + N_C * uint k"
proof -
  obtain p0 p1 p2 p3 where p: "p = Limbs4 p0 p1 p2 p3"
    by (meson limbs4.exhaust)
  define a0 where "a0 = (ucast p0 :: u128) + ucast NC0 * ucast k"
  define a1 where "a1 = drop_bit 64 a0 + ((ucast p1 :: u128) + ucast NC1 * ucast k)"
  define a2 where "a2 = drop_bit 64 a1 + ((ucast p2 :: u128) + ucast k)"
  define a3 where "a3 = drop_bit 64 a2 + (ucast p3 :: u128)"
  have r: "r = Limbs4 (ucast a0) (ucast a1) (ucast a2) (ucast a3)" "tp = drop_bit 64 a3"
    using assms(1) by (simp_all add: p Let_def a0_def a1_def a2_def a3_def)
  note b = uint_u64 [of p0] uint_u64 [of p1] uint_u64 [of p2] uint_u64 [of p3] assms(2)
    uint_bounds(1) [of k]
  have u0: "uint a0 = uint p0 + 0x402DA1732FC9BEBF * uint k"
    using b by (simp add: a0_def uint_word_ariths uint_ucast_mod NC_value(2))
  have d0: "uint (drop_bit 64 a0) = uint a0 div 18446744073709551616"
    and d0': "uint (drop_bit 64 a0) < 18446744073709551616"
    using uint_u128 [of a0] by (simp_all add: uint_drop_bit_div)
  have u1: "uint a1 = uint (drop_bit 64 a0) + uint p1 + 0x4551231950B75FC4 * uint k"
    using b d0' by (simp add: a1_def uint_word_ariths uint_ucast_mod NC_value(3))
  have d1: "uint (drop_bit 64 a1) = uint a1 div 18446744073709551616"
    and d1': "uint (drop_bit 64 a1) < 18446744073709551616"
    using uint_u128 [of a1] by (simp_all add: uint_drop_bit_div)
  have u2: "uint a2 = uint (drop_bit 64 a1) + uint p2 + uint k"
    using b d1' by (simp add: a2_def uint_word_ariths uint_ucast_mod)
  have d2: "uint (drop_bit 64 a2) = uint a2 div 18446744073709551616"
    and d2': "uint (drop_bit 64 a2) < 18446744073709551616"
    using uint_u128 [of a2] by (simp_all add: uint_drop_bit_div)
  have u3: "uint a3 = uint (drop_bit 64 a2) + uint p3"
    using b d2' by (simp add: a3_def uint_word_ariths uint_ucast_mod)
  have split: "uint (ucast (a :: u128) :: u64) + 18446744073709551616 * uint (drop_bit 64 a) = uint a"
    for a by (simp add: uint_drop_bit_div uint_ucast_mod)
  show ?thesis
    using u0 u1 u2 u3 split [of a0] split [of a1] split [of a2] split [of a3]
    by (simp add: r p)
qed


lemma high_digit_zero:
  assumes "0 \<le> q" "q < two256" "0 \<le> q + two256 * t" "q + two256 * t < (two256 :: int)"
  shows "t = 0"
proof (rule antisym)
  show "t \<le> 0" using assms by linarith
  show "0 \<le> t" using assms by linarith
qed

lemma reduce_256_value:
  assumes "uint p4 < 8"
  shows "limbs_val (reduce_256 (p, p4)) = (limbs_val p + two256 * uint p4) mod group_order"
proof -
  obtain r tp where rt: "add_k_NC p p4 = (r, tp)" by (rule prod.exhaust)
  have v: "limbs_val r + two256 * uint tp = limbs_val p + N_C * uint p4"
    using add_k_NC_value [OF rt] assms by simp
  define c :: u32 where "c = ucast tp"
  define rc where "rc = c + (if limbs_ge r ORDER then 1 else 0)"
  have X: "limbs_val p + two256 * uint p4 = limbs_val r + two256 * uint tp + group_order * uint p4"
    using v by simp
  have bound: "limbs_val r + two256 * uint tp < two256 + N_C * 8"
    using v assms limbs_val_bounds [of p] by simp
  have tp01: "uint tp = 0 \<or> uint tp = 1 \<and> limbs_val r < N_C * 8"
    using bound limbs_val_bounds [of r] uint_bounds(1) [of tp] by linarith
  have c: "uint c = uint tp" using tp01 by (auto simp: c_def uint_ucast_mod)
  have red: "reduce_256 (p, p4) = (if rc \<noteq> 0 then fst (add_k_NC r rc) else r)"
    by (simp add: reduce_256_def rt rc_def c_def Let_def)
  have goal: "limbs_val (reduce_256 (p, p4)) = limbs_val r + two256 * uint tp - group_order * uint rc
     \<and> limbs_val (reduce_256 (p, p4)) < group_order"
  proof (cases "uint tp = 0 \<and> limbs_val r < group_order")
    case True
    then have "rc = 0" using c by (simp add: rc_def limbs_ge_iff ORDER_val word_uint_eq_iff)
    then show ?thesis using True red by simp
  next
    case False
    have rc: "uint rc = 1"
    proof (cases "uint tp = 0")
      case True
      then have "c = 0" using c by (simp add: word_uint_eq_iff)
      moreover have "limbs_ge r ORDER" using False True by (simp add: limbs_ge_iff ORDER_val)
      ultimately show ?thesis by (simp add: rc_def)
    next
      case ne: False
      then have "uint tp = 1" "limbs_val r < group_order" using tp01 by auto
      moreover from this have "c = 1" using c by (simp add: word_uint_eq_iff)
      ultimately show ?thesis by (simp add: rc_def limbs_ge_iff ORDER_val)
    qed
    then have "rc \<noteq> 0" by auto
    obtain q tq where qt: "add_k_NC r rc = (q, tq)" by (rule prod.exhaust)
    have w: "limbs_val q + two256 * uint tq = limbs_val r + N_C"
      using add_k_NC_value [OF qt] rc by simp
    have "limbs_val q + two256 * (uint tq - 1 + uint tp) = limbs_val r + two256 * uint tp - group_order"
      using w by simp
    moreover have "0 \<le> limbs_val r + two256 * uint tp - group_order"
      "limbs_val r + two256 * uint tp - group_order < group_order"
      using False tp01 limbs_val_bounds [of r] by auto
    ultimately have "uint tq - 1 + uint tp = 0"
      using limbs_val_bounds [of q] by (intro high_digit_zero [of "limbs_val q"]) auto
    with \<open>limbs_val q + two256 * (uint tq - 1 + uint tp) = _\<close>
    have "limbs_val q = limbs_val r + two256 * uint tp - group_order" by simp
    then show ?thesis
      using \<open>rc \<noteq> 0\<close> red qt rc \<open>limbs_val r + two256 * uint tp - group_order < group_order\<close> by simp
  qed
  have "limbs_val p + two256 * uint p4
      = limbs_val (reduce_256 (p, p4)) + group_order * (uint rc + uint p4)"
    using X goal by (simp add: algebra_simps)
  then have "(limbs_val p + two256 * uint p4) mod group_order
      = limbs_val (reduce_256 (p, p4)) mod group_order"
    by (simp only: mod_mult_self2)
  then show ?thesis
    using goal limbs_val_bounds [of "reduce_256 (p, p4)"] by simp
qed

lemma mul_reduced:
  assumes "reduce_258 (reduce_385 (mul_512 a b)) = (p, p4)"
  shows "(limbs_val p + two256 * uint p4) mod group_order = (limbs_val a * limbs_val b) mod group_order"
    and "uint p4 < 8"
proof -
  obtain lo hi where e1: "mul_512 a b = (lo, hi)" by (rule prod.exhaust)
  obtain m m4 m5 m6 where e2: "reduce_385 (lo, hi) = (m, m4, m5, m6)"
    by (metis prod.exhaust)
  have e3: "reduce_258 (m, m4, m5, m6) = (p, p4)" using assms by (simp only: e1 e2)
  let ?M = "uint m4 + 18446744073709551616 * uint m5
         + 340282366920938463463374607431768211456 * uint m6"
  note v1 = mul_512_value [OF e1] and v2 = reduce_385_value [OF e2]
  have hi: "?M \<le> N_C"
  proof -
    have "two256 * ?M \<le> limbs_val lo + N_C * limbs_val hi"
      using v2 limbs_val_bounds [of m] by linarith
    then have "two256 * ?M < two256 * (N_C + 1)"
      using limbs_val_bounds [of lo] limbs_val_bounds [of hi] by simp
    then show ?thesis by simp
  qed
  note v3 = reduce_258_value [OF e3 hi]
  have "limbs_val a * limbs_val b = limbs_val p + two256 * uint p4
      + group_order * (limbs_val hi + ?M)"
    using v1 v2 v3 by (simp add: algebra_simps)
  then have "(limbs_val a * limbs_val b) mod group_order
      = (limbs_val p + two256 * uint p4) mod group_order"
    by (simp only: mod_mult_self2)
  then show "(limbs_val p + two256 * uint p4) mod group_order = (limbs_val a * limbs_val b) mod group_order"
    by (rule sym)
  show "uint p4 < 8" by (rule v3(2))
qed

lemma mul_impl_value: "limbs_val (mul_impl a b) = (limbs_val a * limbs_val b) mod group_order"
proof -
  obtain p p4 where e: "reduce_258 (reduce_385 (mul_512 a b)) = (p, p4)" by (rule prod.exhaust)
  show ?thesis
    by (simp only: mul_impl_def e reduce_256_value [OF mul_reduced(2) [OF e]] mul_reduced(1) [OF e])
qed

lemma uint_not: "uint (NOT (l :: 'a :: len word)) = 2 ^ LENGTH('a) - 1 - uint l"
proof -
  have "uint (NOT l) = (- 1 - uint l) mod 2 ^ LENGTH('a)"
    by (simp add: not_eq_complement uint_word_ariths mod_simps algebra_simps)
      (metis diff_conv_add_uminus add.commute)
  also have "\<dots> = (- 1 - uint l + 2 ^ LENGTH('a)) mod 2 ^ LENGTH('a)"
    by (simp only: mod_add_self2)
  also have "\<dots> = - 1 - uint l + 2 ^ LENGTH('a)"
    using uint_bounds [of l] by (intro mod_pos_pos_trivial) linarith+
  finally show ?thesis by simp
qed

lemma and_all_ones: "(x :: u64) AND 0xFFFFFFFFFFFFFFFF = x"
proof -
  have "(0xFFFFFFFFFFFFFFFF :: u64) = - 1" by simp
  then show ?thesis by (simp only: and.right_neutral)
qed

lemma uint_and_1: "uint ((w :: 'a :: len word) AND 1) = uint w mod 2"
  using uint_and_mask [of w 1] by (simp only: mask_1 power_one_right)

lemma base64_div: "0 \<le> x \<Longrightarrow> x < 18446744073709551616 \<Longrightarrow>
    (x + 18446744073709551616 * y) div 18446744073709551616 = (y :: int)"
  by simp

lemma u128_split:
  "uint (ucast (a :: u128) :: u64) + 18446744073709551616 * uint (drop_bit 64 a) = uint a"
  by (simp add: uint_drop_bit_div uint_ucast_mod)

lemma u128_high_lt: "uint (drop_bit 64 (a :: u128)) < 18446744073709551616"
  using uint_u128 [of a] by (simp add: uint_drop_bit_div)

lemma u128_carry_add:
  "uint (drop_bit 64 (a :: u128) + ((ucast (x :: u64) :: u128) + ucast (y :: u64)))
     = uint (drop_bit 64 a) + uint x + uint y"
  using u128_high_lt [of a] uint_u64 [of x] uint_u64 [of y]
  by (simp add: uint_word_ariths uint_ucast_mod)

lemma negate_value: "scalar_ok s \<Longrightarrow> sval (negate s) = (- sval s) mod group_order"
proof -
  assume ok: "scalar_ok s"
  obtain l0 l1 l2 l3 where s: "s = Scalar (Limbs4 l0 l1 l2 l3)"
    by (metis limbs4.exhaust scalar.exhaust)
  show ?thesis
  proof (cases "is_zero s")
    case True
    then have "negate s = scalar_zero"
      by (simp add: s is_zero_ct_iff ORDER_def scalar_zero_def Let_def del: is_zero.simps is_zero_ct.simps)
    then show ?thesis using True by (simp add: is_zero_iff scalar_zero_def)
  next
    case False
    define n0 n1 n2 n3 :: u64 where "n0 = 0xBFD25E8CD0364141" and "n1 = 0xBAAEDCE6AF48A03B"
      and "n2 = 0xFFFFFFFFFFFFFFFE" and "n3 = 0xFFFFFFFFFFFFFFFF"
    have ord: "ORDER = Limbs4 n0 n1 n2 n3"
      by (simp add: ORDER_def n0_def n1_def n2_def n3_def)
    define t0 where "t0 = (ucast (NOT l0) :: u128) + ucast n0 + 1"
    define t1 where "t1 = drop_bit 64 t0 + ((ucast (NOT l1) :: u128) + ucast n1)"
    define t2 where "t2 = drop_bit 64 t1 + ((ucast (NOT l2) :: u128) + ucast n2)"
    define t3 where "t3 = drop_bit 64 t2 + ((ucast (NOT l3) :: u128) + ucast n3)"
    have r: "negate s = Scalar (Limbs4 (ucast t0) (ucast t1) (ucast t2) (ucast t3))"
      using False
      by (simp add: s is_zero_ct_iff ord t0_def t1_def t2_def t3_def Let_def and_all_ones
          del: is_zero.simps is_zero_ct.simps)
    have u0: "uint t0 = uint (NOT l0) + uint n0 + 1"
      using uint_u64 [of "NOT l0"] uint_u64 [of n0]
      by (simp add: t0_def uint_word_ariths uint_ucast_mod)
    note u1 = u128_carry_add [of t0 "NOT l1" n1, folded t1_def]
    note u2 = u128_carry_add [of t1 "NOT l2" n2, folded t2_def]
    note u3 = u128_carry_add [of t2 "NOT l3" n3, folded t3_def]
    have sv: "sval (negate s) + two256 * uint (drop_bit 64 t3) = two256 + group_order - sval s"
      unfolding r
      using u0 u1 u2 u3 u128_split [of t0] u128_split [of t1] u128_split [of t2] u128_split [of t3]
      by (simp add: s uint_not n0_def n1_def n2_def n3_def)
    have pos: "0 < sval s" "sval s < group_order"
      using False ok limbs_val_bounds [of "scalar_limbs s"] by (auto simp: is_zero_iff scalar_ok_def)
    have "uint (drop_bit 64 t3) - 1 = 0"
      using sv pos limbs_val_bounds [of "scalar_limbs (negate s)"]
      by (intro high_digit_zero [of "sval (negate s)"]) auto
    then have "sval (negate s) = group_order - sval s" using sv by simp
    moreover have "(- sval s) mod group_order = group_order - sval s"
      using pos by (simp add: zmod_zminus1_eq_if)
    ultimately show ?thesis by simp
  qed
qed

lemma negate_var_eq_negate: "scalar_ok s \<Longrightarrow> negate_var s = negate s"
proof (rule sval_inj)
  assume ok: "scalar_ok s"
  show "sval (negate_var s) = sval (negate s)"
  proof (cases "sval s = 0")
    case True
    then show ?thesis
      using ok by (simp add: negate_var_def is_zero_iff negate_value scalar_zero_def)
  next
    case False
    have "limbs_val (sub_impl ORDER (scalar_limbs s)) = group_order - sval s"
      using ok by (simp add: sub_impl_value ORDER_val scalar_ok_def)
    moreover have "(- sval s) mod group_order = group_order - sval s"
      using False ok limbs_val_bounds [of "scalar_limbs s"]
      by (simp add: zmod_zminus1_eq_if scalar_ok_def)
    ultimately show ?thesis
      using False ok by (simp add: negate_var_def is_zero_iff negate_value)
  qed
qed

lemma base64_mod: "0 \<le> x \<Longrightarrow> x < 18446744073709551616 \<Longrightarrow>
    (x + 18446744073709551616 * y) mod 18446744073709551616 = (x :: int)"
  by simp

lemma limb_at_div:
  "i < 4 \<Longrightarrow> uint (limb_at l i) = limbs_val l div 2 ^ (64 * i) mod 18446744073709551616"
proof -
  assume i: "i < 4"
  obtain l0 l1 l2 l3 where l: "l = Limbs4 l0 l1 l2 l3" by (meson limbs4.exhaust)
  note b = uint_u64 [of l0] uint_u64 [of l1] uint_u64 [of l2] uint_u64 [of l3]
  have v0: "limbs_val l = uint l0 + 18446744073709551616 * (uint l1 + 18446744073709551616 *
     (uint l2 + 18446744073709551616 * uint l3))" by (simp add: l)
  have v1: "limbs_val l div 18446744073709551616
      = uint l1 + 18446744073709551616 * (uint l2 + 18446744073709551616 * uint l3)"
    by (simp only: v0 base64_div uint_bounds uint_u64)
  have "limbs_val l div (18446744073709551616 * 18446744073709551616)
      = uint l2 + 18446744073709551616 * uint l3"
    by (subst zdiv_zmult2_eq, simp, simp only: v1 base64_div uint_bounds uint_u64)
  then have v2: "limbs_val l div 340282366920938463463374607431768211456
      = uint l2 + 18446744073709551616 * uint l3" by simp
  have "limbs_val l div (340282366920938463463374607431768211456 * 18446744073709551616) = uint l3"
    by (subst zdiv_zmult2_eq, simp, simp only: v2 base64_div uint_bounds uint_u64)
  then have v3: "limbs_val l div 6277101735386680763835789423207666416102355444464034512896 = uint l3"
    by simp
  have m0: "limbs_val l mod 18446744073709551616 = uint l0"
    by (simp only: v0 base64_mod uint_bounds uint_u64)
  have m1: "limbs_val l div 18446744073709551616 mod 18446744073709551616 = uint l1"
    by (simp only: v1 base64_mod uint_bounds uint_u64)
  have m2: "limbs_val l div 340282366920938463463374607431768211456 mod 18446744073709551616
      = uint l2"
    by (simp only: v2 base64_mod uint_bounds uint_u64)
  have m3: "uint l3 mod 18446744073709551616 = uint l3"
    by (simp add: uint_u64)
  have at: "limb_at l k = [l0, l1, l2, l3] ! k" for k by (simp add: l)
  have "i \<in> {0, 1, 2, 3}" using i by auto
  then show ?thesis
    by (elim insertE) (simp_all add: at m0 m1 m2 m3 v3)
qed

lemma scalar_bit_value:
  "i < 256 \<Longrightarrow> uint (scalar_bit s i) = sval s div 2 ^ i mod 2"
proof -
  assume i: "i < 256"
  let ?l = "scalar_limbs s" and ?q = "i div 64" and ?r = "i mod 64"
  have q: "?q < 4" and r: "?r < 64" using i by auto
  have "uint (scalar_bit s i) = uint (limb_at ?l ?q) div 2 ^ ?r mod 2"
  proof -
    have "scalar_bit s i = ucast (drop_bit ?r (limb_at ?l ?q) AND 1)"
      using i by (simp add: scalar_bit_def)
    then have "uint (scalar_bit s i) = uint (drop_bit ?r (limb_at ?l ?q) AND 1) mod 256"
      by (simp only: uint_ucast_mod) simp
    also have "\<dots> = uint (limb_at ?l ?q) div 2 ^ ?r mod 2 mod 256"
      by (simp only: uint_and_1 uint_drop_bit_div)
    finally show ?thesis by simp
  qed
  also have "\<dots> = sval s div 2 ^ (64 * ?q) mod 2 ^ 64 div 2 ^ ?r mod 2"
    using limb_at_div [OF q, of ?l] by simp
  also have "\<dots> = sval s div 2 ^ (64 * ?q) div 2 ^ ?r mod 2"
  proof -
    have p: "(2 :: int) ^ 64 = 2 ^ ?r * 2 ^ (64 - ?r)"
      using r by (simp flip: power_add)
    have d: "(2 :: int) dvd 2 ^ (64 - ?r)"
      using r by (intro dvd_power) auto
    have "x mod 2 ^ 64 div 2 ^ ?r mod 2 = x div 2 ^ ?r mod (2 :: int)" for x
      unfolding p by (simp add: zmod_zmult2_eq mod_mod_cancel [OF d])
    then show ?thesis .
  qed
  also have "\<dots> = sval s div (2 ^ (64 * ?q) * 2 ^ ?r) mod 2"
    by (simp add: zdiv_zmult2_eq)
  also have "(2 :: int) ^ (64 * ?q) * 2 ^ ?r = 2 ^ i"
    by (simp flip: power_add)
  finally show ?thesis .
qed

section \<open>Properties\<close>

lemma scalar_ok_one: "scalar_ok scalar_one" "sval scalar_one = 1"
  by (simp_all add: scalar_ok_def scalar_one_def ONE_def)

lemma mod_order_bounds: "0 \<le> x mod (group_order :: int)" "x mod group_order < (group_order :: int)"
  by simp_all

text \<open>C26: on canonical scalars the carry-chain addition and subtraction are addition
  and subtraction modulo the group order, and their results are canonical again.\<close>
theorem scalar_add_sub_spec:
  assumes "scalar_ok a" "scalar_ok b"
  shows "sval (scalar_add a b) = (sval a + sval b) mod group_order \<and> scalar_ok (scalar_add a b)
       \<and> sval (scalar_sub a b) = (sval a - sval b) mod group_order \<and> scalar_ok (scalar_sub a b)"
  using assms by (simp add: scalar_ok_def scalar_add_def scalar_sub_def add_impl_mod sub_impl_mod)

theorem scalar_add_sub_spec_witness:
  "sval (scalar_add scalar_one scalar_one) = 2 \<and> sval (scalar_sub scalar_one scalar_one) = 0"
  using scalar_add_sub_spec [OF scalar_ok_one(1) scalar_ok_one(1)] by (simp add: scalar_ok_one)

text \<open>C1: the unrolled 4x4 multiplication with its three complement reductions computes the
  product modulo the group order for every pair of 256-bit inputs, reduced or not, and the result
  is canonical.\<close>
theorem scalar_mul_spec:
  "sval (scalar_mul a b) = (sval a * sval b) mod group_order \<and> scalar_ok (scalar_mul a b)"
  by (simp add: scalar_mul_def mul_impl_value scalar_ok_def)

text \<open>the constant-time negation and the branching one agree on canonical scalars and
  compute the additive inverse modulo the group order (zero for zero).\<close>
theorem scalar_negate_spec:
  assumes "scalar_ok s"
  shows "sval (negate s) = (- sval s) mod group_order \<and> scalar_ok (negate s)
       \<and> negate_var s = negate s \<and> (is_zero (negate s) \<longleftrightarrow> is_zero s)"
proof -
  have v: "sval (negate s) = (- sval s) mod group_order" by (rule negate_value [OF assms])
  have "is_zero (negate s) \<longleftrightarrow> is_zero s"
    using v assms limbs_val_bounds [of "scalar_limbs s"]
    by (simp add: is_zero_iff zmod_zminus1_eq_if scalar_ok_def)
  then show ?thesis
    using v negate_var_eq_negate [OF assms] by (simp add: scalar_ok_def)
qed

theorem scalar_negate_spec_witness:
  "sval (negate scalar_one) = group_order - 1 \<and> negate_var scalar_one = negate scalar_one"
  using scalar_negate_spec [OF scalar_ok_one(1)] by (simp add: scalar_ok_one)

lemma parse_strict_facts:
  assumes "length p = 32"
  shows "(parse_bytes_strict p = Some s \<longleftrightarrow> scalar_ok s \<and> to_bytes s = p)
       \<and> (parse_bytes_strict_le (rev p) = Some s \<longleftrightarrow> scalar_ok s \<and> to_bytes s = p)
       \<and> (parse_bytes_strict_nonzero p = Some s \<longleftrightarrow> scalar_ok s \<and> to_bytes s = p \<and> sval s \<noteq> 0)"
proof -
  have main: "parse_bytes_strict p = Some s \<longleftrightarrow> scalar_ok s \<and> to_bytes s = p" for s
  proof
    assume "parse_bytes_strict p = Some s"
    then have c: "be_val p < group_order" "s = from_bytes p"
      using assms by (auto simp: parse_bytes_strict_iff split: if_splits)
    have "be_val (to_bytes s) = be_val p"
      using c assms by (simp add: be_val_to_bytes from_bytes_value)
    then have "to_bytes s = p" by (rule be_val_inj [rotated]) (simp add: assms)
    then show "scalar_ok s \<and> to_bytes s = p" using c from_bytes_ok by simp
  next
    assume a: "scalar_ok s \<and> to_bytes s = p"
    then have "be_val p = sval s" using be_val_to_bytes [of s] by simp
    then show "parse_bytes_strict p = Some s"
      using a assms from_bytes_to_bytes [of s] by (simp add: parse_bytes_strict_iff scalar_ok_def)
  qed
  moreover have "parse_bytes_strict_le (rev p) = parse_bytes_strict p"
    using parse_bytes_strict_le_rev [of "rev p"] assms by simp
  moreover have "parse_bytes_strict_nonzero p = Some s \<longleftrightarrow>
      parse_bytes_strict p = Some s \<and> sval s \<noteq> 0"
    by (auto simp: parse_bytes_strict_nonzero_def is_zero_iff split: option.splits if_splits)
  ultimately show ?thesis by simp
qed

text \<open>C34: the strict parser accepts a 32-byte string exactly when it is the serialisation of a
  canonical scalar, and returns that scalar; the little-endian variant accepts exactly the reversed
  strings, and the non-zero variant drops zero.\<close>
theorem scalar_parse_strict_iff:
  assumes "length p = 32"
  shows "(parse_bytes_strict p = Some s \<longleftrightarrow> scalar_ok s \<and> to_bytes s = p)
       \<and> (parse_bytes_strict_le (rev p) = Some s \<longleftrightarrow> scalar_ok s \<and> to_bytes s = p)
       \<and> (parse_bytes_strict_nonzero p = Some s \<longleftrightarrow> scalar_ok s \<and> to_bytes s = p \<and> sval s \<noteq> 0)"
  by (rule parse_strict_facts [OF assms])

theorem scalar_parse_strict_iff_witness:
  "parse_bytes_strict (to_bytes scalar_one) = Some scalar_one"
  using scalar_parse_strict_iff [OF length_to_bytes [of scalar_one], of scalar_one] scalar_ok_one by simp

text \<open>reading 32 big-endian bytes reduces their value modulo the group order with the
  branch-free select, and gives a canonical scalar.\<close>
theorem scalar_from_bytes_spec:
  assumes "length p = 32"
  shows "sval (from_bytes p) = be_val p mod group_order \<and> scalar_ok (from_bytes p)"
  using assms by (simp add: from_bytes_value from_bytes_ok)

theorem scalar_from_bytes_spec_witness:
  "sval (from_bytes (be_bytes 32 group_order)) = 0"
  using scalar_from_bytes_spec [of "be_bytes 32 group_order"] by (simp add: be_val_be_bytes)

text \<open>hexadecimal printing and parsing round-trip on canonical scalars; a string of any
  other length than 64 is refused with the exception.\<close>
theorem scalar_hex_roundtrip:
  assumes "scalar_ok s" "length h \<noteq> 64"
  shows "from_hex (to_hex s) = Inr s \<and> length (to_hex s) = 64 \<and>
    from_hex h = Inl (Invalid_argument ''Hex string must be exactly 64 characters (32 bytes)'')"
  using assms hex_roundtrip by (simp add: to_hex_def length_bytes_to_hex from_hex_def)

theorem scalar_hex_roundtrip_witness:
  "from_hex (to_hex scalar_one) = Inr scalar_one"
  using scalar_hex_roundtrip [OF scalar_ok_one(1), of "''''"] by simp

end
