(* ===== verification/Ct_Scalar.thy ===== *)
theory Ct_Scalar
  imports Ct_Ops Scalar
begin

text \<open>
  \<open>ct_scalar.cpp\<close>: the constant-time scalar operations. The carry chains are those of
  \<open>add256_scalar\<close> and \<open>sub256_scalar\<close>, built on the bitwise carry; every branch is a mask. Each
  operation is shown equal to its variable-time counterpart of \<open>scalar.cpp\<close>.
\<close>

section \<open>The carry chains\<close>

definition ct_add_limb :: "u64 \<Rightarrow> u64 \<Rightarrow> u64 \<Rightarrow> u64 \<times> u64" where
  "ct_add_limb a b carry =
     (let sum_lo = a + b;
          c1 = add_carry_u64 a b sum_lo;
          s = sum_lo + carry;
          c2 = add_carry_u64 sum_lo carry s
      in (s, c1 OR c2))"

fun add256_scalar :: "limbs4 \<Rightarrow> limbs4 \<Rightarrow> limbs4 \<times> u64" where
  "add256_scalar (Limbs4 a0 a1 a2 a3) (Limbs4 b0 b1 b2 b3) =
     (let (r0, carry) = ct_add_limb a0 b0 0;
          (r1, carry) = ct_add_limb a1 b1 carry;
          (r2, carry) = ct_add_limb a2 b2 carry;
          (r3, carry) = ct_add_limb a3 b3 carry
      in (Limbs4 r0 r1 r2 r3, carry))"

definition ct_sub_limb :: "u64 \<Rightarrow> u64 \<Rightarrow> u64 \<Rightarrow> u64 \<times> u64" where
  "ct_sub_limb a b borrow =
     (let diff = a - b;
          b1 = sub_borrow_u64 a b diff;
          result = diff - borrow;
          b2 = sub_borrow_u64 diff borrow result
      in (result, b1 OR b2))"

fun sub256_scalar :: "limbs4 \<Rightarrow> limbs4 \<Rightarrow> limbs4 \<times> u64" where
  "sub256_scalar (Limbs4 a0 a1 a2 a3) (Limbs4 b0 b1 b2 b3) =
     (let (r0, borrow) = ct_sub_limb a0 b0 0;
          (r1, borrow) = ct_sub_limb a1 b1 borrow;
          (r2, borrow) = ct_sub_limb a2 b2 borrow;
          (r3, borrow) = ct_sub_limb a3 b3 borrow
      in (Limbs4 r0 r1 r2 r3, borrow))"

section \<open>The operations\<close>

definition ct_scalar_add :: "scalar \<Rightarrow> scalar \<Rightarrow> scalar" where
  "ct_scalar_add a b =
     (let (r, carry) = add256_scalar (scalar_limbs a) (scalar_limbs b);
          (tmp, borrow) = sub256_scalar r ORDER;
          no_borrow = is_zero_mask borrow;
          has_carry = is_nonzero_mask carry;
          msk = no_borrow OR has_carry;
          r = cmov256 r tmp msk
      in from_limbs r)"

definition ct_scalar_sub :: "scalar \<Rightarrow> scalar \<Rightarrow> scalar" where
  "ct_scalar_sub a b =
     (let (r, borrow) = sub256_scalar (scalar_limbs a) (scalar_limbs b);
          tmp = fst (add256_scalar r ORDER);
          msk = is_nonzero_mask borrow;
          r = cmov256 r tmp msk
      in from_limbs r)"

text \<open>The product and its first two reductions are the text of \<open>operator*\<close>; the last one adds
  once and selects by mask.\<close>

definition ct_scalar_mul :: "scalar \<Rightarrow> scalar \<Rightarrow> scalar" where
  "ct_scalar_mul a b =
     (let (p, p4) = reduce_258 (reduce_385 (mul_512 (scalar_limbs a) (scalar_limbs b)));
          (r, hi) = add_k_NC p p4;
          carry_out = (ucast hi :: u64);
          (tmp, borrow) = sub256_scalar r ORDER;
          use_reduced = is_nonzero_mask carry_out OR is_zero_mask borrow;
          r = cmov256 r tmp use_reduced
      in from_limbs r)"

fun ct_scalar_is_zero :: "scalar \<Rightarrow> u64" where
  "ct_scalar_is_zero (Scalar (Limbs4 a0 a1 a2 a3)) = is_zero_mask (a0 OR a1 OR a2 OR a3)"

definition ct_scalar_neg :: "scalar \<Rightarrow> scalar" where
  "ct_scalar_neg a =
     (let r = fst (sub256_scalar ORDER (scalar_limbs a));
          zero_mask = ct_scalar_is_zero a;
          z = Limbs4 0 0 0 0;
          r = cmov256 r z zero_mask
      in from_limbs r)"

definition half_limb :: "u64 \<Rightarrow> u64 \<Rightarrow> u64 \<Rightarrow> u64 \<Rightarrow> u64 \<times> u64" where
  "half_limb odd_bit n a carry =
     (let n_masked = n AND (0 - odd_bit);
          sum_lo = a + n_masked;
          c1 = (if sum_lo < a then 1 else 0);
          s = sum_lo + carry;
          c2 = (if s < sum_lo then 1 else 0)
      in (s, c1 + c2))"

fun ct_scalar_half :: "scalar \<Rightarrow> scalar" where
  "ct_scalar_half (Scalar (Limbs4 a0 a1 a2 a3)) =
     (case ORDER of Limbs4 n0 n1 n2 n3 \<Rightarrow>
      let odd_bit = a0 AND 1;
          (t0, carry) = half_limb odd_bit n0 a0 0;
          (t1, carry) = half_limb odd_bit n1 a1 carry;
          (t2, carry) = half_limb odd_bit n2 a2 carry;
          (t3, carry) = half_limb odd_bit n3 a3 carry
      in from_limbs (Limbs4 (drop_bit 1 t0 OR push_bit 63 t1) (drop_bit 1 t1 OR push_bit 63 t2)
           (drop_bit 1 t2 OR push_bit 63 t3) (drop_bit 1 t3 OR push_bit 63 carry)))"

fun ct_scalar_select :: "scalar \<Rightarrow> scalar \<Rightarrow> u64 \<Rightarrow> scalar" where
  "ct_scalar_select (Scalar (Limbs4 a0 a1 a2 a3)) (Scalar (Limbs4 b0 b1 b2 b3)) msk =
     from_limbs (Limbs4 (ct_select a0 b0 msk) (ct_select a1 b1 msk)
       (ct_select a2 b2 msk) (ct_select a3 b3 msk))"

definition ct_scalar_cmov :: "scalar \<Rightarrow> scalar \<Rightarrow> u64 \<Rightarrow> scalar" where
  "ct_scalar_cmov r a msk = ct_scalar_select a r msk"

fun ct_scalar_cswap :: "scalar \<Rightarrow> scalar \<Rightarrow> u64 \<Rightarrow> scalar \<times> scalar" where
  "ct_scalar_cswap (Scalar (Limbs4 a0 a1 a2 a3)) (Scalar (Limbs4 b0 b1 b2 b3)) msk =
     (let d0 = (a0 XOR b0) AND msk; d1 = (a1 XOR b1) AND msk;
          d2 = (a2 XOR b2) AND msk; d3 = (a3 XOR b3) AND msk
      in (from_limbs (Limbs4 (a0 XOR d0) (a1 XOR d1) (a2 XOR d2) (a3 XOR d3)),
          from_limbs (Limbs4 (b0 XOR d0) (b1 XOR d1) (b2 XOR d2) (b3 XOR d3))))"

definition ct_scalar_cneg :: "scalar \<Rightarrow> u64 \<Rightarrow> scalar" where
  "ct_scalar_cneg a msk = (let neg = ct_scalar_neg a in ct_scalar_select neg a msk)"

fun ct_scalar_eq :: "scalar \<Rightarrow> scalar \<Rightarrow> u64" where
  "ct_scalar_eq (Scalar (Limbs4 a0 a1 a2 a3)) (Scalar (Limbs4 b0 b1 b2 b3)) =
     is_zero_mask ((a0 XOR b0) OR (a1 XOR b1) OR (a2 XOR b2) OR (a3 XOR b3))"

definition HALF_N :: limbs4 where
  "HALF_N = Limbs4 0xDFE92F46681B20A0 0x5D576E7357A4501D 0xFFFFFFFFFFFFFFFF 0x7FFFFFFFFFFFFFFF"

definition ct_scalar_is_high :: "scalar \<Rightarrow> u64" where
  "ct_scalar_is_high a =
     (let (diff, borrow) = sub256_scalar (scalar_limbs a) HALF_N;
          is_eq = (case diff of Limbs4 d0 d1 d2 d3 \<Rightarrow> is_zero_mask (d0 OR d1 OR d2 OR d3));
          no_borrow = is_zero_mask borrow
      in no_borrow AND NOT is_eq)"

text \<open>A signature is the pair of its scalars.\<close>

record ECDSASignature =
  sig_r :: scalar
  sig_s :: scalar

definition ct_normalize_low_s :: "ECDSASignature \<Rightarrow> ECDSASignature" where
  "ct_normalize_low_s sig =
     (let high_mask = ct_scalar_is_high (sig_s sig);
          s_norm = ct_scalar_cneg (sig_s sig) high_mask
      in \<lparr>sig_r = sig_r sig, sig_s = s_norm\<rparr>)"

definition ct_scalar_bit :: "scalar \<Rightarrow> nat \<Rightarrow> u64" where
  "ct_scalar_bit a index =
     (let limb_idx = index div 64;
          bit_idx = index mod 64;
          val = foldl (\<lambda>val i. val OR (limb_at (scalar_limbs a) i AND eq_mask (of_nat i) (of_nat limb_idx)))
                  0 [0..<4]
      in drop_bit bit_idx val AND 1)"

definition ct_scalar_window :: "scalar \<Rightarrow> nat \<Rightarrow> nat \<Rightarrow> u64" where
  "ct_scalar_window a pos width =
     (let limbs = scalar_limbs a;
          limb_idx = pos div 64;
          bit_idx = pos mod 64;
          msk = push_bit width 1 - 1
      in if bit_idx + width \<le> 64 then drop_bit bit_idx (limb_at limbs limb_idx) AND msk
         else
           let lo = drop_bit bit_idx (limb_at limbs limb_idx);
               hi = (if limb_idx + 1 < 4 then limb_at limbs (limb_idx + 1) else 0)
           in (lo OR push_bit (64 - bit_idx) hi) AND msk)"

section \<open>The chains are those of \<open>detail/arith64.hpp\<close>\<close>

lemma ct_add_limb_value:
  assumes "ct_add_limb a b c = (s, c')" "c = 0 \<or> c = 1"
  shows "uint s + 18446744073709551616 * uint c' = uint a + uint b + uint c" "c' = 0 \<or> c' = 1"
proof -
  have s: "s = a + b + c" "c' = add_carry_u64 a b (a + b) OR add_carry_u64 (a + b) c (a + b + c)"
    using assms(1) by (auto simp: ct_add_limb_def Let_def)
  show "c' = 0 \<or> c' = 1" using s(2) by (simp add: add_carry_bit)
  have "uint c \<le> 1" using assms(2) by auto
  then show "uint s + 18446744073709551616 * uint c' = uint a + uint b + uint c"
    using uint_u64 [of a] uint_u64 [of b] unfolding s
    by (auto simp: add_carry_bit uint_plus_if')
qed

lemma ct_sub_limb_value:
  assumes "ct_sub_limb a b c = (s, c')" "c = 0 \<or> c = 1"
  shows "uint s - 18446744073709551616 * uint c' = uint a - uint b - uint c" "c' = 0 \<or> c' = 1"
proof -
  have s: "s = a - b - c" "c' = sub_borrow_u64 a b (a - b) OR sub_borrow_u64 (a - b) c (a - b - c)"
    using assms(1) by (auto simp: ct_sub_limb_def Let_def)
  show "c' = 0 \<or> c' = 1" using s(2) by (simp add: sub_borrow_less)
  have c: "uint c \<le> 1" using assms(2) by auto
  then have "uint c \<le> uint a - uint b + 18446744073709551616"
    using uint_u64 [of b] uint_bounds(1) [of a] by linarith
  with c show "uint s - 18446744073709551616 * uint c' = uint a - uint b - uint c"
    using uint_u64 [of a] uint_u64 [of b] unfolding s
    by (auto simp: sub_borrow_less uint_sub_if' word_less_def)
qed

lemma add256_scalar_value:
  assumes "add256_scalar a b = (s, c)"
  shows "limbs_val s + two256 * uint c = limbs_val a + limbs_val b" and "c = 0 \<or> c = 1"
proof -
  obtain a0 a1 a2 a3 b0 b1 b2 b3 where ab: "a = Limbs4 a0 a1 a2 a3" "b = Limbs4 b0 b1 b2 b3"
    by (meson limbs4.exhaust)
  obtain s0 c0 where e0: "ct_add_limb a0 b0 0 = (s0, c0)" by fastforce
  obtain s1 c1 where e1: "ct_add_limb a1 b1 c0 = (s1, c1)" by fastforce
  obtain s2 c2 where e2: "ct_add_limb a2 b2 c1 = (s2, c2)" by fastforce
  obtain s3 c3 where e3: "ct_add_limb a3 b3 c2 = (s3, c3)" by fastforce
  note v0 = ct_add_limb_value [OF e0, simplified]
  note v1 = ct_add_limb_value [OF e1 v0(2)]
  note v2 = ct_add_limb_value [OF e2 v1(2)]
  note v3 = ct_add_limb_value [OF e3 v2(2)]
  have s: "s = Limbs4 s0 s1 s2 s3" "c = c3" using assms by (simp_all add: ab e0 e1 e2 e3)
  show "c = 0 \<or> c = 1" using v3(2) s by simp
  show "limbs_val s + two256 * uint c = limbs_val a + limbs_val b"
    using v0(1) v1(1) v2(1) v3(1) by (simp add: ab s)
qed

lemma sub256_scalar_value:
  assumes "sub256_scalar a b = (s, c)"
  shows "limbs_val s - two256 * uint c = limbs_val a - limbs_val b" and "c = 0 \<or> c = 1"
proof -
  obtain a0 a1 a2 a3 b0 b1 b2 b3 where ab: "a = Limbs4 a0 a1 a2 a3" "b = Limbs4 b0 b1 b2 b3"
    by (meson limbs4.exhaust)
  obtain s0 c0 where e0: "ct_sub_limb a0 b0 0 = (s0, c0)" by fastforce
  obtain s1 c1 where e1: "ct_sub_limb a1 b1 c0 = (s1, c1)" by fastforce
  obtain s2 c2 where e2: "ct_sub_limb a2 b2 c1 = (s2, c2)" by fastforce
  obtain s3 c3 where e3: "ct_sub_limb a3 b3 c2 = (s3, c3)" by fastforce
  note v0 = ct_sub_limb_value [OF e0, simplified]
  note v1 = ct_sub_limb_value [OF e1 v0(2)]
  note v2 = ct_sub_limb_value [OF e2 v1(2)]
  note v3 = ct_sub_limb_value [OF e3 v2(2)]
  have s: "s = Limbs4 s0 s1 s2 s3" "c = c3" using assms by (simp_all add: ab e0 e1 e2 e3)
  show "c = 0 \<or> c = 1" using v3(2) s by simp
  show "limbs_val s - two256 * uint c = limbs_val a - limbs_val b"
    using v0(1) v1(1) v2(1) v3(1) by (simp add: ab s)
qed

lemma add256_scalar_cases:
  assumes "add256_scalar a b = (s, c)"
  shows "limbs_val s = (if c = 0 then limbs_val a + limbs_val b else limbs_val a + limbs_val b - two256)"
    and "c = 0 \<longleftrightarrow> limbs_val a + limbs_val b < two256"
  using add256_scalar_value [OF assms] limbs_val_bounds [of s] by auto

lemma sub256_scalar_cases:
  assumes "sub256_scalar a b = (s, c)"
  shows "limbs_val s = (if c = 0 then limbs_val a - limbs_val b else limbs_val a - limbs_val b + two256)"
    and "c = 0 \<longleftrightarrow> limbs_val b \<le> limbs_val a"
  using sub256_scalar_value [OF assms] limbs_val_bounds [of s] by auto

section \<open>Values\<close>

lemma from_limbs_sval: "limbs_val l < group_order \<Longrightarrow> sval (from_limbs l) = limbs_val l"
  using limbs_val_bounds [of l] by (simp only: from_limbs_value mod_pos_pos_trivial)

lemma from_limbs_canonical: "scalar_ok (Scalar l) \<Longrightarrow> from_limbs l = Scalar l"
  by (rule sval_inj) (simp add: from_limbs_sval scalar_ok_def)

lemma sval_nonneg [simp]: "0 \<le> sval a"
  using limbs_val_bounds by blast

lemma ct_scalar_add_eq:
  assumes "scalar_ok a" "scalar_ok b"
  shows "ct_scalar_add a b = scalar_add a b"
proof (rule sval_inj)
  obtain r c where r: "add256_scalar (scalar_limbs a) (scalar_limbs b) = (r, c)" by fastforce
  obtain t d where t: "sub256_scalar r ORDER = (t, d)" by fastforce
  note rc = add256_scalar_cases [OF r] and td = sub256_scalar_cases [OF t, unfolded ORDER_val]
  have u: "ct_scalar_add a b = from_limbs (if d = 0 \<or> c \<noteq> 0 then t else r)"
    by (simp add: ct_scalar_add_def r t masks Let_def)
  have lt: "sval a < group_order" "sval b < group_order" using assms by (simp_all add: scalar_ok_def)
  have "limbs_val (if d = 0 \<or> c \<noteq> 0 then t else r) =
      (if sval a + sval b < group_order then sval a + sval b else sval a + sval b - group_order)"
    using rc td lt sval_nonneg [of a] sval_nonneg [of b] by (auto split: if_splits)
  moreover have "sval (scalar_add a b) = (if sval a + sval b < group_order then sval a + sval b
      else sval a + sval b - group_order)"
    using lt sval_nonneg [of a] sval_nonneg [of b] unfolding scalar_add_def
    by (simp add: add_impl_value mod_pos_pos_trivial)
  ultimately show "sval (ct_scalar_add a b) = sval (scalar_add a b)"
    unfolding u using lt sval_nonneg [of a] sval_nonneg [of b] by (subst from_limbs_sval) auto
qed

lemma ct_scalar_sub_eq:
  assumes "scalar_ok a" "scalar_ok b"
  shows "ct_scalar_sub a b = scalar_sub a b"
proof (rule sval_inj)
  obtain r c where r: "sub256_scalar (scalar_limbs a) (scalar_limbs b) = (r, c)" by fastforce
  obtain t d where t: "add256_scalar r ORDER = (t, d)" by fastforce
  note rc = sub256_scalar_cases [OF r] and td = add256_scalar_cases [OF t, unfolded ORDER_val]
  have u: "ct_scalar_sub a b = from_limbs (if c \<noteq> 0 then t else r)"
    by (simp add: ct_scalar_sub_def r t masks Let_def)
  have lt: "sval a < group_order" "sval b < group_order" using assms by (simp_all add: scalar_ok_def)
  then have pos: "0 < group_order + (sval a - sval b)" "sval a - sval b < group_order"
    using sval_nonneg [of a] sval_nonneg [of b] by linarith+
  have "limbs_val (if c \<noteq> 0 then t else r) =
      (if sval b \<le> sval a then sval a - sval b else sval a - sval b + group_order)"
    using rc td lt pos by (auto split: if_splits)
  moreover have "sval (scalar_sub a b) = (if sval b \<le> sval a then sval a - sval b else sval a - sval b + group_order)"
    using lt pos unfolding scalar_sub_def
    by (simp add: sub_impl_value)
  ultimately show "sval (ct_scalar_sub a b) = sval (scalar_sub a b)"
    unfolding u using lt pos by (subst from_limbs_sval) auto
qed

lemma ct_scalar_is_zero_eq: "ct_scalar_is_zero a = mask_of (is_zero a)"
  by (cases a rule: ct_scalar_is_zero.cases) (simp add: masks)

lemma ct_scalar_neg_eq:
  assumes "scalar_ok a"
  shows "ct_scalar_neg a = negate a"
proof (rule sval_inj)
  obtain r c where r: "sub256_scalar ORDER (scalar_limbs a) = (r, c)" by fastforce
  note rc = sub256_scalar_cases [OF r, unfolded ORDER_val]
  have u: "ct_scalar_neg a = from_limbs (if is_zero a then Limbs4 0 0 0 0 else r)"
    by (simp add: ct_scalar_neg_def r masks ct_scalar_is_zero_eq Let_def)
  have lt: "sval a < group_order" using assms by (simp add: scalar_ok_def)
  have v: "limbs_val (if is_zero a then Limbs4 0 0 0 0 else r) = (if sval a = 0 then 0 else group_order - sval a)"
    using rc lt by (auto simp: is_zero_iff)
  have "(- sval a) mod group_order = (if sval a = 0 then 0 else group_order - sval a)"
    using lt sval_nonneg [of a] by (simp add: zmod_zminus1_eq_if mod_pos_pos_trivial)
  with v show "sval (ct_scalar_neg a) = sval (negate a)"
    unfolding u negate_value [OF assms] using lt sval_nonneg [of a] by (subst from_limbs_sval) auto
qed

lemma ct_scalar_mul_eq: "ct_scalar_mul a b = scalar_mul a b"
proof (rule sval_inj)
  obtain p p4 where e: "reduce_258 (reduce_385 (mul_512 (scalar_limbs a) (scalar_limbs b))) = (p, p4)"
    by (rule prod.exhaust)
  obtain r hi where r: "add_k_NC p p4 = (r, hi)" by (rule prod.exhaust)
  obtain t d where t: "sub256_scalar r ORDER = (t, d)" by (rule prod.exhaust)
  note v = add_k_NC_value [OF r] mul_reduced(2) [OF e]
  note td = sub256_scalar_cases [OF t, unfolded ORDER_val]
  define V where "V = limbs_val p + N_C * uint p4"
  have V: "limbs_val r + two256 * uint hi = V" "0 \<le> V" "V < two256 + N_C * 8"
    using v limbs_val_bounds [of p] uint_bounds(1) [of p4] by (simp_all add: V_def)
  have h: "uint hi = 0 \<or> uint hi = 1"
    using V limbs_val_bounds [of r] uint_bounds(1) [of hi] by linarith
  then have c: "(ucast hi :: u64) = 0 \<longleftrightarrow> uint hi = 0"
    by (auto simp: word_uint_eq_iff uint_ucast_mod)
  have u: "ct_scalar_mul a b = from_limbs (if uint hi \<noteq> 0 \<or> d = 0 then t else r)"
    unfolding c [symmetric] by (simp add: ct_scalar_mul_def e r t masks Let_def)
  have x: "limbs_val (if uint hi \<noteq> 0 \<or> d = 0 then t else r)
      = (if V < group_order then V else V - group_order)"
    using h td V limbs_val_bounds [of r] by (elim disjE) (auto split: if_splits)
  have "V mod group_order = (limbs_val p + two256 * uint p4) mod group_order"
  proof -
    have "limbs_val p + two256 * uint p4 = V + group_order * uint p4" by (simp add: V_def)
    then show ?thesis by (simp only: mod_mult_self2)
  qed
  then have m: "V mod group_order = sval (scalar_mul a b)"
    by (simp only: mul_reduced(1) [OF e] scalar_mul_def scalar.sel mul_impl_value)
  have "(if V < group_order then V else V - group_order) = V mod group_order"
  proof (cases "V < group_order")
    case True
    then show ?thesis using V(2) by (simp only: if_True mod_pos_pos_trivial)
  next
    case False
    then have "V mod group_order = (V - group_order) mod group_order" by (simp only: minus_mod_self2)
    also have "\<dots> = V - group_order" using False V by (intro mod_pos_pos_trivial) linarith+
    finally show ?thesis using False by simp
  qed
  with x m show "sval (ct_scalar_mul a b) = sval (scalar_mul a b)"
    unfolding u by (subst from_limbs_sval) (simp_all only: mod_order_bounds)
qed

lemma ct_scalar_select_eq:
  "scalar_ok a \<Longrightarrow> scalar_ok b \<Longrightarrow> ct_scalar_select a b (mask_of c) = (if c then a else b)"
  by (cases a rule: is_zero.cases; cases b rule: is_zero.cases) (simp add: ct_select_of from_limbs_canonical)

lemma ct_scalar_cswap_eq:
  "scalar_ok a \<Longrightarrow> scalar_ok b \<Longrightarrow> ct_scalar_cswap a b (mask_of c) = (if c then (b, a) else (a, b))"
  by (cases a rule: is_zero.cases; cases b rule: is_zero.cases)
    (simp add: mask_of_def xor_back from_limbs_canonical)

lemma ct_scalar_eq_eq: "ct_scalar_eq a b = mask_of (a = b)"
proof -
  have "x XOR y = 0 \<longleftrightarrow> x = y" for x y :: u64 by (auto simp: bit_eq_iff bit_xor_iff)
  then show ?thesis
    by (cases a rule: is_zero.cases; cases b rule: is_zero.cases) (simp add: masks or_eq_0_iff)
qed

lemma ct_scalar_cneg_eq:
  "scalar_ok a \<Longrightarrow> scalar_ok (negate a) \<Longrightarrow> ct_scalar_cneg a (mask_of c) = (if c then negate a else a)"
  by (simp add: ct_scalar_cneg_def ct_scalar_neg_eq ct_scalar_select_eq)

lemma HALF_N_val: "limbs_val HALF_N = (group_order - 1) div 2"
  by (simp add: HALF_N_def)

lemma ct_scalar_is_high_eq: "ct_scalar_is_high a = mask_of ((group_order - 1) div 2 < sval a)"
proof -
  obtain r c where r: "sub256_scalar (scalar_limbs a) HALF_N = (r, c)" by (rule prod.exhaust)
  note rc = sub256_scalar_cases [OF r, unfolded HALF_N_val]
  have z: "(case r of Limbs4 d0 d1 d2 d3 \<Rightarrow> is_zero_mask (d0 OR d1 OR d2 OR d3)) = mask_of (limbs_val r = 0)"
    using ct_scalar_is_zero_eq [of "Scalar r"] is_zero_iff [of "Scalar r"] by (cases r) simp
  show ?thesis
    unfolding ct_scalar_is_high_def Let_def r case_prod_conv z unfolding masks
    by (rule arg_cong [where f = mask_of]) (use rc in auto)
qed

section \<open>Halving\<close>

lemma half_limb_value:
  assumes "half_limb o1 n a c = (s, c')" "o1 = 0 \<or> o1 = 1" "c = 0 \<or> c = 1"
  shows "uint s + 18446744073709551616 * uint c' = uint a + uint o1 * uint n + uint c" "c' = 0 \<or> c' = 1"
proof -
  define m where "m = n AND (0 - o1)"
  have m: "uint m = uint o1 * uint n" using assms(2) by (auto simp: m_def)
  have s: "s = a + m + c" "c' = (if a + m < a then 1 else 0) + (if a + m + c < a + m then 1 else 0)"
    using assms(1) by (auto simp: half_limb_def m_def Let_def)
  have c1: "uint c \<le> 1" using assms(3) by auto
  have o1: "a + m < a \<longleftrightarrow> \<not> uint a + uint m < 18446744073709551616"
    using uint_u64 [of m] by (simp add: word_less_def uint_plus_if')
  have o2: "a + m + c < a + m \<longleftrightarrow> \<not> uint (a + m) + uint c < 18446744073709551616"
    using uint_u64 [of c] by (simp add: word_less_def uint_plus_if' del: uint_word_ariths)
  have d: "uint s = uint a + uint m + uint c - 18446744073709551616 * uint c' \<and> (c' = 0 \<or> c' = 1)"
    using uint_u64 [of a] uint_u64 [of m] c1 unfolding s o1 o2 by (auto simp: uint_plus_if')
  then show "c' = 0 \<or> c' = 1" by blast
  show "uint s + 18446744073709551616 * uint c' = uint a + uint o1 * uint n + uint c"
    using d m by linarith
qed

lemma shift_in_top: "uint (drop_bit 1 (x :: u64) OR push_bit 63 y)
    = uint x div 2 + 9223372036854775808 * (uint y mod 2)"
proof -
  have "drop_bit 1 x AND push_bit 63 y = 0"
    by (rule bit_eqI) (auto simp: bit_simps dest: bit_imp_le_length)
  then have e: "drop_bit 1 x OR push_bit 63 y = drop_bit 1 x + push_bit 63 y"
    by (simp add: disjunctive_add_eq_or)
  have p: "uint (push_bit 63 y) = 9223372036854775808 * (uint y mod 2)"
    by (simp only: unsigned_push_bit_eq take_bit_push_bit) (simp add: push_bit_eq_mult take_bit_eq_mod)
  have "uint x div 2 < 9223372036854775808" using uint_u64 [of x] by linarith
  moreover have "uint y mod 2 \<le> 1" by linarith
  ultimately have "uint (drop_bit 1 x) + uint (push_bit 63 y) < 18446744073709551616"
    unfolding p uint_drop_bit_div power_one_right by linarith
  then show ?thesis
    unfolding e by (simp add: uint_plus_if' p uint_drop_bit_div)
qed

lemma half_sum:
  fixes t0 :: int
  assumes "t0 = 2 * d0 + m0" "t1 = 2 * d1 + m1" "t2 = 2 * d2 + m2" "t3 = 2 * d3 + m3"
  shows "2 * (d0 + 9223372036854775808 * m1 + 18446744073709551616 * (d1 + 9223372036854775808 * m2)
      + 340282366920938463463374607431768211456 * (d2 + 9223372036854775808 * m3)
      + 6277101735386680763835789423207666416102355444464034512896 * (d3 + 9223372036854775808 * c)) + m0
    = t0 + 18446744073709551616 * t1 + 340282366920938463463374607431768211456 * t2
      + 6277101735386680763835789423207666416102355444464034512896 * t3 + two256 * c"
  using assms by simp

text \<open>Adding an odd modulus when the number is odd and shifting the sum right by one.\<close>

lemma half_chain:
  assumes e: "half_limb b n0 a0 0 = (t0, c0)" "half_limb b n1 a1 c0 = (t1, c1)"
      "half_limb b n2 a2 c1 = (t2, c2)" "half_limb b n3 a3 c2 = (t3, c3)"
    and b: "b = a0 AND 1" and n: "limbs_val (Limbs4 n0 n1 n2 n3) = N" "odd N"
  shows "2 * limbs_val (Limbs4 (drop_bit 1 t0 OR push_bit 63 t1) (drop_bit 1 t1 OR push_bit 63 t2)
           (drop_bit 1 t2 OR push_bit 63 t3) (drop_bit 1 t3 OR push_bit 63 c3))
       = limbs_val (Limbs4 a0 a1 a2 a3) + uint b * N" (is "2 * limbs_val ?r = ?a + _")
    and "uint b \<le> 1"
proof -
  have ub: "uint b = uint a0 mod 2" unfolding b by (rule uint_and_1)
  then have b: "b = 0 \<or> b = 1" by (auto simp: word_uint_eq_iff)
  show "uint b \<le> 1" using b by auto
  note v0 = half_limb_value [OF e(1) b, simplified]
  note v1 = half_limb_value [OF e(2) b v0(2)]
  note v2 = half_limb_value [OF e(3) b v1(2)]
  note v3 = half_limb_value [OF e(4) b v2(2)]
  define T where "T = limbs_val (Limbs4 t0 t1 t2 t3) + two256 * uint c3"
  have T: "T = ?a + uint b * N"
  proof (cases "b = 0")
    case True
    then show ?thesis using v0(1) v1(1) v2(1) v3(1) unfolding T_def limbs_val.simps True by simp
  next
    case False
    then have "b = 1" using b by simp
    then show ?thesis
      using v0(1) v1(1) v2(1) v3(1) n(1) unfolding T_def limbs_val.simps \<open>b = 1\<close> by simp
  qed
  have c3: "uint c3 mod 2 = uint c3" using v3(2) by auto
  have sp: "x = 2 * (x div 2) + x mod 2" for x :: int by simp
  have "2 * limbs_val ?r + uint t0 mod 2 = T"
    using half_sum [OF sp sp sp sp, of "uint t0" "uint t1" "uint t2" "uint t3" "uint c3"]
    unfolding T_def limbs_val.simps shift_in_top c3 .
  moreover have "uint t0 mod 2 = 0"
  proof -
    have "uint a0 mod 2 = ?a mod 2" unfolding limbs_val.simps by presburger
    then have "(?a + uint b * N) mod 2 = 0" using ub b n(2) by (elim disjE) (simp_all, presburger)
    moreover have "uint t0 mod 2 = T mod 2" unfolding T_def limbs_val.simps by presburger
    ultimately show ?thesis unfolding T by simp
  qed
  ultimately show "2 * limbs_val ?r = ?a + uint b * N" unfolding T by linarith
qed

lemma ct_scalar_half_value:
  assumes "scalar_ok a"
  shows "scalar_ok (ct_scalar_half a)" "(2 * sval (ct_scalar_half a)) mod group_order = sval a"
proof -
  obtain a0 a1 a2 a3 where a: "a = Scalar (Limbs4 a0 a1 a2 a3)" by (cases a rule: is_zero.cases)
  define b where "b = a0 AND 1"
  obtain n0 n1 n2 n3 where n: "ORDER = Limbs4 n0 n1 n2 n3" by (meson limbs4.exhaust)
  obtain t0 c0 where e0: "half_limb b n0 a0 0 = (t0, c0)" by fastforce
  obtain t1 c1 where e1: "half_limb b n1 a1 c0 = (t1, c1)" by fastforce
  obtain t2 c2 where e2: "half_limb b n2 a2 c1 = (t2, c2)" by fastforce
  obtain t3 c3 where e3: "half_limb b n3 a3 c2 = (t3, c3)" by fastforce
  let ?r = "Limbs4 (drop_bit 1 t0 OR push_bit 63 t1) (drop_bit 1 t1 OR push_bit 63 t2)
           (drop_bit 1 t2 OR push_bit 63 t3) (drop_bit 1 t3 OR push_bit 63 c3)"
  have r: "ct_scalar_half a = from_limbs ?r" using e0 e1 e2 e3 by (simp add: a n b_def)
  have "limbs_val (Limbs4 n0 n1 n2 n3) = group_order" using ORDER_val unfolding n .
  note h = half_chain [OF e0 e1 e2 e3 b_def this, simplified]
  have V: "2 * limbs_val ?r = sval a + uint b * group_order" using h(1) unfolding a scalar.sel by simp
  have lt: "sval a < group_order" using assms by (simp add: scalar_ok_def)
  then have rl: "limbs_val ?r < group_order" using V h(2) by linarith
  show "scalar_ok (ct_scalar_half a)" unfolding r by (rule from_limbs_value)
  show "(2 * sval (ct_scalar_half a)) mod group_order = sval a"
    unfolding r from_limbs_sval [OF rl] V
    using lt sval_nonneg [of a] by (simp only: mod_mult_self1 mod_pos_pos_trivial)
qed

section \<open>Bits and windows\<close>

lemma bit_limb_at: "i < 4 \<Longrightarrow> bit (limb_at l i) k \<longleftrightarrow> k < 64 \<and> bit (limbs_val l) (64 * i + k)"
proof -
  assume "i < 4"
  then have "uint (limb_at l i) = take_bit 64 (drop_bit (64 * i) (limbs_val l))"
    by (simp add: limb_at_div take_bit_eq_mod drop_bit_eq_div)
  then have "bit (uint (limb_at l i)) k \<longleftrightarrow> k < 64 \<and> bit (limbs_val l) (64 * i + k)"
    by (simp add: bit_take_bit_iff bit_drop_bit_eq)
  then show ?thesis by (simp add: bit_uint_iff) (use bit_imp_le_length in fastforce)
qed

lemma high_bits_zero: "256 \<le> k \<Longrightarrow> \<not> bit (limbs_val l) k"
proof -
  assume "256 \<le> k"
  have "take_bit 256 (limbs_val l) = limbs_val l"
    using limbs_val_bounds [of l] by (intro take_bit_int_eq_self) simp_all
  with \<open>256 \<le> k\<close> show ?thesis by (metis bit_take_bit_iff not_less)
qed

lemma ct_scalar_window_value:
  assumes "pos < 256" "width < 64"
  shows "uint (ct_scalar_window a pos width) = sval a div 2 ^ pos mod 2 ^ width"
proof -
  let ?l = "scalar_limbs a"
  define q c where "q = pos div 64" and "c = pos mod 64"
  have q: "q < 4" and b: "c < 64" "pos = 64 * q + c" using assms(1) by (auto simp: q_def c_def)
  have m: "(push_bit width 1 - 1 :: u64) = mask width" by (simp add: mask_eq_exp_minus_1 push_bit_eq_mult)
  have "bit (ct_scalar_window a pos width) k \<longleftrightarrow> k < width \<and> bit (sval a) (pos + k)" for k
  proof (cases "c + width \<le> 64")
    case True
    have w: "ct_scalar_window a pos width = drop_bit c (limb_at ?l q) AND mask width"
      unfolding ct_scalar_window_def Let_def q_def [symmetric] c_def [symmetric] m if_P [OF True] ..
    have "64 * q + (c + k) = pos + k" using b by linarith
    then show ?thesis
      using True assms(2) unfolding w bit_and_iff bit_mask_iff bit_drop_bit_eq
      by (auto simp: bit_limb_at [OF q] possible_bit_def add.assoc)
  next
    case False
    define H where "H = (if q + 1 < 4 then limb_at ?l (q + 1) else 0)"
    have w: "ct_scalar_window a pos width = (drop_bit c (limb_at ?l q) OR push_bit (64 - c) H) AND mask width"
      unfolding ct_scalar_window_def Let_def q_def [symmetric] c_def [symmetric] m H_def [symmetric] if_not_P [OF False] ..
    have e: "64 * q + (c + k) = pos + k" using b by linarith
    consider "k < 64 - c" | "64 - c \<le> k" by linarith
    then show ?thesis
    proof cases
      case 1
      then show ?thesis
        using assms(2) e unfolding w bit_and_iff bit_or_iff bit_mask_iff bit_drop_bit_eq bit_push_bit_iff
        by (auto simp: bit_limb_at [OF q] possible_bit_def add.assoc)
    next
      case 2
      have h: "bit (if q + 1 < 4 then limb_at ?l (q + 1) else 0) (k - (64 - c)) \<longleftrightarrow> bit (sval a) (pos + k)"
        if "k < 64"
      proof (cases "q + 1 < 4")
        case True
        obtain d j where d: "64 - c = d" "c + d = 64" "k = d + j" using 2 b le_Suc_ex by force
        have "64 * (q + 1) + (k - (64 - c)) = pos + k" unfolding d(1,3) b(2) using d(2) by simp
        moreover have "k - (64 - c) < 64" using that by (simp add: less_imp_diff_less)
        ultimately show ?thesis using True bit_limb_at [OF True, of ?l] by simp
      next
        case no: False
        obtain d j where d: "64 - c = d" "c + d = 64" "k = d + j" using 2 b le_Suc_ex by force
        have "q = 3" using no q by simp
        then have "256 \<le> pos + k" unfolding d(3) b(2) using d(2) by simp
        then show ?thesis using no high_bits_zero by simp
      qed
      have lo: "\<not> bit (limb_at ?l q) (c + k)"
        using 2 b bit_imp_le_length [of "limb_at ?l q" "c + k"] by auto
      have "bit (ct_scalar_window a pos width) k \<longleftrightarrow> k < 64 \<and> k < width \<and> bit H (k - (64 - c))"
        using 2 lo unfolding w bit_and_iff bit_or_iff bit_mask_iff bit_drop_bit_eq bit_push_bit_iff
        by (auto simp: possible_bit_def)
      then show ?thesis
        using h [folded H_def] assms(2) less_trans [of k width 64] by blast
    qed
  qed
  note bits = this
  have "uint (ct_scalar_window a pos width) = take_bit width (drop_bit pos (sval a))"
  proof (rule bit_eqI)
    fix k
    have "bit (uint (ct_scalar_window a pos width)) k \<longleftrightarrow> bit (ct_scalar_window a pos width) k"
      using bit_imp_le_length [of "ct_scalar_window a pos width" k] by (auto simp: bit_uint_iff)
    then show "bit (uint (ct_scalar_window a pos width)) k = bit (take_bit width (drop_bit pos (sval a))) k"
      by (simp only: bits bit_take_bit_iff bit_drop_bit_eq o_def)
  qed
  then show ?thesis by (simp add: take_bit_eq_mod drop_bit_eq_div)
qed

lemma ct_scalar_bit_eq:
  assumes "index < 2 ^ 64"
  shows "ct_scalar_bit a index = ucast (scalar_bit a index)"
proof -
  let ?q = "index div 64"
  have q: "?q < 2 ^ 64" using assms by (auto intro: le_less_trans [OF div_le_dividend])
  have e: "eq_mask (of_nat i) (of_nat ?q) = mask_of (i = ?q)" if "i < 4" for i
    using that q by (simp add: eq_mask_of index_eq)
  have "foldl (\<lambda>val i. val OR (limb_at (scalar_limbs a) i AND eq_mask (of_nat i) (of_nat ?q))) 0 [0..<4]
      = (if ?q < 4 then limb_at (scalar_limbs a) ?q else 0)"
  proof (cases "?q < 4")
    case True
    then have "?q = 0 \<or> ?q = 1 \<or> ?q = 2 \<or> ?q = 3" by linarith
    then show ?thesis
      using e [of 0] e [of 1] e [of 2] e [of 3] by (auto simp: upt_rec mask_of_def numeral_2_eq_2 numeral_3_eq_3)
  next
    case False
    then show ?thesis
      using e [of 0] e [of 1] e [of 2] e [of 3] by (auto simp: upt_rec mask_of_def numeral_2_eq_2 numeral_3_eq_3)
  qed
  moreover have "(ucast (ucast (w AND 1 :: u64) :: u8) :: u64) = w AND 1" for w :: u64
    by (rule bit_word_eqI) (auto simp: bit_simps bit_1_iff)
  moreover have "256 \<le> index \<longleftrightarrow> \<not> ?q < 4" by auto
  ultimately show ?thesis
    unfolding ct_scalar_bit_def scalar_bit_def Let_def by simp
qed

lemma normalize_value:
  assumes "scalar_ok (sig_s sig)"
  shows "ct_normalize_low_s sig = \<lparr>sig_r = sig_r sig,
      sig_s = (if (group_order - 1) div 2 < sval (sig_s sig) then negate (sig_s sig) else sig_s sig)\<rparr>"
proof -
  have "scalar_ok (negate (sig_s sig))"
    by (simp only: scalar_ok_def negate_value [OF assms] mod_order_bounds)
  then show ?thesis
    by (simp only: ct_normalize_low_s_def Let_def ct_scalar_is_high_eq ct_scalar_cneg_eq [OF assms])
qed

section \<open>Properties\<close>

text \<open>C27: the constant-time scalar operations compute what their branching counterparts compute: on
  canonical scalars addition, subtraction and negation are the same function, the product is the same
  for all inputs, conditional select, swap and negation follow the mask, the zero and equality tests
  are all-ones masks exactly when they hold, and the half is canonical and doubles back to the scalar.\<close>
theorem ct_scalar_agrees:
  assumes "scalar_ok a" "scalar_ok b"
  shows "ct_scalar_add a b = scalar_add a b \<and> ct_scalar_sub a b = scalar_sub a b
    \<and> ct_scalar_mul a b = scalar_mul a b \<and> ct_scalar_neg a = negate a
    \<and> ct_scalar_select a b (mask_of c) = (if c then a else b)
    \<and> ct_scalar_cmov b a (mask_of c) = (if c then a else b)
    \<and> ct_scalar_cswap a b (mask_of c) = (if c then (b, a) else (a, b))
    \<and> ct_scalar_cneg a (mask_of c) = (if c then negate a else a)
    \<and> ct_scalar_is_zero a = mask_of (sval a = 0) \<and> ct_scalar_eq a b = mask_of (a = b)
    \<and> scalar_ok (ct_scalar_half a) \<and> (2 * sval (ct_scalar_half a)) mod group_order = sval a"
proof -
  have "scalar_ok (negate a)"
    by (simp only: scalar_ok_def negate_value [OF assms(1)] mod_order_bounds)
  then show ?thesis
    using assms by (simp only: ct_scalar_add_eq ct_scalar_sub_eq ct_scalar_mul_eq ct_scalar_neg_eq
        ct_scalar_select_eq ct_scalar_cmov_def ct_scalar_cswap_eq ct_scalar_cneg_eq ct_scalar_is_zero_eq
        is_zero_iff ct_scalar_eq_eq ct_scalar_half_value simp_thms)
qed

theorem ct_scalar_agrees_witness:
  "ct_scalar_add scalar_one scalar_one = scalar_add scalar_one scalar_one"
  using ct_scalar_agrees [OF scalar_ok_one(1) scalar_ok_one(1)] by (rule conjunct1)

text \<open>low-S normalisation keeps \<open>r\<close>, replaces \<open>s\<close> by its negative exactly when it exceeds half the
  group order, always ends in the lower half, and changes nothing the second time.\<close>
theorem ct_normalize_low_s_spec:
  assumes "scalar_ok (sig_s sig)"
  shows "sig_r (ct_normalize_low_s sig) = sig_r sig
    \<and> sval (sig_s (ct_normalize_low_s sig)) =
        (if sval (sig_s sig) \<le> (group_order - 1) div 2 then sval (sig_s sig) else group_order - sval (sig_s sig))
    \<and> sval (sig_s (ct_normalize_low_s sig)) \<le> (group_order - 1) div 2
    \<and> ct_normalize_low_s (ct_normalize_low_s sig) = ct_normalize_low_s sig"
proof -
  let ?s = "sval (sig_s sig)"
  have lt: "?s < group_order" using assms by (simp add: scalar_ok_def)
  have neg: "sval (negate (sig_s sig)) = (- ?s) mod group_order" by (rule negate_value [OF assms])
  have n: "(- ?s) mod group_order = group_order - ?s" if "0 < ?s"
    using that lt by (simp add: zmod_zminus1_eq_if mod_pos_pos_trivial)
  have v: "sval (sig_s (ct_normalize_low_s sig)) =
      (if ?s \<le> (group_order - 1) div 2 then ?s else group_order - ?s)"
    using n by (auto simp: normalize_value [OF assms] neg)
  then have low: "sval (sig_s (ct_normalize_low_s sig)) \<le> (group_order - 1) div 2" by simp
  then have "scalar_ok (sig_s (ct_normalize_low_s sig))" by (simp add: scalar_ok_def)
  from normalize_value [OF this] low have "ct_normalize_low_s (ct_normalize_low_s sig) = ct_normalize_low_s sig"
    by simp
  with v low show ?thesis by (simp add: normalize_value [OF assms])
qed

theorem ct_normalize_low_s_spec_witness:
  "sval (sig_s (ct_normalize_low_s \<lparr>sig_r = scalar_one, sig_s = scalar_one\<rparr>)) = 1"
  using ct_normalize_low_s_spec [of "\<lparr>sig_r = scalar_one, sig_s = scalar_one\<rparr>"] scalar_ok_one by simp

text \<open>a window of up to 63 bits read at any position below 256, also across a limb boundary or past
  the top limb, is that digit of the scalar's value; the masked bit access equals the indexed one for
  every index, those beyond the scalar reading zero.\<close>
theorem ct_scalar_window_spec:
  assumes "pos < 256" "width < 64" "index < 2 ^ 64"
  shows "uint (ct_scalar_window a pos width) = sval a div 2 ^ pos mod 2 ^ width
    \<and> ct_scalar_bit a index = ucast (scalar_bit a index)"
  using ct_scalar_window_value [OF assms(1,2)] ct_scalar_bit_eq [OF assms(3)] by blast

theorem ct_scalar_window_spec_witness:
  "uint (ct_scalar_window (Scalar (Limbs4 0 1 0 0)) 60 6) = 16"
  using ct_scalar_window_spec [of 60 6 0 "Scalar (Limbs4 0 1 0 0)"] by simp

end
