(* ===== verification/U128_Compat.thy ===== *)
theory U128_Compat
  imports Arith64
begin

text \<open>
  The 128-bit accumulator of the 5x52 field kernels (\<open>u128_compat.hpp\<close>): the compiler's
  \<open>unsigned __int128\<close> where it has one, a structure of two 64-bit halves elsewhere. The kernels
  use one set of operations on either; \<open>u128_ops\<close> is that set, \<open>native_u128\<close> and \<open>struct_u128\<close>
  the two builds, and the locale \<open>accumulator\<close> the laws the kernels rest on.
\<close>

section \<open>The operations\<close>

record 'w u128_ops =
  u128_mul :: "u64 \<Rightarrow> u64 \<Rightarrow> 'w"
  u128_accum_mul :: "'w \<Rightarrow> u64 \<Rightarrow> u64 \<Rightarrow> 'w"
  u128_accum_u64 :: "'w \<Rightarrow> u64 \<Rightarrow> 'w"
  u128_low :: "'w \<Rightarrow> u64"
  u128_shr :: "'w \<Rightarrow> nat \<Rightarrow> 'w"

text \<open>The compiler's type. Its right shift is defined in C++ for counts below 128 only, all the code
  uses; \<open>drop_bit\<close> gives 0 beyond.\<close>

definition native_u128 :: "u128 u128_ops" where
  "native_u128 = \<lparr>
     u128_mul = (\<lambda>a b. ucast a * ucast b),
     u128_accum_mul = (\<lambda>r a b. r + ucast a * ucast b),
     u128_accum_u64 = (\<lambda>r a. r + ucast a),
     u128_low = ucast,
     u128_shr = (\<lambda>r n. drop_bit n r) \<rparr>"

datatype u128_compat = U128 (u128_hi: u64) (u128_lo: u64)

definition u128_mul64 :: "u64 \<Rightarrow> u64 \<Rightarrow> u64 \<times> u64" where
  "u128_mul64 a b =
     (let x_lo = a AND 0xFFFFFFFF; x_hi = drop_bit 32 a;
          y_lo = b AND 0xFFFFFFFF; y_hi = drop_bit 32 b;
          p00 = x_lo * y_lo; p01 = x_lo * y_hi; p10 = x_hi * y_lo; p11 = x_hi * y_hi;
          mid = drop_bit 32 p00 + (p01 AND 0xFFFFFFFF) + (p10 AND 0xFFFFFFFF);
          hi = p11 + drop_bit 32 p01 + drop_bit 32 p10 + drop_bit 32 mid
      in ((p00 AND 0xFFFFFFFF) OR push_bit 32 mid, hi))"

definition u128s_mul :: "u64 \<Rightarrow> u64 \<Rightarrow> u128_compat" where
  "u128s_mul a b = (let (lo, hi) = u128_mul64 a b in U128 hi lo)"

definition u128s_accum_mul :: "u128_compat \<Rightarrow> u64 \<Rightarrow> u64 \<Rightarrow> u128_compat" where
  "u128s_accum_mul r a b =
     (let (lo, hi) = u128_mul64 a b;
          r_lo = u128_lo r + lo
      in U128 (u128_hi r + (hi + (if r_lo < lo then 1 else 0))) r_lo)"

definition u128s_accum_u64 :: "u128_compat \<Rightarrow> u64 \<Rightarrow> u128_compat" where
  "u128s_accum_u64 r a =
     (let r_lo = u128_lo r + a in U128 (u128_hi r + (if r_lo < a then 1 else 0)) r_lo)"

definition u128s_shr :: "u128_compat \<Rightarrow> nat \<Rightarrow> u128_compat" where
  "u128s_shr r n =
     (if n = 0 then r
      else if 64 \<le> n then U128 0 (if 128 \<le> n then 0 else drop_bit (n - 64) (u128_hi r))
      else U128 (drop_bit n (u128_hi r)) (drop_bit n (u128_lo r) OR push_bit (64 - n) (u128_hi r)))"

definition struct_u128 :: "u128_compat u128_ops" where
  "struct_u128 = \<lparr> u128_mul = u128s_mul, u128_accum_mul = u128s_accum_mul, u128_accum_u64 = u128s_accum_u64,
     u128_low = u128_lo, u128_shr = u128s_shr \<rparr>"

section \<open>The laws\<close>

abbreviation (input) two128 :: int where
  "two128 \<equiv> 340282366920938463463374607431768211456"

locale accumulator =
  fixes ops :: "'w u128_ops" and val :: "'w \<Rightarrow> int"
  assumes val_bounds: "0 \<le> val r \<and> val r < two128"
    and val_inj: "val r = val s \<Longrightarrow> r = s"
    and val_mul: "val (u128_mul ops a b) = uint a * uint b"
    and val_accum_mul: "val (u128_accum_mul ops r a b) = (val r + uint a * uint b) mod two128"
    and val_accum_u64: "val (u128_accum_u64 ops r a) = (val r + uint a) mod two128"
    and val_low: "uint (u128_low ops r) = val r mod 18446744073709551616"
    and val_shr: "val (u128_shr ops r n) = val r div 2 ^ n"
begin

text \<open>Where the sum fits, an accumulation is exact.\<close>

lemma accum_mul_exact:
  "val r + uint a * uint b < two128 \<Longrightarrow> val (u128_accum_mul ops r a b) = val r + uint a * uint b"
  using val_bounds [of r] by (simp add: val_accum_mul)

lemma accum_u64_exact: "val r + uint a < two128 \<Longrightarrow> val (u128_accum_u64 ops r a) = val r + uint a"
  using val_bounds [of r] by (simp add: val_accum_u64)

lemma low_shr_64: "uint (u128_low ops r) + 18446744073709551616 * val (u128_shr ops r 64) = val r"
  by (simp add: val_low val_shr)

end

lemma u64_mult_bounds: "0 \<le> uint (a :: u64) * uint (b :: u64) \<and> uint a * uint b < two128"
proof -
  have "uint a * uint b \<le> 18446744073709551615 * 18446744073709551615"
    using uint_u64 [of a] uint_u64 [of b] by (intro mult_mono) auto
  then show ?thesis by simp
qed

lemma uint_mult_u128: "uint ((ucast (a :: u64) :: u128) * ucast (b :: u64)) = uint a * uint b"
  using u64_mult_bounds [of a b] uint_u64 [of a] uint_u64 [of b] by (simp add: uint_word_ariths word_int)

interpretation native: accumulator native_u128 uint
proof
  fix r s :: u128 and a b :: u64 and n :: nat
  show "0 \<le> uint r \<and> uint r < two128" using uint_u128 [of r] by simp
  show "uint r = uint s \<Longrightarrow> r = s" by (simp only: word_uint_eq_iff)
  show "uint (u128_mul native_u128 a b) = uint a * uint b" by (simp add: native_u128_def uint_mult_u128)
  show "uint (u128_accum_mul native_u128 r a b) = (uint r + uint a * uint b) mod two128"
    by (simp add: native_u128_def uint_word_ariths(1) [of r] uint_mult_u128)
  show "uint (u128_accum_u64 native_u128 r a) = (uint r + uint a) mod two128"
    using uint_u64 [of a] by (simp add: native_u128_def uint_word_ariths word_int)
  show "uint (u128_low native_u128 r) = uint r mod 18446744073709551616"
    by (simp add: native_u128_def word_int)
  show "uint (u128_shr native_u128 r n) = uint r div 2 ^ n"
    by (simp add: native_u128_def word_int)
qed

text \<open>The structure's value.\<close>

definition u128s_val :: "u128_compat \<Rightarrow> int" where
  "u128s_val r = uint (u128_lo r) + 18446744073709551616 * uint (u128_hi r)"

lemma split_digits:
  fixes x y :: int
  assumes "0 \<le> x" "x < m" "0 \<le> y" "y < m"
  shows "x * y \<le> (m - 1) * (m - 1)" "0 \<le> x * y"
  using assms by (auto intro: mult_mono)

lemma u128_mul64_value:
  assumes "u128_mul64 a b = (lo, hi)"
  shows "uint lo + 18446744073709551616 * uint hi = uint a * uint b"
proof -
  define ah al bh bl where d: "ah = uint a div 4294967296" "al = uint a mod 4294967296"
    "bh = uint b div 4294967296" "bl = uint b mod 4294967296"
  have r: "0 \<le> ah" "ah < 4294967296" "0 \<le> al" "al < 4294967296"
    "0 \<le> bh" "bh < 4294967296" "0 \<le> bl" "bl < 4294967296"
    using uint_u64 [of a] uint_u64 [of b] by (auto simp: d pos_imp_zdiv_nonneg_iff)
  have ab: "uint a = 4294967296 * ah + al" "uint b = 4294967296 * bh + bl" by (simp_all add: d)
  define x_lo x_hi y_lo y_hi where w: "x_lo = a AND 0xFFFFFFFF" "x_hi = drop_bit 32 a"
    "y_lo = b AND 0xFFFFFFFF" "y_hi = drop_bit 32 b"
  have m32: "uint (x AND 0xFFFFFFFF) = uint x mod 4294967296" for x :: u64
    using uint_and_mask [of x 32] by (simp add: mask_eq_exp_minus_1)
  have wv: "uint x_lo = al" "uint x_hi = ah" "uint y_lo = bl" "uint y_hi = bh"
    by (simp_all add: w d m32 word_int)
  have p: "0 \<le> al * bl" "al * bl \<le> 18446744065119617025" "0 \<le> al * bh" "al * bh \<le> 18446744065119617025"
    "0 \<le> ah * bl" "ah * bl \<le> 18446744065119617025" "0 \<le> ah * bh" "ah * bh \<le> 18446744065119617025"
    using r split_digits [of al 4294967296 bl] split_digits [of al 4294967296 bh]
      split_digits [of ah 4294967296 bl] split_digits [of ah 4294967296 bh] by simp_all
  define p00 p01 p10 p11 where q: "p00 = x_lo * y_lo" "p01 = x_lo * y_hi" "p10 = x_hi * y_lo" "p11 = x_hi * y_hi"
  have pv: "uint p00 = al * bl" "uint p01 = al * bh" "uint p10 = ah * bl" "uint p11 = ah * bh"
    using p by (simp_all add: q uint_word_ariths wv)
  define q00 r00 q01 r01 q10 r10 where dd: "q00 = al * bl div 4294967296" "r00 = al * bl mod 4294967296"
    "q01 = al * bh div 4294967296" "r01 = al * bh mod 4294967296"
    "q10 = ah * bl div 4294967296" "r10 = ah * bl mod 4294967296"
  have e: "al * bl = 4294967296 * q00 + r00" "al * bh = 4294967296 * q01 + r01" "ah * bl = 4294967296 * q10 + r10"
    by (simp_all add: dd)
  have rb: "0 \<le> r00" "r00 < 4294967296" "0 \<le> r01" "r01 < 4294967296" "0 \<le> r10" "r10 < 4294967296"
    by (simp_all add: dd)
  have qb: "0 \<le> q00" "q00 < 4294967296" "0 \<le> q01" "q01 < 4294967296" "0 \<le> q10" "q10 < 4294967296"
    using p by (simp_all add: dd pos_imp_zdiv_nonneg_iff)
  define mid where "mid = drop_bit 32 p00 + (p01 AND 0xFFFFFFFF) + (p10 AND 0xFFFFFFFF)"
  have mid: "uint mid = q00 + r01 + r10"
    using qb rb by (simp add: mid_def uint_word_ariths m32 word_int pv dd [symmetric])
  define qm rm where dm: "qm = (q00 + r01 + r10) div 4294967296" "rm = (q00 + r01 + r10) mod 4294967296"
  have em: "q00 + r01 + r10 = 4294967296 * qm + rm" "0 \<le> rm" "rm < 4294967296" by (simp_all add: dm)
  have qm: "0 \<le> qm" "qm < 3" using em qb rb by linarith+
  have v: "uint a * uint b = r00 + rm * 4294967296 + 18446744073709551616 * (ah * bh + q01 + q10 + qm)"
    unfolding ab using e em(1) by (simp add: distrib_left distrib_right)
  have S: "ah * bh + q01 + q10 + qm < 18446744073709551616" 
  proof -
    define T where "T = ah * bh + q01 + q10 + qm"
    have "r00 + rm * 4294967296 + 18446744073709551616 * T < two128"
      using u64_mult_bounds [of a b] by (simp only: v T_def)
    then show ?thesis using rb em unfolding T_def [symmetric] by linarith
  qed
  have hi: "uint (p11 + drop_bit 32 p01 + drop_bit 32 p10 + drop_bit 32 mid) = ah * bh + q01 + q10 + qm"
    using p qb qm S by (simp add: uint_word_ariths word_int pv mid dd [symmetric] dm [symmetric])
  have push: "uint (push_bit 32 mid) = rm * 4294967296"
    using mult_mod_left [of "uint mid" 4294967296 4294967296]
    by (simp add: push_bit_eq_mult uint_word_ariths mid dm)
  have m32': "(0xFFFFFFFF :: u64) = mask 32" by (simp add: mask_eq_exp_minus_1)
  have "(p00 AND 0xFFFFFFFF) AND push_bit 32 mid = 0"
    unfolding m32' by (rule bit_word_eqI) (auto simp: bit_and_iff bit_push_bit_iff bit_mask_iff)
  then have "(p00 AND 0xFFFFFFFF) OR push_bit 32 mid = (p00 AND 0xFFFFFFFF) + push_bit 32 mid"
    by (simp add: disjunctive_add_eq_or)
  then have lo: "uint ((p00 AND 0xFFFFFFFF) OR push_bit 32 mid) = r00 + rm * 4294967296"
    using rb em by (simp add: uint_word_ariths m32 pv dd [symmetric] push)
  have "u128_mul64 a b = ((p00 AND 0xFFFFFFFF) OR push_bit 32 mid,
      p11 + drop_bit 32 p01 + drop_bit 32 p10 + drop_bit 32 mid)"
    unfolding u128_mul64_def Let_def w q mid_def by (rule refl)
  then have "lo = ((p00 AND 0xFFFFFFFF) OR push_bit 32 mid)" "hi = p11 + drop_bit 32 p01 + drop_bit 32 p10 + drop_bit 32 mid"
    using assms by (simp_all only: prod.inject)
  then have "uint lo = r00 + rm * 4294967296" "uint hi = ah * bh + q01 + q10 + qm"
    using lo hi by (simp_all only:)
  then show ?thesis by (simp only: v)
qed

lemma add_carry_u64:
  "uint (x + y :: u64) + 18446744073709551616 * uint (if x + y < y then 1 else 0 :: u64) = uint x + uint y"
  using uint_u64 [of x] uint_u64 [of y] by (auto simp: word_less_def uint_plus_if')

lemma u128s_val_bounds: "0 \<le> u128s_val r \<and> u128s_val r < two128"
  using uint_u64 [of "u128_lo r"] uint_u64 [of "u128_hi r"] by (simp add: u128s_val_def)

lemma digit_mod:
  fixes x y m :: int
  assumes "0 \<le> x" "x < m"
  shows "(x + m * y) mod (m * m) = x + m * (y mod m)"
proof -
  have "(x + m * y) mod (m * m) = m * ((x + m * y) div m mod m) + (x + m * y) mod m"
    using assms by (intro zmod_zmult2_eq) simp
  then show ?thesis using assms by simp
qed

lemma u128s_val_inj:
  assumes "u128s_val r = u128s_val s"
  shows "r = s"
proof -
  have m: "u128s_val t mod 18446744073709551616 = uint (u128_lo t)"
    "u128s_val t div 18446744073709551616 = uint (u128_hi t)" for t
    using uint_u64 [of "u128_lo t"] by (simp_all add: u128s_val_def)
  show ?thesis using m [of r] m [of s] assms by (intro u128_compat.expand) (simp add: word_uint_eq_iff)
qed

lemma u128s_accum_val:
  assumes "uint x = l"
  shows "u128s_val (U128 (u128_hi r + (h + (if u128_lo r + x < x then 1 else 0))) (u128_lo r + x))
    = (u128s_val r + (l + 18446744073709551616 * uint h)) mod two128"
proof -
  let ?B = "18446744073709551616 :: int"
  let ?c = "if u128_lo r + x < x then 1 else 0 :: u64"
  have "u128s_val (U128 (u128_hi r + (h + ?c)) (u128_lo r + x))
      = uint (u128_lo r + x) + ?B * ((uint (u128_hi r) + uint h + uint ?c) mod ?B)"
    by (simp only: u128s_val_def u128_compat.sel uint_word_ariths) (simp add: mod_simps add.assoc)
  also have "\<dots> = (uint (u128_lo r + x) + ?B * (uint (u128_hi r) + uint h + uint ?c)) mod two128"
    using digit_mod [OF uint_bounds(1) uint_u64, of "u128_lo r + x" "uint (u128_hi r) + uint h + uint ?c"]
    by simp
  also have "uint (u128_lo r + x) + ?B * (uint (u128_hi r) + uint h + uint ?c)
      = u128s_val r + (l + ?B * uint h)"
    using add_carry_u64 [of "u128_lo r" x] assms unfolding u128s_val_def by (simp add: distrib_left del: of_nat_add)
  finally show ?thesis .
qed

lemma div_less_of_mult:
  fixes x m n :: int
  assumes "0 < n" "x < n * m"
  shows "x div n < m"
proof (rule ccontr)
  assume "\<not> x div n < m"
  then have "n * m \<le> n * (x div n)" using assms(1) by (intro mult_left_mono) auto
  also have "\<dots> \<le> x" using assms(1) by (simp add: minus_mod_eq_mult_div [symmetric])
  finally show False using assms(2) by simp
qed

lemma u128s_shr_val: "u128s_val (u128s_shr r n) = u128s_val r div 2 ^ n"
proof -
  let ?B = "18446744073709551616 :: int"
  have lo: "0 \<le> uint (u128_lo r)" "uint (u128_lo r) < ?B" using uint_u64 by simp_all
  consider "n = 0" | "0 < n" "n < 64" | "64 \<le> n" by linarith
  then show ?thesis
  proof cases
    case 2
    define m where "m = 64 - n"
    have B: "?B = 2 ^ n * 2 ^ m" using 2 by (simp add: m_def flip: power_add)
    have d: "drop_bit n (u128_lo r) AND push_bit (64 - n) (u128_hi r) = 0"
      by (rule bit_word_eqI) (use 2 in \<open>auto simp: bit_and_iff bit_push_bit_iff bit_drop_bit_eq dest: bit_imp_le_length\<close>)
    have pb: "uint (push_bit m (u128_hi r)) = uint (u128_hi r) mod 2 ^ n * 2 ^ m"
    proof -
      have "uint (push_bit m (u128_hi r)) = uint (u128_hi r) * 2 ^ m mod ?B"
        by (simp only: unsigned_push_bit_eq take_bit_eq_mod) (simp add: push_bit_eq_mult [where 'a = int])
      then show ?thesis by (simp only: B mult_mod_left)
    qed
    define l h where "l = uint (u128_lo r) div 2 ^ n" and "h = uint (u128_hi r)"
    have l: "0 \<le> l" "l < 2 ^ m"
      using lo div_less_of_mult [of "2 ^ n" "uint (u128_lo r)" "2 ^ m"] unfolding B l_def
      by (simp_all add: pos_imp_zdiv_nonneg_iff)
    have "h mod 2 ^ n * 2 ^ m \<le> (2 ^ n - 1) * 2 ^ m" by (intro mult_right_mono) simp_all
    then have "l + h mod 2 ^ n * 2 ^ m < ?B" using l by (simp add: B left_diff_distrib)
    then have "uint (drop_bit n (u128_lo r) OR push_bit m (u128_hi r)) = l + h mod 2 ^ n * 2 ^ m"
      using l d by (simp add: disjunctive_add_eq_or [symmetric] uint_word_ariths word_int pb [unfolded m_def] l_def h_def m_def)
    moreover have "u128s_val r div 2 ^ n = l + 2 ^ m * h"
    proof -
      have "u128s_val r = uint (u128_lo r) + 2 ^ n * (2 ^ m * h)" by (simp add: u128s_val_def B h_def)
      then show ?thesis by (simp add: l_def)
    qed
    moreover have "2 ^ m * h = h mod 2 ^ n * 2 ^ m + ?B * (h div 2 ^ n)"
    proof -
      have "2 ^ m * h = 2 ^ m * (2 ^ n * (h div 2 ^ n) + h mod 2 ^ n)" by simp
      also have "\<dots> = h mod 2 ^ n * 2 ^ m + ?B * (h div 2 ^ n)" unfolding B distrib_left by (simp only: ac_simps)
      finally show ?thesis .
    qed
    ultimately show ?thesis using 2 by (simp add: u128s_shr_def u128s_val_def word_int m_def h_def)
  next
    case 3
    define m where "m = n - 64"
    have n: "(2 :: int) ^ n = ?B * 2 ^ m" using 3 power_add [of "2 :: int" 64 m] by (simp add: m_def)
    have "u128s_val r div 2 ^ n = uint (u128_hi r) div 2 ^ m"
      unfolding n u128s_val_def using lo by (simp add: zdiv_zmult2_eq)
    moreover have "uint (u128_hi r) div 2 ^ m = 0" if "128 \<le> n"
    proof -
      have "?B \<le> 2 ^ m" using that power_increasing [of 64 m "2 :: int"] by (simp add: m_def)
      then show ?thesis using uint_u64 [of "u128_hi r"] by simp
    qed
    ultimately show ?thesis using 3 by (auto simp: u128s_shr_def u128s_val_def word_int m_def)
  qed (simp add: u128s_shr_def)
qed

interpretation struct: accumulator struct_u128 u128s_val
proof
  fix r s :: u128_compat and a b :: u64 and n :: nat
  obtain lo hi where m: "u128_mul64 a b = (lo, hi)" by fastforce
  show "u128s_val r = u128s_val s \<Longrightarrow> r = s" by (rule u128s_val_inj)
  show "0 \<le> u128s_val r \<and> u128s_val r < two128" by (rule u128s_val_bounds)
  show "u128s_val (u128_mul struct_u128 a b) = uint a * uint b"
    using u128_mul64_value [OF m] by (simp add: struct_u128_def u128s_mul_def m u128s_val_def)
  show "u128s_val (u128_accum_mul struct_u128 r a b) = (u128s_val r + uint a * uint b) mod two128"
    using u128_mul64_value [OF m] u128s_accum_val [OF refl, of r hi lo]
    by (simp add: struct_u128_def u128s_accum_mul_def m Let_def)
  show "u128s_val (u128_accum_u64 struct_u128 r a) = (u128s_val r + uint a) mod two128"
    using u128s_accum_val [OF refl, of r 0 a] by (simp add: struct_u128_def u128s_accum_u64_def Let_def)
  show "uint (u128_low struct_u128 r) = u128s_val r mod 18446744073709551616"
    using uint_u64 [of "u128_lo r"] by (simp add: struct_u128_def u128s_val_def)
  show "u128s_val (u128_shr struct_u128 r n) = u128s_val r div 2 ^ n"
    by (simp add: struct_u128_def u128s_shr_val)
qed

definition u128_abs :: "u128_compat \<Rightarrow> u128" where
  "u128_abs r = word_of_int (u128s_val r)"

lemma uint_u128_abs: "uint (u128_abs r) = u128s_val r"
  using u128s_val_bounds [of r] by (simp add: u128_abs_def uint_word_of_int)

text \<open>C28: The structure refines the native type: every operation of the structure is the native
  operation on the values it stands for, wrap-around included, for every shift.\<close>
theorem u128_struct_refines_native:
  "u128_abs (u128_mul struct_u128 a b) = u128_mul native_u128 a b
   \<and> u128_abs (u128_accum_mul struct_u128 r a b) = u128_accum_mul native_u128 (u128_abs r) a b
   \<and> u128_abs (u128_accum_u64 struct_u128 r a) = u128_accum_u64 native_u128 (u128_abs r) a
   \<and> u128_low struct_u128 r = u128_low native_u128 (u128_abs r)
   \<and> u128_abs (u128_shr struct_u128 r n) = u128_shr native_u128 (u128_abs r) n"
  by (simp add: word_uint_eq_iff uint_u128_abs struct.val_mul struct.val_accum_mul struct.val_accum_u64
      struct.val_low struct.val_shr native.val_mul native.val_accum_mul native.val_accum_u64
      native.val_low native.val_shr)

end
