(* ===== verification/Field.thy ===== *)
theory Field
  imports Scalar
begin

text \<open>
  The prime field of \<open>field.cpp\<close> in four 64-bit limbs: addition, subtraction, negation,
  parsing, printing, comparison, and the portable multiplication \<open>reduce (mul_wide (a, b))\<close> (the one
  taken when the assembly is compiled out or the processor lacks its instructions). The integers
  are taken modulo \<open>field_prime\<close>; \<open>fe_ok\<close> is the canonical range. \<open>reduce\<close> drops one carry;
  its value is given for every input, with the exact condition under which it is right.
\<close>

section \<open>The code\<close>

definition MOD_ADJUST :: u64 where
  "MOD_ADJUST = 0x1000003D1"

definition PRIME :: limbs4 where
  "PRIME = Limbs4 0xFFFFFFFEFFFFFC2F 0xFFFFFFFFFFFFFFFF 0xFFFFFFFFFFFFFFFF 0xFFFFFFFFFFFFFFFF"

definition FE_ONE :: limbs4 where
  "FE_ONE = Limbs4 1 0 0 0"

datatype FieldElement = FE (fe_limbs: limbs4)

definition mul64 :: "u64 \<Rightarrow> u64 \<Rightarrow> u64 \<times> u64" where
  "mul64 a b = (let product = (ucast a :: u128) * ucast b in (ucast product, ucast (drop_bit 64 product)))"

definition fe_ge :: "limbs4 \<Rightarrow> limbs4 \<Rightarrow> bool" where
  "fe_ge a b \<longleftrightarrow> snd (limbs_sub a b) = 0"

fun limbs_mask :: "limbs4 \<Rightarrow> u64 \<Rightarrow> limbs4" where
  "limbs_mask (Limbs4 a0 a1 a2 a3) msk = Limbs4 (a0 AND msk) (a1 AND msk) (a2 AND msk) (a3 AND msk)"

fun limbs_xor_select :: "limbs4 \<Rightarrow> limbs4 \<Rightarrow> u64 \<Rightarrow> limbs4" where
  "limbs_xor_select (Limbs4 s0 s1 s2 s3) (Limbs4 r0 r1 r2 r3) msk =
     Limbs4 (s0 XOR ((s0 XOR r0) AND msk)) (s1 XOR ((s1 XOR r1) AND msk))
            (s2 XOR ((s2 XOR r2) AND msk)) (s3 XOR ((s3 XOR r3) AND msk))"

definition fe_sub_impl :: "limbs4 \<Rightarrow> limbs4 \<Rightarrow> limbs4" where
  "fe_sub_impl a b =
     (let (out, borrow) = limbs_sub a b;
          msk = 0 - ucast borrow
      in fst (limbs_add out (limbs_mask PRIME msk)))"

definition fe_add_impl :: "limbs4 \<Rightarrow> limbs4 \<Rightarrow> limbs4" where
  "fe_add_impl a b =
     (let (s, c1) = limbs_add a b;
          (r, c2) = limbs_add s (Limbs4 MOD_ADJUST 0 0 0);
          use_reduced = (ucast (c1 OR c2) :: u64);
          msk = 0 - use_reduced
      in limbs_xor_select s r msk)"

text \<open>\<open>while (carry != 0 && index < N)\<close> of \<open>add_into\<close>.\<close>

function add_into_loop :: "u64 list \<Rightarrow> nat \<Rightarrow> u8 \<Rightarrow> u64 list" where
  "add_into_loop arr index carry =
     (if carry \<noteq> 0 \<and> index < length arr
      then let (s, carry) = add64 (arr ! index) 0 carry
           in add_into_loop (arr[index := s]) (index + 1) carry
      else arr)"
  by pat_completeness auto

termination by (relation "measure (\<lambda>(arr, index, carry). length arr - index)") auto

declare add_into_loop.simps [simp del]

definition add_into :: "u64 list \<Rightarrow> nat \<Rightarrow> u64 \<Rightarrow> u64 list" where
  "add_into arr index val =
     (let (s, carry) = add64 (arr ! index) val 0
      in add_into_loop (arr[index := s]) (index + 1) carry)"

definition mul_add_to :: "u64 list \<Rightarrow> nat \<Rightarrow> u64 \<Rightarrow> u64 \<Rightarrow> u64 list" where
  "mul_add_to acc index a b =
     (let (lo, hi) = mul64 a b in add_into (add_into acc index lo) (index + 1) hi)"

definition mul_wide :: "limbs4 \<Rightarrow> limbs4 \<Rightarrow> u64 list" where
  "mul_wide a b =
     fold (\<lambda>i prod. fold (\<lambda>j prod. mul_add_to prod (i + j) (limb_at a i) (limb_at b j)) [0..<4] prod)
       [0..<4] (replicate 8 0)"

text \<open>One turn of the loop over the high limbs, and one pass over the fifth limb.\<close>

definition reduce_step :: "u64 list \<Rightarrow> nat \<Rightarrow> u64 \<Rightarrow> u64 list" where
  "reduce_step result i hi_limb =
     (if hi_limb = 0 then result
      else
        let (lo977, hi977) = mul64 hi_limb 977;
            acc = (ucast (result ! i) :: u128) + ucast lo977 + ucast (push_bit 32 hi_limb);
            result = result[i := ucast acc];
            carry = (ucast (drop_bit 64 acc) :: u64);
            acc = (ucast (result ! (i + 1)) :: u128) + ucast hi977 + ucast (drop_bit 32 hi_limb) + ucast carry;
            result = result[i + 1 := ucast acc];
            carry = (ucast (drop_bit 64 acc) :: u64)
        in if i + 2 < 5 then
             let acc2 = (ucast (result ! (i + 2)) :: u128) + ucast carry;
                 result = result[i + 2 := ucast acc2];
                 carry2 = (ucast (drop_bit 64 acc2) :: u64)
             in if carry2 \<noteq> 0 \<and> i + 3 < 5 then result[i + 3 := result ! (i + 3) + carry2] else result
           else result)"

definition fold_overflow :: "u64 list \<Rightarrow> u64 \<Rightarrow> u64 list" where
  "fold_overflow result overflow =
     (let trm = (ucast overflow :: u128) * 0x1000003D1;
          acc0 = (ucast (result ! 0) :: u128) + ucast (ucast trm :: u64);
          result = result[0 := ucast acc0];
          acc1 = (ucast (result ! 1) :: u128) + ucast (ucast (drop_bit 64 trm) :: u64)
                 + ucast (ucast (drop_bit 64 acc0) :: u64);
          result = result[1 := ucast acc1];
          carry = (ucast (drop_bit 64 acc1) :: u64)
      in if carry \<noteq> 0 then
           let acc2 = (ucast (result ! 2) :: u128) + ucast carry;
               result = result[2 := ucast acc2];
               carry2 = (ucast (drop_bit 64 acc2) :: u64)
           in if carry2 \<noteq> 0 then
                let acc3 = (ucast (result ! 3) :: u128) + ucast carry2;
                    result = result[3 := ucast acc3];
                    carry3 = (ucast (drop_bit 64 acc3) :: u64)
                in if carry3 \<noteq> 0 then result[4 := result ! 4 + carry3] else result
              else result
         else result)"

primrec overflow_passes :: "nat \<Rightarrow> u64 list \<Rightarrow> u64 list" where
  "overflow_passes 0 result = result"
| "overflow_passes (Suc n) result =
     (let overflow = result ! 4; result = result[4 := 0]
      in if overflow = 0 then result else overflow_passes n (fold_overflow result overflow))"

text \<open>The final subtraction of the prime, selected by mask.\<close>

definition reduce_once :: "limbs4 \<Rightarrow> limbs4" where
  "reduce_once out =
     (let (reduced, borrow) = limbs_sub out PRIME;
          msk = 0 - (ucast (1 - borrow) :: u64)
      in limbs_select msk reduced out)"

definition fe_reduce :: "u64 list \<Rightarrow> limbs4" where
  "fe_reduce t =
     (let result = [t ! 0, t ! 1, t ! 2, t ! 3, 0];
          result = fold (\<lambda>i result. reduce_step result i (t ! (4 + i))) [0..<4] result;
          result = overflow_passes 2 result
      in reduce_once (Limbs4 (result ! 0) (result ! 1) (result ! 2) (result ! 3)))"

definition fe_mul_impl :: "limbs4 \<Rightarrow> limbs4 \<Rightarrow> limbs4" where
  "fe_mul_impl a b = fe_reduce (mul_wide a b)"

definition fe_square_impl :: "limbs4 \<Rightarrow> limbs4" where
  "fe_square_impl a = fe_reduce (mul_wide a a)"

definition fe_normalize :: "limbs4 \<Rightarrow> limbs4" where
  "fe_normalize v =
     (let (reduced, borrow) = limbs_sub v PRIME;
          msk = 0 - (ucast (1 - borrow) :: u64)
      in limbs_xor_select v reduced msk)"

subsection \<open>The class\<close>

definition fe_new :: "limbs4 \<Rightarrow> bool \<Rightarrow> FieldElement" where
  "fe_new limbs normalized = FE (if \<not> normalized then fe_normalize limbs else limbs)"

definition fe_zero :: FieldElement where
  "fe_zero = FE (Limbs4 0 0 0 0)"

definition fe_one :: FieldElement where
  "fe_one = fe_new FE_ONE True"

definition fe_from_u64 :: "u64 \<Rightarrow> FieldElement" where
  "fe_from_u64 v = fe_new (fe_normalize (Limbs4 v 0 0 0)) True"

definition fe_from_limbs :: "limbs4 \<Rightarrow> FieldElement" where
  "fe_from_limbs limbs = FE (fe_normalize limbs)"

definition fe_from_bytes :: "bytes \<Rightarrow> FieldElement" where
  "fe_from_bytes bs =
     (let limbs = load_limbs_be bs;
          limbs = (if fe_ge limbs PRIME then fe_sub_impl limbs PRIME else limbs)
      in fe_new limbs True)"

definition fe_parse_bytes_strict :: "bytes \<Rightarrow> FieldElement option" where
  "fe_parse_bytes_strict bytes32 =
     (let limbs = load_limbs_be bytes32
      in if fe_ge limbs PRIME then None else Some (fe_new limbs True))"

text \<open>The byte loop shifts every limb from its top byte down.\<close>

definition fe_to_bytes :: "FieldElement \<Rightarrow> bytes" where
  "fe_to_bytes a =
     concat (map (\<lambda>i. let limb = limb_at (fe_limbs a) (3 - i)
                       in map (\<lambda>j. ucast (drop_bit (56 - 8 * j) limb)) [0..<8]) [0..<4])"

definition fe_to_hex :: "FieldElement \<Rightarrow> string" where
  "fe_to_hex a = bytes_to_hex (fe_to_bytes a)"

definition fe_from_hex :: "string \<Rightarrow> exn + FieldElement" where
  "fe_from_hex hex =
     (if length hex \<noteq> 64
      then Inl (Invalid_argument ''Hex string must be exactly 64 characters (32 bytes)'')
      else case hex_decode hex of Inl e \<Rightarrow> Inl e | Inr bs \<Rightarrow> Inr (fe_from_bytes bs))"

definition fe_add :: "FieldElement \<Rightarrow> FieldElement \<Rightarrow> FieldElement" where
  "fe_add a b = fe_new (fe_add_impl (fe_limbs a) (fe_limbs b)) True"

definition fe_sub :: "FieldElement \<Rightarrow> FieldElement \<Rightarrow> FieldElement" where
  "fe_sub a b = fe_new (fe_sub_impl (fe_limbs a) (fe_limbs b)) True"

definition fe_times :: "FieldElement \<Rightarrow> FieldElement \<Rightarrow> FieldElement" where
  "fe_times a b = fe_new (fe_mul_impl (fe_limbs a) (fe_limbs b)) True"

definition fe_square :: "FieldElement \<Rightarrow> FieldElement" where
  "fe_square a = fe_new (fe_square_impl (fe_limbs a)) True"

definition fe_neg :: "FieldElement \<Rightarrow> FieldElement" where
  "fe_neg a =
     (case fe_limbs a of Limbs4 l0 l1 l2 l3 \<Rightarrow>
        let r = fst (limbs_sub PRIME (fe_limbs a));
            nonzero = l0 OR l1 OR l2 OR l3;
            msk = 0 - (if nonzero \<noteq> 0 then 1 else 0)
        in fe_new (limbs_mask r msk) True)"

definition fe_eq :: "FieldElement \<Rightarrow> FieldElement \<Rightarrow> bool" where
  "fe_eq a b \<longleftrightarrow> fe_normalize (fe_limbs a) = fe_normalize (fe_limbs b)"

section \<open>Values\<close>

abbreviation (input) field_prime :: int where
  "field_prime \<equiv> 0xFFFFFFFFFFFFFFFFFFFFFFFFFFFFFFFFFFFFFFFFFFFFFFFFFFFFFFFEFFFFFC2F"

abbreviation fval :: "FieldElement \<Rightarrow> int" where
  "fval a \<equiv> limbs_val (fe_limbs a)"

definition fe_ok :: "FieldElement \<Rightarrow> bool" where
  "fe_ok a \<longleftrightarrow> fval a < field_prime"

lemma PRIME_val: "limbs_val PRIME = field_prime"
  by (simp add: PRIME_def)

lemma fe_limbs_new [simp]: "fe_limbs (fe_new l True) = l"
  by (simp add: fe_new_def)

lemma limbs_mask_all: "limbs_mask l (- 1) = l" "limbs_mask l 0 = Limbs4 0 0 0 0"
  by (cases l; simp)+

lemma limbs_xor_select_all: "limbs_xor_select s r (- 1) = r" "limbs_xor_select s r 0 = s"
  by (cases s; cases r; simp)+

lemma borrow_cases:
  "limbs_sub a b = (r, c) \<Longrightarrow> (c = 0 \<and> limbs_val b \<le> limbs_val a \<and> limbs_val r = limbs_val a - limbs_val b)
     \<or> (c = 1 \<and> limbs_val a < limbs_val b \<and> limbs_val r = limbs_val a - limbs_val b + two256)"
proof -
  assume e: "limbs_sub a b = (r, c)"
  note v = limbs_sub_value [OF e]
  have "uint c = 0 \<or> uint c = 1" using v(2) uint_bounds(1) [of c] by linarith
  then show ?thesis
  proof
    assume "uint c = 0"
    then show ?thesis using v limbs_val_bounds [of r] by (simp add: word_uint_eq_iff)
  next
    assume "uint c = 1"
    then show ?thesis using v limbs_val_bounds [of r] by (simp add: word_uint_eq_iff)
  qed
qed

lemma carry_cases:
  "limbs_add a b = (r, c) \<Longrightarrow> (c = 0 \<and> limbs_val r = limbs_val a + limbs_val b)
     \<or> (c = 1 \<and> limbs_val r = limbs_val a + limbs_val b - two256)"
proof -
  assume e: "limbs_add a b = (r, c)"
  note v = limbs_add_value [OF e]
  have "uint c = 0 \<or> uint c = 1" using v(2) uint_bounds(1) [of c] by linarith
  then show ?thesis using v(1) by (auto simp: word_uint_eq_iff)
qed

lemma fe_ge_iff: "fe_ge a b \<longleftrightarrow> limbs_val b \<le> limbs_val a"
proof -
  obtain r c where e: "limbs_sub a b = (r, c)" by fastforce
  show ?thesis using borrow_cases [OF e] by (auto simp: fe_ge_def e)
qed

lemma fe_normalize_value: "limbs_val (fe_normalize l) = limbs_val l mod field_prime"
proof -
  obtain r c where e: "limbs_sub l PRIME = (r, c)" by fastforce
  from borrow_cases [OF e] show ?thesis
  proof
    assume c: "c = 0 \<and> limbs_val PRIME \<le> limbs_val l \<and> limbs_val r = limbs_val l - limbs_val PRIME"
    have "limbs_val l mod field_prime = (limbs_val l - field_prime) mod field_prime" by simp
    also have "\<dots> = limbs_val l - field_prime"
      using c limbs_val_bounds [of l] by (intro mod_pos_pos_trivial) (auto simp: PRIME_val)
    finally show ?thesis using c by (simp add: fe_normalize_def e limbs_xor_select_all PRIME_val)
  next
    assume c: "c = 1 \<and> limbs_val l < limbs_val PRIME \<and> limbs_val r = limbs_val l - limbs_val PRIME + two256"
    then show ?thesis using limbs_val_bounds [of l]
      by (simp add: fe_normalize_def e limbs_xor_select_all PRIME_val)
  qed
qed

lemma reduce_once_normalize: "reduce_once l = fe_normalize l"
proof -
  obtain r c where e: "limbs_sub l PRIME = (r, c)" by fastforce
  from borrow_cases [OF e] show ?thesis
    by (auto simp: reduce_once_def fe_normalize_def e limbs_xor_select_all limbs_select_all)
qed

lemma mod_sub_once: "m \<le> x \<Longrightarrow> x < 2 * m \<Longrightarrow> x mod m = x - (m :: int)"
  using mod_pos_pos_trivial [of "x - m" m] by simp

lemma mod_add_once: "- m \<le> x \<Longrightarrow> x < 0 \<Longrightarrow> x mod m = x + (m :: int)"
  using mod_pos_pos_trivial [of "x + m" m] by simp

lemma fe_add_value:
  assumes "fe_ok a" "fe_ok b"
  shows "fval (fe_add a b) = (fval a + fval b) mod field_prime"
proof -
  obtain s c1 where s: "limbs_add (fe_limbs a) (fe_limbs b) = (s, c1)" by fastforce
  obtain r c2 where r: "limbs_add s (Limbs4 MOD_ADJUST 0 0 0) = (r, c2)" by fastforce
  have k: "limbs_val (Limbs4 MOD_ADJUST 0 0 0) = 0x1000003D1" by (simp add: MOD_ADJUST_def)
  note b = assms [unfolded fe_ok_def] limbs_val_bounds [of "fe_limbs a"] limbs_val_bounds [of "fe_limbs b"]
    limbs_val_bounds [of r] limbs_val_bounds [of s]
  from carry_cases [OF s] carry_cases [OF r] show ?thesis
  proof (elim disjE conjE)
    assume c: "c1 = 0" "c2 = 0" "limbs_val s = fval a + fval b" "limbs_val r = limbs_val s + limbs_val (Limbs4 MOD_ADJUST 0 0 0)"
    then have "fval a + fval b < field_prime" using b k by simp
    then show ?thesis using c b by (simp add: fe_add_def fe_add_impl_def s r limbs_xor_select_all)
  next
    assume c: "c1 = 0" "c2 = 1" "limbs_val s = fval a + fval b"
      "limbs_val r = limbs_val s + limbs_val (Limbs4 MOD_ADJUST 0 0 0) - two256"
    then have "fval a + fval b - field_prime = (fval a + fval b) mod field_prime"
      using b k by (intro mod_sub_once [symmetric]) simp_all
    then show ?thesis using c b k by (simp add: fe_add_def fe_add_impl_def s r limbs_xor_select_all)
  next
    assume c: "c1 = 1" "limbs_val s = fval a + fval b - two256"
      "limbs_val r = limbs_val s + limbs_val (Limbs4 MOD_ADJUST 0 0 0)" "c2 = 0"
    then have "fval a + fval b - field_prime = (fval a + fval b) mod field_prime"
      using b k by (intro mod_sub_once [symmetric]) simp_all
    then show ?thesis using c b k by (simp add: fe_add_def fe_add_impl_def s r limbs_xor_select_all)
  next
    assume c: "c1 = 1" "limbs_val s = fval a + fval b - two256"
      "limbs_val r = limbs_val s + limbs_val (Limbs4 MOD_ADJUST 0 0 0) - two256"
    then show ?thesis using b k by simp
  qed
qed

lemma fe_sub_value:
  assumes "fe_ok a" "fe_ok b"
  shows "fval (fe_sub a b) = (fval a - fval b) mod field_prime"
proof -
  obtain s c1 where s: "limbs_sub (fe_limbs a) (fe_limbs b) = (s, c1)" by fastforce
  obtain r c2 where r: "limbs_add s PRIME = (r, c2)" by fastforce
  note b = assms [unfolded fe_ok_def] limbs_val_bounds [of "fe_limbs a"] limbs_val_bounds [of "fe_limbs b"]
    limbs_val_bounds [of r] limbs_val_bounds [of s] PRIME_val
  from borrow_cases [OF s] show ?thesis
  proof (elim disjE conjE)
    assume c: "c1 = 0" "fval b \<le> fval a" "limbs_val s = fval a - fval b"
    obtain u c3 where "limbs_add s (Limbs4 0 0 0 0) = (u, c3)" by fastforce
    with carry_cases [OF this] limbs_val_bounds [of u] b
    have "limbs_val (fst (limbs_add s (Limbs4 0 0 0 0))) = limbs_val s" by auto
    then show ?thesis using c b by (simp add: fe_sub_def fe_sub_impl_def s limbs_mask_all)
  next
    assume c: "c1 = 1" "fval a < fval b" "limbs_val s = fval a - fval b + two256"
    then have "limbs_val r = fval a - fval b + field_prime" using carry_cases [OF r] b by auto
    moreover have "fval a - fval b + field_prime = (fval a - fval b) mod field_prime"
      using c b by (intro mod_add_once [symmetric]) simp_all
    ultimately show ?thesis using c by (simp add: fe_sub_def fe_sub_impl_def s r limbs_mask_all)
  qed
qed

lemma limbs_val_zero: "limbs_val l = 0 \<longleftrightarrow> l = Limbs4 0 0 0 0"
  using limbs_val_inj [of l "Limbs4 0 0 0 0"] by auto

lemma fe_neg_value:
  assumes "fe_ok a"
  shows "fval (fe_neg a) = (- fval a) mod field_prime"
proof (cases "fval a = 0")
  case True
  then show ?thesis by (simp add: fe_neg_def limbs_val_zero limbs_mask_all)
next
  case False
  obtain r c where r: "limbs_sub PRIME (fe_limbs a) = (r, c)" by fastforce
  have v: "limbs_val r = field_prime - fval a"
    using borrow_cases [OF r] assms by (auto simp: fe_ok_def PRIME_val)
  obtain l0 l1 l2 l3 where l: "fe_limbs a = Limbs4 l0 l1 l2 l3" by (cases "fe_limbs a")
  have "\<not> (l0 OR l1 OR l2 OR l3 = 0)" using False by (auto simp: l or_eq_0_iff)
  then have "fe_neg a = fe_new r True" by (simp add: fe_neg_def l r [unfolded l] limbs_mask_all)
  moreover have "- fval a mod field_prime = - fval a + field_prime"
    using assms False limbs_val_bounds [of "fe_limbs a"] by (intro mod_add_once) (auto simp: fe_ok_def)
  ultimately show ?thesis using v by simp
qed

section \<open>Multiplication\<close>

primrec wval :: "u64 list \<Rightarrow> int" where
  "wval [] = 0"
| "wval (x # xs) = uint x + 18446744073709551616 * wval xs"

lemma wval_bounds: "0 \<le> wval xs \<and> wval xs < 18446744073709551616 ^ length xs"
proof (induction xs)
  case (Cons x xs)
  let ?B = "18446744073709551616 :: int"
  have "wval xs \<le> ?B ^ length xs - 1" using Cons by simp
  moreover have "uint x \<le> ?B - 1" using uint_u64 [of x] by simp
  ultimately have "wval (x # xs) \<le> ?B * ?B ^ length xs - 1" by simp
  then show ?case using Cons by simp
qed simp

lemma wval_update:
  "i < length xs \<Longrightarrow> wval (xs[i := y]) = wval xs + (uint y - uint (xs ! i)) * 18446744073709551616 ^ i"
proof (induction xs arbitrary: i)
  case (Cons x xs)
  show ?case
  proof (cases i)
    case (Suc k)
    then have k: "k < length xs" using Cons.prems by simp
    show ?thesis unfolding Suc by (simp only: list_update_code wval.simps Cons.IH [OF k] nth_Cons_Suc power_Suc)
      (simp add: algebra_simps)
  qed (simp add: algebra_simps)
qed simp

lemma length_add_into_loop [simp]: "length (add_into_loop arr i c) = length arr"
  by (induction arr i c rule: add_into_loop.induct)
    (subst add_into_loop.simps, auto split: prod.split)

lemma mul64_value: "mul64 a b = (lo, hi) \<Longrightarrow> uint lo + 18446744073709551616 * uint hi = uint a * uint b"
proof -
  have le: "uint a * uint b \<le> 18446744073709551615 * 18446744073709551615"
    using uint_u64 [of a] uint_u64 [of b] by (intro mult_mono) auto
  then have "uint ((ucast a :: u128) * ucast b) = uint a * uint b"
    using uint_u64 [of a] uint_u64 [of b] by (simp add: uint_word_ariths word_int)
  moreover have "uint a * uint b div 18446744073709551616 < 18446744073709551616"
    "0 \<le> uint a * uint b div 18446744073709551616" using le by (linarith, simp add: pos_imp_zdiv_nonneg_iff)
  moreover assume "mul64 a b = (lo, hi)"
  ultimately show ?thesis by (auto simp: mul64_def Let_def word_int)
qed

lemma add_into_loop_value:
  "c = 0 \<or> c = 1 \<Longrightarrow> wval (add_into_loop arr i c)
     = (wval arr + uint c * 18446744073709551616 ^ i) mod 18446744073709551616 ^ length arr"
proof (induction arr i c rule: add_into_loop.induct)
  case (1 arr i c)
  let ?B = "18446744073709551616 :: int"
  show ?case
  proof (cases "c \<noteq> 0 \<and> i < length arr")
    case True
    obtain s c' where s: "add64 (arr ! i) 0 c = (s, c')" by fastforce
    have c: "c = 1" using True 1 by simp
    have v: "uint s + ?B * uint c' = uint (arr ! i) + 1" "uint c' \<le> 1"
      using add64_value [OF s] c by simp_all
    then have "uint c' = 0 \<or> uint c' = 1" using uint_bounds(1) [of c'] by linarith
    then have c': "c' = 0 \<or> c' = 1" by (simp add: word_uint_eq_iff)
    have "wval (add_into_loop arr i c) = wval (add_into_loop (arr[i := s]) (i + 1) c')"
      using True by (subst add_into_loop.simps) (simp add: s)
    also have "\<dots> = (wval (arr[i := s]) + uint c' * ?B ^ (i + 1)) mod ?B ^ length arr"
      using 1(1) [OF True s [symmetric] refl c'] by simp
    also have "wval (arr[i := s]) + uint c' * ?B ^ (i + 1) = wval arr + ?B ^ i"
    proof -
      have "uint s = uint (arr ! i) + 1 - ?B * uint c'" using v by simp
      with True show ?thesis by (simp only: wval_update) (simp add: left_diff_distrib)
    qed
    finally show ?thesis by (simp add: c)
  next
    case False
    then have e: "add_into_loop arr i c = arr" by (subst add_into_loop.simps) auto
    show ?thesis
    proof (cases "c = 0")
      case True
      then show ?thesis unfolding e using wval_bounds [of arr] by simp
    next
      case c: False
      then have "?B ^ length arr dvd uint c * ?B ^ i" using False by (intro dvd_mult le_imp_power_dvd) simp
      then show ?thesis using wval_bounds [of arr] unfolding e by (simp add: mod_add_eq [symmetric])
    qed
  qed
qed

lemma length_add_into [simp]: "length (add_into arr i v) = length arr"
  by (simp add: add_into_def split: prod.split)

lemma add_into_value:
  assumes "i < length arr"
  shows "wval (add_into arr i v)
    = (wval arr + uint v * 18446744073709551616 ^ i) mod 18446744073709551616 ^ length arr"
proof -
  let ?B = "18446744073709551616 :: int"
  obtain s c where s: "add64 (arr ! i) v 0 = (s, c)" by fastforce
  have v: "uint s + ?B * uint c = uint (arr ! i) + uint v" "uint c \<le> 1"
    using add64_value [OF s] by simp_all
  then have "uint c = 0 \<or> uint c = 1" using uint_bounds(1) [of c] by linarith
  then have "wval (add_into arr i v) = (wval (arr[i := s]) + uint c * ?B ^ (i + 1)) mod ?B ^ length arr"
    by (simp add: add_into_def s add_into_loop_value word_uint_eq_iff)
  also have "wval (arr[i := s]) + uint c * ?B ^ (i + 1) = wval arr + uint v * ?B ^ i"
  proof -
    have "uint s = uint (arr ! i) + uint v - ?B * uint c" using v by simp
    with assms show ?thesis by (simp only: wval_update) (simp add: algebra_simps)
  qed
  finally show ?thesis .
qed

lemma length_mul_add_to [simp]: "length (mul_add_to acc i a b) = length acc"
  by (simp add: mul_add_to_def split: prod.split)

lemma mul_add_to_value:
  assumes "i + 1 < length acc"
  shows "wval (mul_add_to acc i a b)
    = (wval acc + uint a * uint b * 18446744073709551616 ^ i) mod 18446744073709551616 ^ length acc"
proof -
  let ?B = "18446744073709551616 :: int"
  obtain lo hi where m: "mul64 a b = (lo, hi)" by fastforce
  have "wval (mul_add_to acc i a b) = (wval acc + uint lo * ?B ^ i + uint hi * ?B ^ (i + 1)) mod ?B ^ length acc"
    using assms by (simp add: mul_add_to_def m add_into_value mod_simps)
  also have "wval acc + uint lo * ?B ^ i + uint hi * ?B ^ (i + 1) = wval acc + (uint lo + ?B * uint hi) * ?B ^ i"
    by (simp add: algebra_simps)
  finally show ?thesis by (simp only: mul64_value [OF m])
qed

lemma limbs_val_mult_bounds: "0 \<le> limbs_val a * limbs_val b \<and> limbs_val a * limbs_val b < two256 * two256"
  using limbs_val_bounds [of a] limbs_val_bounds [of b] mult_mono [of "limbs_val a" "two256 - 1" "limbs_val b" "two256 - 1"]
  by simp

lemma mul_wide_value: "wval (mul_wide a b) = limbs_val a * limbs_val b" "length (mul_wide a b) = 8"
proof -
  have u: "[0..<4] = [0, 1, 2, 3 :: nat]" by (simp add: upt_conv_Cons)
  show "length (mul_wide a b) = 8" by (simp add: mul_wide_def u)
  obtain a0 a1 a2 a3 where a: "a = Limbs4 a0 a1 a2 a3" by (cases a)
  obtain b0 b1 b2 b3 where b: "b = Limbs4 b0 b1 b2 b3" by (cases b)
  let ?B = "18446744073709551616 :: int"
  have z: "wval (replicate 8 0) = 0" by (simp add: eval_nat_numeral)
  have "wval (mul_wide a b) = (limbs_val a * limbs_val b) mod ?B ^ 8"
    unfolding mul_wide_def u a b
    by (simp add: mul_add_to_value z mod_simps) (simp add: algebra_simps)
  also have "\<dots> = limbs_val a * limbs_val b"
    using limbs_val_mult_bounds [of a b] by simp
  finally show "wval (mul_wide a b) = limbs_val a * limbs_val b" .
qed

section \<open>Reduction\<close>

text \<open>The two accumulations of a turn, from limbs \<open>x\<close> and \<open>y\<close> and the high limb \<open>h\<close>.\<close>

lemma step_words:
  fixes x y h lo hi :: u64
  assumes m: "mul64 h 977 = (lo, hi)"
    and a0: "a0 = (ucast x :: u128) + ucast lo + ucast (push_bit 32 h)"
    and a1: "a1 = (ucast y :: u128) + ucast hi + ucast (drop_bit 32 h) + ucast (ucast (drop_bit 64 a0) :: u64)"
  shows "uint (ucast a0 :: u64) + 18446744073709551616 * uint (ucast a1 :: u64)
      + 340282366920938463463374607431768211456 * uint (ucast (drop_bit 64 a1) :: u64)
      = uint x + 18446744073709551616 * uint y + uint h * 0x1000003D1"
    and "uint (ucast (drop_bit 64 a1) :: u64) \<le> 1"
proof -
  let ?B = "18446744073709551616 :: int"
  define s where "s = uint x + uint lo + uint (push_bit 32 h)"
  have p: "uint (push_bit 32 h) = uint h mod 4294967296 * 4294967296"
    using mult_mod_left [of "uint h" 4294967296 4294967296]
    by (simp add: push_bit_eq_mult uint_word_ariths)
  have d: "uint (drop_bit 32 h) = uint h div 4294967296" by (simp add: word_int)
  have hd: "0 \<le> uint h div 4294967296" "uint h div 4294967296 < 4294967296" "0 \<le> uint h"
    using uint_u64 [of h] by (simp_all add: pos_imp_zdiv_nonneg_iff)
  have mv: "uint lo + ?B * uint hi = uint h * 977" using mul64_value [OF m] by simp
  have hi: "uint hi < 977" using mv uint_u64 [of h] uint_bounds(1) [of lo] by linarith
  note b = uint_u64 [of x] uint_u64 [of y] uint_u64 [of lo] uint_u64 [of "push_bit 32 h"]
    uint_bounds(1) [of x] uint_bounds(1) [of y] uint_bounds(1) [of lo] uint_bounds(1) [of hi]
    uint_bounds(1) [of "push_bit 32 h"]
  have s: "0 \<le> s" "s < 3 * ?B" using b by (simp_all add: s_def)
  have u0: "uint a0 = s" using b s by (simp add: a0 s_def uint_word_ariths word_int)
  have sd: "0 \<le> s div ?B" "s div ?B < 3" using s by (simp add: pos_imp_zdiv_nonneg_iff, linarith)
  have c0: "uint (ucast (drop_bit 64 a0) :: u64) = s div ?B" using sd by (simp add: word_int u0)
  define t where "t = uint y + uint hi + uint h div 4294967296 + s div ?B"
  have t: "0 \<le> t" "t < 2 * ?B" using b hi hd sd by (simp_all add: t_def)
  have u1: "uint a1 = t"
    using b t hi hd sd by (simp add: a1 t_def uint_word_ariths word_int u0)
  have td: "0 \<le> t div ?B" "t div ?B \<le> 1" using t by (simp add: pos_imp_zdiv_nonneg_iff, linarith)
  then have c1: "uint (ucast (drop_bit 64 a1) :: u64) = t div ?B" by (simp add: word_int u1)
  show "uint (ucast (drop_bit 64 a1) :: u64) \<le> 1" using c1 td by simp
  have "uint (ucast a0 :: u64) + ?B * uint (ucast a1 :: u64)
      + 340282366920938463463374607431768211456 * uint (ucast (drop_bit 64 a1) :: u64)
    = s mod ?B + ?B * (t mod ?B) + 340282366920938463463374607431768211456 * (t div ?B)"
    by (simp only: c1) (simp add: word_int u0 u1)
  also have "\<dots> = s mod ?B + ?B * t"     unfolding minus_mult_div_eq_mod [of t ?B, symmetric] by (simp add: right_diff_distrib del: minus_mult_div_eq_mod)
  also have "\<dots> = s + ?B * (uint y + uint hi + uint h div 4294967296)"
    unfolding t_def minus_mult_div_eq_mod [of s ?B, symmetric] by (simp add: distrib_left del: minus_mult_div_eq_mod)
  also have "\<dots> = uint x + ?B * uint y + uint h * 0x1000003D1"
  proof -
    have "uint lo = uint h * 977 - ?B * uint hi" using mv by simp
    then show ?thesis unfolding s_def p minus_mult_div_eq_mod [of "uint h" 4294967296, symmetric]
      by (simp add: algebra_simps del: minus_mult_div_eq_mod)
  qed
  finally show "uint (ucast a0 :: u64) + ?B * uint (ucast a1 :: u64)
      + 340282366920938463463374607431768211456 * uint (ucast (drop_bit 64 a1) :: u64)
    = uint x + ?B * uint y + uint h * 0x1000003D1" .
qed

text \<open>The four turns on five limbs. The first one drops the carry out of limb 3.\<close>

lemma length_reduce_step [simp]: "length (reduce_step r i h) = length r"
  by (simp add: reduce_step_def Let_def split: prod.split)

lemma uint_01: "uint (w :: u64) \<le> 1 \<Longrightarrow> uint w = 0 \<or> uint w = 1"
  using uint_bounds(1) [of w] by linarith

lemma carry_limb:
  fixes x c :: u64
  assumes "uint c \<le> 1" "a = (ucast x :: u128) + ucast c"
  shows "uint (ucast a :: u64) + 18446744073709551616 * uint (ucast (drop_bit 64 a) :: u64) = uint x + uint c"
    and "uint (ucast (drop_bit 64 a) :: u64) \<le> uint c"
proof -
  have a: "uint a = uint x + uint c"
    using assms uint_u64 [of x] uint_bounds(1) [of x] uint_bounds(1) [of c] by (simp add: uint_word_ariths word_int)
  have "0 \<le> (uint x + uint c) div 18446744073709551616" using uint_bounds(1) [of x] uint_bounds(1) [of c]
    by (simp add: pos_imp_zdiv_nonneg_iff)
  moreover have "(uint x + uint c) div 18446744073709551616 \<le> uint c"
    using assms(1) uint_u64 [of x] uint_bounds(1) [of c] by linarith
  ultimately show "uint (ucast (drop_bit 64 a) :: u64) \<le> uint c"
    "uint (ucast a :: u64) + 18446744073709551616 * uint (ucast (drop_bit 64 a) :: u64) = uint x + uint c"
    using assms(1) by (simp_all add: word_int a)
qed

lemma wval_4: "wval [a, b, c, d] = limbs_val (Limbs4 a b c d)"
  by simp

lemma reduce_step_0:
  "wval (reduce_step [r0, r1, r2, r3, 0] 0 h) = (wval [r0, r1, r2, r3] + uint h * 0x1000003D1) mod two256"
  (is "?l = ?r mod _")
proof (cases "h = 0")
  case True
  then show ?thesis using limbs_val_bounds [of "Limbs4 r0 r1 r2 r3"] by (simp add: reduce_step_def)
next
  case False
  obtain lo hi where m: "mul64 h 977 = (lo, hi)" by fastforce
  define a0 where "a0 = (ucast r0 :: u128) + ucast lo + ucast (push_bit 32 h)"
  define a1 where "a1 = (ucast r1 :: u128) + ucast hi + ucast (drop_bit 32 h) + ucast (ucast (drop_bit 64 a0) :: u64)"
  define c where "c = (ucast (drop_bit 64 a1) :: u64)"
  define a2 where "a2 = (ucast r2 :: u128) + ucast c"
  define c2 where "c2 = (ucast (drop_bit 64 a2) :: u64)"
  note w = step_words [OF m a0_def a1_def, folded c_def]
  note w2 = carry_limb [OF w(2) a2_def, folded c2_def]
  have e: "reduce_step [r0, r1, r2, r3, 0] 0 h = [ucast a0, ucast a1, ucast a2, r3 + c2, 0]"
    using False by (simp add: reduce_step_def m a0_def a1_def a2_def c_def c2_def Let_def)
  have "uint c2 \<le> 1" using w(2) w2(2) by linarith
  then have r3: "uint (r3 + c2) = uint r3 + uint c2 \<or> uint (r3 + c2) = uint r3 + uint c2 - 18446744073709551616"
    by (simp add: uint_plus_if')
  then have "?l = ?r \<or> ?l = ?r - two256" unfolding e using w(1) w2(1) by (elim disjE) simp_all
  moreover have "0 \<le> ?l" "?l < two256"
    using wval_bounds [of "[ucast a0, ucast a1, ucast a2, r3 + c2]"] by (simp_all add: e)
  ultimately show ?thesis by (elim disjE) (simp_all add: mod_sub_once)
qed

abbreviation (input) two320 :: int where
  "two320 \<equiv> 0x100000000000000000000000000000000000000000000000000000000000000000000000000000000"

lemma mod_eqI: "l = r - k * m \<Longrightarrow> 0 \<le> l \<Longrightarrow> l < m \<Longrightarrow> l = r mod (m :: int)"
  by (metis add_diff_cancel_left' diff_add_cancel mod_mult_self1 mod_pos_pos_trivial mult.commute)

lemma wval_5_bounds: "0 \<le> wval [a, b, c, d, e]" "wval [a, b, c, d, e] < two320"
  using wval_bounds [of "[a, b, c, d, e]"] by simp_all

lemma reduce_step_1:
  "wval (reduce_step [r0, r1, r2, r3, r4] 1 h)
     = (wval [r0, r1, r2, r3, r4] + uint h * 0x1000003D1 * 18446744073709551616) mod two320"
  (is "?l = ?r mod _")
proof (cases "h = 0")
  case True
  then show ?thesis using wval_5_bounds [of r0 r1 r2 r3 r4] by (simp add: reduce_step_def)
next
  case False
  obtain lo hi where m: "mul64 h 977 = (lo, hi)" by fastforce
  define a0 where "a0 = (ucast r1 :: u128) + ucast lo + ucast (push_bit 32 h)"
  define a1 where "a1 = (ucast r2 :: u128) + ucast hi + ucast (drop_bit 32 h) + ucast (ucast (drop_bit 64 a0) :: u64)"
  define c where "c = (ucast (drop_bit 64 a1) :: u64)"
  define a2 where "a2 = (ucast r3 :: u128) + ucast c"
  define c2 where "c2 = (ucast (drop_bit 64 a2) :: u64)"
  note w = step_words [OF m a0_def a1_def, folded c_def]
  note w2 = carry_limb [OF w(2) a2_def, folded c2_def]
  have e: "reduce_step [r0, r1, r2, r3, r4] 1 h = [r0, ucast a0, ucast a1, ucast a2, r4 + c2]"
    using False by (simp add: reduce_step_def m a0_def a1_def a2_def c_def c2_def Let_def)
  have "uint (r4 + c2) = uint r4 + uint c2 \<or> uint (r4 + c2) = uint r4 + uint c2 - 18446744073709551616"
    by (simp add: uint_plus_if')
  then have "?l = ?r - 0 * two320 \<or> ?l = ?r - 1 * two320"
    unfolding e using w(1) w2(1) by (elim disjE) simp_all
  then show ?thesis using mod_eqI [of ?l ?r _ two320] wval_5_bounds by (metis e)
qed

lemma reduce_step_2:
  "wval (reduce_step [r0, r1, r2, r3, r4] 2 h)
     = (wval [r0, r1, r2, r3, r4] + uint h * 0x1000003D1 * 340282366920938463463374607431768211456) mod two320"
  (is "?l = ?r mod _")
proof (cases "h = 0")
  case True
  then show ?thesis using wval_5_bounds [of r0 r1 r2 r3 r4] by (simp add: reduce_step_def)
next
  case False
  obtain lo hi where m: "mul64 h 977 = (lo, hi)" by fastforce
  define a0 where "a0 = (ucast r2 :: u128) + ucast lo + ucast (push_bit 32 h)"
  define a1 where "a1 = (ucast r3 :: u128) + ucast hi + ucast (drop_bit 32 h) + ucast (ucast (drop_bit 64 a0) :: u64)"
  define c where "c = (ucast (drop_bit 64 a1) :: u64)"
  define a2 where "a2 = (ucast r4 :: u128) + ucast c"
  define c2 where "c2 = (ucast (drop_bit 64 a2) :: u64)"
  note w = step_words [OF m a0_def a1_def, folded c_def]
  note w2 = carry_limb [OF w(2) a2_def, folded c2_def]
  have e: "reduce_step [r0, r1, r2, r3, r4] 2 h = [r0, r1, ucast a0, ucast a1, ucast a2]"
    using False by (simp add: reduce_step_def m a0_def a1_def a2_def c_def Let_def)
  have "?l = ?r - uint c2 * two320" unfolding e using w(1) w2(1) by simp
  then show ?thesis using mod_eqI [of ?l ?r _ two320] wval_5_bounds by (metis e)
qed

lemma reduce_step_3:
  "wval (reduce_step [r0, r1, r2, r3, r4] 3 h)
     = (wval [r0, r1, r2, r3, r4]
        + uint h * 0x1000003D1 * 6277101735386680763835789423207666416102355444464034512896) mod two320"
  (is "?l = ?r mod _")
proof (cases "h = 0")
  case True
  then show ?thesis using wval_5_bounds [of r0 r1 r2 r3 r4] by (simp add: reduce_step_def)
next
  case False
  obtain lo hi where m: "mul64 h 977 = (lo, hi)" by fastforce
  define a0 where "a0 = (ucast r3 :: u128) + ucast lo + ucast (push_bit 32 h)"
  define a1 where "a1 = (ucast r4 :: u128) + ucast hi + ucast (drop_bit 32 h) + ucast (ucast (drop_bit 64 a0) :: u64)"
  define c where "c = (ucast (drop_bit 64 a1) :: u64)"
  note w = step_words [OF m a0_def a1_def, folded c_def]
  have e: "reduce_step [r0, r1, r2, r3, r4] 3 h = [r0, r1, r2, ucast a0, ucast a1]"
    using False by (simp add: reduce_step_def m a0_def a1_def c_def Let_def)
  have "?l = ?r - uint c * two320" unfolding e using w(1) by simp
  then show ?thesis using mod_eqI [of ?l ?r _ two320] wval_5_bounds by (metis e)
qed

lemma length_5E:
  assumes "length xs = 5"
  obtains a b c d e where "xs = [a, b, c, d, e]"
  using assms by (auto simp: eval_nat_numeral length_Suc_conv)

lemmas reduce_step_values = reduce_step_1 reduce_step_2 reduce_step_3

text \<open>The value before the fifth limb is folded, and the carry that is lost.\<close>

definition carry_lost :: "int \<Rightarrow> bool" where
  "carry_lost t \<longleftrightarrow> two256 \<le> t mod two256 + t div two256 mod 18446744073709551616 * 0x1000003D1"

lemma split_digit:
  assumes "0 \<le> x" "x < (m :: int)"
  shows "(x + m * y) mod m = x" "(x + m * y) div m = y"
  using assms by simp_all

lemma wval_8_split:
  "wval [a, b, c, d, e, f, g, h] mod two256 = wval [a, b, c, d]"
  "wval [a, b, c, d, e, f, g, h] div two256 = wval [e, f, g, h]"
proof -
  have s: "wval [a, b, c, d, e, f, g, h] = wval [a, b, c, d] + two256 * wval [e, f, g, h]" by simp
  have b: "0 \<le> wval [a, b, c, d]" "wval [a, b, c, d] < two256"
    using wval_bounds [of "[a, b, c, d]"] by simp_all
  show "wval [a, b, c, d, e, f, g, h] mod two256 = wval [a, b, c, d]"
    "wval [a, b, c, d, e, f, g, h] div two256 = wval [e, f, g, h]"
    unfolding s by (rule split_digit [OF b])+
qed

lemma wval_mod_limb: "wval (x # xs) mod 18446744073709551616 = uint x"
  unfolding wval.simps by (rule split_digit(1) [OF uint_bounds(1) uint_u64])

lemma reduce_steps_value:
  fixes t0 :: u64
  assumes t: "t = [t0, t1, t2, t3, t4, t5, t6, t7]"
  shows "wval (fold (\<lambda>i result. reduce_step result i (t ! (4 + i))) [0..<4] [t0, t1, t2, t3, 0])
    = wval t mod two256 + wval t div two256 * 0x1000003D1 - (if carry_lost (wval t) then two256 else 0)"
proof -
  note sp = wval_8_split [of t0 t1 t2 t3 t4 t5 t6 t7, folded t] wval_mod_limb [of t4 "[t5, t6, t7]"]
  let ?r0 = "reduce_step [t0, t1, t2, t3, 0] 0 t4"
  let ?r1 = "reduce_step ?r0 1 t5" let ?r2 = "reduce_step ?r1 2 t6" let ?r3 = "reduce_step ?r2 3 t7"
  have u: "[0..<4] = [0, 1, 2, 3 :: nat]" by (simp add: upt_conv_Cons)
  have "wval ?r1 = (wval ?r0 + uint t5 * 0x1000003D1 * 18446744073709551616) mod two320"
    by (rule length_5E [of ?r0]) (simp, simp only: reduce_step_1)
  moreover have "wval ?r2 = (wval ?r1 + uint t6 * 0x1000003D1 * 340282366920938463463374607431768211456) mod two320"
    by (rule length_5E [of ?r1]) (simp, simp only: reduce_step_2)
  moreover have "wval ?r3 = (wval ?r2 + uint t7 * 0x1000003D1 * 6277101735386680763835789423207666416102355444464034512896) mod two320"
    by (rule length_5E [of ?r2]) (simp, simp only: reduce_step_3)
  ultimately have "wval ?r3 = (wval ?r0 + uint t5 * 0x1000003D1 * 18446744073709551616
      + uint t6 * 0x1000003D1 * 340282366920938463463374607431768211456
      + uint t7 * 0x1000003D1 * 6277101735386680763835789423207666416102355444464034512896) mod two320"
    by (simp only: mod_simps)
  also have "\<dots> = wval ?r0 + uint t5 * 0x1000003D1 * 18446744073709551616
      + uint t6 * 0x1000003D1 * 340282366920938463463374607431768211456
      + uint t7 * 0x1000003D1 * 6277101735386680763835789423207666416102355444464034512896"
    using reduce_step_0 [of t0 t1 t2 t3 t4] uint_u64 [of t5] uint_u64 [of t6] uint_u64 [of t7]
    by (intro mod_pos_pos_trivial) simp_all
  finally have v3: "wval ?r3 = \<dots>" .
  have "wval ?r0 = (wval t mod two256 + uint t4 * 0x1000003D1) mod two256"
    by (simp only: reduce_step_0 sp)
  also have "\<dots> = wval t mod two256 + uint t4 * 0x1000003D1 - (if carry_lost (wval t) then two256 else 0)"
    using pos_mod_bound [of two256 "wval t"] pos_mod_sign [of two256 "wval t"] uint_u64 [of t4]
    by (auto simp: carry_lost_def sp(2,3) mod_sub_once simp del: wval.simps)
  finally have v0: "wval ?r0 = \<dots>" .
  have "wval t div two256 = uint t4 + uint t5 * 18446744073709551616
      + uint t6 * 340282366920938463463374607431768211456
      + uint t7 * 6277101735386680763835789423207666416102355444464034512896"
    unfolding sp(2) by simp
  moreover have "fold (\<lambda>i result. reduce_step result i (t ! (4 + i))) [0..<4] [t0, t1, t2, t3, 0] = ?r3"
    by (simp add: u t)
  ultimately show ?thesis by (simp only: v3 v0) (simp add: algebra_simps del: wval.simps)
qed

lemma split_u128:
  fixes a :: u128
  shows "uint (ucast a :: u64) + 18446744073709551616 * uint (ucast (drop_bit 64 a) :: u64) = uint a"
proof -
  have "0 \<le> uint a div 18446744073709551616" "uint a div 18446744073709551616 < 18446744073709551616"
    using uint_u128 [of a] by (simp add: pos_imp_zdiv_nonneg_iff, linarith)
  then show ?thesis by (simp add: word_int)
qed

lemma uint_ucast_128: "uint (ucast (w :: u64) :: u128) = uint w"
  using uint_u64 [of w] by (simp add: word_int)

lemma uint_add_128: "uint a + uint b < 340282366920938463463374607431768211456 \<Longrightarrow> uint (a + b :: u128) = uint a + uint b"
  by (simp add: uint_word_ariths)

lemma fold_overflow_value:
  "wval (fold_overflow [r0, r1, r2, r3, 0] v) = wval [r0, r1, r2, r3] + uint v * 0x1000003D1"
proof -
  let ?B = "18446744073709551616 :: int"
  define trm where "trm = (ucast v :: u128) * 0x1000003D1"
  define tl :: u64 where "tl = ucast trm"
  define th :: u64 where "th = ucast (drop_bit 64 trm)"
  define a0 where "a0 = (ucast r0 :: u128) + ucast tl"
  define b :: u64 where "b = ucast (drop_bit 64 a0)"
  define a1 where "a1 = (ucast r1 :: u128) + ucast th + ucast b"
  define c :: u64 where "c = ucast (drop_bit 64 a1)"
  define a2 where "a2 = (ucast r2 :: u128) + ucast c"
  define c2 :: u64 where "c2 = ucast (drop_bit 64 a2)"
  define a3 where "a3 = (ucast r3 :: u128) + ucast c2"
  define c3 :: u64 where "c3 = ucast (drop_bit 64 a3)"
  note s = split_u128 [of trm, folded tl_def th_def] split_u128 [of a0, folded b_def]
    split_u128 [of a1, folded c_def] split_u128 [of a2, folded c2_def] split_u128 [of a3, folded c3_def]
  have ut: "uint trm = uint v * 0x1000003D1"
    using uint_u64 [of v] by (simp add: trm_def uint_word_ariths word_int)
  note w = uint_u64 [of r0] uint_u64 [of r1] uint_u64 [of r2] uint_u64 [of r3] uint_u64 [of tl]
    uint_u64 [of th] uint_u64 [of b]
  have u0: "uint a0 = uint r0 + uint tl" using w by (simp add: a0_def uint_add_128 uint_ucast_128)
  have u1: "uint a1 = uint r1 + uint th + uint b" using w by (simp add: a1_def uint_add_128 uint_ucast_128)
  have "uint th < 0x1000003D1" using s(1) ut uint_u64 [of v] uint_bounds(1) [of tl] by linarith
  moreover have "uint b \<le> 1" using s(2) u0 w uint_bounds(1) [of "ucast a0 :: u64"] by linarith
  ultimately have "uint c \<le> 1" using s(3) u1 w uint_bounds(1) [of "ucast a1 :: u64"] by linarith
  note k2 = carry_limb [OF this a2_def, folded c2_def]
  then have "uint c2 \<le> 1" using \<open>uint c \<le> 1\<close> by linarith
  note k3 = carry_limb [OF this a3_def, folded c3_def]
  have "fold_overflow [r0, r1, r2, r3, 0] v =
      (if c \<noteq> 0 then if c2 \<noteq> 0 then [ucast a0, ucast a1, ucast a2, ucast a3, c3]
         else [ucast a0, ucast a1, ucast a2, r3, 0] else [ucast a0, ucast a1, r2, r3, 0])"
    by (simp add: fold_overflow_def trm_def [symmetric] tl_def [symmetric] th_def [symmetric] a0_def [symmetric]
        b_def [symmetric] a1_def [symmetric] c_def [symmetric] a2_def [symmetric] c2_def [symmetric]
        a3_def [symmetric] c3_def [symmetric] Let_def)
  then show ?thesis using s u0 u1 ut k2 k3 by (simp split: if_splits) (simp add: algebra_simps)?
qed

text \<open>A number below \<open>2^290\<close> needs two passes: the first leaves at most one bit of overflow, and then a
  low part too small to carry again.\<close>

lemma overflow_pass:
  assumes "uint r4 \<le> 0x1000003D1"
  obtains s0 s1 s2 s3 s4 where
    "overflow_passes (Suc n) [r0, r1, r2, r3, r4] =
       (if r4 = 0 then [r0, r1, r2, r3, 0] else overflow_passes n [s0, s1, s2, s3, s4])"
    "wval [s0, s1, s2, s3, s4] = wval [r0, r1, r2, r3] + uint r4 * 0x1000003D1"
proof -
  have "length (fold_overflow [r0, r1, r2, r3, 0] r4) = 5" by (simp add: fold_overflow_def Let_def)
  then obtain s0 s1 s2 s3 s4 where s: "fold_overflow [r0, r1, r2, r3, 0] r4 = [s0, s1, s2, s3, s4]"
    by (rule length_5E)
  show ?thesis
    by (rule that [of s0 s1 s2 s3 s4])
      (use s fold_overflow_value [of r0 r1 r2 r3 r4] in \<open>simp_all add: Let_def\<close>)
qed

lemma wval_5_split:
  "wval [a, b, c, d, e] = wval [a, b, c, d] + two256 * uint e"
  "0 \<le> wval [a, b, c, d]" "wval [a, b, c, d] < two256"
  using wval_bounds [of "[a, b, c, d]"] by simp_all

lemma overflow_passes_value:
  assumes v: "wval [r0, r1, r2, r3, r4] < two256 + two256 * 0x1000003D1"
  shows "\<exists>q0 q1 q2 q3. overflow_passes 2 [r0, r1, r2, r3, r4] = [q0, q1, q2, q3, 0]
    \<and> wval [q0, q1, q2, q3] mod field_prime = wval [r0, r1, r2, r3, r4] mod field_prime"
proof -
  note w = wval_5_split(1) [of r0 r1 r2 r3 r4] wval_5_split(2,3) [of r0 r1 r2 r3]
  have r4: "uint r4 \<le> 0x1000003D1" using v w by linarith
  have fold: "(x + two256 * y) mod field_prime = (x + y * 0x1000003D1) mod field_prime" for x y :: int
  proof -
    have "x + two256 * y = (x + y * 0x1000003D1) + y * field_prime" by simp
    then show ?thesis by (simp only: mod_mult_self1)
  qed
  obtain s0 s1 s2 s3 s4 where
    p1: "overflow_passes (Suc 1) [r0, r1, r2, r3, r4] =
       (if r4 = 0 then [r0, r1, r2, r3, 0] else overflow_passes 1 [s0, s1, s2, s3, s4])" and
    v1: "wval [s0, s1, s2, s3, s4] = wval [r0, r1, r2, r3] + uint r4 * 0x1000003D1"
    by (rule overflow_pass [OF r4])
  note w1 = wval_5_split(1) [of s0 s1 s2 s3 s4] wval_5_split(2,3) [of s0 s1 s2 s3]
  have s4: "uint s4 \<le> 1" using v1 w w1 r4 by linarith
  then have s4': "uint s4 \<le> 0x1000003D1" by simp
  obtain q0 q1 q2 q3 q4 where
    p2: "overflow_passes (Suc 0) [s0, s1, s2, s3, s4] =
       (if s4 = 0 then [s0, s1, s2, s3, 0] else overflow_passes 0 [q0, q1, q2, q3, q4])" and
    v2: "wval [q0, q1, q2, q3, q4] = wval [s0, s1, s2, s3] + uint s4 * 0x1000003D1"
    by (rule overflow_pass [OF s4'])
  note w2 = wval_5_split(1) [of q0 q1 q2 q3 q4] wval_5_split(2,3) [of q0 q1 q2 q3]
  have m1: "wval [r0, r1, r2, r3, r4] mod field_prime = wval [s0, s1, s2, s3, s4] mod field_prime"
    unfolding v1 w(1) by (rule fold)
  have m2: "wval [s0, s1, s2, s3, s4] mod field_prime = wval [q0, q1, q2, q3, q4] mod field_prime"
    unfolding v2 w1(1) by (rule fold)
  consider "r4 = 0" | "r4 \<noteq> 0" "s4 = 0" | "r4 \<noteq> 0" "uint s4 = 1" using uint_01 [OF s4] by (auto simp: word_uint_eq_iff)
  then show ?thesis
  proof cases
    case 1
    then have "overflow_passes 2 [r0, r1, r2, r3, r4] = [r0, r1, r2, r3, 0]"
      using p1 by (simp only: numeral_2_eq_2 refl if_True One_nat_def)
    moreover have "wval [r0, r1, r2, r3, r4] = wval [r0, r1, r2, r3]"
      using w(1) 1 by (simp only: unsigned_0 mult_zero_right add_0_right)
    ultimately show ?thesis by (metis (no_types))
  next
    case 2
    then have "overflow_passes 2 [r0, r1, r2, r3, r4] = [s0, s1, s2, s3, 0]"
      using p1 p2 by (simp only: numeral_2_eq_2 refl if_True if_False One_nat_def)
    moreover have "wval [s0, s1, s2, s3, s4] = wval [s0, s1, s2, s3]"
      using w1(1) 2 by (simp only: unsigned_0 mult_zero_right add_0_right)
    ultimately show ?thesis using m1 by (metis (no_types))
  next
    case 3
    then have "wval [s0, s1, s2, s3] < 0x1000003D1 * 0x1000003D1" using v1 w w1 r4 by linarith
    then have "uint q4 < 1" using 3 v2 w2 by linarith
    then have "uint q4 = 0" using uint_bounds(1) [of q4] by linarith
    then have "q4 = 0" by (simp add: word_uint_eq_iff)
    have "s4 \<noteq> 0" using 3(2) by auto
    then have "overflow_passes 2 [r0, r1, r2, r3, r4] = [q0, q1, q2, q3, 0]"
      using 3(1) p1 p2 \<open>q4 = 0\<close> by (simp only: numeral_2_eq_2 if_False overflow_passes.simps(1) One_nat_def)
    moreover have "wval [q0, q1, q2, q3, q4] = wval [q0, q1, q2, q3]"
      using w2(1) \<open>uint q4 = 0\<close> by (simp only: mult_zero_right add_0_right)
    ultimately show ?thesis using m1 m2 by (metis (no_types))
  qed
qed

lemma fe_reduce_value:
  assumes "length t = 8"
  shows "limbs_val (fe_reduce t) = (wval t - (if carry_lost (wval t) then two256 else 0)) mod field_prime"
proof -
  obtain t0 t1 t2 t3 t4 t5 t6 t7 where t: "t = [t0, t1, t2, t3, t4, t5, t6, t7]"
    using assms by (auto simp: eval_nat_numeral length_Suc_conv)
  let ?c = "if carry_lost (wval t) then two256 else 0 :: int"
  let ?f = "fold (\<lambda>i result. reduce_step result i (t ! (4 + i))) [0..<4] [t0, t1, t2, t3, 0]"
  have "length ?f = 5" by (simp add: upt_conv_Cons)
  then obtain r0 r1 r2 r3 r4 where r: "?f = [r0, r1, r2, r3, r4]" by (rule length_5E)
  have rv: "wval [r0, r1, r2, r3, r4] = wval t mod two256 + wval t div two256 * 0x1000003D1 - ?c"
    using reduce_steps_value [OF t] by (simp only: r)
  have "wval t < two256 * two256" using wval_bounds [of t] assms by simp
  then have "wval t div two256 < two256" by linarith
  then have "wval [r0, r1, r2, r3, r4] < two256 + two256 * 0x1000003D1"
    unfolding rv using pos_mod_bound [of two256 "wval t"] by (simp del: pos_mod_bound)
  from overflow_passes_value [OF this] obtain q0 q1 q2 q3 where
    q: "overflow_passes 2 [r0, r1, r2, r3, r4] = [q0, q1, q2, q3, 0]"
      "wval [q0, q1, q2, q3] mod field_prime = wval [r0, r1, r2, r3, r4] mod field_prime" by blast
  have "fe_reduce t = reduce_once (Limbs4 q0 q1 q2 q3)"
    using r q(1) by (simp add: fe_reduce_def t Let_def del: overflow_passes.simps fold_simps)
  then have "limbs_val (fe_reduce t) = wval [r0, r1, r2, r3, r4] mod field_prime"
    by (simp only: reduce_once_normalize fe_normalize_value wval_4 [symmetric] q(2))
  also have "\<dots> = (wval t - ?c) mod field_prime"
  proof -
    have "wval t = wval t mod two256 + two256 * (wval t div two256)" by simp
    then have "wval t - ?c = wval [r0, r1, r2, r3, r4] + (wval t div two256) * field_prime"
      unfolding rv by linarith
    then show ?thesis by (simp only: mod_mult_self1)
  qed
  finally show ?thesis .
qed

section \<open>Bytes, hexadecimal, equality\<close>

lemma fe_new_ok: "fe_ok (FE (fe_normalize l))"
  by (simp add: fe_ok_def fe_normalize_value)

lemma fval_inj: "fval a = fval b \<Longrightarrow> a = b"
  by (metis limbs_val_inj FieldElement.expand)

lemma fe_sub_impl_prime:
  assumes "field_prime \<le> limbs_val l"
  shows "fe_sub_impl l PRIME = fe_normalize l"
proof -
  obtain r c where e: "limbs_sub l PRIME = (r, c)" by fastforce
  obtain u d where u: "limbs_add r (Limbs4 0 0 0 0) = (u, d)" by fastforce
  have c: "c = 0" using borrow_cases [OF e] assms by (auto simp: PRIME_val)
  have "u = r" using carry_cases [OF u] limbs_val_bounds [of u] limbs_val_bounds [of r]
    by (intro limbs_val_inj) auto
  then show ?thesis by (simp add: fe_sub_impl_def fe_normalize_def e c u limbs_mask_all limbs_xor_select_all)
qed

lemma fe_normalize_small: "limbs_val l < field_prime \<Longrightarrow> fe_normalize l = l"
  using limbs_val_bounds [of l] by (intro limbs_val_inj) (simp add: fe_normalize_value)

lemma fe_from_bytes_limbs: "fe_from_bytes p = fe_from_limbs (load_limbs_be p)"
  by (simp add: fe_from_bytes_def fe_from_limbs_def fe_ge_iff PRIME_val fe_sub_impl_prime
      fe_normalize_small fe_new_def Let_def)

lemma fe_from_bytes_value: "length p = 32 \<Longrightarrow> fval (fe_from_bytes p) = be_val p mod field_prime"
  by (simp add: fe_from_bytes_limbs fe_from_limbs_def fe_normalize_value load_limbs_be_value)

lemma be_bytes_limb: "map (\<lambda>j. ucast (drop_bit (56 - 8 * j) (l :: u64)) :: u8) [0..<8] = be_bytes 8 (uint l)"
  by (simp add: be_bytes_def eval_nat_numeral upt_conv_Cons word_uint_eq_iff word_int uint_word_of_int
      zdiv_zmult2_eq [symmetric])

lemma fe_to_bytes_value: "fe_to_bytes a = be_bytes 32 (fval a)"
proof (cases "fe_limbs a")
  case (Limbs4 l0 l1 l2 l3)
  have u: "[0..<4] = [0, 1, 2, 3 :: nat]" by (simp add: upt_conv_Cons)
  have b: "fe_to_bytes a = be_bytes 8 (uint l3) @ be_bytes 8 (uint l2) @ be_bytes 8 (uint l1) @ be_bytes 8 (uint l0)"
    by (simp add: fe_to_bytes_def be_bytes_limb Limbs4 u numeral_2_eq_2 numeral_3_eq_3)
  have "be_val (fe_to_bytes a) = fval a" using uint_u64 [of l0] uint_u64 [of l1] uint_u64 [of l2] uint_u64 [of l3]
    by (simp add: b be_val_append be_val_be_bytes Limbs4)
  then show ?thesis using be_bytes_be_val [of "fe_to_bytes a"] by (simp add: b)
qed

lemma be_val_fe_to_bytes: "be_val (fe_to_bytes a) = fval a" "length (fe_to_bytes a) = 32"
  using limbs_val_bounds [of "fe_limbs a"] by (simp_all add: fe_to_bytes_value be_val_be_bytes)

section \<open>Properties\<close>

text \<open>C29: On canonical operands, addition, subtraction and negation are those of the integers modulo
  the field prime, and their results are canonical.\<close>
theorem field_add_sub_neg:
  assumes "fe_ok a" "fe_ok b"
  shows "fval (fe_add a b) = (fval a + fval b) mod field_prime
       \<and> fval (fe_sub a b) = (fval a - fval b) mod field_prime
       \<and> fval (fe_neg a) = - fval a mod field_prime"
  using assms by (simp add: fe_add_value fe_sub_value fe_neg_value)

theorem field_add_sub_neg_witness:
  "fval (fe_add (FE (limbs_mask PRIME 0)) fe_one) = (fval (FE (limbs_mask PRIME 0)) + fval fe_one) mod field_prime"
  using field_add_sub_neg [of "FE (limbs_mask PRIME 0)" fe_one]
  by (simp add: fe_ok_def fe_one_def FE_ONE_def PRIME_def)

text \<open>C24: The portable multiplication, exactly: the product modulo the prime, less \<open>2^256\<close> when the
  first turn of the reduction carries out of the fourth limb. It is right exactly when that carry
  does not occur.\<close>
theorem field_mul_exact:
  "fval (fe_times a b) = (fval a * fval b - (if carry_lost (fval a * fval b) then 2 ^ 256 else 0)) mod field_prime
   \<and> (fval (fe_times a b) = fval a * fval b mod field_prime \<longleftrightarrow> \<not> carry_lost (fval a * fval b))
   \<and> fe_square a = fe_times a a"
proof (intro conjI)
  show v: "fval (fe_times a b) = (fval a * fval b - (if carry_lost (fval a * fval b) then 2 ^ 256 else 0)) mod field_prime"
    by (simp add: fe_times_def fe_mul_impl_def fe_reduce_value mul_wide_value)
  show "fval (fe_times a b) = fval a * fval b mod field_prime \<longleftrightarrow> \<not> carry_lost (fval a * fval b)"
  proof
    assume "fval (fe_times a b) = fval a * fval b mod field_prime"
    then have "(fval a * fval b - (if carry_lost (fval a * fval b) then 2 ^ 256 else 0)) mod field_prime
        = fval a * fval b mod field_prime" using v by metis
    then show "\<not> carry_lost (fval a * fval b)"
      by (auto simp: mod_eq_dvd_iff split: if_splits)
  qed (simp add: v)
  show "fe_square a = fe_times a a"
    by (simp add: fe_square_def fe_times_def fe_mul_impl_def fe_square_impl_def)
qed

text \<open>Two canonical elements whose portable product is wrong: 7 and \<open>(2^258 - 1) / 7\<close>.\<close>
theorem field_mul_wrong_product:
  "let a = FE (Limbs4 7 0 0 0); b = FE (Limbs4 0x9249249249249249 0x4924924924924924 0x2492492492492492 0x9249249249249249)
   in fe_ok a \<and> fe_ok b \<and> fval a * fval b = 2 ^ 258 - 1
      \<and> fval a * fval b mod field_prime = 0x400000f43
      \<and> fe_times a b = FE (Limbs4 0x300000b72 0 0 0)"
proof -
  have "fe_times (FE (Limbs4 7 0 0 0)) (FE (Limbs4 0x9249249249249249 0x4924924924924924 0x2492492492492492 0x9249249249249249)) = FE (Limbs4 0x300000b72 0 0 0)"
    by code_simp
  then show ?thesis by (simp add: fe_ok_def)
qed

text \<open>C37: Strict parsing accepts a 32-byte string exactly when it is the encoding of a canonical element,
  lenient parsing reduces, and printing inverts both in bytes and in hexadecimal.\<close>
theorem field_bytes_roundtrip:
  assumes "length p = 32"
  shows "(fe_parse_bytes_strict p = Some a \<longleftrightarrow> fe_ok a \<and> fe_to_bytes a = p)
       \<and> fval (fe_from_bytes p) = be_val p mod field_prime
       \<and> (fe_ok a \<longrightarrow> fe_from_bytes (fe_to_bytes a) = a \<and> fe_from_hex (fe_to_hex a) = Inr a)"
proof (intro conjI impI iffI)
  assume s: "fe_parse_bytes_strict p = Some a"
  then have a: "be_val p < field_prime" "fe_limbs a = load_limbs_be p"
    using assms by (auto simp: fe_parse_bytes_strict_def fe_ge_iff PRIME_val load_limbs_be_value Let_def split: if_splits)
  then have v: "fval a = be_val p" using assms by (simp add: load_limbs_be_value)
  then show "fe_ok a" using a by (simp add: fe_ok_def)
  show "fe_to_bytes a = p" using v be_val_inj [of "fe_to_bytes a" p] be_val_fe_to_bytes [of a] assms by simp
next
  assume a: "fe_ok a \<and> fe_to_bytes a = p"
  then have v: "be_val p = fval a" using be_val_fe_to_bytes(1) [of a] by simp
  then have "load_limbs_be p = fe_limbs a" using assms by (intro limbs_val_inj) (simp add: load_limbs_be_value)
  then show "fe_parse_bytes_strict p = Some a" using a v
    by (simp add: fe_parse_bytes_strict_def fe_ge_iff PRIME_val fe_ok_def fe_new_def)
next
  show "fval (fe_from_bytes p) = be_val p mod field_prime" using assms by (rule fe_from_bytes_value)
next
  assume a: "fe_ok a"
  show f: "fe_from_bytes (fe_to_bytes a) = a"
    using a limbs_val_bounds [of "fe_limbs a"]
    by (intro fval_inj) (simp add: fe_from_bytes_value be_val_fe_to_bytes fe_ok_def)
  then show "fe_from_hex (fe_to_hex a) = Inr a"
    by (simp add: fe_from_hex_def fe_to_hex_def length_bytes_to_hex hex_decode_bytes_to_hex be_val_fe_to_bytes)
qed

theorem field_bytes_roundtrip_witness:
  "fe_parse_bytes_strict (fe_to_bytes fe_one) = Some fe_one
   \<and> fe_parse_bytes_strict (be_bytes 32 field_prime) \<noteq> Some fe_zero"
  using field_bytes_roundtrip [of "fe_to_bytes fe_one" fe_one] field_bytes_roundtrip [of "be_bytes 32 field_prime" fe_zero]
  by (simp add: be_val_fe_to_bytes fe_ok_def fe_one_def fe_zero_def FE_ONE_def) code_simp

lemma fe_eq_iff: "fe_eq a b \<longleftrightarrow> fval a mod field_prime = fval b mod field_prime"
  using limbs_val_inj [of "fe_normalize (fe_limbs a)" "fe_normalize (fe_limbs b)"]
  by (auto simp: fe_eq_def fe_normalize_value simp flip: fe_normalize_value)

end
