(* ===== verification/Field52.thy ===== *)
theory Field52
  imports U128_Compat Field
begin

text \<open>
  The prime field in five 52-bit limbs (\<open>field_52.hpp\<close>, \<open>field_52_impl.hpp\<close>), the representation of
  the point formulas: lazy addition, negation and doubling without carries, and the Comba
  multiplication and squaring on either 128-bit accumulator. \<open>fe52_val\<close> is the integer of the
  limbs; \<open>fe52_mag m\<close> bounds them by \<open>m\<close> times a little more than a reduced element, which
  is what the laziness must not outgrow.
\<close>

section \<open>The code\<close>

datatype FieldElement52 = FE52 u64 u64 u64 u64 u64

definition M52 :: u64 where "M52 = 0xFFFFFFFFFFFFF"
definition M48 :: u64 where "M48 = 0xFFFFFFFFFFFF"
definition R52 :: u64 where "R52 = 0x1000003D10"
definition P0 :: u64 where "P0 = 0xFFFFEFFFFFC2F"
definition P1 :: u64 where "P1 = 0xFFFFFFFFFFFFF"
definition P2 :: u64 where "P2 = 0xFFFFFFFFFFFFF"
definition P3 :: u64 where "P3 = 0xFFFFFFFFFFFFF"
definition P4 :: u64 where "P4 = 0xFFFFFFFFFFFF"

definition fe52_mul_inner :: "'w u128_ops \<Rightarrow> FieldElement52 \<Rightarrow> FieldElement52 \<Rightarrow> FieldElement52" where
  "fe52_mul_inner u a b =
     (case a of FE52 a0 a1 a2 a3 a4 \<Rightarrow> case b of FE52 b0 b1 b2 b3 b4 \<Rightarrow>
      let acc = u128_accum_mul u; lw = u128_low u; shr = u128_shr u;
          d = acc (acc (acc (u128_mul u a0 b3) a1 b2) a2 b1) a3 b0;
          c = u128_mul u a4 b4;
          d = acc d R52 (lw c);
          c = shr c 64;
          t3 = lw d AND M52;
          d = shr d 52;
          d = acc (acc (acc (acc (acc d a0 b4) a1 b3) a2 b2) a3 b1) a4 b0;
          d = acc d (push_bit 12 R52) (lw c);
          t4 = lw d AND M52;
          d = shr d 52;
          tx = drop_bit 48 t4;
          t4 = t4 AND drop_bit 4 M52;
          c = u128_mul u a0 b0;
          d = acc (acc (acc (acc d a1 b4) a2 b3) a3 b2) a4 b1;
          u0 = lw d AND M52;
          d = shr d 52;
          u0 = push_bit 4 u0 OR tx;
          c = acc c u0 (drop_bit 4 R52);
          r0 = lw c AND M52;
          c = shr c 52;
          c = acc (acc c a0 b1) a1 b0;
          d = acc (acc (acc d a2 b4) a3 b3) a4 b2;
          c = acc c (lw d AND M52) R52;
          d = shr d 52;
          r1 = lw c AND M52;
          c = shr c 52;
          c = acc (acc (acc c a0 b2) a1 b1) a2 b0;
          d = acc (acc d a3 b4) a4 b3;
          c = acc c R52 (lw d);
          d = shr d 64;
          r2 = lw c AND M52;
          c = shr c 52;
          c = acc c (push_bit 12 R52) (lw d);
          c = u128_accum_u64 u c t3;
          r3 = lw c AND M52;
          c = shr c 52;
          c = u128_accum_u64 u c t4;
          r4 = lw c
      in FE52 r0 r1 r2 r3 r4)"

definition fe52_sqr_inner :: "'w u128_ops \<Rightarrow> FieldElement52 \<Rightarrow> FieldElement52" where
  "fe52_sqr_inner u a =
     (case a of FE52 a0 a1 a2 a3 a4 \<Rightarrow>
      let acc = u128_accum_mul u; lw = u128_low u; shr = u128_shr u;
          d = acc (u128_mul u (a0 * 2) a3) (a1 * 2) a2;
          c = u128_mul u a4 a4;
          d = acc d R52 (lw c);
          c = shr c 64;
          t3 = lw d AND M52;
          d = shr d 52;
          d = acc (acc (acc d (a0 * 2) a4) (a1 * 2) a3) a2 a2;
          d = acc d (push_bit 12 R52) (lw c);
          t4 = lw d AND M52;
          d = shr d 52;
          tx = drop_bit 48 t4;
          t4 = t4 AND drop_bit 4 M52;
          c = u128_mul u a0 a0;
          d = acc (acc d (a1 * 2) a4) (a2 * 2) a3;
          u0 = lw d AND M52;
          d = shr d 52;
          u0 = push_bit 4 u0 OR tx;
          c = acc c u0 (drop_bit 4 R52);
          r0 = lw c AND M52;
          c = shr c 52;
          c = acc c (a0 * 2) a1;
          d = acc (acc d (a2 * 2) a4) a3 a3;
          c = acc c (lw d AND M52) R52;
          d = shr d 52;
          r1 = lw c AND M52;
          c = shr c 52;
          c = acc (acc c (a0 * 2) a2) a1 a1;
          d = acc d (a3 * 2) a4;
          c = acc c R52 (lw d);
          d = shr d 64;
          r2 = lw c AND M52;
          c = shr c 52;
          c = acc c (push_bit 12 R52) (lw d);
          c = u128_accum_u64 u c t3;
          r3 = lw c AND M52;
          c = shr c 52;
          c = u128_accum_u64 u c t4;
          r4 = lw c
      in FE52 r0 r1 r2 r3 r4)"

subsection \<open>Lazy operations\<close>

definition fe52_zero :: FieldElement52 where "fe52_zero = FE52 0 0 0 0 0"
definition fe52_one :: FieldElement52 where "fe52_one = FE52 1 0 0 0 0"

fun fe52_add :: "FieldElement52 \<Rightarrow> FieldElement52 \<Rightarrow> FieldElement52" where
  "fe52_add (FE52 n0 n1 n2 n3 n4) (FE52 m0 m1 m2 m3 m4) =
     FE52 (n0 + m0) (n1 + m1) (n2 + m2) (n3 + m3) (n4 + m4)"

fun fe52_negate :: "u32 \<Rightarrow> FieldElement52 \<Rightarrow> FieldElement52" where
  "fe52_negate magnitude (FE52 n0 n1 n2 n3 n4) =
     (let m1 = (ucast magnitude :: u64) + 1
      in FE52 (m1 * P0 - n0) (m1 * P1 - n1) (m1 * P2 - n2) (m1 * P3 - n3) (m1 * P4 - n4))"

fun fe52_conditional_negate :: "u32 \<Rightarrow> FieldElement52 \<Rightarrow> FieldElement52" where
  "fe52_conditional_negate sign_mask (FE52 n0 n1 n2 n3 n4) =
     (let msk = (scast sign_mask :: u64);
          neg0 = 2 * P0 - n0; neg1 = 2 * P1 - n1; neg2 = 2 * P2 - n2;
          neg3 = 2 * P3 - n3; neg4 = 2 * P4 - n4
      in FE52 (n0 XOR ((n0 XOR neg0) AND msk)) (n1 XOR ((n1 XOR neg1) AND msk))
              (n2 XOR ((n2 XOR neg2) AND msk)) (n3 XOR ((n3 XOR neg3) AND msk))
              (n4 XOR ((n4 XOR neg4) AND msk)))"

fun fe52_half :: "FieldElement52 \<Rightarrow> FieldElement52" where
  "fe52_half (FE52 n0 n1 n2 n3 n4) =
     (let msk = drop_bit 12 (0 - (n0 AND 1));
          t0 = n0 + (0xFFFFEFFFFFC2F AND msk);
          t1 = n1 + msk;
          t2 = n2 + msk;
          t3 = n3 + msk;
          t4 = n4 + drop_bit 4 msk
      in FE52 (drop_bit 1 t0 + push_bit 51 (t1 AND 1)) (drop_bit 1 t1 + push_bit 51 (t2 AND 1))
              (drop_bit 1 t2 + push_bit 51 (t3 AND 1)) (drop_bit 1 t3 + push_bit 51 (t4 AND 1))
              (drop_bit 1 t4))"

fun fe52_mul_int :: "u32 \<Rightarrow> FieldElement52 \<Rightarrow> FieldElement52" where
  "fe52_mul_int a (FE52 n0 n1 n2 n3 n4) =
     FE52 (n0 * ucast a) (n1 * ucast a) (n2 * ucast a) (n3 * ucast a) (n4 * ucast a)"

subsection \<open>Normalisation\<close>

text \<open>The carry chain both normalisations run twice.\<close>

definition fe52_carry :: "u64 \<Rightarrow> u64 \<Rightarrow> u64 \<Rightarrow> u64 \<Rightarrow> u64 \<Rightarrow> FieldElement52" where
  "fe52_carry t0 t1 t2 t3 t4 =
     (let t1 = t1 + drop_bit 52 t0; t0 = t0 AND M52;
          t2 = t2 + drop_bit 52 t1; t1 = t1 AND M52;
          t3 = t3 + drop_bit 52 t2; t2 = t2 AND M52;
          t4 = t4 + drop_bit 52 t3; t3 = t3 AND M52
      in FE52 t0 t1 t2 t3 t4)"

definition fe52_normalize_weak :: "FieldElement52 \<Rightarrow> FieldElement52" where
  "fe52_normalize_weak r =
     (case r of FE52 t0 t1 t2 t3 t4 \<Rightarrow> case fe52_carry t0 t1 t2 t3 t4 of FE52 t0 t1 t2 t3 t4 \<Rightarrow>
      let x = drop_bit 48 t4;
          t4 = t4 AND M48;
          t0 = t0 + x * 0x1000003D1
      in fe52_carry t0 t1 t2 t3 t4)"

definition fe52_normalize :: "FieldElement52 \<Rightarrow> FieldElement52" where
  "fe52_normalize r =
     (case r of FE52 t0 t1 t2 t3 t4 \<Rightarrow>
      let x = drop_bit 48 t4;
          t4 = t4 AND M48;
          t0 = t0 + x * 0x1000003D1
      in case fe52_carry t0 t1 t2 t3 t4 of FE52 t0 t1 t2 t3 t4 \<Rightarrow>
      let m = t1 AND t2 AND t3;
          x = drop_bit 48 t4 OR (if t4 = M48 \<and> m = M52 \<and> 0xFFFFEFFFFFC2F \<le> t0 then 1 else 0);
          t0 = t0 + x * 0x1000003D1
      in case fe52_carry t0 t1 t2 t3 t4 of FE52 t0 t1 t2 t3 t4 \<Rightarrow>
      FE52 t0 t1 t2 t3 (t4 AND M48))"

definition fe52_normalizes_to_zero :: "FieldElement52 \<Rightarrow> bool" where
  "fe52_normalizes_to_zero a \<longleftrightarrow>
     (case fe52_normalize a of FE52 t0 t1 t2 t3 t4 \<Rightarrow> t0 OR t1 OR t2 OR t3 OR t4 = 0)"

definition fe52_normalizes_to_zero_var :: "FieldElement52 \<Rightarrow> bool" where
  "fe52_normalizes_to_zero_var a =
     (case a of FE52 n0 n1 n2 n3 n4 \<Rightarrow>
      let x = drop_bit 48 n4;
          t0 = n0 + x * 0x1000003D1;
          z0 = t0 AND M52;
          z1 = z0 XOR 0x1000003D0
      in if z0 \<noteq> 0 \<and> z1 \<noteq> M52 then False
         else let t4 = n4 AND M48;
                  t1 = n1 + drop_bit 52 t0;
                  t2 = n2 + drop_bit 52 t1; t1 = t1 AND M52; z0 = z0 OR t1; z1 = z1 AND t1;
                  t3 = n3 + drop_bit 52 t2; t2 = t2 AND M52; z0 = z0 OR t2; z1 = z1 AND t2;
                  t4 = t4 + drop_bit 52 t3; t3 = t3 AND M52; z0 = z0 OR t3; z1 = z1 AND t3;
                  z0 = z0 OR t4; z1 = z1 AND (t4 XOR 0xF000000000000)
              in z0 = 0 \<or> z1 = M52)"

definition fe52_eq :: "FieldElement52 \<Rightarrow> FieldElement52 \<Rightarrow> bool" where
  "fe52_eq a b \<longleftrightarrow> fe52_normalize a = fe52_normalize b"

subsection \<open>Conversions\<close>

fun fe52_from_4x64_limbs :: "limbs4 \<Rightarrow> FieldElement52" where
  "fe52_from_4x64_limbs (Limbs4 l0 l1 l2 l3) =
     FE52 (l0 AND M52)
          (drop_bit 52 l0 OR push_bit 12 (l1 AND 0xFFFFFFFFFF))
          (drop_bit 40 l1 OR push_bit 24 (l2 AND 0xFFFFFFF))
          (drop_bit 28 l2 OR push_bit 36 (l3 AND 0xFFFF))
          (drop_bit 16 l3)"

definition fe52_from_fe :: "FieldElement \<Rightarrow> FieldElement52" where
  "fe52_from_fe fe = fe52_from_4x64_limbs (fe_limbs fe)"

fun fe52_pack :: "FieldElement52 \<Rightarrow> limbs4" where
  "fe52_pack (FE52 n0 n1 n2 n3 n4) =
     Limbs4 (n0 OR push_bit 52 n1) (drop_bit 12 n1 OR push_bit 40 n2)
            (drop_bit 24 n2 OR push_bit 28 n3) (drop_bit 36 n3 OR push_bit 16 n4)"

definition fe52_to_fe :: "FieldElement52 \<Rightarrow> FieldElement" where
  "fe52_to_fe a = FE (fe52_pack (fe52_normalize a))"

definition fe52_to_bytes_into :: "FieldElement52 \<Rightarrow> bytes" where
  "fe52_to_bytes_into a =
     (case fe52_normalize a of FE52 n0 n1 n2 n3 n4 \<Rightarrow>
      [ucast (drop_bit 40 n4), ucast (drop_bit 32 n4), ucast (drop_bit 24 n4), ucast (drop_bit 16 n4),
       ucast (drop_bit 8 n4), ucast n4,
       ucast (drop_bit 44 n3), ucast (drop_bit 36 n3), ucast (drop_bit 28 n3), ucast (drop_bit 20 n3),
       ucast (drop_bit 12 n3), ucast (drop_bit 4 n3),
       ucast ((drop_bit 48 n2 AND 0xF) OR push_bit 4 (n3 AND 0xF)),
       ucast (drop_bit 40 n2), ucast (drop_bit 32 n2), ucast (drop_bit 24 n2), ucast (drop_bit 16 n2),
       ucast (drop_bit 8 n2), ucast n2,
       ucast (drop_bit 44 n1), ucast (drop_bit 36 n1), ucast (drop_bit 28 n1), ucast (drop_bit 20 n1),
       ucast (drop_bit 12 n1), ucast (drop_bit 4 n1),
       ucast ((drop_bit 48 n0 AND 0xF) OR push_bit 4 (n1 AND 0xF)),
       ucast (drop_bit 40 n0), ucast (drop_bit 32 n0), ucast (drop_bit 24 n0), ucast (drop_bit 16 n0),
       ucast (drop_bit 8 n0), ucast n0])"

definition fe52_store_b32_prenorm :: "FieldElement52 \<Rightarrow> bytes" where
  "fe52_store_b32_prenorm a =
     (case fe52_pack a of Limbs4 l0 l1 l2 l3 \<Rightarrow> store_be64 l3 @ store_be64 l2 @ store_be64 l1 @ store_be64 l0)"

text \<open>\<open>from_bytes\<close>: the bytes shifted in one by one, the prime subtracted by adding its complement.\<close>

definition fe52_read_limb :: "bytes \<Rightarrow> nat \<Rightarrow> u64" where
  "fe52_read_limb bs i = fold (\<lambda>j limb. push_bit 8 limb OR ucast (bs ! (i * 8 + j))) [0..<8] 0"

fun fe52_ge_p :: "limbs4 \<Rightarrow> bool" where
  "fe52_ge_p (Limbs4 l0 l1 l2 l3) =
     (case PRIME of Limbs4 p0 p1 p2 p3 \<Rightarrow>
        if l3 < p3 then False else if p3 < l3 then True
        else if l2 < p2 then False else if p2 < l2 then True
        else if l1 < p1 then False else if p1 < l1 then True
        else if l0 < p0 then False else True)"

fun fe52_sub_p :: "limbs4 \<Rightarrow> limbs4" where
  "fe52_sub_p (Limbs4 l0 l1 l2 l3) =
     (case PRIME of Limbs4 p0 p1 p2 p3 \<Rightarrow>
      let ac = (ucast l0 :: u128) + ucast (NOT p0) + 1;
          m0 = ucast ac;
          ac = (ucast l1 :: u128) + ucast (NOT p1) + ucast (ucast (drop_bit 64 ac) :: u64);
          m1 = ucast ac;
          ac = (ucast l2 :: u128) + ucast (NOT p2) + ucast (ucast (drop_bit 64 ac) :: u64);
          m2 = ucast ac
      in Limbs4 m0 m1 m2 (l3 + NOT p3 + ucast (drop_bit 64 ac)))"

definition fe52_from_bytes :: "bytes \<Rightarrow> FieldElement52" where
  "fe52_from_bytes bs =
     (let l = Limbs4 (fe52_read_limb bs 3) (fe52_read_limb bs 2) (fe52_read_limb bs 1) (fe52_read_limb bs 0)
      in fe52_from_4x64_limbs (if fe52_ge_p l then fe52_sub_p l else l))"

section \<open>Values and magnitudes\<close>

fun fe52_val :: "FieldElement52 \<Rightarrow> int" where
  "fe52_val (FE52 n0 n1 n2 n3 n4) =
     uint n0 + 2 ^ 52 * uint n1 + 2 ^ 104 * uint n2 + 2 ^ 156 * uint n3 + 2 ^ 208 * uint n4"

fun fe52_mag :: "nat \<Rightarrow> FieldElement52 \<Rightarrow> bool" where
  "fe52_mag m (FE52 n0 n1 n2 n3 n4) \<longleftrightarrow>
     uint n0 \<le> int m * 0xFFFFFFFFFFFFF \<and> uint n1 \<le> int m * 0xFFFFFFFFFFFFF \<and>
     uint n2 \<le> int m * 0xFFFFFFFFFFFFF \<and> uint n3 \<le> int m * 0xFFFFFFFFFFFFF \<and>
     uint n4 \<le> int m * 0x1080000000000"

section \<open>Multiplication\<close>

lemma uint_and_M52: "uint (x AND M52) = uint x mod 4503599627370496"
  using uint_and_mask [of x 52] by (simp add: M52_def mask_eq_exp_minus_1)

lemma uint_and_M48: "uint (x AND drop_bit 4 M52) = uint x mod 281474976710656"
  using uint_and_mask [of x 48] by (simp add: M52_def mask_eq_exp_minus_1)

lemma R52_values: "uint R52 = 0x1000003D10" "uint (push_bit 12 R52) = 0x1000003D10000" "uint (drop_bit 4 R52) = 0x1000003D1"
  by (simp_all add: R52_def)

lemma or_tx:
  fixes u t :: u64
  assumes "uint u < 4503599627370496" "uint t < 16"
  shows "uint (push_bit 4 u OR t) = 16 * uint u + uint t"
proof -
  have "uint (take_bit 4 t) = uint t" using assms(2)
    by (simp add: take_bit_eq_mod uint_mod_distrib)
  then have "take_bit 4 t = t" by (simp only: word_uint_eq_iff)
  then have "push_bit 4 u AND t = push_bit 4 u AND take_bit 4 t" by simp
  also have "\<dots> = 0" by (rule bit_word_eqI) (auto simp: bit_and_iff bit_push_bit_iff bit_take_bit_iff)
  finally have "push_bit 4 u OR t = push_bit 4 u + t" by (simp add: disjunctive_add_eq_or)
  moreover have "uint (push_bit 4 u) = 16 * uint u"
    using assms(1) by (simp add: push_bit_eq_mult uint_word_ariths)
  ultimately show ?thesis using assms by (simp add: uint_word_ariths)
qed

text \<open>The column sums in the integers: the limbs of the result against the product.\<close>

lemma comba_identity:
  fixes p0 p1 p2 p3 p4 p5 p6 p7 p8 :: int
  assumes c8: "p8 = cl + 18446744073709551616 * ch"
    and d3: "p3 + 0x1000003D10 * cl = t3 + 4503599627370496 * d3"
    and d4: "d3 + p4 + 0x1000003D10000 * ch = t4 + 281474976710656 * tx + 4503599627370496 * d4"
    and d5: "d4 + p5 = u0 + 4503599627370496 * d5"
    and c0: "p0 + (16 * u0 + tx) * 0x1000003D1 = r0 + 4503599627370496 * c0"
    and d6: "d5 + p6 = e6 + 4503599627370496 * d6"
    and c1: "c0 + p1 + e6 * 0x1000003D10 = r1 + 4503599627370496 * c1"
    and d7: "d6 + p7 = e7 + 18446744073709551616 * d7"
    and c2: "c1 + p2 + 0x1000003D10 * e7 = r2 + 4503599627370496 * c2"
    and c3: "c2 + 0x1000003D10000 * d7 + t3 = r3 + 4503599627370496 * c3"
  shows "r0 + 2 ^ 52 * r1 + 2 ^ 104 * r2 + 2 ^ 156 * r3 + 2 ^ 208 * (c3 + t4)
    = p0 + 2 ^ 52 * p1 + 2 ^ 104 * p2 + 2 ^ 156 * p3 + 2 ^ 208 * p4 + 2 ^ 260 * p5 + 2 ^ 312 * p6
      + 2 ^ 364 * p7 + 2 ^ 416 * p8
      - field_prime * ((16 * u0 + tx) + 2 ^ 56 * e6 + 2 ^ 108 * (e7 + 18446744073709551616 * d7)
          + 2 ^ 160 * (cl + 18446744073709551616 * ch))"
  using assms by simp

lemma mag_product:
  fixes x y :: u64
  assumes "uint x \<le> int m * X" "uint y \<le> int k * Y" "m * k \<le> 512" "0 \<le> X" "0 \<le> Y"
  shows "0 \<le> uint x * uint y \<and> uint x * uint y \<le> 512 * (X * Y)"
proof -
  have "uint x * uint y \<le> (int m * X) * (int k * Y)" using assms by (intro mult_mono) auto
  also have "\<dots> = int (m * k) * (X * Y)" by simp
  also have "\<dots> \<le> 512 * (X * Y)"
  proof (rule mult_right_mono)
    show "int (m * k) \<le> 512" using assms(3) by (metis of_nat_le_iff of_nat_numeral)
  qed (use assms in simp)
  finally show ?thesis by simp
qed

context accumulator
begin

lemma low_M52: "uint (u128_low ops r AND M52) = val r mod 4503599627370496"
  using mod_mod_cancel [of 4503599627370496 18446744073709551616 "val r"]
  by (simp add: uint_and_M52 val_low)

lemma shr_52: "val r = uint (u128_low ops r AND M52) + 4503599627370496 * val (u128_shr ops r 52)"
  by (simp only: low_M52 val_shr) simp

lemma shr_64: "val r = uint (u128_low ops r) + 18446744073709551616 * val (u128_shr ops r 64)"
  by (simp only: val_low val_shr) simp

end

lemma mod_M52: "x mod 4503599627370496 \<le> (4503599627370495 :: int)"
  using pos_mod_bound [of 4503599627370496 x] by simp

context accumulator
begin

lemma val_nonneg: "0 \<le> val r"
  using val_bounds [of r] by simp

lemmas acc_exact = val_mul accum_mul_exact accum_u64_exact

lemma fe52_mul_inner_limbs:
  fixes a0 b0 :: u64
  assumes a: "fe52_mag ma (FE52 a0 a1 a2 a3 a4)" and b: "fe52_mag mb (FE52 b0 b1 b2 b3 b4)" and m: "ma *
      mb \<le> 512"
  obtains r0 r1 r2 r3 r4 k where
    "fe52_mul_inner ops (FE52 a0 a1 a2 a3 a4) (FE52 b0 b1 b2 b3 b4) = FE52 r0 r1 r2 r3 r4"
    "fe52_val (FE52 r0 r1 r2 r3 r4)
       = fe52_val (FE52 a0 a1 a2 a3 a4) * fe52_val (FE52 b0 b1 b2 b3 b4) - field_prime * k"
    "fe52_mag 1 (FE52 r0 r1 r2 r3 r4)"
proof -
  note mp = mag_product [OF _ _ m]
  have p00: "0 \<le> uint a0 * uint b0" "uint a0 * uint b0 \<le> 512 * (0xFFFFFFFFFFFFF * 0xFFFFFFFFFFFFF)"
    using mp [of a0 "0xFFFFFFFFFFFFF" b0 "0xFFFFFFFFFFFFF"] a b by simp_all
  have p01: "0 \<le> uint a0 * uint b1" "uint a0 * uint b1 \<le> 512 * (0xFFFFFFFFFFFFF * 0xFFFFFFFFFFFFF)"
    using mp [of a0 "0xFFFFFFFFFFFFF" b1 "0xFFFFFFFFFFFFF"] a b by simp_all
  have p02: "0 \<le> uint a0 * uint b2" "uint a0 * uint b2 \<le> 512 * (0xFFFFFFFFFFFFF * 0xFFFFFFFFFFFFF)"
    using mp [of a0 "0xFFFFFFFFFFFFF" b2 "0xFFFFFFFFFFFFF"] a b by simp_all
  have p03: "0 \<le> uint a0 * uint b3" "uint a0 * uint b3 \<le> 512 * (0xFFFFFFFFFFFFF * 0xFFFFFFFFFFFFF)"
    using mp [of a0 "0xFFFFFFFFFFFFF" b3 "0xFFFFFFFFFFFFF"] a b by simp_all
  have p04: "0 \<le> uint a0 * uint b4" "uint a0 * uint b4 \<le> 512 * (0xFFFFFFFFFFFFF * 0x1080000000000)"
    using mp [of a0 "0xFFFFFFFFFFFFF" b4 "0x1080000000000"] a b by simp_all
  have p10: "0 \<le> uint a1 * uint b0" "uint a1 * uint b0 \<le> 512 * (0xFFFFFFFFFFFFF * 0xFFFFFFFFFFFFF)"
    using mp [of a1 "0xFFFFFFFFFFFFF" b0 "0xFFFFFFFFFFFFF"] a b by simp_all
  have p11: "0 \<le> uint a1 * uint b1" "uint a1 * uint b1 \<le> 512 * (0xFFFFFFFFFFFFF * 0xFFFFFFFFFFFFF)"
    using mp [of a1 "0xFFFFFFFFFFFFF" b1 "0xFFFFFFFFFFFFF"] a b by simp_all
  have p12: "0 \<le> uint a1 * uint b2" "uint a1 * uint b2 \<le> 512 * (0xFFFFFFFFFFFFF * 0xFFFFFFFFFFFFF)"
    using mp [of a1 "0xFFFFFFFFFFFFF" b2 "0xFFFFFFFFFFFFF"] a b by simp_all
  have p13: "0 \<le> uint a1 * uint b3" "uint a1 * uint b3 \<le> 512 * (0xFFFFFFFFFFFFF * 0xFFFFFFFFFFFFF)"
    using mp [of a1 "0xFFFFFFFFFFFFF" b3 "0xFFFFFFFFFFFFF"] a b by simp_all
  have p14: "0 \<le> uint a1 * uint b4" "uint a1 * uint b4 \<le> 512 * (0xFFFFFFFFFFFFF * 0x1080000000000)"
    using mp [of a1 "0xFFFFFFFFFFFFF" b4 "0x1080000000000"] a b by simp_all
  have p20: "0 \<le> uint a2 * uint b0" "uint a2 * uint b0 \<le> 512 * (0xFFFFFFFFFFFFF * 0xFFFFFFFFFFFFF)"
    using mp [of a2 "0xFFFFFFFFFFFFF" b0 "0xFFFFFFFFFFFFF"] a b by simp_all
  have p21: "0 \<le> uint a2 * uint b1" "uint a2 * uint b1 \<le> 512 * (0xFFFFFFFFFFFFF * 0xFFFFFFFFFFFFF)"
    using mp [of a2 "0xFFFFFFFFFFFFF" b1 "0xFFFFFFFFFFFFF"] a b by simp_all
  have p22: "0 \<le> uint a2 * uint b2" "uint a2 * uint b2 \<le> 512 * (0xFFFFFFFFFFFFF * 0xFFFFFFFFFFFFF)"
    using mp [of a2 "0xFFFFFFFFFFFFF" b2 "0xFFFFFFFFFFFFF"] a b by simp_all
  have p23: "0 \<le> uint a2 * uint b3" "uint a2 * uint b3 \<le> 512 * (0xFFFFFFFFFFFFF * 0xFFFFFFFFFFFFF)"
    using mp [of a2 "0xFFFFFFFFFFFFF" b3 "0xFFFFFFFFFFFFF"] a b by simp_all
  have p24: "0 \<le> uint a2 * uint b4" "uint a2 * uint b4 \<le> 512 * (0xFFFFFFFFFFFFF * 0x1080000000000)"
    using mp [of a2 "0xFFFFFFFFFFFFF" b4 "0x1080000000000"] a b by simp_all
  have p30: "0 \<le> uint a3 * uint b0" "uint a3 * uint b0 \<le> 512 * (0xFFFFFFFFFFFFF * 0xFFFFFFFFFFFFF)"
    using mp [of a3 "0xFFFFFFFFFFFFF" b0 "0xFFFFFFFFFFFFF"] a b by simp_all
  have p31: "0 \<le> uint a3 * uint b1" "uint a3 * uint b1 \<le> 512 * (0xFFFFFFFFFFFFF * 0xFFFFFFFFFFFFF)"
    using mp [of a3 "0xFFFFFFFFFFFFF" b1 "0xFFFFFFFFFFFFF"] a b by simp_all
  have p32: "0 \<le> uint a3 * uint b2" "uint a3 * uint b2 \<le> 512 * (0xFFFFFFFFFFFFF * 0xFFFFFFFFFFFFF)"
    using mp [of a3 "0xFFFFFFFFFFFFF" b2 "0xFFFFFFFFFFFFF"] a b by simp_all
  have p33: "0 \<le> uint a3 * uint b3" "uint a3 * uint b3 \<le> 512 * (0xFFFFFFFFFFFFF * 0xFFFFFFFFFFFFF)"
    using mp [of a3 "0xFFFFFFFFFFFFF" b3 "0xFFFFFFFFFFFFF"] a b by simp_all
  have p34: "0 \<le> uint a3 * uint b4" "uint a3 * uint b4 \<le> 512 * (0xFFFFFFFFFFFFF * 0x1080000000000)"
    using mp [of a3 "0xFFFFFFFFFFFFF" b4 "0x1080000000000"] a b by simp_all
  have p40: "0 \<le> uint a4 * uint b0" "uint a4 * uint b0 \<le> 512 * (0x1080000000000 * 0xFFFFFFFFFFFFF)"
    using mp [of a4 "0x1080000000000" b0 "0xFFFFFFFFFFFFF"] a b by simp_all
  have p41: "0 \<le> uint a4 * uint b1" "uint a4 * uint b1 \<le> 512 * (0x1080000000000 * 0xFFFFFFFFFFFFF)"
    using mp [of a4 "0x1080000000000" b1 "0xFFFFFFFFFFFFF"] a b by simp_all
  have p42: "0 \<le> uint a4 * uint b2" "uint a4 * uint b2 \<le> 512 * (0x1080000000000 * 0xFFFFFFFFFFFFF)"
    using mp [of a4 "0x1080000000000" b2 "0xFFFFFFFFFFFFF"] a b by simp_all
  have p43: "0 \<le> uint a4 * uint b3" "uint a4 * uint b3 \<le> 512 * (0x1080000000000 * 0xFFFFFFFFFFFFF)"
    using mp [of a4 "0x1080000000000" b3 "0xFFFFFFFFFFFFF"] a b by simp_all
  have p44: "0 \<le> uint a4 * uint b4" "uint a4 * uint b4 \<le> 512 * (0x1080000000000 * 0x1080000000000)"
    using mp [of a4 "0x1080000000000" b4 "0x1080000000000"] a b by simp_all
  define D3 where "D3 = u128_accum_mul ops (u128_accum_mul ops (u128_accum_mul ops (u128_mul ops a0 b3)
      a1 b2) a2 b1) a3 b0"
  define C8 where "C8 = u128_mul ops a4 b4"
  define cl where "cl = u128_low ops C8"
  define D3x where "D3x = u128_accum_mul ops D3 R52 cl"
  define Ch where "Ch = u128_shr ops C8 64"
  define ch where "ch = u128_low ops Ch"
  define t3 where "t3 = u128_low ops D3x AND M52"
  define D4a where "D4a = u128_shr ops D3x 52"
  define D4 where "D4 = u128_accum_mul ops (u128_accum_mul ops (u128_accum_mul ops (u128_accum_mul ops
      (u128_accum_mul ops (D4a) a0 b4) a1 b3) a2 b2) a3 b1) a4 b0"
  define D4x where "D4x = u128_accum_mul ops D4 (push_bit 12 R52) ch"
  define t4x where "t4x = u128_low ops D4x AND M52"
  define D5a where "D5a = u128_shr ops D4x 52"
  define tx where "tx = drop_bit 48 t4x"
  define t4 where "t4 = t4x AND drop_bit 4 M52"
  define C0 where "C0 = u128_mul ops a0 b0"
  define D5 where "D5 = u128_accum_mul ops (u128_accum_mul ops (u128_accum_mul ops (u128_accum_mul ops
      (D5a) a1 b4) a2 b3) a3 b2) a4 b1"
  define u0x where "u0x = u128_low ops D5 AND M52"
  define D6a where "D6a = u128_shr ops D5 52"
  define u0 where "u0 = push_bit 4 u0x OR tx"
  define C0x where "C0x = u128_accum_mul ops C0 u0 (drop_bit 4 R52)"
  define r0 where "r0 = u128_low ops C0x AND M52"
  define C1a where "C1a = u128_shr ops C0x 52"
  define C1 where "C1 = u128_accum_mul ops (u128_accum_mul ops (C1a) a0 b1) a1 b0"
  define D6 where "D6 = u128_accum_mul ops (u128_accum_mul ops (u128_accum_mul ops (D6a) a2 b4) a3 b3) a4 b2"
  define e6 where "e6 = u128_low ops D6 AND M52"
  define C1x where "C1x = u128_accum_mul ops C1 e6 R52"
  define D7a where "D7a = u128_shr ops D6 52"
  define r1 where "r1 = u128_low ops C1x AND M52"
  define C2a where "C2a = u128_shr ops C1x 52"
  define C2 where "C2 = u128_accum_mul ops (u128_accum_mul ops (u128_accum_mul ops (C2a) a0 b2) a1 b1) a2 b0"
  define D7 where "D7 = u128_accum_mul ops (u128_accum_mul ops (D7a) a3 b4) a4 b3"
  define e7 where "e7 = u128_low ops D7"
  define C2x where "C2x = u128_accum_mul ops C2 R52 e7"
  define D8a where "D8a = u128_shr ops D7 64"
  define d8 where "d8 = u128_low ops D8a"
  define r2 where "r2 = u128_low ops C2x AND M52"
  define C3a where "C3a = u128_shr ops C2x 52"
  define C3 where "C3 = u128_accum_u64 ops (u128_accum_mul ops C3a (push_bit 12 R52) d8) t3"
  define r3 where "r3 = u128_low ops C3 AND M52"
  define C4a where "C4a = u128_shr ops C3 52"
  define C4 where "C4 = u128_accum_u64 ops C4a t4"
  define r4 where "r4 = u128_low ops C4"

  have e: "fe52_mul_inner ops (FE52 a0 a1 a2 a3 a4) (FE52 b0 b1 b2 b3 b4) = FE52 r0 r1 r2 r3 r4"
    unfolding fe52_mul_inner_def Let_def FieldElement52.case D3_def C8_def cl_def D3x_def Ch_def ch_def
        t3_def D4a_def D4_def D4x_def t4x_def D5a_def tx_def t4_def C0_def D5_def u0x_def D6a_def u0_def
        C0x_def r0_def C1a_def C1_def D6_def e6_def C1x_def D7a_def r1_def C2a_def C2_def D7_def e7_def
        C2x_def D8a_def d8_def r2_def C3a_def C3_def r3_def C4a_def C4_def r4_def by (rule refl)
  note sh = shr_52 shr_64
  have v3: "val D3 = uint a0 * uint b3 + uint a1 * uint b2 + uint a2 * uint b1 + uint a3 * uint b0"
    using p03 p12 p21 p30 by (simp add: D3_def acc_exact)
  have v8: "val C8 = uint a4 * uint b4"
    by (simp add: C8_def val_mul)
  have s8: "val C8 = uint cl + 18446744073709551616 * val Ch"
    unfolding cl_def Ch_def by (rule shr_64)
  have bh: "0 \<le> val Ch" "val Ch < 18446744073709551616"
    using s8 v8 p44 val_nonneg [of Ch] uint_bounds(1) [of cl] by linarith+
  have ch: "uint ch = val Ch"
    using bh by (simp add: ch_def val_low)
  have v3x: "val D3x = val D3 + 0x1000003D10 * uint cl"
    using v3 p03 p12 p21 p30 uint_u64 [of cl] by (simp add: D3x_def acc_exact R52_values)
  have s3: "val D3x = uint t3 + 4503599627370496 * val D4a"
    unfolding t3_def D4a_def by (rule shr_52)
  have b3: "0 \<le> val D4a" "val D4a < 4722366482869645213696"
    using s3 v3x v3 p03 p12 p21 p30 uint_u64 [of cl] val_nonneg [of D4a] uint_bounds(1) [of t3] by linarith+
  have bh2: "val Ch < 17592186044416"
    using s8 v8 p44 uint_bounds(1) [of cl] by linarith
  have v4: "val D4 = val D4a + (uint a0 * uint b4 + uint a1 * uint b3 + uint a2 * uint b2 + uint a3 *
      uint b1 + uint a4 * uint b0)"
    using b3 p04 p13 p22 p31 p40 by (simp add: D4_def acc_exact)
  have v4x: "val D4x = val D4 + 0x1000003D10000 * val Ch"
    using v4 b3 p04 p13 p22 p31 p40 bh bh2 by (simp add: D4x_def acc_exact R52_values ch)
  have s4: "val D4x = uint t4x + 4503599627370496 * val D5a"
    unfolding t4x_def D5a_def by (rule shr_52)
  have t4x: "uint t4x < 4503599627370496"
    by (simp add: t4x_def uint_and_M52)
  have tx: "uint t4x = uint t4 + 281474976710656 * uint tx"
    by (simp add: t4_def tx_def uint_and_M48 word_int)
  have t4b: "uint t4 < 281474976710656"
    by (simp add: t4_def uint_and_M48)
  have txb: "uint tx < 16" "uint t4 < 281474976710656"
    using t4x tx t4b uint_bounds(1) [of t4] by linarith+
  have b4: "0 \<le> val D5a" "val D5a < 295147905179352825856"
    using s4 v4x v4 b3 p04 p13 p22 p31 p40 bh bh2 val_nonneg [of D5a] uint_bounds(1) [of t4x] by linarith+
  have v0: "val C0 = uint a0 * uint b0"
    by (simp add: C0_def val_mul)
  have v5: "val D5 = val D5a + (uint a1 * uint b4 + uint a2 * uint b3 + uint a3 * uint b2 + uint a4 *
      uint b1)"
    using b4 p14 p23 p32 p41 by (simp add: D5_def acc_exact)
  have s5: "val D5 = uint u0x + 4503599627370496 * val D6a"
    unfolding u0x_def D6a_def by (rule shr_52)
  have b5: "0 \<le> val D6a" "val D6a < 295147905179352825856"
    using s5 v5 b4 p14 p23 p32 p41 val_nonneg [of D6a] uint_bounds(1) [of u0x] by linarith+
  have u0x: "uint u0x < 4503599627370496"
    by (simp add: u0x_def uint_and_M52)
  have u0: "uint u0 = 16 * uint u0x + uint tx"
    using u0x txb by (simp add: u0_def or_tx)
  have v0x: "val C0x = uint a0 * uint b0 + 0x1000003D10 * uint u0x + 0x1000003D1 * uint tx"
    using v0 p00 u0 u0x txb uint_bounds(1) [of tx] uint_bounds(1) [of u0x] by (simp add: C0x_def
        acc_exact R52_values)
  have s0: "val C0x = uint r0 + 4503599627370496 * val C1a"
    unfolding r0_def C1a_def by (rule shr_52)
  have b0: "0 \<le> val C1a" "val C1a < 295147905179352825856"
    using s0 v0x p00 u0x txb val_nonneg [of C1a] uint_bounds(1) [of r0] by linarith+
  have v1: "val C1 = val C1a + (uint a0 * uint b1 + uint a1 * uint b0)"
    using b0 p01 p10 by (simp add: C1_def acc_exact)
  have v6: "val D6 = val D6a + (uint a2 * uint b4 + uint a3 * uint b3 + uint a4 * uint b2)"
    using b5 p24 p33 p42 by (simp add: D6_def acc_exact)
  have s6: "val D6 = uint e6 + 4503599627370496 * val D7a"
    unfolding e6_def D7a_def by (rule shr_52)
  have b6: "0 \<le> val D7a" "val D7a < 295147905179352825856"
    using s6 v6 b5 p24 p33 p42 val_nonneg [of D7a] uint_bounds(1) [of e6] by linarith+
  have e6: "uint e6 < 4503599627370496"
    by (simp add: e6_def uint_and_M52)
  have v1x: "val C1x = val C1 + uint e6 * 0x1000003D10"
    using v1 b0 p01 p10 e6 by (simp add: C1x_def acc_exact R52_values)
  have s1: "val C1x = uint r1 + 4503599627370496 * val C2a"
    unfolding r1_def C2a_def by (rule shr_52)
  have b1: "0 \<le> val C2a" "val C2a < 295147905179352825856"
    using s1 v1x v1 b0 p01 p10 e6 val_nonneg [of C2a] uint_bounds(1) [of r1] by linarith+
  have v2: "val C2 = val C2a + (uint a0 * uint b2 + uint a1 * uint b1 + uint a2 * uint b0)"
    using b1 p02 p11 p20 by (simp add: C2_def acc_exact)
  have v7: "val D7 = val D7a + (uint a3 * uint b4 + uint a4 * uint b3)"
    using b6 p34 p43 by (simp add: D7_def acc_exact)
  have s7: "val D7 = uint e7 + 18446744073709551616 * val D8a"
    unfolding e7_def D8a_def by (rule shr_64)
  have b7: "0 \<le> val D8a" "val D8a < 0x420000000100"
    using s7 v7 b6 p34 p43 val_nonneg [of D8a] uint_bounds(1) [of e7] by linarith+
  have d8: "uint d8 = val D8a"
    using b7 by (simp add: d8_def val_low)
  have v2x: "val C2x = val C2 + 0x1000003D10 * uint e7"
    using v2 b1 p02 p11 p20 uint_u64 [of e7] by (simp add: C2x_def acc_exact R52_values)
  have s2: "val C2x = uint r2 + 4503599627370496 * val C3a"
    unfolding r2_def C3a_def by (rule shr_52)
  have b2: "0 \<le> val C3a" "val C3a < 295147905179352825856"
    using s2 v2x v2 b1 p02 p11 p20 uint_u64 [of e7] val_nonneg [of C3a] uint_bounds(1) [of r2] by linarith+
  have t3: "uint t3 < 4503599627370496"
    by (simp add: t3_def uint_and_M52)
  have v3c: "val C3 = val C3a + 0x1000003D10000 * val D8a + uint t3"
    using b2 b7 t3 by (simp add: C3_def acc_exact R52_values d8)
  have s3c: "val C3 = uint r3 + 4503599627370496 * val C4a"
    unfolding r3_def C4a_def by (rule shr_52)
  have b3c: "0 \<le> val C4a" "val C4a < 0x80000000000"
    using s3c v3c b2 b7 t3 val_nonneg [of C4a] uint_bounds(1) [of r3] by linarith+
  have v4c: "uint r4 = val C4a + uint t4"
    using b3c txb by (simp add: r4_def C4_def acc_exact val_low)
  have h8: "uint a4 * uint b4 = uint cl + 18446744073709551616 * val Ch"
    using s8 v8 by linarith
  have h3: "(uint a0 * uint b3 + uint a1 * uint b2 + uint a2 * uint b1 + uint a3 * uint b0) +
      0x1000003D10 * uint cl = uint t3 + 4503599627370496 * val D4a"
    using s3 v3x v3 by linarith
  have h4: "val D4a + (uint a0 * uint b4 + uint a1 * uint b3 + uint a2 * uint b2 + uint a3 * uint b1 +
      uint a4 * uint b0) + 0x1000003D10000 * val Ch = uint t4 + 281474976710656 * uint tx + 4503599627370496
      * val D5a"
    using s4 v4x v4 tx by linarith
  have h5: "val D5a + (uint a1 * uint b4 + uint a2 * uint b3 + uint a3 * uint b2 + uint a4 * uint b1) =
      uint u0x + 4503599627370496 * val D6a"
    using s5 v5 by linarith
  have h0: "uint a0 * uint b0 + (16 * uint u0x + uint tx) * 0x1000003D1 = uint r0 + 4503599627370496 *
      val C1a"
    using s0 v0x by simp
  have h6: "val D6a + (uint a2 * uint b4 + uint a3 * uint b3 + uint a4 * uint b2) = uint e6 +
      4503599627370496 * val D7a"
    using s6 v6 by linarith
  have h1: "val C1a + (uint a0 * uint b1 + uint a1 * uint b0) + uint e6 * 0x1000003D10 = uint r1 +
      4503599627370496 * val C2a"
    using s1 v1x v1 by linarith
  have h7: "val D7a + (uint a3 * uint b4 + uint a4 * uint b3) = uint e7 + 18446744073709551616 * val D8a"
    using s7 v7 by linarith
  have h2: "val C2a + (uint a0 * uint b2 + uint a1 * uint b1 + uint a2 * uint b0) + 0x1000003D10 * uint
      e7 = uint r2 + 4503599627370496 * val C3a"
    using s2 v2x v2 by linarith
  have hc: "val C3a + 0x1000003D10000 * val D8a + uint t3 = uint r3 + 4503599627370496 * val C4a"
    using s3c v3c by linarith
  show thesis
  proof (rule that [OF e])
    show "fe52_mag 1 (FE52 r0 r1 r2 r3 r4)"
      using b3c v4c txb by (simp add: r0_def r1_def r2_def r3_def uint_and_M52 mod_M52)
    show "fe52_val (FE52 r0 r1 r2 r3 r4)
       = fe52_val (FE52 a0 a1 a2 a3 a4) * fe52_val (FE52 b0 b1 b2 b3 b4)
         - field_prime * ((16 * uint u0x + uint tx) + 2 ^ 56 * uint e6
             + 2 ^ 108 * (uint e7 + 18446744073709551616 * val D8a)
             + 2 ^ 160 * (uint cl + 18446744073709551616 * val Ch))"
      unfolding fe52_val.simps v4c comba_identity [OF h8 h3 h4 h5 h0 h6 h1 h7 h2 hc] by (simp add:
          algebra_simps)
  qed
qed

end

context accumulator
begin

text \<open>Squaring is multiplication by itself: the doubled cross products are the two products.\<close>

lemma fe52_sqr_inner_eq:
  assumes "uint a0 < 9223372036854775808" "uint a1 < 9223372036854775808"
    "uint a2 < 9223372036854775808" "uint a3 < 9223372036854775808"
  shows "fe52_sqr_inner ops (FE52 a0 a1 a2 a3 a4) = fe52_mul_inner ops (FE52 a0 a1 a2 a3 a4) (FE52 a0 a1 a2 a3 a4)"
proof -
  have d: "uint (a0 * 2) = 2 * uint a0" "uint (a1 * 2) = 2 * uint a1" "uint (a2 * 2) = 2 * uint a2"
    "uint (a3 * 2) = 2 * uint a3"
    using assms by (simp_all add: uint_word_ariths)
  note v = val_mul val_accum_mul d
  let ?A = "u128_accum_mul ops"
  have c3: "?A (u128_mul ops (a0 * 2) a3) (a1 * 2) a2 = ?A (?A (?A (u128_mul ops a0 a3) a1 a2) a2 a1) a3 a0"
    by (rule val_inj) (simp add: v mod_simps algebra_simps)
  have c4: "?A (?A (?A r (a0 * 2) a4) (a1 * 2) a3) a2 a2 = ?A (?A (?A (?A (?A r a0 a4) a1 a3) a2 a2) a3 a1) a4 a0" for r
    by (rule val_inj) (simp add: v mod_simps algebra_simps)
  have c5: "?A (?A r (a1 * 2) a4) (a2 * 2) a3 = ?A (?A (?A (?A r a1 a4) a2 a3) a3 a2) a4 a1" for r
    by (rule val_inj) (simp add: v mod_simps algebra_simps)
  have c1: "?A r (a0 * 2) a1 = ?A (?A r a0 a1) a1 a0" for r
    by (rule val_inj) (simp add: v mod_simps algebra_simps)
  have c6: "?A (?A r (a2 * 2) a4) a3 a3 = ?A (?A (?A r a2 a4) a3 a3) a4 a2" for r
    by (rule val_inj) (simp add: v mod_simps algebra_simps)
  have c2: "?A (?A r (a0 * 2) a2) a1 a1 = ?A (?A (?A r a0 a2) a1 a1) a2 a0" for r
    by (rule val_inj) (simp add: v mod_simps algebra_simps)
  have c7: "?A r (a3 * 2) a4 = ?A (?A r a3 a4) a4 a3" for r
    by (rule val_inj) (simp add: v mod_simps algebra_simps)
  show ?thesis
    unfolding fe52_sqr_inner_def fe52_mul_inner_def FieldElement52.case Let_def c3 c4 c5 c1 c6 c2 c7 by (rule refl)
qed

end

section \<open>Lazy operations\<close>

lemma fe52_add_value:
  assumes "fe52_mag m a" "fe52_mag k b" "m + k \<le> 4000"
  shows "fe52_val (fe52_add a b) = fe52_val a + fe52_val b \<and> fe52_mag (m + k) (fe52_add a b)"
proof (cases a; cases b)
  fix a0 a1 a2 a3 a4 b0 b1 b2 b3 b4
  assume ab: "a = FE52 a0 a1 a2 a3 a4" "b = FE52 b0 b1 b2 b3 b4"
  have mk: "int m + int k \<le> 4000" "0 \<le> int m" "0 \<le> int k" using assms(3) by simp_all
  have s: "uint (x + y) = uint x + uint y"
    if "uint x \<le> int m * c" "uint y \<le> int k * c" "0 \<le> c" "c \<le> 4503599627370495" for x y :: u64 and c
  proof -
    have "(int m + int k) * c \<le> 4000 * 4503599627370495" using mk that by (intro mult_mono) auto
    then show ?thesis using that by (simp add: uint_word_ariths distrib_right)
  qed
  show ?thesis using assms s [of a0 "0xFFFFFFFFFFFFF" b0] s [of a1 "0xFFFFFFFFFFFFF" b1] s [of a2 "0xFFFFFFFFFFFFF" b2]
      s [of a3 "0xFFFFFFFFFFFFF" b3] s [of a4 "0x1080000000000" b4]
    by (simp add: ab distrib_right)
qed

lemma fe52_negate_value:
  assumes "fe52_mag m a" "m \<le> 30" "unat k = m"
  shows "fe52_val (fe52_negate k a) = (int m + 1) * field_prime - fe52_val a \<and> fe52_mag (m + 1) (fe52_negate k a)"
proof (cases a)
  case (FE52 a0 a1 a2 a3 a4)
  have "uint k = int m" using assms(3) by (simp only: uint_nat)
  then have m1: "uint ((ucast k :: u64) + 1) = int m + 1"
    using assms(2) by (simp add: uint_word_ariths word_int)
  have mm: "0 \<le> int m" "int m \<le> 30" using assms(2) by simp_all
  have s: "uint (((ucast k :: u64) + 1) * p - x) = (int m + 1) * uint p - uint x"
    if "uint x \<le> (int m + 1) * uint p" "uint p \<le> 4503599627370495" for p x :: u64
  proof -
    have "(int m + 1) * uint p \<le> 31 * 4503599627370495" using that mm by (intro mult_mono) auto
    then have "uint (((ucast k :: u64) + 1) * p) = (int m + 1) * uint p" using mm
      by (simp add: uint_word_ariths(3) m1)
    then show ?thesis using that(1) by (simp add: uint_sub_if')
  qed
  have p: "uint P0 = 0xFFFFEFFFFFC2F" "uint P1 = 0xFFFFFFFFFFFFF" "uint P2 = 0xFFFFFFFFFFFFF"
    "uint P3 = 0xFFFFFFFFFFFFF" "uint P4 = 0xFFFFFFFFFFFF"
    by (simp_all add: P0_def P1_def P2_def P3_def P4_def)
  have b: "uint a0 \<le> int m * 0xFFFFFFFFFFFFF" "uint a1 \<le> int m * 0xFFFFFFFFFFFFF" "uint a2 \<le> int m * 0xFFFFFFFFFFFFF"
    "uint a3 \<le> int m * 0xFFFFFFFFFFFFF" "uint a4 \<le> int m * 0x1080000000000"
    using assms(1) by (simp_all add: FE52)
  have e: "uint ((ucast k + 1) * P0 - a0) = (int m + 1) * uint P0 - uint a0"
    "uint ((ucast k + 1) * P1 - a1) = (int m + 1) * uint P1 - uint a1"
    "uint ((ucast k + 1) * P2 - a2) = (int m + 1) * uint P2 - uint a2"
    "uint ((ucast k + 1) * P3 - a3) = (int m + 1) * uint P3 - uint a3"
    "uint ((ucast k + 1) * P4 - a4) = (int m + 1) * uint P4 - uint a4"
    by (rule s; use b mm in \<open>simp add: p distrib_right\<close>)+
  have "fe52_val (fe52_negate k a) = (int m + 1) * field_prime - fe52_val a"
    unfolding FE52 fe52_negate.simps Let_def fe52_val.simps e p by (simp add: algebra_simps)
  moreover have n: "- uint x \<le> c" if "0 \<le> c" for x :: u64 and c
    using that uint_bounds(1) [of x] by linarith
  have "fe52_mag (m + 1) (fe52_negate k a)"
    unfolding FE52 fe52_negate.simps Let_def fe52_mag.simps e p using mm by (simp add: distrib_right n)
  ultimately show ?thesis by simp
qed

lemma fe52_mul_int_value:
  assumes "fe52_mag m a" "m * unat k \<le> 4000"
  shows "fe52_val (fe52_mul_int k a) = uint k * fe52_val a \<and> fe52_mag (m * unat k) (fe52_mul_int k a)"
proof (cases a)
  case (FE52 a0 a1 a2 a3 a4)
  have k: "uint (ucast k :: u64) = uint k" using uint_u32 [of k] by (simp add: word_int)
  have mk: "int m * uint k \<le> 4000" using assms(2) by (metis of_nat_le_iff of_nat_mult of_nat_numeral uint_nat)
  have s: "uint (x * ucast k) = uint x * uint k \<and> uint x * uint k \<le> int m * uint k * c"
    if "uint x \<le> int m * c" "0 \<le> c" "c \<le> 4503599627370495" for x :: u64 and c
  proof -
    have "uint x * uint k \<le> (int m * c) * uint k" using that by (intro mult_right_mono) auto
    moreover have "int m * uint k * c \<le> 4000 * 4503599627370495" using mk that by (intro mult_mono) auto
    ultimately show ?thesis by (simp add: uint_word_ariths k ac_simps)
  qed
  have b: "uint a0 \<le> int m * 0xFFFFFFFFFFFFF" "uint a1 \<le> int m * 0xFFFFFFFFFFFFF" "uint a2 \<le> int m * 0xFFFFFFFFFFFFF"
    "uint a3 \<le> int m * 0xFFFFFFFFFFFFF" "uint a4 \<le> int m * 0x1080000000000"
    using assms(1) by (simp_all add: FE52)
  note e = s [OF b(1)] s [OF b(2)] s [OF b(3)] s [OF b(4)] s [OF b(5)]
  have mu: "int (m * unat k) = int m * uint k" by (simp only: of_nat_mult uint_nat)
  show ?thesis using e unfolding FE52 fe52_mul_int.simps fe52_val.simps fe52_mag.simps mu
    by (simp add: algebra_simps)
qed

lemma fe52_val_nonneg: "0 \<le> fe52_val a"
  by (cases a) simp

text \<open>Halving: the prime is added, limb by limb, to an odd element; the shift then loses nothing.\<close>

lemma half_limb:
  fixes t s :: u64
  assumes "uint t < 18446744073709551616 - 4503599627370496"
  shows "uint (drop_bit 1 t + push_bit 51 (s AND 1)) = uint t div 2 + 2251799813685248 * (uint s mod 2)"
proof -
  have a: "uint (s AND 1) = uint s mod 2" using uint_and_mask [of s 1] by simp
  have "0 \<le> uint s mod 2" "uint s mod 2 \<le> 1" by (simp_all add: less_iff_Suc_add)
  moreover have "uint t div 2 < 9223372036854775808" "0 \<le> uint t div 2"
    using assms uint_bounds(1) [of t] by (linarith, simp add: pos_imp_zdiv_nonneg_iff)
  ultimately show ?thesis by (simp add: push_bit_eq_mult uint_word_ariths word_int a)
qed

lemma half_identity:
  fixes t0 t1 t2 t3 t4 :: int
  assumes "t0 mod 2 = 0"
  shows "2 * ((t0 div 2 + 2251799813685248 * (t1 mod 2)) + 2 ^ 52 * (t1 div 2 + 2251799813685248 * (t2 mod 2))
      + 2 ^ 104 * (t2 div 2 + 2251799813685248 * (t3 mod 2)) + 2 ^ 156 * (t3 div 2 + 2251799813685248 * (t4 mod 2))
      + 2 ^ 208 * (t4 div 2))
    = t0 + 2 ^ 52 * t1 + 2 ^ 104 * t2 + 2 ^ 156 * t3 + 2 ^ 208 * t4"
proof -
  define d0 d1 d2 d3 d4 m1 m2 m3 m4 where d: "d0 = t0 div 2" "d1 = t1 div 2" "d2 = t2 div 2" "d3 = t3 div 2"
    "d4 = t4 div 2" "m1 = t1 mod 2" "m2 = t2 mod 2" "m3 = t3 mod 2" "m4 = t4 mod 2"
  have t: "t0 = 2 * d0" "t1 = 2 * d1 + m1" "t2 = 2 * d2 + m2" "t3 = 2 * d3 + m3" "t4 = 2 * d4 + m4"
    using assms by (simp_all add: d) presburger
  show ?thesis unfolding d [symmetric] by (simp add: t)
qed

lemma fe52_half_value:
  assumes "fe52_mag m a" "m \<le> 4000"
  shows "2 * fe52_val (fe52_half a) = fe52_val a + (if odd (fe52_val a) then field_prime else 0)
    \<and> fe52_mag (m div 2 + 2) (fe52_half a)"
proof (cases a)
  case (FE52 n0 n1 n2 n3 n4)
  define b where "b = uint n0 mod 2"
  have b: "b = 0 \<or> b = 1" unfolding b_def by auto
  define msk where "msk = drop_bit 12 (0 - (n0 AND 1))"
  have n0: "n0 AND 1 = (if b = 1 then 1 else 0)"
    using uint_and_mask [of n0 1] b unfolding b_def by (auto simp: word_uint_eq_iff)
  have msk: "uint msk = b * 0xFFFFFFFFFFFFF" "uint (0xFFFFEFFFFFC2F AND msk) = b * 0xFFFFEFFFFFC2F"
    "uint (drop_bit 4 msk) = b * 0xFFFFFFFFFFFF"
    using b by (auto simp: msk_def n0 mask_eq_exp_minus_1)
  define t0 where "t0 = n0 + (0xFFFFEFFFFFC2F AND msk)"
  define t1 where "t1 = n1 + msk" define t2 where "t2 = n2 + msk" define t3 where "t3 = n3 + msk"
  define t4 where "t4 = n4 + drop_bit 4 msk"
  have nb: "uint n0 \<le> int m * 0xFFFFFFFFFFFFF" "uint n1 \<le> int m * 0xFFFFFFFFFFFFF" "uint n2 \<le> int m * 0xFFFFFFFFFFFFF"
    "uint n3 \<le> int m * 0xFFFFFFFFFFFFF" "uint n4 \<le> int m * 0x1080000000000" "int m \<le> 4000"
    using assms by (simp_all add: FE52)
  have t: "uint t0 = uint n0 + b * 0xFFFFEFFFFFC2F" "uint t1 = uint n1 + b * 0xFFFFFFFFFFFFF"
    "uint t2 = uint n2 + b * 0xFFFFFFFFFFFFF" "uint t3 = uint n3 + b * 0xFFFFFFFFFFFFF"
    "uint t4 = uint n4 + b * 0xFFFFFFFFFFFF"
    using nb b by (auto simp: t0_def t1_def t2_def t3_def t4_def uint_word_ariths(1) msk)
  have lt: "uint t0 < 18446744073709551616 - 4503599627370496" "uint t1 < 18446744073709551616 - 4503599627370496"
    "uint t2 < 18446744073709551616 - 4503599627370496" "uint t3 < 18446744073709551616 - 4503599627370496"
    using b nb unfolding t by (elim disjE; simp)+
  have e: "fe52_half a = FE52 (drop_bit 1 t0 + push_bit 51 (t1 AND 1)) (drop_bit 1 t1 + push_bit 51 (t2 AND 1))
      (drop_bit 1 t2 + push_bit 51 (t3 AND 1)) (drop_bit 1 t3 + push_bit 51 (t4 AND 1)) (drop_bit 1 t4)"
    unfolding FE52 fe52_half.simps Let_def msk_def t0_def t1_def t2_def t3_def t4_def by (rule refl)
  note h = half_limb [OF lt(1), of t1] half_limb [OF lt(2), of t2] half_limb [OF lt(3), of t3] half_limb [OF lt(4), of t4]
  have h4: "uint (drop_bit 1 t4) = uint t4 div 2" by (simp add: word_int)
  have t0: "uint t0 mod 2 = 0" using b b_def unfolding t by presburger
  have o: "odd (fe52_val a) \<longleftrightarrow> b = 1" by (simp add: FE52 b_def odd_iff_mod_2_eq_one)
  have "2 * fe52_val (fe52_half a) = uint t0 + 2 ^ 52 * uint t1 + 2 ^ 104 * uint t2 + 2 ^ 156 * uint t3 + 2 ^ 208 * uint t4"
    unfolding e fe52_val.simps h h4 by (rule half_identity [OF t0])
  also have "\<dots> = fe52_val a + b * field_prime" unfolding t FE52 fe52_val.simps by (simp add: algebra_simps)
  finally have v: "2 * fe52_val (fe52_half a) = fe52_val a + (if odd (fe52_val a) then field_prime else 0)"
    using b by (auto simp: o)
  define q where "q = int (m div 2)"
  have q: "int m \<le> 2 * q + 1" "int (m div 2 + 2) = q + 2" unfolding q_def by linarith+
  have bb: "0 \<le> b" "b \<le> 1" using b by auto
  have hb: "x div 2 + 2251799813685248 * (y mod 2) \<le> (q + 2) * 0xFFFFFFFFFFFFF"
    if "x \<le> int m * 0xFFFFFFFFFFFFF + b * 0xFFFFFFFFFFFFF" for x y :: int
  proof -
    have "y mod 2 \<le> 1" by (simp add: less_iff_Suc_add)
    moreover have "2 * (x div 2) \<le> x" by linarith
    ultimately show ?thesis using that q bb unfolding distrib_right by linarith
  qed
  have "2 * (uint t4 div 2) \<le> uint t4" by linarith
  then have h4b: "uint t4 div 2 \<le> (q + 2) * 0x1080000000000" using t nb q bb unfolding distrib_right by linarith
  have "fe52_mag (m div 2 + 2) (fe52_half a)"
    unfolding e fe52_mag.simps h h4 q by (intro conjI hb h4b) (use t nb bb in linarith)+
  with v show ?thesis by simp
qed

section \<open>Normalisation\<close>

lemma uint_M48: "uint (x AND M48) = uint x mod 281474976710656"
  using uint_and_mask [of x 48] by (simp add: M48_def mask_eq_exp_minus_1)

lemma carry_limb_52:
  fixes t c :: u64
  assumes "uint c \<le> 4096" "uint t \<le> 18446744073709547519"
  shows "uint (t + c) = uint t + uint c" "uint (drop_bit 52 t) \<le> 4096"
    "uint t = uint (t AND M52) + 4503599627370496 * uint (drop_bit 52 t)"
    "uint (t AND M52) < 4503599627370496"
  using assms uint_u64 [of t] by (simp_all add: uint_word_ariths uint_and_M52 word_int)

lemma carry_chain:
  assumes "uint t1 \<le> 18446744073709547519" "uint t2 \<le> 18446744073709547519"
    "uint t3 \<le> 18446744073709547519" "uint t4 \<le> 18446744073709547519"
  obtains r0 r1 r2 r3 r4 where "fe52_carry t0 t1 t2 t3 t4 = FE52 r0 r1 r2 r3 r4"
    "fe52_val (FE52 r0 r1 r2 r3 r4) = fe52_val (FE52 t0 t1 t2 t3 t4)"
    "uint r0 < 4503599627370496" "uint r1 < 4503599627370496" "uint r2 < 4503599627370496"
    "uint r3 < 4503599627370496" "uint r4 \<le> uint t4 + 4096"
proof -
  have d: "uint (drop_bit 52 t) \<le> 4096" for t :: u64
    using uint_u64 [of t] by (simp add: word_int)
  have s: "uint t = uint (t AND M52) + 4503599627370496 * uint (drop_bit 52 t)" for t :: u64
    by (simp add: uint_and_M52 word_int)
  have a: "uint (t + drop_bit 52 u) = uint t + uint (drop_bit 52 u)" if "uint t \<le> 18446744073709547519" for t u :: u64
    using that d [of u] by (simp add: uint_word_ariths)
  define s1 where "s1 = t1 + drop_bit 52 t0" define s2 where "s2 = t2 + drop_bit 52 s1"
  define s3 where "s3 = t3 + drop_bit 52 s2" define s4 where "s4 = t4 + drop_bit 52 s3"
  have v: "uint s1 = uint t1 + uint (drop_bit 52 t0)" "uint s2 = uint t2 + uint (drop_bit 52 s1)"
    "uint s3 = uint t3 + uint (drop_bit 52 s2)" "uint s4 = uint t4 + uint (drop_bit 52 s3)"
    using assms by (simp_all add: s1_def s2_def s3_def s4_def a)
  show thesis
  proof (rule that [of "t0 AND M52" "s1 AND M52" "s2 AND M52" "s3 AND M52" s4])
    show "fe52_carry t0 t1 t2 t3 t4 = FE52 (t0 AND M52) (s1 AND M52) (s2 AND M52) (s3 AND M52) s4"
      unfolding fe52_carry_def Let_def s1_def s2_def s3_def s4_def by (rule refl)
    show "fe52_val (FE52 (t0 AND M52) (s1 AND M52) (s2 AND M52) (s3 AND M52) s4) = fe52_val (FE52 t0 t1 t2 t3 t4)"
      using v s [of t0] s [of s1] s [of s2] s [of s3] by simp
    show "uint s4 \<le> uint t4 + 4096" using v(4) d [of s3] by simp
  qed (simp_all add: uint_and_M52)
qed

text \<open>Folding the top: \<open>2^256\<close> is \<open>0x1000003D1\<close> modulo the prime.\<close>

lemma fold_top:
  fixes t0 t4 :: u64
  assumes "uint t0 \<le> 18446181123756130304"
  shows "uint (t0 + drop_bit 48 t4 * 0x1000003D1) = uint t0 + uint t4 div 281474976710656 * 0x1000003D1"
    "uint (t4 AND M48) < 281474976710656"
    "uint t4 = uint (t4 AND M48) + 281474976710656 * (uint t4 div 281474976710656)"
proof -
  have "uint t4 div 281474976710656 < 65536" "0 \<le> uint t4 div 281474976710656"
    using uint_u64 [of t4] by (simp, simp add: pos_imp_zdiv_nonneg_iff)
  then show "uint (t0 + drop_bit 48 t4 * 0x1000003D1) = uint t0 + uint t4 div 281474976710656 * 0x1000003D1"
    using assms by (simp add: uint_word_ariths word_int)
qed (simp_all add: uint_M48)

lemma mag_limbs:
  assumes "fe52_mag m (FE52 n0 n1 n2 n3 n4)" "m \<le> 4000"
  shows "uint n0 \<le> 18014398509481980000" "uint n1 \<le> 18014398509481980000" "uint n2 \<le> 18014398509481980000"
    "uint n3 \<le> 18014398509481980000" "uint n4 \<le> 1161084278931456000"
  using assms by simp_all

text \<open>With carried limbs below, the comparison with the prime is read off the limbs.\<close>

lemma and_eq_M52:
  assumes "uint x < 4503599627370496" "uint y < 4503599627370496" "uint z < 4503599627370496"
  shows "x AND y AND z = M52 \<longleftrightarrow> x = M52 \<and> y = M52 \<and> z = M52"
proof
  assume e: "x AND y AND z = M52"
  have "x AND M52 = M52" "y AND M52 = M52" "z AND M52 = M52"
    by (simp_all flip: e add: ac_simps)
  moreover have "w AND M52 = w" if "uint w < 4503599627370496" for w
    using that by (simp add: word_uint_eq_iff uint_and_M52)
  ultimately show "x = M52 \<and> y = M52 \<and> z = M52" using assms by metis
qed simp

lemma ge_prime_limbs:
  fixes r0 r1 r2 r3 r4 :: int
  assumes "0 \<le> r0" "r0 < 4503599627370496" "0 \<le> r1" "r1 < 4503599627370496"
    "0 \<le> r2" "r2 < 4503599627370496" "0 \<le> r3" "r3 < 4503599627370496"
  shows "field_prime \<le> r0 + 2 ^ 52 * r1 + 2 ^ 104 * r2 + 2 ^ 156 * r3 + 2 ^ 208 * r4 \<longleftrightarrow>
    281474976710656 \<le> r4 \<or> (r4 = 281474976710655 \<and> r1 = 4503599627370495 \<and> r2 = 4503599627370495
      \<and> r3 = 4503599627370495 \<and> 0xFFFFEFFFFFC2F \<le> r0)"
proof -
  let ?V = "r0 + 4503599627370496 * r1 + 20282409603651670423947251286016 * r2
    + 91343852333181432387730302044767688728495783936 * r3
    + 411376139330301510538742295639337626245683966408394965837152256 * r4"
  have up: "r4 = 281474976710655 \<and> r3 = 4503599627370495 \<and> r2 = 4503599627370495 \<and> r1 = 4503599627370495
      \<and> 0xFFFFEFFFFFC2F \<le> r0" if "field_prime \<le> ?V" "r4 < 281474976710656"
  proof -
    have 4: "r4 = 281474976710655" using assms that by linarith
    have 3: "r3 = 4503599627370495" using assms that 4 by linarith
    have 2: "r2 = 4503599627370495" using assms that 4 3 by linarith
    have "r1 = 4503599627370495" using assms that 4 3 2 by linarith
    then show ?thesis using assms that 4 3 2 by linarith
  qed
  have "field_prime \<le> ?V" if "281474976710656 \<le> r4" using assms that by linarith
  then have "field_prime \<le> ?V \<longleftrightarrow>
    281474976710656 \<le> r4 \<or> (r4 = 281474976710655 \<and> r1 = 4503599627370495 \<and> r2 = 4503599627370495
      \<and> r3 = 4503599627370495 \<and> 0xFFFFEFFFFFC2F \<le> r0)"
    using up by fastforce
  then show ?thesis by simp
qed

lemma fold_carry:
  assumes "uint t0 \<le> 18446181123756130304" "uint t1 \<le> 18446744073709547519"
    "uint t2 \<le> 18446744073709547519" "uint t3 \<le> 18446744073709547519"
  obtains r0 r1 r2 r3 r4 where
    "fe52_carry (t0 + drop_bit 48 t4 * 0x1000003D1) t1 t2 t3 (t4 AND M48) = FE52 r0 r1 r2 r3 r4"
    "fe52_val (FE52 r0 r1 r2 r3 r4) = fe52_val (FE52 t0 t1 t2 t3 t4) - field_prime * (uint t4 div 281474976710656)"
    "uint r0 < 4503599627370496" "uint r1 < 4503599627370496" "uint r2 < 4503599627370496"
    "uint r3 < 4503599627370496" "uint r4 < 281474976714752"
proof -
  let ?t0 = "t0 + drop_bit 48 t4 * 0x1000003D1" and ?t4 = "t4 AND M48"
  note f = fold_top [OF assms(1), of t4]
  have c4: "uint ?t4 \<le> 18446744073709547519" using f(2) by linarith
  obtain r0 r1 r2 r3 r4 where r: "fe52_carry ?t0 t1 t2 t3 ?t4 = FE52 r0 r1 r2 r3 r4"
    "fe52_val (FE52 r0 r1 r2 r3 r4) = fe52_val (FE52 ?t0 t1 t2 t3 ?t4)"
    "uint r0 < 4503599627370496" "uint r1 < 4503599627370496" "uint r2 < 4503599627370496"
    "uint r3 < 4503599627370496" "uint r4 \<le> uint ?t4 + 4096"
    by (rule carry_chain [OF assms(2,3,4) c4]) (rule that)
  have "fe52_val (FE52 t0 t1 t2 t3 t4) = fe52_val (FE52 ?t0 t1 t2 t3 ?t4) + field_prime * (uint t4 div 281474976710656)"
    unfolding fe52_val.simps f(1) by (subst f(3)) simp
  then show thesis using r f(2) by (intro that [of r0 r1 r2 r3 r4]) linarith+
qed

lemma fe52_normalize_weak_value:
  assumes "fe52_mag m a" "m \<le> 4000"
  shows "fe52_val (fe52_normalize_weak a) mod field_prime = fe52_val a mod field_prime
    \<and> fe52_mag 1 (fe52_normalize_weak a)"
proof (cases a)
  case (FE52 n0 n1 n2 n3 n4)
  note b = mag_limbs [OF assms(1) [unfolded FE52] assms(2)]
  have c: "uint n1 \<le> 18446744073709547519" "uint n2 \<le> 18446744073709547519"
    "uint n3 \<le> 18446744073709547519" "uint n4 \<le> 18446744073709547519" using b by linarith+
  obtain t0 t1 t2 t3 t4 where t: "fe52_carry n0 n1 n2 n3 n4 = FE52 t0 t1 t2 t3 t4"
    "fe52_val (FE52 t0 t1 t2 t3 t4) = fe52_val (FE52 n0 n1 n2 n3 n4)"
    "uint t0 < 4503599627370496" "uint t1 < 4503599627370496" "uint t2 < 4503599627370496"
    "uint t3 < 4503599627370496" "uint t4 \<le> uint n4 + 4096"
    by (rule carry_chain [OF c, of n0]) (rule that)
  have d: "uint t0 \<le> 18446181123756130304" "uint t1 \<le> 18446744073709547519"
    "uint t2 \<le> 18446744073709547519" "uint t3 \<le> 18446744073709547519" using t by linarith+
  obtain r0 r1 r2 r3 r4 where
    r: "fe52_carry (t0 + drop_bit 48 t4 * 0x1000003D1) t1 t2 t3 (t4 AND M48) = FE52 r0 r1 r2 r3 r4"
    "fe52_val (FE52 r0 r1 r2 r3 r4) = fe52_val (FE52 t0 t1 t2 t3 t4) - field_prime * (uint t4 div 281474976710656)"
    "uint r0 < 4503599627370496" "uint r1 < 4503599627370496" "uint r2 < 4503599627370496"
    "uint r3 < 4503599627370496" "uint r4 < 281474976714752"
    by (rule fold_carry [OF d, of t4]) (rule that)
  have e: "fe52_normalize_weak a = FE52 r0 r1 r2 r3 r4"
    by (simp only: FE52 fe52_normalize_weak_def FieldElement52.case Let_def t(1) r(1))
  have "fe52_val (fe52_normalize_weak a) = fe52_val a + field_prime * (- (uint t4 div 281474976710656))"
    by (subst e, subst r(2), subst t(2)) (simp add: FE52 del: fe52_val.simps)
  then have "fe52_val (fe52_normalize_weak a) mod field_prime = fe52_val a mod field_prime" by (simp only: mod_mult_self2)
  moreover have "fe52_mag 1 (fe52_normalize_weak a)" using r by (simp add: e)
  ultimately show ?thesis by simp
qed

text \<open>The second fold happens exactly when the carried value is the prime or more.\<close>

fun fe52_carried :: "FieldElement52 \<Rightarrow> bool" where
  "fe52_carried (FE52 r0 r1 r2 r3 r4) \<longleftrightarrow>
     uint r0 < 4503599627370496 \<and> uint r1 < 4503599627370496 \<and> uint r2 < 4503599627370496
     \<and> uint r3 < 4503599627370496"

lemma ge_prime_bit:
  assumes "fe52_carried (FE52 r0 r1 r2 r3 r4)" "uint r4 < 281474976714752"
  shows "drop_bit 48 r4 OR (if r4 = M48 \<and> r1 AND r2 AND r3 = M52 \<and> 0xFFFFEFFFFFC2F \<le> r0 then 1 else 0)
    = (if field_prime \<le> fe52_val (FE52 r0 r1 r2 r3 r4) then 1 else 0)"
proof -
  have M: "uint M48 = 281474976710655" "uint M52 = 4503599627370495" by (simp_all add: M48_def M52_def)
  have d: "drop_bit 48 r4 = (if 281474976710656 \<le> uint r4 then 1 else 0)"
    using assms(2) uint_bounds(1) [of r4] by (auto simp: word_uint_eq_iff word_int)
  note g = ge_prime_limbs [OF uint_bounds(1) _ uint_bounds(1) _ uint_bounds(1) _ uint_bounds(1), of r0 r1 r2 r3 "uint r4"]
  show ?thesis
    using g assms(1) and_eq_M52 [of r1 r2 r3] unfolding d fe52_val.simps
    by (auto simp: word_uint_eq_iff M word_le_def simp del: power_numeral)
qed

lemma top_limb_less:
  assumes "fe52_val (FE52 n0 n1 n2 n3 n4) < two256"
  shows "uint n4 < 281474976710656"
proof -
  have "2 ^ 208 * uint n4 \<le> fe52_val (FE52 n0 n1 n2 n3 n4)" by simp
  then have "2 ^ 208 * uint n4 < two256" using assms by (rule order_le_less_trans)
  then show ?thesis by simp
qed

lemma fe52_normalize_value:
  assumes "fe52_mag m a" "m \<le> 4000"
  shows "fe52_val (fe52_normalize a) = fe52_val a mod field_prime \<and> fe52_carried (fe52_normalize a)"
proof (cases a)
  case (FE52 n0 n1 n2 n3 n4)
  note b = mag_limbs [OF assms(1) [unfolded FE52] assms(2)]
  have c: "uint n0 \<le> 18446181123756130304" "uint n1 \<le> 18446744073709547519"
    "uint n2 \<le> 18446744073709547519" "uint n3 \<le> 18446744073709547519" using b by linarith+
  obtain r0 r1 r2 r3 r4 where
    r: "fe52_carry (n0 + drop_bit 48 n4 * 0x1000003D1) n1 n2 n3 (n4 AND M48) = FE52 r0 r1 r2 r3 r4"
    "fe52_val (FE52 r0 r1 r2 r3 r4) = fe52_val (FE52 n0 n1 n2 n3 n4) - field_prime * (uint n4 div 281474976710656)"
    "uint r0 < 4503599627370496" "uint r1 < 4503599627370496" "uint r2 < 4503599627370496"
    "uint r3 < 4503599627370496" "uint r4 < 281474976714752"
    by (rule fold_carry [OF c, of n4]) (rule that)
  define V where "V = fe52_val (FE52 r0 r1 r2 r3 r4)"
  define x where "x = (if field_prime \<le> V then 1 else 0 :: u64)"
  have x: "drop_bit 48 r4 OR (if r4 = M48 \<and> r1 AND r2 AND r3 = M52 \<and> 0xFFFFEFFFFFC2F \<le> r0 then 1 else 0) = x"
    using ge_prime_bit [of r0 r1 r2 r3 r4] r(3-7) unfolding x_def V_def by simp
  have xv: "uint (r0 + x * 0x1000003D1) = uint r0 + (if field_prime \<le> V then 0x1000003D1 else 0)"
    using r(3) by (simp add: x_def uint_word_ariths)
  have d: "uint r1 \<le> 18446744073709547519" "uint r2 \<le> 18446744073709547519"
    "uint r3 \<le> 18446744073709547519" "uint r4 \<le> 18446744073709547519" using r by linarith+
  obtain s0 s1 s2 s3 s4 where s: "fe52_carry (r0 + x * 0x1000003D1) r1 r2 r3 r4 = FE52 s0 s1 s2 s3 s4"
    "fe52_val (FE52 s0 s1 s2 s3 s4) = fe52_val (FE52 (r0 + x * 0x1000003D1) r1 r2 r3 r4)"
    "uint s0 < 4503599627370496" "uint s1 < 4503599627370496" "uint s2 < 4503599627370496"
    "uint s3 < 4503599627370496" "uint s4 \<le> uint r4 + 4096"
    by (rule carry_chain [OF d, of "r0 + x * 0x1000003D1"]) (rule that)
  have e: "fe52_normalize a = FE52 s0 s1 s2 s3 (s4 AND M48)"
    by (simp only: FE52 fe52_normalize_def FieldElement52.case Let_def r(1) x s(1))
  have Vs: "fe52_val (FE52 s0 s1 s2 s3 s4) = V + (if field_prime \<le> V then 0x1000003D1 else 0)"
    by (subst s(2), unfold fe52_val.simps xv) (simp add: V_def)
  have Vb: "0 \<le> V" "V < 2 * field_prime" unfolding V_def using r(3-7) fe52_val_nonneg [of "FE52 r0 r1 r2 r3 r4"] by simp_all
  have sm: "fe52_val (FE52 s0 s1 s2 s3 (s4 AND M48)) = fe52_val (FE52 s0 s1 s2 s3 s4)
      - two256 * (uint s4 div 281474976710656)"
    by (simp add: uint_M48 minus_mult_div_eq_mod [symmetric] algebra_simps)
  have q: "uint s4 div 281474976710656 = (if field_prime \<le> V then 1 else 0)"
  proof (cases "field_prime \<le> V")
    case True
    then have "281474976710656 \<le> uint s4" using Vs Vb s(3-6) by simp
    moreover have "uint s4 < 2 * 281474976710656" using s(7) r(7) by linarith
    ultimately show ?thesis using True by simp
  next
    case False
    then have "fe52_val (FE52 s0 s1 s2 s3 s4) < two256" using Vs by simp
    then have "uint s4 < 281474976710656" by (rule top_limb_less)
    then show ?thesis using False by simp
  qed
  have "fe52_val (fe52_normalize a) = V mod field_prime"
    using Vb unfolding e sm Vs q by (simp add: mod_sub_once)
  also have "V = fe52_val a + field_prime * (- (uint n4 div 281474976710656))"
    unfolding V_def by (subst r(2)) (simp add: FE52 del: fe52_val.simps)
  finally have "fe52_val (fe52_normalize a) = fe52_val a mod field_prime" by (simp only: mod_mult_self2)
  moreover have "fe52_carried (fe52_normalize a)" using s by (simp add: e)
  ultimately show ?thesis by simp
qed

lemma fe52_val_zero:
  "fe52_val (FE52 n0 n1 n2 n3 n4) = 0 \<longleftrightarrow> n0 = 0 \<and> n1 = 0 \<and> n2 = 0 \<and> n3 = 0 \<and> n4 = 0"
  by (auto simp: add_nonneg_eq_0_iff word_uint_eq_iff)

lemma fe52_normalizes_to_zero_iff:
  "fe52_mag m a \<Longrightarrow> m \<le> 4000 \<Longrightarrow> fe52_normalizes_to_zero a \<longleftrightarrow> fe52_val a mod field_prime = 0"
proof -
  assume a: "fe52_mag m a" "m \<le> 4000"
  obtain t0 t1 t2 t3 t4 where t: "fe52_normalize a = FE52 t0 t1 t2 t3 t4" by (cases "fe52_normalize a")
  show ?thesis
    using fe52_normalize_value [OF a] fe52_val_zero [of t0 t1 t2 t3 t4] unfolding t fe52_normalizes_to_zero_def
    by (simp add: or_eq_0_iff del: fe52_val.simps)
qed

lemma carried_inj:
  assumes "fe52_carried a" "fe52_carried b" "fe52_val a = fe52_val b"
  shows "a = b"
proof (cases a; cases b)
  fix a0 a1 a2 a3 a4 b0 b1 b2 b3 b4
  assume ab: "a = FE52 a0 a1 a2 a3 a4" "b = FE52 b0 b1 b2 b3 b4"
  let ?B = "4503599627370496 :: int"
  have d: "x mod ?B = x' mod ?B \<and> x div ?B = x' div ?B" if "x = x'" for x x' :: int using that by simp
  have e: "uint a0 + ?B * (uint a1 + ?B * (uint a2 + ?B * (uint a3 + ?B * uint a4)))
    = uint b0 + ?B * (uint b1 + ?B * (uint b2 + ?B * (uint b3 + ?B * uint b4)))"
    using assms(3) by (simp add: ab)
  have s: "x = x' \<and> y = y'" if "x + ?B * y = x' + ?B * y'" "0 \<le> x" "x < ?B" "0 \<le> x'" "x' < ?B" for x y x' y' :: int
    using that by (metis split_digit)
  note c = assms(1,2) [unfolded ab fe52_carried.simps]
  have 0: "uint a0 = uint b0 \<and> uint a1 + ?B * (uint a2 + ?B * (uint a3 + ?B * uint a4)) = uint b1 + ?B * (uint b2 + ?B * (uint b3 + ?B * uint b4))"
    using c by (intro s [OF e]) simp_all
  have 1: "uint a1 = uint b1 \<and> uint a2 + ?B * (uint a3 + ?B * uint a4) = uint b2 + ?B * (uint b3 + ?B * uint b4)"
    using c by (intro s [OF conjunct2 [OF 0]]) simp_all
  have 2: "uint a2 = uint b2 \<and> uint a3 + ?B * uint a4 = uint b3 + ?B * uint b4"
    using c by (intro s [OF conjunct2 [OF 1]]) simp_all
  have "uint a3 = uint b3 \<and> uint a4 = uint b4" using c by (intro s [OF conjunct2 [OF 2]]) simp_all
  then show "a = b" using 0 1 2 by (simp add: ab word_uint_eq_iff)
qed

lemma fe52_eq_iff:
  assumes "fe52_mag m a" "fe52_mag k b" "m \<le> 4000" "k \<le> 4000"
  shows "fe52_eq a b \<longleftrightarrow> fe52_val a mod field_prime = fe52_val b mod field_prime"
  using fe52_normalize_value [OF assms(1,3)] fe52_normalize_value [OF assms(2,4)]
    carried_inj [of "fe52_normalize a" "fe52_normalize b"]
  unfolding fe52_eq_def by metis

lemma and_M52_absorb: "uint w < 4503599627370496 \<Longrightarrow> w AND M52 = w"
  by (simp add: word_uint_eq_iff uint_and_M52)

lemma xor_eq_iff: "x XOR c = d \<longleftrightarrow> x = d XOR (c :: u64)"
  by (auto simp: bit_eq_iff bit_xor_iff)

lemma and_eq_M52_five:
  assumes "uint v < 4503599627370496" "uint w < 4503599627370496" "uint x < 4503599627370496"
    "uint y < 4503599627370496" "uint z < 4503599627370496"
  shows "v AND w AND x AND y AND z = M52 \<longleftrightarrow> v = M52 \<and> w = M52 \<and> x = M52 \<and> y = M52 \<and> z = M52"
proof
  assume e: "v AND w AND x AND y AND z = M52"
  have "v AND M52 = M52" "w AND M52 = M52" "x AND M52 = M52" "y AND M52 = M52" "z AND M52 = M52"
    by (simp_all flip: e add: ac_simps)
  then show "v = M52 \<and> w = M52 \<and> x = M52 \<and> y = M52 \<and> z = M52" using assms and_M52_absorb by metis
qed simp

lemma fe52_normalizes_to_zero_var_iff:
  assumes "fe52_mag m a" "m \<le> 4000"
  shows "fe52_normalizes_to_zero_var a \<longleftrightarrow> fe52_val a mod field_prime = 0"
proof (cases a)
  case (FE52 n0 n1 n2 n3 n4)
  note b = mag_limbs [OF assms(1) [unfolded FE52] assms(2)]
  have c: "uint n0 \<le> 18446181123756130304" "uint n1 \<le> 18446744073709547519"
    "uint n2 \<le> 18446744073709547519" "uint n3 \<le> 18446744073709547519" using b by linarith+
  obtain r0 r1 r2 r3 r4 where
    r: "fe52_carry (n0 + drop_bit 48 n4 * 0x1000003D1) n1 n2 n3 (n4 AND M48) = FE52 r0 r1 r2 r3 r4"
    "fe52_val (FE52 r0 r1 r2 r3 r4) = fe52_val (FE52 n0 n1 n2 n3 n4) - field_prime * (uint n4 div 281474976710656)"
    "uint r0 < 4503599627370496" "uint r1 < 4503599627370496" "uint r2 < 4503599627370496"
    "uint r3 < 4503599627370496" "uint r4 < 281474976714752"
    by (rule fold_carry [OF c, of n4]) (rule that)
  define V where "V = fe52_val (FE52 r0 r1 r2 r3 r4)"
  have Vb: "0 \<le> V" "V < 2 * field_prime"
    unfolding V_def using r(3-7) fe52_val_nonneg [of "FE52 r0 r1 r2 r3 r4"] by simp_all
  have "fe52_val a = V + field_prime * (uint n4 div 281474976710656)"
    unfolding V_def by (subst r(2)) (simp add: FE52 del: fe52_val.simps)
  then have "fe52_val a mod field_prime = V mod field_prime" by (simp only: mod_mult_self2)
  then have z: "fe52_val a mod field_prime = 0 \<longleftrightarrow> V = 0 \<or> V = field_prime" using Vb
    by (cases "V < field_prime") (simp_all add: mod_sub_once)
  have V0: "V = 0 \<longleftrightarrow> r0 OR r1 OR r2 OR r3 OR r4 = 0"
    unfolding V_def fe52_val_zero by (simp add: or_eq_0_iff)
  have x4: "r4 XOR 0xF000000000000 = (r4 XOR 0xF000000000000) AND M52"
    using r(7) and_M52_absorb [of r4] by (simp add: bit.conj_xor_distrib2 M52_def)
  have x0: "r0 XOR 0x1000003D0 = (r0 XOR 0x1000003D0) AND M52"
    using r(3) and_M52_absorb [of r0] by (simp add: bit.conj_xor_distrib2 M52_def)
  have lt: "uint (w AND M52) < 4503599627370496" for w by (simp add: uint_and_M52)
  have l0: "uint (r0 XOR 0x1000003D0) < 4503599627370496" by (subst x0) (rule lt)
  have l4: "uint (r4 XOR 0xF000000000000) < 4503599627370496" by (subst x4) (rule lt)
  note five = and_eq_M52_five [OF l0 r(4,5,6) l4]
  have c52: "M52 XOR 0x1000003D0 = P0" "M52 XOR 0xF000000000000 = M48"
    by (simp_all add: M52_def P0_def M48_def)
  have P: "FE52 P0 M52 M52 M52 M48 = p \<Longrightarrow> fe52_val p = field_prime \<and> fe52_carried p" for p
    by (auto simp: P0_def M52_def M48_def)
  have "V = field_prime \<longleftrightarrow> FE52 r0 r1 r2 r3 r4 = FE52 P0 M52 M52 M52 M48"
    using P [OF refl] carried_inj [of "FE52 r0 r1 r2 r3 r4" "FE52 P0 M52 M52 M52 M48"] r(3-6)
    unfolding V_def by auto
  also have "\<dots> \<longleftrightarrow> (r0 XOR 0x1000003D0) AND r1 AND r2 AND r3 AND (r4 XOR 0xF000000000000) = M52"
    using five xor_eq_iff [of r0 _ M52] xor_eq_iff [of r4 _ M52] c52 by auto
  finally have Vp: "V = field_prime \<longleftrightarrow> (r0 XOR 0x1000003D0) AND r1 AND r2 AND r3 AND (r4 XOR 0xF000000000000) = M52" .
  have "fe52_normalizes_to_zero_var a \<longleftrightarrow> (if r0 \<noteq> 0 \<and> r0 XOR 0x1000003D0 \<noteq> M52 then False
      else r0 OR r1 OR r2 OR r3 OR r4 = 0 \<or> (r0 XOR 0x1000003D0) AND r1 AND r2 AND r3 AND (r4 XOR 0xF000000000000) = M52)"
    using r(1) unfolding FE52 fe52_normalizes_to_zero_var_def fe52_carry_def Let_def
    by (auto simp: ac_simps)
  then show ?thesis unfolding z V0 Vp using five by (auto simp: or_eq_0_iff)
qed

section \<open>Conversions\<close>

lemma or_push_bit:
  fixes x y :: u64
  assumes "uint x < 2 ^ k" "k < 64"
  shows "uint (x OR push_bit k y) = uint x + 2 ^ k * (uint y mod 2 ^ (64 - k))"
proof -
  have "uint (take_bit k x) = uint x"
    using assms(1) by (simp only: unsigned_take_bit_eq take_bit_eq_mod [where 'a = int]) simp
  then have "take_bit k x = x" by (simp only: word_uint_eq_iff)
  then have "x AND push_bit k y = take_bit k x AND push_bit k y" by simp
  also have "\<dots> = 0" by (rule bit_word_eqI) (auto simp: bit_and_iff bit_push_bit_iff bit_take_bit_iff)
  finally have e: "x OR push_bit k y = x + push_bit k y" by (simp add: disjunctive_add_eq_or)
  have B: "18446744073709551616 = (2 :: int) ^ k * 2 ^ (64 - k)" using assms(2) by (simp flip: power_add)
  have p: "uint (push_bit k y) = 2 ^ k * (uint y mod 2 ^ (64 - k))"
  proof -
    have "uint (push_bit k y) = 2 ^ k * uint y mod 18446744073709551616"
      by (simp only: unsigned_push_bit_eq take_bit_eq_mod) (simp add: push_bit_eq_mult [where 'a = int] mult.commute)
    then show ?thesis by (simp only: B mult_mod_right)
  qed
  have "uint y mod 2 ^ (64 - k) \<le> 2 ^ (64 - k) - 1" by (simp add: zle_diff1_eq)
  then have "2 ^ k * (uint y mod 2 ^ (64 - k)) \<le> 2 ^ k * (2 ^ (64 - k) - 1)" by (intro mult_left_mono) simp_all
  then have "uint x + 2 ^ k * (uint y mod 2 ^ (64 - k)) < 18446744073709551616"
    using assms(1) by (simp add: B right_diff_distrib)
  then show ?thesis unfolding e by (simp add: uint_word_ariths p)
qed

lemma and_masks:
  "uint ((x :: u64) AND 0xFFFFFFFFFF) = uint x mod 2 ^ 40" "uint (x AND 0xFFFFFFF) = uint x mod 2 ^ 28"
  "uint (x AND 0xFFFF) = uint x mod 2 ^ 16"
  using uint_and_mask [of x 40] uint_and_mask [of x 28] uint_and_mask [of x 16]
  by (simp_all add: mask_eq_exp_minus_1)

lemma fe52_from_4x64_value:
  "fe52_val (fe52_from_4x64_limbs l) = limbs_val l \<and> fe52_carried (fe52_from_4x64_limbs l)
    \<and> fe52_mag 1 (fe52_from_4x64_limbs l)"
proof (cases l)
  case (Limbs4 l0 l1 l2 l3)
  define q0 m0 where d0: "q0 = uint l0 div 2 ^ 52" "m0 = uint l0 mod 2 ^ 52"
  define q1 m1 where d1: "q1 = uint l1 div 2 ^ 40" "m1 = uint l1 mod 2 ^ 40"
  define q2 m2 where d2: "q2 = uint l2 div 2 ^ 28" "m2 = uint l2 mod 2 ^ 28"
  define q3 m3 where d3: "q3 = uint l3 div 2 ^ 16" "m3 = uint l3 mod 2 ^ 16"
  have e: "uint l0 = 2 ^ 52 * q0 + m0" "uint l1 = 2 ^ 40 * q1 + m1" "uint l2 = 2 ^ 28 * q2 + m2"
    "uint l3 = 2 ^ 16 * q3 + m3" by (simp_all add: d0 d1 d2 d3)
  have b: "0 \<le> q0" "q0 < 4096" "0 \<le> q1" "q1 < 16777216" "0 \<le> q2" "q2 < 68719476736" "q3 < 281474976710656"
    using uint_u64 [of l0] uint_u64 [of l1] uint_u64 [of l2] uint_u64 [of l3]
    by (simp_all add: d0 d1 d2 d3 pos_imp_zdiv_nonneg_iff)
  have n: "uint (l0 AND M52) = m0" "uint (drop_bit 16 l3) = q3" by (simp_all add: uint_and_M52 d0 d3 word_int)
  have q: "uint (drop_bit 52 l0) = q0" "uint (drop_bit 40 l1) = q1" "uint (drop_bit 28 l2) = q2"
    by (simp_all add: d0 d1 d2 word_int)
  have n1: "uint (drop_bit 52 l0 OR push_bit 12 (l1 AND 0xFFFFFFFFFF)) = q0 + 4096 * m1"
    using or_push_bit [of "drop_bit 52 l0" 12 "l1 AND 0xFFFFFFFFFF"] b by (simp add: q and_masks d1)
  have n2: "uint (drop_bit 40 l1 OR push_bit 24 (l2 AND 0xFFFFFFF)) = q1 + 16777216 * m2"
    using or_push_bit [of "drop_bit 40 l1" 24 "l2 AND 0xFFFFFFF"] b by (simp add: q and_masks d2)
  have n3: "uint (drop_bit 28 l2 OR push_bit 36 (l3 AND 0xFFFF)) = q2 + 68719476736 * m3"
    using or_push_bit [of "drop_bit 28 l2" 36 "l3 AND 0xFFFF"] b by (simp add: q and_masks d3)
  have m: "m0 < 4503599627370496" "m1 < 1099511627776" "m2 < 268435456" "m3 < 65536"
    by (simp_all add: d0 d1 d2 d3)
  have "fe52_val (fe52_from_4x64_limbs l) = limbs_val l"
    unfolding Limbs4 fe52_from_4x64_limbs.simps fe52_val.simps limbs_val.simps n n1 n2 n3 e by simp
  moreover have "fe52_carried (fe52_from_4x64_limbs l)" using m b
    unfolding Limbs4 fe52_from_4x64_limbs.simps fe52_carried.simps n n1 n2 n3 by simp
  moreover have "fe52_mag 1 (fe52_from_4x64_limbs l)" using m b
    unfolding Limbs4 fe52_from_4x64_limbs.simps fe52_mag.simps n n1 n2 n3 by simp
  ultimately show ?thesis by simp
qed

lemma fe52_pack_value:
  assumes "fe52_carried a" "fe52_val a < two256"
  shows "limbs_val (fe52_pack a) = fe52_val a"
proof (cases a)
  case (FE52 n0 n1 n2 n3 n4)
  define q1 m1 where d1: "q1 = uint n1 div 4096" "m1 = uint n1 mod 4096"
  define q2 m2 where d2: "q2 = uint n2 div 16777216" "m2 = uint n2 mod 16777216"
  define q3 m3 where d3: "q3 = uint n3 div 68719476736" "m3 = uint n3 mod 68719476736"
  have e: "uint n1 = 4096 * q1 + m1" "uint n2 = 16777216 * q2 + m2" "uint n3 = 68719476736 * q3 + m3"
    by (simp_all add: d1 d2 d3)
  have c: "uint n0 < 4503599627370496" "uint n1 < 4503599627370496" "uint n2 < 4503599627370496"
    "uint n3 < 4503599627370496" using assms(1) by (simp_all add: FE52)
  have n4: "uint n4 < 281474976710656" using assms(2) unfolding FE52 by (rule top_limb_less)
  have q: "uint (drop_bit 12 n1) = q1" "uint (drop_bit 24 n2) = q2" "uint (drop_bit 36 n3) = q3"
    by (simp_all add: d1 d2 d3 word_int)
  have qb: "q1 < 1099511627776" "q2 < 268435456" "q3 < 65536" using c by (simp_all add: d1 d2 d3)
  have l0: "uint (n0 OR push_bit 52 n1) = uint n0 + 4503599627370496 * m1"
    using or_push_bit [of n0 52 n1] c(1) by (simp add: d1)
  have l1: "uint (drop_bit 12 n1 OR push_bit 40 n2) = q1 + 1099511627776 * m2"
    using or_push_bit [of "drop_bit 12 n1" 40 n2] qb(1) by (simp add: q d2)
  have l2: "uint (drop_bit 24 n2 OR push_bit 28 n3) = q2 + 268435456 * m3"
    using or_push_bit [of "drop_bit 24 n2" 28 n3] qb(2) by (simp add: q d3)
  have l3: "uint (drop_bit 36 n3 OR push_bit 16 n4) = q3 + 65536 * uint n4"
    using or_push_bit [of "drop_bit 36 n3" 16 n4] qb(3) n4 by (simp add: q)
  show ?thesis unfolding FE52 fe52_pack.simps limbs_val.simps fe52_val.simps l0 l1 l2 l3 e by simp
qed

lemma fe52_to_fe_value:
  assumes "fe52_mag m a" "m \<le> 4000"
  shows "fval (fe52_to_fe a) = fe52_val a mod field_prime"
  using fe52_normalize_value [OF assms] fe52_pack_value [of "fe52_normalize a"]
    pos_mod_bound [of field_prime "fe52_val a"] by (simp add: fe52_to_fe_def)

lemma fe52_from_fe_value:
  "fe52_val (fe52_from_fe a) = fval a" "fe52_mag 1 (fe52_from_fe a)" "fe52_carried (fe52_from_fe a)"
  using fe52_from_4x64_value [of "fe_limbs a"] by (simp_all add: fe52_from_fe_def)

subsection \<open>Bytes\<close>

lemma be_bytes_limb_48:
  "[ucast (drop_bit 40 n), ucast (drop_bit 32 n), ucast (drop_bit 24 n), ucast (drop_bit 16 n),
    ucast (drop_bit 8 n), ucast (n :: u64)] = be_bytes 6 (uint n)"
  "[ucast (drop_bit 44 n), ucast (drop_bit 36 n), ucast (drop_bit 28 n), ucast (drop_bit 20 n),
    ucast (drop_bit 12 n), ucast (drop_bit 4 n)] = be_bytes 6 (uint n div 16)"
  by (simp_all add: be_bytes_def eval_nat_numeral word_uint_eq_iff word_int uint_word_of_int
      zdiv_zmult2_eq [symmetric])

lemma split_byte:
  fixes x y :: u64
  assumes "uint x < 4503599627370496"
  shows "[ucast ((drop_bit 48 x AND 0xF) OR push_bit 4 (y AND 0xF))]
    = be_bytes 1 (uint x div 281474976710656 + 16 * (uint y mod 16))"
proof -
  have d: "uint x div 281474976710656 < 16" "0 \<le> uint x div 281474976710656"
    using assms by (simp_all add: pos_imp_zdiv_nonneg_iff)
  have m: "uint (z AND 0xF) = uint z mod 16" for z :: u64
    using uint_and_mask [of z 4] by (simp add: mask_eq_exp_minus_1)
  have x: "uint (drop_bit 48 x AND 0xF) = uint x div 281474976710656" using d by (simp add: m word_int)
  have "uint ((drop_bit 48 x AND 0xF) OR push_bit 4 (y AND 0xF)) = uint x div 281474976710656 + 16 * (uint y mod 16)"
    using or_push_bit [of "drop_bit 48 x AND 0xF" 4 "y AND 0xF"] d by (simp add: m word_int)
  moreover have "(ucast w :: u8) = word_of_int (uint w)" for w :: u64
    by (simp add: word_uint_eq_iff word_int uint_word_of_int)
  moreover have "be_bytes 1 v = [word_of_int v]" for v by (simp add: be_bytes_def)
  ultimately show ?thesis by (simp only:)
qed

lemma fe52_to_bytes_value:
  assumes "fe52_mag m a" "m \<le> 4000"
  shows "fe52_to_bytes_into a = be_bytes 32 (fe52_val a mod field_prime)"
proof -
  obtain n0 n1 n2 n3 n4 where n: "fe52_normalize a = FE52 n0 n1 n2 n3 n4" by (cases "fe52_normalize a")
  note v = fe52_normalize_value [OF assms, unfolded n]
  have c: "uint n0 < 4503599627370496" "uint n1 < 4503599627370496" "uint n2 < 4503599627370496"
    "uint n3 < 4503599627370496" using v by simp_all
  have "fe52_val (FE52 n0 n1 n2 n3 n4) < two256" using v pos_mod_bound [of field_prime "fe52_val a"] by simp
  then have n4: "uint n4 < 281474976710656" by (rule top_limb_less)
  have e: "fe52_to_bytes_into a = be_bytes 6 (uint n4) @ be_bytes 6 (uint n3 div 16)
      @ be_bytes 1 (uint n2 div 281474976710656 + 16 * (uint n3 mod 16)) @ be_bytes 6 (uint n2)
      @ be_bytes 6 (uint n1 div 16) @ be_bytes 1 (uint n0 div 281474976710656 + 16 * (uint n1 mod 16))
      @ be_bytes 6 (uint n0)"
    unfolding be_bytes_limb_48 [symmetric] split_byte [OF c(1), symmetric] split_byte [OF c(3), symmetric]
    by (simp add: fe52_to_bytes_into_def n)
  define h3 m3 h2 m2 where d3: "h3 = uint n3 div 16" "m3 = uint n3 mod 16"
    "h2 = uint n2 div 281474976710656" "m2 = uint n2 mod 281474976710656"
  define h1 m1 h0 m0 where d1: "h1 = uint n1 div 16" "m1 = uint n1 mod 16"
    "h0 = uint n0 div 281474976710656" "m0 = uint n0 mod 281474976710656"
  have s: "uint n3 = 16 * h3 + m3" "uint n2 = 281474976710656 * h2 + m2"
    "uint n1 = 16 * h1 + m1" "uint n0 = 281474976710656 * h0 + m0" by (simp_all add: d3 d1)
  have d: "0 \<le> h3" "h3 < 281474976710656" "0 \<le> h1" "h1 < 281474976710656" "0 \<le> h2" "h2 < 16" "0 \<le> h0" "h0 < 16"
    "0 \<le> m3" "m3 < 16" "0 \<le> m1" "m1 < 16"
    using c by (simp_all add: d3 d1 pos_imp_zdiv_nonneg_iff)
  have b6: "be_val (be_bytes 6 x) = x mod 281474976710656" "be_val (be_bytes 1 y) = y mod 256" for x y
    by (simp_all add: be_val_be_bytes)
  have mods: "uint n4 mod 281474976710656 = uint n4" "h3 mod 281474976710656 = h3" "h1 mod 281474976710656 = h1"
    "(h2 + 16 * m3) mod 256 = h2 + 16 * m3" "(h0 + 16 * m1) mod 256 = h0 + 16 * m1"
    using n4 d by simp_all
  have "be_val (fe52_to_bytes_into a) = fe52_val (FE52 n0 n1 n2 n3 n4)"
  proof -
    have "be_val (fe52_to_bytes_into a) = uint n4 * 256 ^ 26 + (h3 * 256 ^ 20 + ((h2 + 16 * m3) * 256 ^ 19 + (m2 * 256 ^ 13
        + (h1 * 256 ^ 7 + ((h0 + 16 * m1) * 256 ^ 6 + m0)))))"
      unfolding e be_val_append b6 d3 [symmetric] d1 [symmetric] mods by simp
    also have "\<dots> = fe52_val (FE52 n0 n1 n2 n3 n4)" unfolding fe52_val.simps s by simp
    finally show ?thesis .
  qed
  moreover have "length (fe52_to_bytes_into a) = 32" unfolding e by simp
  ultimately show ?thesis using be_bytes_be_val [of "fe52_to_bytes_into a"] v by (metis (no_types))
qed

lemma fe52_store_b32_prenorm_value:
  assumes "fe52_carried a" "fe52_val a < two256"
  shows "fe52_store_b32_prenorm a = be_bytes 32 (fe52_val a)"
proof -
  obtain l0 l1 l2 l3 where l: "fe52_pack a = Limbs4 l0 l1 l2 l3" by (cases "fe52_pack a")
  have "fe52_store_b32_prenorm a = to_bytes (Scalar (fe52_pack a))"
    by (simp add: fe52_store_b32_prenorm_def l)
  then show ?thesis by (simp add: to_bytes_value fe52_pack_value [OF assms])
qed

lemma fe52_read_limb_value:
  assumes "length bs = 32" "i < 4"
  shows "uint (fe52_read_limb bs i) = be_val (take 8 (drop (i * 8) bs))"
proof -
  have step: "uint (push_bit 8 l OR ucast (b :: u8)) = uint l * 256 + uint b" if "uint l < 2 ^ 56" for l :: u64 and b
  proof -
    have b: "uint (ucast b :: u64) = uint b" using uint_u8 [of b] by (simp add: word_int)
    have "uint (ucast b OR push_bit 8 l) = uint b + 256 * uint l"
      using or_push_bit [of "ucast b" 8 l] uint_u8 [of b] that by (simp add: b)
    then show ?thesis by (simp add: ac_simps)
  qed
  have "uint (fold (\<lambda>j limb. push_bit 8 limb OR ucast (bs ! (i * 8 + j))) [0..<k] 0 :: u64)
      = be_val (take k (drop (i * 8) bs))" if "k \<le> 8" for k
    using that
  proof (induction k)
    case (Suc k)
    let ?l = "fold (\<lambda>j limb. push_bit 8 limb OR ucast (bs ! (i * 8 + j))) [0..<k] 0 :: u64"
    have IH: "uint ?l = be_val (take k (drop (i * 8) bs))" using Suc by simp
    have "be_val (take k (drop (i * 8) bs)) < 256 ^ length (take k (drop (i * 8) bs))" by (rule be_val_less)
    also have "\<dots> \<le> 256 ^ 7" using Suc.prems assms by (intro power_increasing) simp_all
    finally have "uint ?l < 2 ^ 56" by (simp add: IH)
    then have "uint (push_bit 8 ?l OR ucast (bs ! (i * 8 + k))) = uint ?l * 256 + uint (bs ! (i * 8 + k))" by (rule step)
    moreover have "take (Suc k) (drop (i * 8) bs) = take k (drop (i * 8) bs) @ [bs ! (i * 8 + k)]"
      using assms Suc.prems by (simp add: take_Suc_conv_app_nth)
    ultimately show ?case by (simp add: IH be_val_append be_val_Cons)
  qed simp
  from this [of 8] show ?thesis by (simp add: fe52_read_limb_def)
qed

lemma fe52_ge_p_iff: "fe52_ge_p l \<longleftrightarrow> field_prime \<le> limbs_val l"
proof (cases l)
  case (Limbs4 l0 l1 l2 l3)
  have m: "uint x \<le> 18446744073709551615" for x :: u64 using uint_u64 [of x] by simp
  have b: "0 \<le> uint l0" "0 \<le> uint l1" "0 \<le> uint l2" "0 \<le> uint l3" by simp_all
  note b = b m [of l0] m [of l1] m [of l2] m [of l3]
  have "fe52_ge_p l \<longleftrightarrow> uint l3 = 18446744073709551615 \<and> uint l2 = 18446744073709551615
      \<and> uint l1 = 18446744073709551615 \<and> 0xFFFFFFFEFFFFFC2F \<le> uint l0"
    using m [of l3] m [of l2] m [of l1] by (auto simp: Limbs4 PRIME_def word_less_def)
  also have "\<dots> \<longleftrightarrow> field_prime \<le> limbs_val l"
  proof
    assume p: "field_prime \<le> limbs_val l"
    note p = p [unfolded Limbs4 limbs_val.simps]
    have 3: "uint l3 = 18446744073709551615" using p b by linarith
    have 2: "uint l2 = 18446744073709551615" using p b 3 by linarith
    have 1: "uint l1 = 18446744073709551615" using p b 3 2 by linarith
    show "uint l3 = 18446744073709551615 \<and> uint l2 = 18446744073709551615
      \<and> uint l1 = 18446744073709551615 \<and> 0xFFFFFFFEFFFFFC2F \<le> uint l0" using p 3 2 1 by simp
  qed (simp add: Limbs4)
  finally show ?thesis .
qed

lemma fe52_sub_p_value:
  assumes "field_prime \<le> limbs_val l"
  shows "limbs_val (fe52_sub_p l) = limbs_val l - field_prime"
proof (cases l)
  case (Limbs4 l0 l1 l2 l3)
  define a0 where "a0 = (ucast l0 :: u128) + ucast (NOT (0xFFFFFFFEFFFFFC2F :: u64)) + 1"
  define c0 :: u64 where "c0 = ucast (drop_bit 64 a0)"
  define a1 where "a1 = (ucast l1 :: u128) + ucast (NOT (0xFFFFFFFFFFFFFFFF :: u64)) + ucast c0"
  define c1 :: u64 where "c1 = ucast (drop_bit 64 a1)"
  define a2 where "a2 = (ucast l2 :: u128) + ucast (NOT (0xFFFFFFFFFFFFFFFF :: u64)) + ucast c1"
  define c2 :: u64 where "c2 = ucast (drop_bit 64 a2)"
  have e: "fe52_sub_p l = Limbs4 (ucast a0) (ucast a1) (ucast a2) (l3 + c2)"
    by (simp add: Limbs4 PRIME_def a0_def a1_def a2_def c0_def c1_def c2_def Let_def)
  have u0: "uint a0 = uint l0 + 0x1000003D1" using uint_u64 [of l0]
    by (simp add: a0_def uint_add_128 uint_ucast_128)
  note s0 = split_u128 [of a0, folded c0_def]
  have c0: "uint c0 \<le> 1" using s0 u0 uint_u64 [of l0] uint_bounds(1) [of "ucast a0 :: u64"] by linarith
  have u1: "uint a1 = uint l1 + uint c0" using uint_u64 [of l1] c0
    by (simp add: a1_def uint_add_128 uint_ucast_128)
  note s1 = split_u128 [of a1, folded c1_def]
  have c1: "uint c1 \<le> 1" using s1 u1 c0 uint_u64 [of l1] uint_bounds(1) [of "ucast a1 :: u64"] by linarith
  have u2: "uint a2 = uint l2 + uint c1" using uint_u64 [of l2] c1
    by (simp add: a2_def uint_add_128 uint_ucast_128)
  note s2 = split_u128 [of a2, folded c2_def]
  have c2: "uint c2 \<le> 1" using s2 u2 c1 uint_u64 [of l2] uint_bounds(1) [of "ucast a2 :: u64"] by linarith
  have "uint (l3 + c2) = uint l3 + uint c2 \<or> uint (l3 + c2) = uint l3 + uint c2 - 18446744073709551616"
    by (simp add: uint_plus_if')
  then have "limbs_val (fe52_sub_p l) = limbs_val l + 0x1000003D1
      \<or> limbs_val (fe52_sub_p l) = limbs_val l + 0x1000003D1 - two256"
    using s0 s1 s2 u0 u1 u2 by (subst (1 2) e, subst (1 2) Limbs4, elim disjE) simp_all
  moreover have "limbs_val (fe52_sub_p l) < two256" using limbs_val_bounds by blast
  ultimately show ?thesis using assms by linarith
qed

lemma be_val_32_split:
  assumes "length p = 32"
  shows "be_val p = be_val (take 8 (drop 0 p)) * 2 ^ 192 + be_val (take 8 (drop 8 p)) * 2 ^ 128
    + be_val (take 8 (drop 16 p)) * 2 ^ 64 + be_val (take 8 (drop 24 p))"
proof -
  have "p = take 8 p @ take 8 (drop 8 p) @ take 8 (drop 16 p) @ take 8 (drop 24 p)"
    using take_take_8 [OF assms] by metis
  then have "be_val p = be_val (take 8 p @ take 8 (drop 8 p) @ take 8 (drop 16 p) @ take 8 (drop 24 p))" by metis
  then show ?thesis using assms by (simp add: be_val_append)
qed

lemma fe52_from_bytes_value:
  assumes "length p = 32"
  shows "fe52_val (fe52_from_bytes p) = be_val p mod field_prime \<and> fe52_mag 1 (fe52_from_bytes p)
    \<and> fe52_carried (fe52_from_bytes p)"
proof -
  define l where "l = Limbs4 (fe52_read_limb p 3) (fe52_read_limb p 2) (fe52_read_limb p 1) (fe52_read_limb p 0)"
  have v: "limbs_val l = be_val p"
    using fe52_read_limb_value [OF assms, of 0] fe52_read_limb_value [OF assms, of 1]
      fe52_read_limb_value [OF assms, of 2] fe52_read_limb_value [OF assms, of 3]
    by (simp add: l_def be_val_32_split [OF assms])
  have r: "limbs_val (if fe52_ge_p l then fe52_sub_p l else l) = be_val p mod field_prime"
    using limbs_val_bounds [of l] by (auto simp: fe52_ge_p_iff fe52_sub_p_value v mod_sub_once)
  have "fe52_from_bytes p = fe52_from_4x64_limbs (if fe52_ge_p l then fe52_sub_p l else l)"
    unfolding fe52_from_bytes_def l_def Let_def by (rule refl)
  then show ?thesis using fe52_from_4x64_value [of "if fe52_ge_p l then fe52_sub_p l else l"] r by metis
qed

section \<open>Properties\<close>

context accumulator
begin

lemma fe52_mul_inner_value:
  assumes "fe52_mag ma a" "fe52_mag mb b" "ma * mb \<le> 512"
  shows "fe52_val (fe52_mul_inner ops a b) mod field_prime = fe52_val a * fe52_val b mod field_prime
    \<and> fe52_mag 1 (fe52_mul_inner ops a b)"
proof -
  obtain a0 a1 a2 a3 a4 b0 b1 b2 b3 b4 where ab: "a = FE52 a0 a1 a2 a3 a4" "b = FE52 b0 b1 b2 b3 b4"
    by (cases a; cases b)
  obtain r0 r1 r2 r3 r4 k where r: "fe52_mul_inner ops a b = FE52 r0 r1 r2 r3 r4"
    "fe52_val (FE52 r0 r1 r2 r3 r4) = fe52_val a * fe52_val b - field_prime * k" "fe52_mag 1 (FE52 r0 r1 r2 r3 r4)"
    unfolding ab by (rule fe52_mul_inner_limbs [OF assms [unfolded ab]]) (rule that [unfolded ab])
  have "fe52_val (fe52_mul_inner ops a b) = fe52_val a * fe52_val b + field_prime * (- k)"
    unfolding r(1) r(2) by simp
  then show ?thesis using r(1,3) by (simp only: mod_mult_self2 simp_thms)
qed

lemma fe52_sqr_inner_mag:
  assumes "fe52_mag m a" "m \<le> 2000"
  shows "fe52_sqr_inner ops a = fe52_mul_inner ops a a"
proof (cases a)
  case (FE52 a0 a1 a2 a3 a4)
  show ?thesis unfolding FE52
    by (rule fe52_sqr_inner_eq) (use assms in \<open>simp_all add: FE52\<close>)
qed

end

lemma u128_abs_ops:
  "u128_mul native_u128 a b = u128_abs (u128_mul struct_u128 a b)"
  "u128_accum_mul native_u128 (u128_abs r) a b = u128_abs (u128_accum_mul struct_u128 r a b)"
  "u128_accum_u64 native_u128 (u128_abs r) a = u128_abs (u128_accum_u64 struct_u128 r a)"
  "u128_low native_u128 (u128_abs r) = u128_low struct_u128 r"
  "u128_shr native_u128 (u128_abs r) n = u128_abs (u128_shr struct_u128 r n)"
  by (simp_all add: word_uint_eq_iff uint_u128_abs struct.val_mul struct.val_accum_mul struct.val_accum_u64
      struct.val_low struct.val_shr native.val_mul native.val_accum_mul native.val_accum_u64
      native.val_low native.val_shr)

text \<open>C8: The multiplication kernel computes the product modulo the prime for operands whose magnitudes
  multiply to at most 512, returns an element of magnitude 1, squares as it multiplies, and computes
  the same limbs, for any operands, on the compiler's 128-bit type and on the structure.\<close>
theorem fe52_mul_correct:
  assumes "fe52_mag ma a" "fe52_mag mb b" "ma * mb \<le> 512" "ma \<le> 2000"
  shows "fe52_val (fe52_mul_inner native_u128 a b) mod field_prime = fe52_val a * fe52_val b mod field_prime
    \<and> fe52_mag 1 (fe52_mul_inner native_u128 a b)
    \<and> fe52_sqr_inner native_u128 a = fe52_mul_inner native_u128 a a
    \<and> fe52_mul_inner struct_u128 x y = fe52_mul_inner native_u128 x y"
proof (intro conjI)
  show "fe52_mul_inner struct_u128 x y = fe52_mul_inner native_u128 x y"
    unfolding fe52_mul_inner_def Let_def u128_abs_ops by (rule refl)
qed (use native.fe52_mul_inner_value [OF assms(1-3)] native.fe52_sqr_inner_mag [OF assms(1,4)] in simp_all)

theorem fe52_mul_correct_witness:
  "\<forall>x y. fe52_mul_inner struct_u128 x y = fe52_mul_inner native_u128 x y"
  using fe52_mul_correct [of 1 fe52_one 1 fe52_one] by (simp add: fe52_one_def)

lemma fe52_conditional_negate_cases:
  "fe52_conditional_negate 0 a = a" "fe52_conditional_negate (- 1) a = fe52_negate 1 a"
  by (cases a; simp add: Let_def)+

text \<open>C25: Lazy addition, negation, multiplication by a small integer and halving are those of the integers
  modulo the prime, and grow the magnitude by the amount the callers count; each within its own bound:
  the magnitudes of a sum and of a multiple may reach 4000 in all, a negated element has magnitude at most
  30, a halved one at most 4000. The conditional negation leaves its argument for mask 0 and negates an
  element of magnitude 1 for the mask of ones.\<close>
theorem fe52_lazy_ops:
  assumes "fe52_mag m a" "fe52_mag k b"
  shows "(m + k \<le> 4000 \<longrightarrow> fe52_val (fe52_add a b) = fe52_val a + fe52_val b \<and> fe52_mag (m + k) (fe52_add a b))
    \<and> (m \<le> 30 \<longrightarrow> fe52_val (fe52_negate (of_nat m) a) = (int m + 1) * field_prime - fe52_val a
       \<and> fe52_mag (m + 1) (fe52_negate (of_nat m) a))
    \<and> (m * unat s \<le> 4000 \<longrightarrow> fe52_val (fe52_mul_int s a) = uint s * fe52_val a \<and> fe52_mag (m * unat s) (fe52_mul_int s a))
    \<and> (m \<le> 4000 \<longrightarrow> 2 * fe52_val (fe52_half a) mod field_prime = fe52_val a mod field_prime
       \<and> fe52_mag (m div 2 + 2) (fe52_half a))
    \<and> fe52_conditional_negate 0 a = a
    \<and> (m = 1 \<longrightarrow> fe52_val (fe52_conditional_negate (- 1) a) = 2 * field_prime - fe52_val a
       \<and> fe52_mag 2 (fe52_conditional_negate (- 1) a))"
proof -
  have u: "m \<le> 30 \<Longrightarrow> unat (of_nat m :: u32) = m" by (simp add: unat_of_nat)
  have "2 * fe52_val (fe52_half a) mod field_prime = fe52_val a mod field_prime" if "m \<le> 4000"
    using fe52_half_value [OF assms(1) that] by (auto simp del: mod_mult_self1)
  moreover have "fe52_val (fe52_negate 1 a) = 2 * field_prime - fe52_val a \<and> fe52_mag 2 (fe52_negate 1 a)" if "m = 1"
    using fe52_negate_value [OF assms(1), of 1] that by (simp add: numeral_2_eq_2)
  ultimately show ?thesis
    using fe52_add_value [OF assms] fe52_negate_value [OF assms(1) _ u] fe52_mul_int_value [OF assms(1), of s]
      fe52_half_value [OF assms(1)] by (simp add: fe52_conditional_negate_cases del: fe52_mag.simps)
qed

theorem fe52_lazy_ops_witness:
  "fe52_val (fe52_negate 1 fe52_one) = 2 * field_prime - 1 \<and> fe52_mag 2 (fe52_negate 1 fe52_one)
    \<and> fe52_val (fe52_conditional_negate (- 1) fe52_one) = 2 * field_prime - 1"
  using fe52_lazy_ops [of 1 fe52_one 1 fe52_one 2] by (simp add: fe52_one_def)

text \<open>C18: For every magnitude up to 4000, normalisation gives the canonical residue, weak normalisation an
  element of magnitude 1 with the same residue, the two zero tests and equality decide congruence, and the serialisations print the residue.\<close>
theorem fe52_normalize_correct:
  assumes "fe52_mag m a" "fe52_mag k b" "m \<le> 4000" "k \<le> 4000"
  shows "fe52_val (fe52_normalize a) = fe52_val a mod field_prime
    \<and> fe52_val (fe52_normalize_weak a) mod field_prime = fe52_val a mod field_prime \<and> fe52_mag 1 (fe52_normalize_weak a)
    \<and> (fe52_normalizes_to_zero a \<longleftrightarrow> fe52_val a mod field_prime = 0)
    \<and> (fe52_normalizes_to_zero_var a \<longleftrightarrow> fe52_val a mod field_prime = 0)
    \<and> (fe52_eq a b \<longleftrightarrow> fe52_val a mod field_prime = fe52_val b mod field_prime)
    \<and> fval (fe52_to_fe a) = fe52_val a mod field_prime
    \<and> fe52_to_bytes_into a = be_bytes 32 (fe52_val a mod field_prime)
    \<and> fe52_store_b32_prenorm (fe52_normalize a) = fe52_to_bytes_into a"
proof -
  have "fe52_val (fe52_normalize a) < two256"
    using fe52_normalize_value [OF assms(1,3)] pos_mod_bound [of field_prime "fe52_val a"] by simp
  then show ?thesis
    using fe52_normalize_value [OF assms(1,3)] fe52_store_b32_prenorm_value [of "fe52_normalize a"]
      fe52_normalizes_to_zero_iff [OF assms(1,3)] fe52_normalizes_to_zero_var_iff [OF assms(1,3)]
      fe52_normalize_weak_value [OF assms(1,3)]
      fe52_eq_iff [OF assms] fe52_to_fe_value [OF assms(1,3)] fe52_to_bytes_value [OF assms(1,3)] by simp
qed

theorem fe52_normalize_correct_witness:
  "fe52_normalizes_to_zero_var (FE52 P0 P1 P2 P3 P4)"
  using fe52_normalize_correct [of 1 "FE52 P0 P1 P2 P3 P4" 1 fe52_one]
  by (simp add: fe52_one_def P0_def P1_def P2_def P3_def P4_def)

text \<open>Between the representations nothing is lost: 4x64 to 5x52 and back is the identity on canonical
  elements, and reading bytes reduces modulo the prime and is inverted by printing.\<close>
theorem fe52_conversions:
  assumes "length p = 32" "fe_ok x"
  shows "fe52_to_fe (fe52_from_fe x) = x \<and> fe52_val (fe52_from_fe x) = fval x
    \<and> fe52_from_bytes p = fe52_from_fe (fe_from_bytes p)
    \<and> fe52_to_bytes_into (fe52_from_bytes p) = be_bytes 32 (be_val p mod field_prime)"
proof (intro conjI)
  have c: "(4000 :: nat) \<ge> 1" by simp
  show "fe52_to_fe (fe52_from_fe x) = x"
    using fe52_to_fe_value [OF fe52_from_fe_value(2) c, of x] assms(2) limbs_val_bounds [of "fe_limbs x"]
    by (intro fval_inj) (simp add: fe52_from_fe_value(1) fe_ok_def)
  show "fe52_val (fe52_from_fe x) = fval x" by (rule fe52_from_fe_value)
  show "fe52_from_bytes p = fe52_from_fe (fe_from_bytes p)"
    using fe52_from_bytes_value [OF assms(1)] fe52_from_fe_value [of "fe_from_bytes p"]
    by (intro carried_inj) (simp_all add: fe_from_bytes_value [OF assms(1)])
  show "fe52_to_bytes_into (fe52_from_bytes p) = be_bytes 32 (be_val p mod field_prime)"
    using fe52_from_bytes_value [OF assms(1)] fe52_to_bytes_value [OF _ c, of "fe52_from_bytes p"] by simp
qed

theorem fe52_conversions_witness:
  "fe52_to_fe (fe52_from_fe fe_one) = fe_one"
  using fe52_conversions [of "replicate 32 0" fe_one] by (simp add: fe_one_def FE_ONE_def fe_ok_def)

end
