(* ===== verification/Ct_Field.thy ===== *)
theory Ct_Field
  imports Ct_Scalar Field52
begin

text \<open>
  \<open>ct_field.cpp\<close>: the constant-time field operations, but for the inversion. Sums, differences and
  negations are those of the class; products and squares go through the 5x52 representation; the
  rest are masks. Each operation is given its value modulo the prime and keeps \<open>fe_ok\<close>.
\<close>

section \<open>The operations\<close>

fun sub256 :: "limbs4 \<Rightarrow> limbs4 \<Rightarrow> limbs4 \<times> u64" where
  "sub256 (Limbs4 a0 a1 a2 a3) (Limbs4 b0 b1 b2 b3) =
     (let (r0, borrow) = ct_sub_limb a0 b0 0;
          (r1, borrow) = ct_sub_limb a1 b1 borrow;
          (r2, borrow) = ct_sub_limb a2 b2 borrow;
          (r3, borrow) = ct_sub_limb a3 b3 borrow
      in (Limbs4 r0 r1 r2 r3, borrow))"

definition ct_reduce_once :: "limbs4 \<Rightarrow> limbs4" where
  "ct_reduce_once r =
     (let (tmp, borrow) = sub256 r PRIME;
          msk = is_zero_mask borrow
      in cmov256 r tmp msk)"

definition ct_field_normalize :: "FieldElement \<Rightarrow> FieldElement" where
  "ct_field_normalize a = FE (ct_reduce_once (fe_limbs a))"

definition ct_field_add :: "FieldElement \<Rightarrow> FieldElement \<Rightarrow> FieldElement" where
  "ct_field_add a b = fe_add a b"

definition ct_field_sub :: "FieldElement \<Rightarrow> FieldElement \<Rightarrow> FieldElement" where
  "ct_field_sub a b = fe_sub a b"

definition ct_field_mul :: "FieldElement \<Rightarrow> FieldElement \<Rightarrow> FieldElement" where
  "ct_field_mul a b = fe52_to_fe (fe52_mul_inner native_u128 (fe52_from_fe a) (fe52_from_fe b))"

definition ct_field_sqr :: "FieldElement \<Rightarrow> FieldElement" where
  "ct_field_sqr a = fe52_to_fe (fe52_sqr_inner native_u128 (fe52_from_fe a))"

definition ct_field_neg :: "FieldElement \<Rightarrow> FieldElement" where
  "ct_field_neg a = fe_sub fe_zero a"

fun ct_field_half :: "FieldElement \<Rightarrow> FieldElement" where
  "ct_field_half (FE (Limbs4 a0 a1 a2 a3)) =
     (case PRIME of Limbs4 p0 p1 p2 p3 \<Rightarrow>
      let odd_bit = a0 AND 1;
          (t0, carry) = half_limb odd_bit p0 a0 0;
          (t1, carry) = half_limb odd_bit p1 a1 carry;
          (t2, carry) = half_limb odd_bit p2 a2 carry;
          (t3, carry) = half_limb odd_bit p3 a3 carry
      in FE (Limbs4 (drop_bit 1 t0 OR push_bit 63 t1) (drop_bit 1 t1 OR push_bit 63 t2)
           (drop_bit 1 t2 OR push_bit 63 t3) (drop_bit 1 t3 OR push_bit 63 carry)))"

fun ct_field_cmov :: "FieldElement \<Rightarrow> FieldElement \<Rightarrow> u64 \<Rightarrow> FieldElement" where
  "ct_field_cmov (FE (Limbs4 r0 r1 r2 r3)) (FE (Limbs4 a0 a1 a2 a3)) msk =
     FE (Limbs4 (r0 XOR ((r0 XOR a0) AND msk)) (r1 XOR ((r1 XOR a1) AND msk))
       (r2 XOR ((r2 XOR a2) AND msk)) (r3 XOR ((r3 XOR a3) AND msk)))"

fun ct_field_cswap :: "FieldElement \<Rightarrow> FieldElement \<Rightarrow> u64 \<Rightarrow> FieldElement \<times> FieldElement" where
  "ct_field_cswap (FE (Limbs4 a0 a1 a2 a3)) (FE (Limbs4 b0 b1 b2 b3)) msk =
     (let d0 = (a0 XOR b0) AND msk; d1 = (a1 XOR b1) AND msk;
          d2 = (a2 XOR b2) AND msk; d3 = (a3 XOR b3) AND msk
      in (FE (Limbs4 (a0 XOR d0) (a1 XOR d1) (a2 XOR d2) (a3 XOR d3)),
          FE (Limbs4 (b0 XOR d0) (b1 XOR d1) (b2 XOR d2) (b3 XOR d3))))"

fun ct_field_select :: "FieldElement \<Rightarrow> FieldElement \<Rightarrow> u64 \<Rightarrow> FieldElement" where
  "ct_field_select (FE (Limbs4 a0 a1 a2 a3)) (FE (Limbs4 b0 b1 b2 b3)) msk =
     FE (Limbs4 (ct_select a0 b0 msk) (ct_select a1 b1 msk) (ct_select a2 b2 msk) (ct_select a3 b3 msk))"

definition ct_field_cneg :: "FieldElement \<Rightarrow> u64 \<Rightarrow> FieldElement" where
  "ct_field_cneg a msk = (let neg = ct_field_neg a in ct_field_select neg a msk)"

fun ct_field_is_zero :: "FieldElement \<Rightarrow> u64" where
  "ct_field_is_zero (FE (Limbs4 a0 a1 a2 a3)) = is_zero_mask (a0 OR a1 OR a2 OR a3)"

fun ct_field_eq :: "FieldElement \<Rightarrow> FieldElement \<Rightarrow> u64" where
  "ct_field_eq (FE (Limbs4 a0 a1 a2 a3)) (FE (Limbs4 b0 b1 b2 b3)) =
     is_zero_mask ((a0 XOR b0) OR (a1 XOR b1) OR (a2 XOR b2) OR (a3 XOR b3))"

section \<open>Their values\<close>

lemma fe_casesE:
  obtains l0 l1 l2 l3 where "a = FE (Limbs4 l0 l1 l2 l3)"
  by (cases a; cases "fe_limbs a") auto

lemma sub256_cases:
  assumes "sub256 a b = (s, c)"
  shows "limbs_val s = (if c = 0 then limbs_val a - limbs_val b else limbs_val a - limbs_val b + two256)"
    and "c = 0 \<longleftrightarrow> limbs_val b \<le> limbs_val a"
proof -
  have "sub256_scalar a b = (s, c)" using assms by (cases a; cases b) simp
  then show "limbs_val s = (if c = 0 then limbs_val a - limbs_val b else limbs_val a - limbs_val b + two256)"
    "c = 0 \<longleftrightarrow> limbs_val b \<le> limbs_val a" by (rule sub256_scalar_cases)+
qed

lemma ct_reduce_once_eq: "ct_reduce_once r = fe_normalize r"
proof (rule limbs_val_inj)
  obtain t c where e: "sub256 r PRIME = (t, c)" by fastforce
  note s = sub256_cases [OF e, unfolded PRIME_val]
  show "limbs_val (ct_reduce_once r) = limbs_val (fe_normalize r)"
    unfolding ct_reduce_once_def e Let_def prod.case fe_normalize_value is_zero_mask_of cmov256_of
    using s limbs_val_bounds [of r]
    by (cases "c = 0") (simp_all add: mod_sub_once)
qed

lemma ct_field_mul_value: "fval (ct_field_mul a b) = fval a * fval b mod field_prime" "fe_ok (ct_field_mul a b)"
proof -
  note v = fe52_from_fe_value
  have m: "fe52_val (fe52_mul_inner native_u128 (fe52_from_fe a) (fe52_from_fe b)) mod field_prime
      = fval a * fval b mod field_prime"
    "fe52_mag 1 (fe52_mul_inner native_u128 (fe52_from_fe a) (fe52_from_fe b))"
    using native.fe52_mul_inner_value [OF v(2) [of a] v(2) [of b]] by (simp_all add: v(1))
  show "fval (ct_field_mul a b) = fval a * fval b mod field_prime" "fe_ok (ct_field_mul a b)"
    using fe52_to_fe_value [OF m(2)] m(1) by (simp_all add: ct_field_mul_def fe_ok_def)
qed

lemma ct_field_sqr_eq: "ct_field_sqr a = ct_field_mul a a"
  using native.fe52_sqr_inner_mag [OF fe52_from_fe_value(2) [of a]] by (simp add: ct_field_sqr_def ct_field_mul_def)

lemma fe_zero_value: "fval fe_zero = 0" "fe_ok fe_zero"
  by (simp_all add: fe_zero_def fe_ok_def)

lemma ct_field_half_value:
  assumes "fe_ok a"
  shows "fe_ok (ct_field_half a) \<and> 2 * fval (ct_field_half a) mod field_prime = fval a"
proof -
  obtain a0 a1 a2 a3 where a: "a = FE (Limbs4 a0 a1 a2 a3)" by (rule fe_casesE)
  define b where "b = a0 AND 1"
  obtain p0 p1 p2 p3 where p: "PRIME = Limbs4 p0 p1 p2 p3" by (meson limbs4.exhaust)
  obtain t0 c0 where e0: "half_limb b p0 a0 0 = (t0, c0)" by fastforce
  obtain t1 c1 where e1: "half_limb b p1 a1 c0 = (t1, c1)" by fastforce
  obtain t2 c2 where e2: "half_limb b p2 a2 c1 = (t2, c2)" by fastforce
  obtain t3 c3 where e3: "half_limb b p3 a3 c2 = (t3, c3)" by fastforce
  let ?r = "Limbs4 (drop_bit 1 t0 OR push_bit 63 t1) (drop_bit 1 t1 OR push_bit 63 t2)
           (drop_bit 1 t2 OR push_bit 63 t3) (drop_bit 1 t3 OR push_bit 63 c3)"
  have r: "ct_field_half a = FE ?r" using e0 e1 e2 e3 by (simp add: a p b_def)
  have "limbs_val (Limbs4 p0 p1 p2 p3) = field_prime" using PRIME_val unfolding p .
  note h = half_chain [OF e0 e1 e2 e3 b_def this, simplified]
  have V: "2 * limbs_val ?r = fval a + uint b * field_prime" using h(1) unfolding a FieldElement.sel by simp
  have lt: "fval a < field_prime" using assms by (simp add: fe_ok_def)
  then have rl: "limbs_val ?r < field_prime" using V h(2) by linarith
  have "2 * fval (ct_field_half a) mod field_prime = fval a"
    unfolding r FieldElement.sel V
    using lt limbs_val_bounds [of "fe_limbs a"] by (simp only: mod_mult_self1 mod_pos_pos_trivial)
  then show ?thesis using rl by (simp add: r fe_ok_def)
qed

lemma ct_field_select_of: "ct_field_select a b (mask_of c) = (if c then a else b)"
  by (rule fe_casesE [of a]; rule fe_casesE [of b]) (simp add: ct_select_of)

lemma ct_field_cmov_of: "ct_field_cmov r a (mask_of c) = (if c then a else r)"
  by (rule fe_casesE [of a]; rule fe_casesE [of r]) (simp add: mask_of_def xor_back)

lemma ct_field_cswap_of: "ct_field_cswap a b (mask_of c) = (if c then (b, a) else (a, b))"
  by (rule fe_casesE [of a]; rule fe_casesE [of b]) (simp add: mask_of_def xor_back)

lemma xor_0_iff: "x XOR y = 0 \<longleftrightarrow> x = (y :: u64)"
  by (auto simp: bit_eq_iff bit_xor_iff)

lemma ct_field_eq_of: "ct_field_eq a b = mask_of (a = b)"
  by (rule fe_casesE [of a]; rule fe_casesE [of b]) (simp add: masks or_eq_0_iff xor_0_iff)

lemma ct_field_is_zero_of: "ct_field_is_zero a = mask_of (fval a = 0)"
  by (rule fe_casesE [of a]) (simp add: masks or_eq_0_iff limbs_val_zero del: limbs_val.simps)

section \<open>Properties\<close>

text \<open>C30: The constant-time operations compute modulo the prime and return canonical elements. Sum,
  difference and negation are those of the class; the product, taken through the 5x52 representation, is the
  portable product of the class exactly when that one loses no carry.\<close>
theorem ct_field_values:
  assumes "fe_ok a" "fe_ok b"
  shows "(fval (ct_field_add a b) = (fval a + fval b) mod field_prime \<and> fe_ok (ct_field_add a b) \<and> ct_field_add a b = fe_add a b)
    \<and> (fval (ct_field_sub a b) = (fval a - fval b) mod field_prime \<and> fe_ok (ct_field_sub a b) \<and> ct_field_sub a b = fe_sub a b)
    \<and> (fval (ct_field_mul a b) = fval a * fval b mod field_prime \<and> fe_ok (ct_field_mul a b))
    \<and> (ct_field_mul a b = fe_times a b \<longleftrightarrow> \<not> carry_lost (fval a * fval b))
    \<and> ct_field_sqr a = ct_field_mul a a
    \<and> (fval (ct_field_neg a) = (- fval a) mod field_prime \<and> ct_field_neg a = fe_neg a)
    \<and> (2 * fval (ct_field_half a) mod field_prime = fval a \<and> fe_ok (ct_field_half a))
    \<and> (fval (ct_field_normalize x) = fval x mod field_prime)"
proof (intro conjI)
  show "fval (ct_field_add a b) = (fval a + fval b) mod field_prime"
    "fval (ct_field_sub a b) = (fval a - fval b) mod field_prime"
    using fe_add_value [OF assms] fe_sub_value [OF assms] by (simp_all add: ct_field_add_def ct_field_sub_def)
  then show "fe_ok (ct_field_add a b)" "fe_ok (ct_field_sub a b)" by (simp_all add: fe_ok_def)
  show n: "fval (ct_field_neg a) = (- fval a) mod field_prime"
    using fe_sub_value [OF fe_zero_value(2) assms(1)] by (simp add: ct_field_neg_def fe_zero_value)
  show "ct_field_neg a = fe_neg a" by (rule fval_inj) (simp add: n fe_neg_value [OF assms(1)])
  have t: "fval (fe_times a b) = (fval a * fval b - (if carry_lost (fval a * fval b) then 2 ^ 256 else 0)) mod field_prime"
    by (simp add: fe_times_def fe_mul_impl_def fe_reduce_value mul_wide_value)
  show "ct_field_mul a b = fe_times a b \<longleftrightarrow> \<not> carry_lost (fval a * fval b)"
  proof
    assume "ct_field_mul a b = fe_times a b"
    then have "fval a * fval b mod field_prime = fval (fe_times a b)" using ct_field_mul_value(1) [of a b] by simp
    then show "\<not> carry_lost (fval a * fval b)"
      unfolding t by (auto simp: mod_eq_dvd_iff split: if_splits)
  qed (rule fval_inj, simp add: t ct_field_mul_value)
qed (use ct_field_half_value [OF assms(1)] in
      \<open>simp_all add: ct_field_mul_value ct_field_sqr_eq ct_field_normalize_def ct_reduce_once_eq fe_normalize_value
        ct_field_add_def ct_field_sub_def\<close>)

theorem ct_field_values_witness:
  "fval (ct_field_mul (fe_from_u64 3) (fe_from_u64 5)) = 15
   \<and> 2 * fval (ct_field_half (fe_from_u64 3)) mod field_prime = 3"
  using ct_field_values [of "fe_from_u64 3" "fe_from_u64 5"] by (simp add: fe_ok_def fe_from_u64_def fe_new_def fe_normalize_value)

text \<open>A mask selects, swaps and negates as the condition it stands for; the comparisons return the
  mask of the comparison.\<close>
theorem ct_field_masks:
  "ct_field_select a b (mask_of c) = (if c then a else b)
   \<and> ct_field_cmov b a (mask_of c) = (if c then a else b)
   \<and> ct_field_cswap a b (mask_of c) = (if c then (b, a) else (a, b))
   \<and> ct_field_cneg a (mask_of c) = (if c then ct_field_neg a else a)
   \<and> ct_field_eq a b = mask_of (fval a = fval b)
   \<and> ct_field_is_zero a = mask_of (fval a = 0)"
proof -
  have "fval a = fval b \<longleftrightarrow> a = b" using fval_inj by auto
  then show ?thesis
    by (simp add: ct_field_select_of ct_field_cmov_of ct_field_cswap_of ct_field_cneg_def ct_field_eq_of
        ct_field_is_zero_of)
qed

end
