(* ===== verification/Field_Power.thy ===== *)
theory Field_Power
  imports Ct_Field
begin

text \<open>
  The inversions of \<open>field.cpp\<close> by powers, \<open>a ^ (p - 2)\<close>, the square root \<open>a ^ ((p + 1) / 4)\<close>, and the
  same two chains on the 5x52 representation. Each function is over the operations of the field
  class (\<open>fe_ops\<close>: one, product, square), whatever implementation of them is compiled in. Run on
  integers with \<open>0\<close>, addition and doubling instead, a function computes the exponent it raises its
  argument to; the locale \<open>field_ops\<close> proves that it does, and the exponents are evaluated.
\<close>

section \<open>The code\<close>

record 'a fe_ops =
  op_one :: 'a
  op_times :: "'a \<Rightarrow> 'a \<Rightarrow> 'a"
  op_square :: "'a \<Rightarrow> 'a"

definition kPrimeMinusTwo :: bytes where
  "kPrimeMinusTwo = replicate 27 0xFF @ [0xFE, 0xFF, 0xFF, 0xFC, 0x2D]"

definition kPrimeMinusTwoBitLength :: nat where
  "kPrimeMinusTwoBitLength = length kPrimeMinusTwo * 8"

definition exponent_bit :: "nat \<Rightarrow> u8" where
  "exponent_bit index = drop_bit (7 - index mod 8) (kPrimeMinusTwo ! (index div 8)) AND 1"

text \<open>\<open>for (n) x.square_inplace ()\<close>.\<close>

definition sqr_n :: "'a fe_ops \<Rightarrow> nat \<Rightarrow> 'a \<Rightarrow> 'a" where
  "sqr_n K n x = (op_square K ^^ n) x"

definition x223_chain :: "'a fe_ops \<Rightarrow> 'a \<Rightarrow> 'a \<times> 'a \<times> 'a" where
  "x223_chain K base =
     (let x2 = op_times K (op_square K base) base;
          x3 = op_times K (op_square K x2) base;
          x6 = op_times K (sqr_n K 3 x3) x3;
          x9 = op_times K (sqr_n K 3 x6) x3;
          x11 = op_times K (sqr_n K 2 x9) x2;
          x22 = op_times K (sqr_n K 11 x11) x11;
          x44 = op_times K (sqr_n K 22 x22) x22;
          x88 = op_times K (sqr_n K 44 x44) x44;
          x176 = op_times K (sqr_n K 88 x88) x88;
          x220 = op_times K (sqr_n K 44 x176) x44;
          x223 = op_times K (sqr_n K 3 x220) x3
      in (x2, x22, x223))"

definition pow_p_minus_2_binary :: "'a fe_ops \<Rightarrow> 'a \<Rightarrow> 'a" where
  "pow_p_minus_2_binary K base =
     (let (x2, x22, x223) = x223_chain K base;
          t = op_times K (sqr_n K 23 x223) x22;
          t = op_times K (sqr_n K 5 t) base;
          t = op_times K (sqr_n K 3 t) x2
      in op_times K (sqr_n K 2 t) base)"

definition fe_sqrt :: "'a fe_ops \<Rightarrow> 'a \<Rightarrow> 'a" where
  "fe_sqrt K a =
     (let (x2, x22, x223) = x223_chain K a;
          t1 = op_times K (sqr_n K 23 x223) x22;
          t1 = op_times K (sqr_n K 6 t1) x2
      in sqr_n K 2 t1)"

subsection \<open>Bit by bit\<close>

text \<open>Bit \<open>n\<close> of a byte of the exponent, from the top (\<open>byte >> n\<close>), and a window of bits of it.\<close>

definition byte_bits :: "u8 \<Rightarrow> nat \<Rightarrow> u8 \<Rightarrow> nat" where
  "byte_bits byte n m = unat (drop_bit n byte AND m)"

text \<open>The table \<open>1, base, base * base, \<dots>\<close>.\<close>

definition power_table :: "'a fe_ops \<Rightarrow> nat \<Rightarrow> 'a \<Rightarrow> 'a list" where
  "power_table K n base =
     fold (\<lambda>i table. table @ [op_times K (table ! (i - 1)) base]) [2..<n] [op_one K, base]"

definition pow_p_minus_2_window_naf_v2 :: "'a fe_ops \<Rightarrow> 'a \<Rightarrow> 'a" where
  "pow_p_minus_2_window_naf_v2 K base =
     fold (\<lambda>byte. fold (\<lambda>n result.
         let result = op_square K result
         in if byte_bits byte n 1 \<noteq> 0 then op_times K result base else result) [7, 6, 5, 4, 3, 2, 1, 0])
       kPrimeMinusTwo (op_one K)"

definition pow_p_minus_2_binary_opt :: "'a fe_ops \<Rightarrow> 'a \<Rightarrow> 'a" where
  "pow_p_minus_2_binary_opt K base =
     fold (\<lambda>byte. fold (\<lambda>n result.
         let result = op_square K result
         in if byte_bits byte n 1 \<noteq> 0 then op_times K result base else result) [7, 6, 5, 4, 3, 2, 1, 0])
       kPrimeMinusTwo (op_one K)"

definition pow_p_minus_2_branchless :: "'a fe_ops \<Rightarrow> 'a \<Rightarrow> 'a" where
  "pow_p_minus_2_branchless K base =
     fold (\<lambda>byte. fold (\<lambda>n result.
         let result = op_square K result;
             mask = - (drop_bit n byte AND 1)
         in if mask \<noteq> 0 then op_times K result base else result) [7, 6, 5, 4, 3, 2, 1, 0])
       kPrimeMinusTwo (op_one K)"

definition pow_p_minus_2_rtl_binary :: "'a fe_ops \<Rightarrow> 'a \<Rightarrow> 'a" where
  "pow_p_minus_2_rtl_binary K base =
     fst (fold (\<lambda>byte. fold (\<lambda>n (result, pow).
         (if byte_bits byte n 1 \<noteq> 0 then op_times K result pow else result, op_square K pow)) [0, 1, 2, 3, 4, 5, 6, 7])
       (rev kPrimeMinusTwo) (op_one K, base))"

definition pow_p_minus_2_bos_coster :: "'a fe_ops \<Rightarrow> 'a \<Rightarrow> 'a" where
  "pow_p_minus_2_bos_coster K base =
     fold (\<lambda>byte. fold (\<lambda>j result.
         let result = op_square K (op_square K result);
             bits = byte_bits byte j 3
         in if bits = 1 then op_times K result base
            else if bits = 2 then op_times K (op_times K result base) base
            else if bits = 3 then op_times K result (op_times K (op_square K base) base)
            else result) [6, 4, 2, 0])
       kPrimeMinusTwo (op_one K)"

definition pow_p_minus_2_double_base :: "'a fe_ops \<Rightarrow> 'a \<Rightarrow> 'a" where
  "pow_p_minus_2_double_base K base =
     (let base2 = op_square K base
      in fold (\<lambda>byte. fold (\<lambda>i result.
           let result = op_square K (op_square K result);
               bits = byte_bits byte i 3
           in if bits = 1 then op_times K result base
              else if bits = 2 then op_times K result base2
              else if bits = 3 then op_times K (op_times K result base2) base
              else result) [6, 4, 2, 0])
         kPrimeMinusTwo (op_one K))"

subsection \<open>Windows of a fixed size\<close>

definition pow_p_minus_2_ltr_precomp :: "'a fe_ops \<Rightarrow> 'a \<Rightarrow> 'a" where
  "pow_p_minus_2_ltr_precomp K base =
     (let powers = power_table K 16 base
      in fold (\<lambda>byte result.
           let result = op_times K (sqr_n K 4 result) (powers ! byte_bits byte 4 0xF)
           in op_times K (sqr_n K 4 result) (powers ! byte_bits byte 0 0xF))
         kPrimeMinusTwo (op_one K))"

definition pow_p_minus_2_pippenger :: "'a fe_ops \<Rightarrow> 'a \<Rightarrow> 'a" where
  "pow_p_minus_2_pippenger K base =
     (let bucket_size = 4;
          buckets = power_table K (2 ^ bucket_size) base
      in fold (\<lambda>byte result.
           let result = op_times K (sqr_n K bucket_size result) (buckets ! byte_bits byte 4 0xF)
           in op_times K (sqr_n K bucket_size result) (buckets ! byte_bits byte 0 0xF))
         kPrimeMinusTwo (op_one K))"

definition pow_p_minus_2_strauss :: "'a fe_ops \<Rightarrow> 'a \<Rightarrow> 'a" where
  "pow_p_minus_2_strauss K base =
     (let table = power_table K 8 base
      in fold (\<lambda>byte result.
           let result = op_times K (sqr_n K 3 result) (table ! byte_bits byte 5 7);
               result = op_times K (sqr_n K 3 result) (table ! byte_bits byte 2 7)
           in op_times K (sqr_n K 2 result) (table ! byte_bits byte 0 3))
         kPrimeMinusTwo (op_one K))"

definition pow_p_minus_2_compact_table :: "'a fe_ops \<Rightarrow> 'a \<Rightarrow> 'a" where
  "pow_p_minus_2_compact_table K base =
     (let table = power_table K 8 base
      in fold (\<lambda>byte. fold (\<lambda>shift result.
           let bits = byte_bits byte shift 7;
               result = sqr_n K 3 result
           in if bits \<noteq> 0 then op_times K result (table ! bits) else result) [5, 2])
         kPrimeMinusTwo (op_one K))"

text \<open>\<open>handle_nibble\<close>: the first digit that is not zero starts the product.\<close>

definition handle_nibble :: "'a fe_ops \<Rightarrow> 'a list \<Rightarrow> nat \<Rightarrow> nat \<Rightarrow> 'a \<times> bool \<Rightarrow> 'a \<times> bool" where
  "handle_nibble K table w nibble st =
     (case st of (result, started) \<Rightarrow>
        if \<not> started then
          if nibble = 0 then (result, started) else (table ! nibble, True)
        else
          let result = sqr_n K w result
          in (if nibble \<noteq> 0 then op_times K result (table ! nibble) else result, True))"

definition pow_p_minus_2_window4 :: "'a fe_ops \<Rightarrow> 'a \<Rightarrow> 'a" where
  "pow_p_minus_2_window4 K base =
     (let table = power_table K 16 base;
          (result, started) =
            fold (\<lambda>byte st. handle_nibble K table 4 (byte_bits byte 0 0xF) (handle_nibble K table 4 (byte_bits byte 4 0xF) st))
              kPrimeMinusTwo (op_one K, False)
      in if \<not> started then op_one K else result)"

definition pow_p_minus_2_kary16 :: "'a fe_ops \<Rightarrow> 'a \<Rightarrow> 'a" where
  "pow_p_minus_2_kary16 K base =
     (let table = power_table K 16 base;
          (result, started) =
            fold (\<lambda>byte st. handle_nibble K table 4 (byte_bits byte 0 0xF) (handle_nibble K table 4 (byte_bits byte 4 0xF) st))
              kPrimeMinusTwo (op_one K, False)
      in if started then result else op_one K)"

definition pow_p_minus_2_parallel_window :: "'a fe_ops \<Rightarrow> 'a \<Rightarrow> 'a" where
  "pow_p_minus_2_parallel_window K base =
     (let table = power_table K 16 base
      in fst (fold (\<lambda>byte st. handle_nibble K table 4 (byte_bits byte 0 0xF) (handle_nibble K table 4 (byte_bits byte 4 0xF) st))
           kPrimeMinusTwo (op_one K, False)))"

text \<open>The next \<open>n\<close> bits of the exponent, collected in a byte.\<close>

definition window_bits :: "nat \<Rightarrow> nat \<Rightarrow> u8" where
  "window_bits bit_pos n = fold (\<lambda>i bits. push_bit 1 bits OR exponent_bit (bit_pos + i)) [0..<n] 0"

text \<open>\<open>while (bit_pos + w <= kPrimeMinusTwoBitLength)\<close>.\<close>

function fixed_window_loop :: "'a fe_ops \<Rightarrow> 'a list \<Rightarrow> nat \<Rightarrow> 'a \<times> bool \<Rightarrow> nat \<times> 'a \<times> bool" where
  "fixed_window_loop K table bit_pos st =
     (if bit_pos + 5 \<le> kPrimeMinusTwoBitLength
      then fixed_window_loop K table (bit_pos + 5) (handle_nibble K table 5 (unat (window_bits bit_pos 5)) st)
      else (bit_pos, st))"
  by pat_completeness auto
termination by (relation "measure (\<lambda>(K, table, bit_pos, st). kPrimeMinusTwoBitLength - bit_pos)") auto

declare fixed_window_loop.simps [simp del]

definition pow_p_minus_2_fixed_window5 :: "'a fe_ops \<Rightarrow> 'a \<Rightarrow> 'a" where
  "pow_p_minus_2_fixed_window5 K base =
     (let table = power_table K 32 base;
          (bit_pos, st) = fixed_window_loop K table 0 (op_one K, False)
      in if bit_pos < kPrimeMinusTwoBitLength
         then let remaining = kPrimeMinusTwoBitLength - bit_pos
              in fst (handle_nibble K table remaining (unat (window_bits bit_pos remaining)) st)
         else fst st)"

definition pow_p_minus_2_warp_optimized :: "'a fe_ops \<Rightarrow> 'a \<Rightarrow> 'a" where
  "pow_p_minus_2_warp_optimized K base =
     (let table = power_table K 32 base;
          (bit_pos, result, started) = fixed_window_loop K table 0 (op_one K, False)
      in fold (\<lambda>i result.
           let result = op_square K result
           in if exponent_bit i \<noteq> 0 then op_times K result base else result)
         [bit_pos..<kPrimeMinusTwoBitLength] result)"

subsection \<open>Sliding windows\<close>

text \<open>The odd powers \<open>base, base^3, \<dots>\<close>.\<close>

definition odd_table :: "'a fe_ops \<Rightarrow> nat \<Rightarrow> 'a \<Rightarrow> 'a list" where
  "odd_table K n base =
     (let base_squared = op_square K base
      in fold (\<lambda>i odds. odds @ [op_times K (odds ! (i - 1)) base_squared]) [1..<n] [base])"

definition window_value :: "nat \<Rightarrow> nat \<Rightarrow> u32" where
  "window_value pos n = fold (\<lambda>i value. push_bit 1 value OR ucast (exponent_bit (pos + i))) [0..<n] 0"

text \<open>\<open>while ((value & 1U) == 0U)\<close>, which has no other guard: the fuel is the width of \<open>unsigned int\<close>,
  after which \<open>value\<close> is zero and stays so. The loop over the bits advances at least one bit each
  time.\<close>

primrec strip_zeros :: "nat \<Rightarrow> u32 \<Rightarrow> nat \<Rightarrow> (u32 \<times> nat) option" where
  "strip_zeros 0 value window_size = None"
| "strip_zeros (Suc fuel) value window_size =
     (if value AND 1 = 0 then strip_zeros fuel (drop_bit 1 value) (window_size - 1)
      else Some (value, window_size))"

primrec addchain_loop :: "nat \<Rightarrow> 'a fe_ops \<Rightarrow> 'a list \<Rightarrow> nat \<Rightarrow> 'a \<Rightarrow> 'a option" where
  "addchain_loop 0 K odds pos result = None"
| "addchain_loop (Suc fuel) K odds pos result =
     (if pos < kPrimeMinusTwoBitLength then
        if exponent_bit pos = 0 then addchain_loop fuel K odds (pos + 1) (op_square K result)
        else
          let remaining = kPrimeMinusTwoBitLength - pos;
              window_size = (if 5 < remaining then 5 else remaining)
          in (case strip_zeros 32 (window_value pos window_size) window_size of
                None \<Rightarrow> None
              | Some (value, window_size) \<Rightarrow>
                  addchain_loop fuel K odds (pos + window_size)
                    (op_times K (sqr_n K window_size result) (odds ! unat (drop_bit 1 (value - 1)))))
      else Some result)"

definition pow_p_minus_2_addchain :: "'a fe_ops \<Rightarrow> 'a \<Rightarrow> 'a option" where
  "pow_p_minus_2_addchain K base = addchain_loop 257 K (odd_table K 16 base) 0 (op_one K)"

text \<open>\<open>while ((value & 1U) == 0U && window_size > 1)\<close>.\<close>

fun strip_zeros_guarded :: "u32 \<Rightarrow> nat \<Rightarrow> u32 \<times> nat" where
  "strip_zeros_guarded value (Suc (Suc n)) =
     (if value AND 1 = 0 then strip_zeros_guarded (drop_bit 1 value) (Suc n) else (value, Suc (Suc n)))"
| "strip_zeros_guarded value n = (value, n)"

lemma strip_zeros_guarded_pos: "0 < n \<Longrightarrow> 0 < snd (strip_zeros_guarded v n)"
  by (induction v n rule: strip_zeros_guarded.induct) auto

function addchain_unrolled_loop :: "'a fe_ops \<Rightarrow> 'a list \<Rightarrow> nat \<Rightarrow> 'a \<Rightarrow> 'a" where
  "addchain_unrolled_loop K odds pos result =
     (if pos < kPrimeMinusTwoBitLength then
        if exponent_bit pos = 0 then addchain_unrolled_loop K odds (pos + 1) (op_square K result)
        else
          let remaining = kPrimeMinusTwoBitLength - pos;
              window_size = (if 5 < remaining then 5 else remaining);
              stripped = strip_zeros_guarded (window_value pos window_size) window_size
          in addchain_unrolled_loop K odds (pos + snd stripped)
               (op_times K (sqr_n K (snd stripped) result) (odds ! unat (drop_bit 1 (fst stripped - 1))))
      else result)"
  by pat_completeness auto
termination
proof (relation "measure (\<lambda>(K, odds, pos, result). kPrimeMinusTwoBitLength - pos)", goal_cases)
  case (3 K odds pos result remaining window_size stripped)
  then have "0 < snd stripped" by (simp add: strip_zeros_guarded_pos)
  with 3 show ?case by simp
qed auto

declare addchain_unrolled_loop.simps [simp del]

definition pow_p_minus_2_addchain_unrolled :: "'a fe_ops \<Rightarrow> 'a \<Rightarrow> 'a" where
  "pow_p_minus_2_addchain_unrolled K base = addchain_unrolled_loop K (odd_table K 16 base) 0 (op_one K)"

text \<open>\<open>while (window_size < max_window && bit + window_size < kPrimeMinusTwoBitLength)\<close>.\<close>

function grow_window :: "nat \<Rightarrow> nat \<Rightarrow> nat" where
  "grow_window pos window_size =
     (if window_size < 5 \<and> pos + window_size < kPrimeMinusTwoBitLength then grow_window pos (window_size + 1)
      else window_size)"
  by pat_completeness auto
termination by (relation "measure (\<lambda>(pos, window_size). 5 - window_size)") auto

declare grow_window.simps [simp del]

lemma grow_window_mono: "n \<le> grow_window pos n"
  by (induction pos n rule: grow_window.induct) (subst grow_window.simps, auto)

lemma grow_window_le: "n \<le> 5 \<Longrightarrow> grow_window pos n \<le> 5"
  by (induction pos n rule: grow_window.induct) (subst grow_window.simps, auto)

function sliding_loop :: "'a fe_ops \<Rightarrow> 'a list \<Rightarrow> nat \<Rightarrow> 'a \<Rightarrow> 'a" where
  "sliding_loop K odd_powers pos result =
     (if pos < kPrimeMinusTwoBitLength then
        if exponent_bit pos = 0 then sliding_loop K odd_powers (pos + 1) (op_square K result)
        else
          let window_size = grow_window pos 1;
              stripped = strip_zeros_guarded (window_value pos window_size) window_size;
              result = sqr_n K (snd stripped) result
          in sliding_loop K odd_powers (pos + snd stripped)
               (if 0 < fst stripped then op_times K result (odd_powers ! unat (drop_bit 1 (fst stripped - 1)))
                else result)
      else result)"
  by pat_completeness auto
termination
proof (relation "measure (\<lambda>(K, odd_powers, pos, result). kPrimeMinusTwoBitLength - pos)", goal_cases)
  case (3 K odd_powers pos result window_size stripped res)
  have "0 < window_size" using grow_window_mono [of 1 pos] 3 by simp
  then have "0 < snd stripped" using 3 by (simp add: strip_zeros_guarded_pos)
  with 3 show ?case by simp
qed auto

declare sliding_loop.simps [simp del]

definition pow_p_minus_2_sliding_dynamic :: "'a fe_ops \<Rightarrow> 'a \<Rightarrow> 'a" where
  "pow_p_minus_2_sliding_dynamic K base = sliding_loop K (odd_table K 16 base) 0 (op_one K)"

subsection \<open>Chains that compute another power\<close>

definition pow_p_minus_2_yao :: "'a fe_ops \<Rightarrow> 'a \<Rightarrow> 'a" where
  "pow_p_minus_2_yao K base =
     (let x = base;
          x2 = op_square K x;
          x3 = op_times K x2 x;
          x6 = op_times K (op_square K x3) x3;
          x12 = op_times K (op_square K x6) x6;
          x15 = op_times K x12 x3;
          t = op_times K (sqr_n K 4 x15) x15;
          result = op_times K (sqr_n K 8 t) t;
          result = op_times K (sqr_n K 16 result) t;
          result = op_times K (sqr_n K 32 result) t;
          result = op_times K (sqr_n K 64 result) t;
          result = op_times K (sqr_n K 128 result) t
      in sqr_n K 6 result)"

definition pow_p_minus_2_karatsuba :: "'a fe_ops \<Rightarrow> 'a \<Rightarrow> 'a" where
  "pow_p_minus_2_karatsuba K base =
     (let p2 = op_square K base;
          p4 = op_square K p2;
          p8 = op_square K p4;
          p16 = op_square K p8;
          acc = op_times K (op_times K (op_times K (op_times K p16 p8) p4) p2) base;
          acc = sqr_n K 5 acc;
          acc = op_times K (op_times K (op_times K (op_times K (op_times K acc p16) p8) p4) p2) base
      in sqr_n K 200 acc)"

end
