(* ===== verification/Field_Inverse.thy ===== *)
theory Field_Inverse
  imports Field_Power
begin

text \<open>
  What the chains of \<open>Field_Power\<close> compute. On integers, with addition for the product, a chain computes
  the exponent it raises its argument to; the locale \<open>field_ops\<close> proves that it does so for every
  implementation of the field operations, and the exponents are evaluated.
\<close>

section \<open>The exponent of an algorithm\<close>

definition exp_ops :: "int fe_ops" where
  "exp_ops = \<lparr>op_one = 0, op_times = (+), op_square = (\<lambda>e. 2 * e)\<rparr>"

text \<open>\<open>x\<close> is \<open>a\<close> to the power \<open>e\<close>.\<close>

definition raised :: "('a \<Rightarrow> bool) \<Rightarrow> ('a \<Rightarrow> int) \<Rightarrow> 'a \<Rightarrow> 'a \<Rightarrow> int \<Rightarrow> bool" where
  "raised good val a x e \<longleftrightarrow> good x \<and> 0 \<le> e \<and> val x mod field_prime = val a ^ nat e mod field_prime"

subsection \<open>Folds in step\<close>

lemma fold_related:
  "(\<And>x s t. x \<in> set xs \<Longrightarrow> Q s t \<Longrightarrow> Q (f x s) (g x t)) \<Longrightarrow> Q s t \<Longrightarrow> Q (fold f xs s) (fold g xs t)"
  by (induction xs arbitrary: s t) auto

lemma fold_upt_related:
  assumes "lo \<le> hi" "Q lo s t" "\<And>i s t. lo \<le> i \<Longrightarrow> i < hi \<Longrightarrow> Q i s t \<Longrightarrow> Q (Suc i) (f i s) (g i t)"
  shows "Q hi (fold f [lo..<hi] s) (fold g [lo..<hi] t)"
  using assms by (induction hi rule: dec_induct) auto

subsection \<open>Digits of the exponent\<close>

lemma byte_bits_le: "byte_bits b n m \<le> unat m"
  unfolding byte_bits_def by (rule word_le_nat_alt [THEN iffD1, OF word_and_le1])

lemma bit_exponent_bit: "bit (exponent_bit i) k \<longleftrightarrow> k = 0 \<and> exponent_bit i \<noteq> 0"
proof -
  obtain c where "exponent_bit i = of_bool c" unfolding exponent_bit_def and_one_eq mod_2_eq_odd by blast
  then show ?thesis by (cases c) (auto simp: bit_1_iff)
qed

lemma bit_window_value:
  "n \<le> 32 \<Longrightarrow> bit (window_value pos n) k \<longleftrightarrow> k < n \<and> exponent_bit (pos + (n - 1 - k)) \<noteq> 0"
proof (induction n arbitrary: k)
  case (Suc n)
  have e: "window_value pos (Suc n) = push_bit 1 (window_value pos n) OR ucast (exponent_bit (pos + n))"
    by (simp add: window_value_def)
  show ?case
  proof (cases k)
    case 0
    then show ?thesis unfolding e bit_or_iff bit_push_bit_iff bit_ucast_iff bit_exponent_bit by simp
  next
    case k: (Suc j)
    show ?thesis unfolding e k bit_or_iff bit_push_bit_iff bit_ucast_iff bit_exponent_bit
      using Suc.IH [of j] Suc.prems by auto
  qed
qed (simp add: window_value_def)

lemma bit_window_bits:
  "n \<le> 8 \<Longrightarrow> bit (window_bits pos n) k \<longleftrightarrow> k < n \<and> exponent_bit (pos + (n - 1 - k)) \<noteq> 0"
proof (induction n arbitrary: k)
  case (Suc n)
  have e: "window_bits pos (Suc n) = push_bit 1 (window_bits pos n) OR exponent_bit (pos + n)"
    by (simp add: window_bits_def)
  show ?case
  proof (cases k)
    case 0
    then show ?thesis unfolding e bit_or_iff bit_push_bit_iff bit_exponent_bit by simp
  next
    case k: (Suc j)
    show ?thesis unfolding e k bit_or_iff bit_push_bit_iff bit_exponent_bit
      using Suc.IH [of j] Suc.prems by auto
  qed
qed (simp add: window_bits_def)

lemma unat_less_pow: "(\<And>k. bit (w :: 'a::len word) k \<Longrightarrow> k < n) \<Longrightarrow> unat w < 2 ^ n"
proof -
  assume a: "\<And>k. bit w k \<Longrightarrow> k < n"
  then have "w = take_bit n w" by (intro bit_word_eqI) (auto simp: bit_simps)
  then show ?thesis by (metis take_bit_nat_less_exp unsigned_take_bit_eq)
qed

lemma window_bits_less: "n \<le> 8 \<Longrightarrow> unat (window_bits pos n) < 2 ^ n"
  by (rule unat_less_pow) (simp add: bit_window_bits)

text \<open>Shifting out the zeros keeps the top digit, so the value stays odd or positive.\<close>

lemma strip_zeros_bound:
  "strip_zeros fuel v n = Some (v', n') \<Longrightarrow> (\<And>k. bit v k \<Longrightarrow> k < m) \<Longrightarrow> 0 < v' \<and> (\<forall>k. bit v' k \<longrightarrow> k < m)"
proof (induction fuel arbitrary: v n)
  case (Suc fuel)
  show ?case
  proof (cases "v AND 1 = 0")
    case True
    have "\<And>k. bit (drop_bit 1 v) k \<Longrightarrow> k < m" using Suc.prems(2) [of "k + 1" for k] by (force simp: bit_simps)
    then show ?thesis using True Suc by auto
  next
    case False
    then show ?thesis using Suc.prems by (auto simp: word_gt_0)
  qed
qed simp

lemma strip_zeros_guarded_bound:
  "0 < n \<Longrightarrow> bit v (n - 1) \<Longrightarrow> (\<And>k. bit v k \<Longrightarrow> k < m) \<Longrightarrow> strip_zeros_guarded v n = (v', n') \<Longrightarrow>
   0 < v' \<and> (\<forall>k. bit v' k \<longrightarrow> k < m)"
proof (induction v n rule: strip_zeros_guarded.induct)
  case (1 v n)
  show ?case
  proof (cases "v AND 1 = 0")
    case True
    have "\<And>k. bit (drop_bit 1 v) k \<Longrightarrow> k < m" using 1(4) [of "k + 1" for k] by (force simp: bit_simps)
    then show ?thesis using True 1 by (auto simp: bit_simps)
  next
    case False
    then show ?thesis using 1 by (auto simp: word_gt_0)
  qed
qed (auto simp: word_gt_0)

lemma odd_index:
  assumes "0 < (v :: u32)" "\<And>k. bit v k \<Longrightarrow> k < 5"
  shows "unat (drop_bit 1 (v - 1)) < 16"
proof -
  have "unat v < 2 ^ 5" by (rule unat_less_pow) (rule assms)
  moreover have "unat (v - 1) = unat v - 1" using assms(1) by (simp add: unat_minus_one word_gt_0)
  ultimately show ?thesis unfolding unat_drop_bit_eq by (simp add: drop_bit_eq_div)
qed

subsection \<open>The operations and the exponents in step\<close>

locale field_ops =
  fixes K :: "'a fe_ops" and good :: "'a \<Rightarrow> bool" and val :: "'a \<Rightarrow> int"
  assumes one_law: "good (op_one K) \<and> val (op_one K) mod field_prime = 1"
    and times_law: "good x \<Longrightarrow> good y \<Longrightarrow>
      good (op_times K x y) \<and> val (op_times K x y) mod field_prime = val x * val y mod field_prime"
    and square_law: "good x \<Longrightarrow>
      good (op_square K x) \<and> val (op_square K x) mod field_prime = val x * val x mod field_prime"
begin

abbreviation power_of :: "'a \<Rightarrow> 'a \<Rightarrow> int \<Rightarrow> bool" where
  "power_of \<equiv> raised good val"

lemma of_base: "good a \<Longrightarrow> power_of a a 1"
  by (simp add: raised_def)

lemma of_one [intro!, simp]: "power_of a (op_one K) (op_one exp_ops)"
  using one_law by (simp add: raised_def exp_ops_def)

lemma of_times [intro!]:
  assumes x: "power_of a x e" and y: "power_of a y f"
  shows "power_of a (op_times K x y) (op_times exp_ops e f)"
proof -
  have g: "good x" "good y" "0 \<le> e" "0 \<le> f" using x y by (simp_all add: raised_def)
  have "val (op_times K x y) mod field_prime = (val x mod field_prime) * (val y mod field_prime) mod field_prime"
    using times_law [OF g(1,2)] by (simp add: mod_mult_eq)
  also have "\<dots> = val a ^ nat e * val a ^ nat f mod field_prime"
    using x y by (simp add: raised_def mod_mult_eq)
  also have "\<dots> = val a ^ nat (e + f) mod field_prime" using g by (simp add: power_add nat_add_distrib)
  finally show ?thesis using times_law [OF g(1,2)] g by (simp add: raised_def exp_ops_def)
qed

lemma of_square [intro!]:
  assumes x: "power_of a x e"
  shows "power_of a (op_square K x) (op_square exp_ops e)"
proof -
  have g: "good x" "0 \<le> e" using x by (simp_all add: raised_def)
  have "val (op_square K x) mod field_prime = (val x mod field_prime) * (val x mod field_prime) mod field_prime"
    using square_law [OF g(1)] by (simp add: mod_mult_eq)
  also have "\<dots> = val a ^ nat e * val a ^ nat e mod field_prime"
    using x by (simp add: raised_def mod_mult_eq)
  also have "\<dots> = val a ^ nat (2 * e) mod field_prime"
    using g by (simp only: mult_2 nat_add_distrib power_add)
  finally show ?thesis using square_law [OF g(1)] g by (simp add: raised_def exp_ops_def)
qed

lemma of_sqr_n [intro!]: "power_of a x e \<Longrightarrow> power_of a (sqr_n K n x) (sqr_n exp_ops n e)"
  by (induction n) (auto simp: sqr_n_def)

lemma of_table:
  assumes "list_all2 (power_of a) t u" "i < length u"
  shows "power_of a (t ! i) (u ! i)"
  using assms by (auto simp: list_all2_conv_all_nth)

lemma of_power_table:
  assumes "good a" "2 \<le> n"
  shows "list_all2 (power_of a) (power_table K n a) (power_table exp_ops n 1) \<and> length (power_table exp_ops n 1) = n"
  unfolding power_table_def
  by (rule fold_upt_related [of 2 n "\<lambda>i s t. list_all2 (power_of a) s t \<and> length t = i"])
     (use assms in \<open>auto intro!: list_all2_appendI of_table simp: of_base\<close>)

lemma of_odd_table:
  assumes "good a" "1 \<le> n"
  shows "list_all2 (power_of a) (odd_table K n a) (odd_table exp_ops n 1) \<and> length (odd_table exp_ops n 1) = n"
  unfolding odd_table_def Let_def
  by (rule fold_upt_related [of 1 n "\<lambda>i s t. list_all2 (power_of a) s t \<and> length t = i"])
     (use assms in \<open>auto intro!: list_all2_appendI of_table simp: of_base\<close>)

lemma of_x223_chain:
  assumes "good a"
  shows "rel_prod (power_of a) (rel_prod (power_of a) (power_of a)) (x223_chain K a) (x223_chain exp_ops 1)"
  unfolding x223_chain_def Let_def by (auto intro!: of_base assms)

lemma of_binary: "good a \<Longrightarrow> power_of a (pow_p_minus_2_binary K a) (pow_p_minus_2_binary exp_ops 1)"
  using of_x223_chain [of a] unfolding pow_p_minus_2_binary_def Let_def
  by (auto split: prod.splits intro!: of_base)

lemma of_sqrt: "good a \<Longrightarrow> power_of a (fe_sqrt K a) (fe_sqrt exp_ops 1)"
  using of_x223_chain [of a] unfolding fe_sqrt_def Let_def
  by (auto split: prod.splits intro!: of_base)

lemmas of_fold = fold_related [where Q = "power_of a" for a]

lemma of_window_naf_v2: "good a \<Longrightarrow> power_of a (pow_p_minus_2_window_naf_v2 K a) (pow_p_minus_2_window_naf_v2 exp_ops 1)"
  unfolding pow_p_minus_2_window_naf_v2_def Let_def by (intro of_fold) (auto intro!: of_base)

lemma of_binary_opt: "good a \<Longrightarrow> power_of a (pow_p_minus_2_binary_opt K a) (pow_p_minus_2_binary_opt exp_ops 1)"
  unfolding pow_p_minus_2_binary_opt_def Let_def by (intro of_fold) (auto intro!: of_base)

lemma of_branchless: "good a \<Longrightarrow> power_of a (pow_p_minus_2_branchless K a) (pow_p_minus_2_branchless exp_ops 1)"
  unfolding pow_p_minus_2_branchless_def Let_def by (intro of_fold) (auto intro!: of_base)

lemma of_bos_coster: "good a \<Longrightarrow> power_of a (pow_p_minus_2_bos_coster K a) (pow_p_minus_2_bos_coster exp_ops 1)"
  unfolding pow_p_minus_2_bos_coster_def Let_def by (intro of_fold) (auto intro!: of_base)

lemma of_double_base: "good a \<Longrightarrow> power_of a (pow_p_minus_2_double_base K a) (pow_p_minus_2_double_base exp_ops 1)"
  unfolding pow_p_minus_2_double_base_def Let_def by (intro of_fold) (auto intro!: of_base)

lemma of_rtl_binary: "good a \<Longrightarrow> power_of a (pow_p_minus_2_rtl_binary K a) (pow_p_minus_2_rtl_binary exp_ops 1)"
proof -
  assume "good a"
  let ?Q = "rel_prod (power_of a) (power_of a)"
  have "?Q (fold (\<lambda>byte. fold (\<lambda>n (result, pow).
         (if byte_bits byte n 1 \<noteq> 0 then op_times K result pow else result, op_square K pow)) [0, 1, 2, 3, 4, 5, 6, 7])
       (rev kPrimeMinusTwo) (op_one K, a))
     (fold (\<lambda>byte. fold (\<lambda>n (result, pow).
         (if byte_bits byte n 1 \<noteq> 0 then op_times exp_ops result pow else result, op_square exp_ops pow)) [0, 1, 2, 3, 4, 5, 6, 7])
       (rev kPrimeMinusTwo) (op_one exp_ops, 1))"
    by (intro fold_related [where Q = ?Q]) (auto simp: of_base \<open>good a\<close>)
  then show ?thesis unfolding pow_p_minus_2_rtl_binary_def by (auto simp: rel_prod_sel)
qed


lemma of_handle_nibble:
  assumes "rel_prod (power_of a) (=) st su" "list_all2 (power_of a) t u" "d < length u"
  shows "rel_prod (power_of a) (=) (handle_nibble K t w d st) (handle_nibble exp_ops u w d su)"
  using assms by (auto simp: handle_nibble_def Let_def intro!: of_table split: prod.splits)

lemmas of_fold_started = fold_related [where Q = "rel_prod (power_of a) (=)" for a]

lemma digit_less: "unat m < n \<Longrightarrow> byte_bits b i m < n"
  using byte_bits_le [of b i m] by linarith

lemma of_ltr_precomp: "good a \<Longrightarrow> power_of a (pow_p_minus_2_ltr_precomp K a) (pow_p_minus_2_ltr_precomp exp_ops 1)"
  unfolding pow_p_minus_2_ltr_precomp_def Let_def
  using of_power_table [of a 16] by (intro of_fold) (auto intro!: of_table digit_less)

lemma of_pippenger: "good a \<Longrightarrow> power_of a (pow_p_minus_2_pippenger K a) (pow_p_minus_2_pippenger exp_ops 1)"
  unfolding pow_p_minus_2_pippenger_def Let_def
  using of_power_table [of a 16] by (intro of_fold) (auto intro!: of_table digit_less)

lemma of_strauss: "good a \<Longrightarrow> power_of a (pow_p_minus_2_strauss K a) (pow_p_minus_2_strauss exp_ops 1)"
  unfolding pow_p_minus_2_strauss_def Let_def
  using of_power_table [of a 8] by (intro of_fold) (auto intro!: of_table digit_less)

lemma of_compact_table: "good a \<Longrightarrow> power_of a (pow_p_minus_2_compact_table K a) (pow_p_minus_2_compact_table exp_ops 1)"
  unfolding pow_p_minus_2_compact_table_def Let_def
  using of_power_table [of a 8] by (intro of_fold) (auto intro!: of_table digit_less)

lemma of_nibbles:
  assumes "good a"
  shows "rel_prod (power_of a) (=)
    (fold (\<lambda>byte st. handle_nibble K (power_table K 16 a) 4 (byte_bits byte 0 0xF)
        (handle_nibble K (power_table K 16 a) 4 (byte_bits byte 4 0xF) st)) bs (op_one K, False))
    (fold (\<lambda>byte st. handle_nibble exp_ops (power_table exp_ops 16 1) 4 (byte_bits byte 0 0xF)
        (handle_nibble exp_ops (power_table exp_ops 16 1) 4 (byte_bits byte 4 0xF) st)) bs (op_one exp_ops, False))"
  using of_power_table [OF assms, of 16] by (intro of_fold_started) (auto intro!: of_handle_nibble digit_less)

lemma of_window4: "good a \<Longrightarrow> power_of a (pow_p_minus_2_window4 K a) (pow_p_minus_2_window4 exp_ops 1)"
  unfolding pow_p_minus_2_window4_def Let_def
  using of_nibbles [of a kPrimeMinusTwo] by (auto split: prod.splits)

lemma of_kary16: "good a \<Longrightarrow> power_of a (pow_p_minus_2_kary16 K a) (pow_p_minus_2_kary16 exp_ops 1)"
  unfolding pow_p_minus_2_kary16_def Let_def
  using of_nibbles [of a kPrimeMinusTwo] by (auto split: prod.splits)

lemma of_parallel_window:
  "good a \<Longrightarrow> power_of a (pow_p_minus_2_parallel_window K a) (pow_p_minus_2_parallel_window exp_ops 1)"
  unfolding pow_p_minus_2_parallel_window_def Let_def
  using of_nibbles [of a kPrimeMinusTwo] by (auto simp: rel_prod_sel)

lemma of_fixed_window_loop:
  assumes "list_all2 (power_of a) t u" "length u = 32" "rel_prod (power_of a) (=) st su"
  shows "rel_prod (=) (rel_prod (power_of a) (=)) (fixed_window_loop K t pos st) (fixed_window_loop exp_ops u pos su)"
  using assms
proof (induction "kPrimeMinusTwoBitLength - pos" arbitrary: pos st su rule: less_induct)
  case less
  show ?case
  proof (cases "pos + 5 \<le> kPrimeMinusTwoBitLength")
    case True
    note e = fixed_window_loop.simps [of _ _ pos, unfolded if_P [OF True]]
    show ?thesis unfolding e
      by (rule less.hyps) (use less.prems True window_bits_less [of 5 pos] in \<open>auto intro!: of_handle_nibble\<close>)
  next
    case False
    then show ?thesis using less.prems by (simp add: fixed_window_loop.simps [of _ _ pos])
  qed
qed

lemma of_fixed_window5:
  assumes "good a"
  shows "power_of a (pow_p_minus_2_fixed_window5 K a) (pow_p_minus_2_fixed_window5 exp_ops 1)"
proof -
  let ?t = "power_table K 32 a" and ?u = "power_table exp_ops 32 1"
  have t: "list_all2 (power_of a) ?t ?u" "length ?u = 32" using of_power_table [OF assms, of 32] by simp_all
  obtain pos st where k: "fixed_window_loop K ?t 0 (op_one K, False) = (pos, st)" by (meson surj_pair)
  obtain pos' su where x: "fixed_window_loop exp_ops ?u 0 (op_one exp_ops, False) = (pos', su)" by (meson surj_pair)
  have r: "pos' = pos" "rel_prod (power_of a) (=) st su"
    using of_fixed_window_loop [OF t, of "(op_one K, False)" "(op_one exp_ops, False)" 0] k x by auto
  have p: "pos' = 255"
    using x by (simp add: fixed_window_loop.simps kPrimeMinusTwoBitLength_def kPrimeMinusTwo_def split: if_splits)
  have w: "unat (window_bits pos (kPrimeMinusTwoBitLength - pos)) < length ?u"
    using window_bits_less [of 1 255] t(2) p r by (simp add: kPrimeMinusTwoBitLength_def kPrimeMinusTwo_def)
  show ?thesis
    using of_handle_nibble [OF r(2) t(1) w, of "kPrimeMinusTwoBitLength - pos"] r
    by (simp add: pow_p_minus_2_fixed_window5_def Let_def k x rel_prod_sel)
qed

lemma of_warp_optimized:
  assumes "good a"
  shows "power_of a (pow_p_minus_2_warp_optimized K a) (pow_p_minus_2_warp_optimized exp_ops 1)"
proof -
  let ?t = "power_table K 32 a" and ?u = "power_table exp_ops 32 1"
  have t: "list_all2 (power_of a) ?t ?u" "length ?u = 32" using of_power_table [OF assms, of 32] by simp_all
  obtain pos x s where k: "fixed_window_loop K ?t 0 (op_one K, False) = (pos, x, s)" by (metis surj_pair)
  obtain pos' e s' where u: "fixed_window_loop exp_ops ?u 0 (op_one exp_ops, False) = (pos', e, s')" by (metis surj_pair)
  have r: "pos' = pos" "power_of a x e"
    using of_fixed_window_loop [OF t, of "(op_one K, False)" "(op_one exp_ops, False)" 0] k u by auto
  show ?thesis unfolding pow_p_minus_2_warp_optimized_def Let_def k u prod.case r(1)
    by (rule of_fold) (use r assms in \<open>auto intro!: of_base\<close>)
qed

lemma of_addchain_loop:
  assumes "list_all2 (power_of a) t u" "length u = 16" "power_of a x e"
  shows "rel_option (power_of a) (addchain_loop fuel K t pos x) (addchain_loop fuel exp_ops u pos e)"
  using assms(3)
proof (induction fuel arbitrary: pos x e)
  case (Suc fuel)
  show ?case
  proof (cases "pos < kPrimeMinusTwoBitLength \<and> exponent_bit pos \<noteq> 0")
    case True
    define n where "n = (if 5 < kPrimeMinusTwoBitLength - pos then 5 else kPrimeMinusTwoBitLength - pos)"
    have b: "bit (window_value pos n) k \<Longrightarrow> k < 5" for k by (simp add: bit_window_value n_def split: if_splits)
    show ?thesis
    proof (cases "strip_zeros 32 (window_value pos n) n")
      case None
      then show ?thesis using True by (simp add: n_def Let_def)
    next
      case (Some vn)
      obtain v m where vm: "vn = (v, m)" by fastforce
      have v: "0 < v \<and> (\<forall>k. bit v k \<longrightarrow> k < 5)" by (rule strip_zeros_bound [OF Some [unfolded vm] b])
      have "unat (drop_bit 1 (v - 1)) < length u" using odd_index [of v] v assms(2) by simp
      then have "power_of a (op_times K (sqr_n K m x) (t ! unat (drop_bit 1 (v - 1))))
          (op_times exp_ops (sqr_n exp_ops m e) (u ! unat (drop_bit 1 (v - 1))))"
        by (intro of_times of_sqr_n of_table Suc.prems assms)
      from Suc.IH [OF this, of "pos + m"] True Some vm show ?thesis by (simp add: n_def Let_def)
    qed
  qed (use Suc in \<open>auto intro!: Suc.IH\<close>)
qed simp

lemma of_addchain:
  "good a \<Longrightarrow> rel_option (power_of a) (pow_p_minus_2_addchain K a) (pow_p_minus_2_addchain exp_ops 1)"
  unfolding pow_p_minus_2_addchain_def using of_odd_table [of a 16] by (intro of_addchain_loop) auto

lemma of_addchain_unrolled_loop:
  assumes "list_all2 (power_of a) t u" "length u = 16" "power_of a x e"
  shows "power_of a (addchain_unrolled_loop K t pos x) (addchain_unrolled_loop exp_ops u pos e)"
  using assms(3)
proof (induction "kPrimeMinusTwoBitLength - pos" arbitrary: pos x e rule: less_induct)
  case less
  note s = addchain_unrolled_loop.simps [of _ _ pos]
  show ?case
  proof (cases "pos < kPrimeMinusTwoBitLength \<and> exponent_bit pos \<noteq> 0")
    case True
    define n where "n = (if 5 < kPrimeMinusTwoBitLength - pos then 5 else kPrimeMinusTwoBitLength - pos)"
    obtain v m where vm: "strip_zeros_guarded (window_value pos n) n = (v, m)" by fastforce
    have n: "0 < n" "n \<le> 5" using True by (simp_all add: n_def)
    have b: "bit (window_value pos n) k \<Longrightarrow> k < 5" for k using n by (simp add: bit_window_value)
    have top: "bit (window_value pos n) (n - 1)" using n True by (simp add: bit_window_value)
    have v: "0 < v \<and> (\<forall>k. bit v k \<longrightarrow> k < 5)" by (rule strip_zeros_guarded_bound [OF n(1) top b vm])
    have "unat (drop_bit 1 (v - 1)) < length u" using odd_index [of v] v assms(2) by simp
    then have q: "power_of a (op_times K (sqr_n K m x) (t ! unat (drop_bit 1 (v - 1))))
        (op_times exp_ops (sqr_n exp_ops m e) (u ! unat (drop_bit 1 (v - 1))))"
      by (intro of_times of_sqr_n of_table less.prems assms)
    have "0 < m" using strip_zeros_guarded_pos [OF n(1), of "window_value pos n"] vm by simp
    then have "kPrimeMinusTwoBitLength - (pos + m) < kPrimeMinusTwoBitLength - pos" using True by linarith
    from less.hyps [OF this q] True vm show ?thesis by (simp add: s n_def Let_def)
  next
    case False
    have "kPrimeMinusTwoBitLength - (pos + 1) < kPrimeMinusTwoBitLength - pos" if "pos < kPrimeMinusTwoBitLength"
      using that by linarith
    then show ?thesis using False less.prems less.hyps [OF _ of_square [OF less.prems], of "pos + 1"] by (auto simp: s)
  qed
qed

lemma of_addchain_unrolled:
  "good a \<Longrightarrow> power_of a (pow_p_minus_2_addchain_unrolled K a) (pow_p_minus_2_addchain_unrolled exp_ops 1)"
  unfolding pow_p_minus_2_addchain_unrolled_def
  using of_odd_table [of a 16] by (intro of_addchain_unrolled_loop) auto

lemma of_sliding_loop:
  assumes "list_all2 (power_of a) t u" "length u = 16" "power_of a x e"
  shows "power_of a (sliding_loop K t pos x) (sliding_loop exp_ops u pos e)"
  using assms(3)
proof (induction "kPrimeMinusTwoBitLength - pos" arbitrary: pos x e rule: less_induct)
  case less
  note s = sliding_loop.simps [of _ _ pos]
  show ?case
  proof (cases "pos < kPrimeMinusTwoBitLength \<and> exponent_bit pos \<noteq> 0")
    case True
    define n where "n = grow_window pos 1"
    obtain v m where vm: "strip_zeros_guarded (window_value pos n) n = (v, m)" by fastforce
    have n: "0 < n" "n \<le> 5" using grow_window_mono [of 1 pos] grow_window_le [of 1 pos] by (simp_all add: n_def)
    have b: "bit (window_value pos n) k \<Longrightarrow> k < 5" for k using n by (simp add: bit_window_value)
    have top: "bit (window_value pos n) (n - 1)" using n True by (simp add: bit_window_value)
    have v: "0 < v \<and> (\<forall>k. bit v k \<longrightarrow> k < 5)" by (rule strip_zeros_guarded_bound [OF n(1) top b vm])
    have "unat (drop_bit 1 (v - 1)) < length u" using odd_index [of v] v assms(2) by simp
    then have q: "power_of a (op_times K (sqr_n K m x) (t ! unat (drop_bit 1 (v - 1))))
        (op_times exp_ops (sqr_n exp_ops m e) (u ! unat (drop_bit 1 (v - 1))))"
      by (intro of_times of_sqr_n of_table less.prems assms)
    have "0 < m" using strip_zeros_guarded_pos [OF n(1), of "window_value pos n"] vm by simp
    then have "kPrimeMinusTwoBitLength - (pos + m) < kPrimeMinusTwoBitLength - pos" using True by linarith
    from less.hyps [OF this q] True vm v show ?thesis by (simp add: s n_def Let_def)
  next
    case False
    have "kPrimeMinusTwoBitLength - (pos + 1) < kPrimeMinusTwoBitLength - pos" if "pos < kPrimeMinusTwoBitLength"
      using that by linarith
    then show ?thesis using False less.prems less.hyps [OF _ of_square [OF less.prems], of "pos + 1"] by (auto simp: s)
  qed
qed

lemma of_sliding_dynamic:
  "good a \<Longrightarrow> power_of a (pow_p_minus_2_sliding_dynamic K a) (pow_p_minus_2_sliding_dynamic exp_ops 1)"
  unfolding pow_p_minus_2_sliding_dynamic_def
  using of_odd_table [of a 16] by (intro of_sliding_loop) auto

lemma of_yao: "good a \<Longrightarrow> power_of a (pow_p_minus_2_yao K a) (pow_p_minus_2_yao exp_ops 1)"
  unfolding pow_p_minus_2_yao_def Let_def by (auto intro!: of_base)

lemma of_karatsuba: "good a \<Longrightarrow> power_of a (pow_p_minus_2_karatsuba K a) (pow_p_minus_2_karatsuba exp_ops 1)"
  unfolding pow_p_minus_2_karatsuba_def Let_def by (auto intro!: of_base)

end

section \<open>The exponents\<close>

lemma sqr_n_exp: "sqr_n exp_ops n e = e * 2 ^ n"
  by (induction n arbitrary: e) (simp_all add: sqr_n_def exp_ops_def)

lemma exponent_binary: "pow_p_minus_2_binary exp_ops 1 = field_prime - 2"
  by (simp add: pow_p_minus_2_binary_def x223_chain_def sqr_n_exp Let_def) (simp add: exp_ops_def)

lemma exponent_sqrt: "4 * fe_sqrt exp_ops 1 = field_prime + 1"
  by (simp add: fe_sqrt_def x223_chain_def sqr_n_exp Let_def) (simp add: exp_ops_def)

lemma exponent_window_naf_v2: "pow_p_minus_2_window_naf_v2 exp_ops 1 = field_prime - 2" by code_simp
lemma exponent_binary_opt: "pow_p_minus_2_binary_opt exp_ops 1 = field_prime - 2" by code_simp
lemma exponent_branchless: "pow_p_minus_2_branchless exp_ops 1 = field_prime - 2" by code_simp
lemma exponent_rtl_binary: "pow_p_minus_2_rtl_binary exp_ops 1 = field_prime - 2" by code_simp
lemma exponent_bos_coster: "pow_p_minus_2_bos_coster exp_ops 1 = field_prime - 2" by code_simp
lemma exponent_double_base: "pow_p_minus_2_double_base exp_ops 1 = field_prime - 2" by code_simp
lemma exponent_ltr_precomp: "pow_p_minus_2_ltr_precomp exp_ops 1 = field_prime - 2" by code_simp
lemma exponent_pippenger: "pow_p_minus_2_pippenger exp_ops 1 = field_prime - 2" by code_simp
lemma exponent_strauss: "pow_p_minus_2_strauss exp_ops 1 = field_prime - 2" by code_simp
lemma exponent_window4: "pow_p_minus_2_window4 exp_ops 1 = field_prime - 2" by code_simp
lemma exponent_kary16: "pow_p_minus_2_kary16 exp_ops 1 = field_prime - 2" by code_simp
lemma exponent_parallel_window: "pow_p_minus_2_parallel_window exp_ops 1 = field_prime - 2" by code_simp
lemma exponent_fixed_window5: "pow_p_minus_2_fixed_window5 exp_ops 1 = field_prime - 2" by code_simp
lemma exponent_warp_optimized: "pow_p_minus_2_warp_optimized exp_ops 1 = field_prime - 2" by code_simp
lemma exponent_addchain: "pow_p_minus_2_addchain exp_ops 1 = Some (field_prime - 2)" by code_simp
lemma exponent_addchain_unrolled: "pow_p_minus_2_addchain_unrolled exp_ops 1 = field_prime - 2" by code_simp
lemma exponent_sliding_dynamic: "pow_p_minus_2_sliding_dynamic exp_ops 1 = field_prime - 2" by code_simp
lemma exponent_yao: "even (pow_p_minus_2_yao exp_ops 1)" by code_simp
lemma exponent_karatsuba: "even (pow_p_minus_2_karatsuba exp_ops 1)" by code_simp
lemma exponent_compact_table:
  "pow_p_minus_2_compact_table exp_ops 1 = 6277101735386680763835789423207666416102355444464034512843" by code_simp


section \<open>The implementations\<close>

definition fe52_ops :: "'w u128_ops \<Rightarrow> FieldElement52 fe_ops" where
  "fe52_ops u = \<lparr>op_one = fe52_one, op_times = fe52_mul_inner u, op_square = fe52_sqr_inner u\<rparr>"

definition ct_ops :: "FieldElement fe_ops" where
  "ct_ops = \<lparr>op_one = fe_one, op_times = ct_field_mul, op_square = ct_field_sqr\<rparr>"

definition fe52_inverse :: "'w u128_ops \<Rightarrow> FieldElement52 \<Rightarrow> FieldElement52" where
  "fe52_inverse u a = pow_p_minus_2_binary (fe52_ops u) a"

definition fe52_sqrt :: "'w u128_ops \<Rightarrow> FieldElement52 \<Rightarrow> FieldElement52" where
  "fe52_sqrt u a = fe_sqrt (fe52_ops u) a"

lemma fe52_mag_mono: "fe52_mag m a \<Longrightarrow> m \<le> k \<Longrightarrow> fe52_mag k a"
proof (cases a)
  case (FE52 n0 n1 n2 n3 n4)
  assume a: "fe52_mag m a" "m \<le> k"
  have "int m * c \<le> int k * c" if "0 \<le> c" for c using a(2) that by (simp add: mult_right_mono)
  then have "int m * c \<le> int k * c" if "c \<in> {0..}" for c using that by simp
  then show ?thesis using a unfolding FE52 fe52_mag.simps by (fastforce intro: order_trans)
qed

lemma fe52_one_value: "fe52_val fe52_one = 1" "fe52_mag 22 fe52_one"
  by (simp_all add: fe52_one_def)

context accumulator
begin

lemma fe52_field_ops: "field_ops (fe52_ops ops) (fe52_mag 22) fe52_val"
proof
  show "fe52_mag 22 (op_one (fe52_ops ops)) \<and> fe52_val (op_one (fe52_ops ops)) mod field_prime = 1"
    by (simp add: fe52_ops_def fe52_one_value)
next
  fix x y assume m: "fe52_mag 22 x" "fe52_mag 22 y"
  show "fe52_mag 22 (op_times (fe52_ops ops) x y)
    \<and> fe52_val (op_times (fe52_ops ops) x y) mod field_prime = fe52_val x * fe52_val y mod field_prime"
    using fe52_mul_inner_value [OF m] fe52_mag_mono [of 1 _ 22] by (simp add: fe52_ops_def)
next
  fix x assume m: "fe52_mag 22 x"
  show "fe52_mag 22 (op_square (fe52_ops ops) x)
    \<and> fe52_val (op_square (fe52_ops ops) x) mod field_prime = fe52_val x * fe52_val x mod field_prime"
    using fe52_mul_inner_value [OF m m] fe52_mag_mono [of 1 _ 22]
    by (simp add: fe52_ops_def fe52_sqr_inner_mag [OF m])
qed

end

interpretation fe52n: field_ops "fe52_ops native_u128" "fe52_mag 22" fe52_val
  by (rule native.fe52_field_ops)

interpretation fe52s: field_ops "fe52_ops struct_u128" "fe52_mag 22" fe52_val
  by (rule struct.fe52_field_ops)

interpretation ct: field_ops ct_ops "\<lambda>_. True" fval
  by unfold_locales
    (simp_all add: ct_ops_def ct_field_mul_value ct_field_sqr_eq fe_one_def FE_ONE_def fe_new_def)

section \<open>Properties\<close>

lemma raised_D: "raised good val a x e \<Longrightarrow> val x mod field_prime = val a ^ nat e mod field_prime"
  by (simp add: raised_def)

lemma power_times_base:
  fixes x v :: int
  assumes "x mod field_prime = v ^ n mod field_prime"
  shows "v * x mod field_prime = v ^ Suc n mod field_prime"
  using mod_mult_cong [OF refl assms, of v] by (simp only: power_Suc)

lemma power_square:
  fixes x v :: int
  assumes "x mod m = v ^ n mod m" "n * 2 = Suc k"
  shows "x ^ 2 mod m = v * v ^ k mod m"
proof -
  have "x ^ 2 mod m = (v ^ n) ^ 2 mod m" using assms(1) by (metis power_mod)
  also have "(v ^ n) ^ 2 = v * v ^ k" using assms(2) by (simp only: power_mult [symmetric] power_Suc)
  finally show ?thesis .
qed

text \<open>The variants that replace \<open>pow_p_minus_2_binary\<close> by configuration or are exported by name.\<close>

definition inverse_variants :: "('a fe_ops \<Rightarrow> 'a \<Rightarrow> 'a) list" where
  "inverse_variants =
     [pow_p_minus_2_binary, pow_p_minus_2_window4, pow_p_minus_2_window_naf_v2, pow_p_minus_2_bos_coster,
      pow_p_minus_2_ltr_precomp, pow_p_minus_2_pippenger, pow_p_minus_2_strauss, pow_p_minus_2_kary16,
      pow_p_minus_2_fixed_window5, pow_p_minus_2_rtl_binary, pow_p_minus_2_addchain_unrolled,
      pow_p_minus_2_binary_opt, pow_p_minus_2_sliding_dynamic, pow_p_minus_2_branchless,
      pow_p_minus_2_parallel_window, pow_p_minus_2_warp_optimized, pow_p_minus_2_double_base]"

lemmas exponents = exponent_binary exponent_window4 exponent_window_naf_v2 exponent_bos_coster
  exponent_ltr_precomp exponent_pippenger exponent_strauss exponent_kary16 exponent_fixed_window5
  exponent_rtl_binary exponent_addchain_unrolled exponent_binary_opt exponent_sliding_dynamic
  exponent_branchless exponent_parallel_window exponent_warp_optimized exponent_double_base

context field_ops
begin

lemma of_variants:
  assumes "good a"
  shows "\<forall>method \<in> set inverse_variants. power_of a (method K a) (field_prime - 2)"
proof -
  note of_alg = of_binary of_window4 of_window_naf_v2 of_bos_coster of_ltr_precomp of_pippenger of_strauss of_kary16
    of_fixed_window5 of_rtl_binary of_addchain_unrolled of_binary_opt of_sliding_dynamic of_branchless
    of_parallel_window of_warp_optimized of_double_base
  show ?thesis unfolding inverse_variants_def by (simp only: list.set ball_simps simp_thms of_alg [OF assms, unfolded exponents])
qed

lemma of_variant:
  "good a \<Longrightarrow> method \<in> set inverse_variants \<Longrightarrow> val (method K a) mod field_prime = val a ^ nat (field_prime - 2) mod field_prime"
  by (rule raised_D [OF bspec [OF of_variants]])

lemma of_addchain_Some:
  assumes "good a"
  obtains r where "pow_p_minus_2_addchain K a = Some r" "power_of a r (field_prime - 2)"
  using of_addchain [OF assms] unfolding exponent_addchain by (cases "pow_p_minus_2_addchain K a") auto

lemma inverse_value:
  assumes "good a"
  shows "val a * val (pow_p_minus_2_binary K a) mod field_prime = val a ^ nat (field_prime - 1) mod field_prime"
proof -
  have n: "nat (field_prime - 1) = Suc (nat (field_prime - 2))" by simp
  show ?thesis unfolding n
    by (rule power_times_base) (rule raised_D [OF of_binary [OF assms], unfolded exponent_binary])
qed

lemma sqrt_value:
  assumes "good a"
  shows "val (fe_sqrt K a) ^ 2 mod field_prime = val a * val a ^ nat ((field_prime - 1) div 2) mod field_prime"
proof -
  have e: "fe_sqrt exp_ops 1 = (field_prime + 1) div 4" using exponent_sqrt by linarith
  have "val (fe_sqrt K a) mod field_prime = val a ^ nat ((field_prime + 1) div 4) mod field_prime"
    by (rule raised_D [OF of_sqrt [OF assms], unfolded e])
  from power_square [OF this, of "nat ((field_prime - 1) div 2)"] show ?thesis by simp
qed

end


text \<open>C31: The two chains that are written out for the 5x52 representation. The product of an element and
  its inverse is the power \<open>p - 1\<close>, and the square of the root is \<open>a\<close> times its quadratic character,
  so that by Fermat and Euler they are the inverse and, when there is one, a root.\<close>
theorem fe52_inverse_sqrt:
  assumes "fe52_mag 22 a"
  shows "fe52_val a * fe52_val (fe52_inverse native_u128 a) mod field_prime = fe52_val a ^ nat (field_prime - 1) mod field_prime
    \<and> fe52_val (fe52_sqrt native_u128 a) ^ 2 mod field_prime
        = fe52_val a * fe52_val a ^ nat ((field_prime - 1) div 2) mod field_prime
    \<and> fe52_mag 22 (fe52_inverse native_u128 a) \<and> fe52_mag 22 (fe52_sqrt native_u128 a)"
  using fe52n.inverse_value [OF assms] fe52n.sqrt_value [OF assms]
    fe52n.of_binary [OF assms] fe52n.of_sqrt [OF assms]
  unfolding fe52_inverse_def fe52_sqrt_def by (simp only: raised_def simp_thms)

theorem fe52_inverse_sqrt_witness:
  "fe52_mag 22 (fe52_inverse native_u128 fe52_one) \<and> fe52_mag 22 (fe52_sqrt native_u128 fe52_one)"
  using fe52_inverse_sqrt [OF fe52_one_value(2)] by (simp only: simp_thms)

text \<open>\<open>fe_inverse_yao\<close> and \<open>pow_p_minus_2_karatsuba\<close> raise to an even power: minus one, its own
  inverse, is sent to one. \<open>pow_p_minus_2_compact_table\<close> never reads the two low bits of a byte.\<close>

lemma minus_one_power:
  fixes m :: int
  assumes "1 < m" "even e"
  shows "(m - 1) ^ e mod m = 1" "(m - 1) * (m - 1) mod m = 1"
proof -
  obtain k where k: "e = 2 * k" using assms(2) by blast
  have "(m - 1) * (m - 1) = 1 + m * (m - 2)" by (simp add: algebra_simps)
  then show q: "(m - 1) * (m - 1) mod m = 1" using assms(1) by simp
  then have "((m - 1) ^ 2) mod m = 1 mod m" using assms(1) by (simp add: power2_eq_square)
  then have "((m - 1) ^ 2) ^ k mod m = 1 ^ k mod m" by (metis power_mod)
  then show "(m - 1) ^ e mod m = 1" using assms(1) unfolding k power_mult by simp
qed

lemma one_mod_prime: "1 mod field_prime = (1 :: int)"
  by simp

lemma even_power_at_minus_one:
  assumes "raised good val a x e" "val a = field_prime - 1" "even e"
  shows "val x mod field_prime = 1"
  using raised_D [OF assms(1)] minus_one_power(1) [of field_prime "nat e"] assms
  unfolding assms(2) by (simp only: raised_def even_nat_iff)

theorem inverse_chains_wrong:
  "let a = FE (Limbs4 0xFFFFFFFEFFFFFC2E 0xFFFFFFFFFFFFFFFF 0xFFFFFFFFFFFFFFFF 0xFFFFFFFFFFFFFFFF)
   in fval a * fval a mod field_prime = 1
    \<and> fval (pow_p_minus_2_yao ct_ops a) mod field_prime = 1
    \<and> fval a * fval (pow_p_minus_2_yao ct_ops a) mod field_prime \<noteq> 1
    \<and> fval (pow_p_minus_2_karatsuba ct_ops a) mod field_prime = 1
    \<and> fval (pow_p_minus_2_compact_table ct_ops b) mod field_prime
        = fval b ^ nat 6277101735386680763835789423207666416102355444464034512843 mod field_prime"
proof -
  let ?a = "FE (Limbs4 0xFFFFFFFEFFFFFC2E 0xFFFFFFFFFFFFFFFF 0xFFFFFFFFFFFFFFFF 0xFFFFFFFFFFFFFFFF)"
  have a: "fval ?a = field_prime - 1" by simp
  have y: "fval (pow_p_minus_2_yao ct_ops ?a) mod field_prime = 1"
    by (rule even_power_at_minus_one [OF ct.of_yao [OF TrueI] a exponent_yao])
  have k: "fval (pow_p_minus_2_karatsuba ct_ops ?a) mod field_prime = 1"
    by (rule even_power_at_minus_one [OF ct.of_karatsuba [OF TrueI] a exponent_karatsuba])
  have c: "fval (pow_p_minus_2_compact_table ct_ops b) mod field_prime
      = fval b ^ nat 6277101735386680763835789423207666416102355444464034512843 mod field_prime"
    by (rule raised_D [OF ct.of_compact_table [OF TrueI, of b], unfolded exponent_compact_table])
  have q: "fval ?a * fval ?a mod field_prime = 1" unfolding a by (rule minus_one_power(2) [of _ 0]) simp_all
  have "fval ?a * fval (pow_p_minus_2_yao ct_ops ?a) mod field_prime = fval ?a * 1 mod field_prime"
    by (rule mod_mult_cong [OF refl]) (simp only: y one_mod_prime)
  also have "\<dots> \<noteq> 1" unfolding a by simp
  finally show ?thesis unfolding Let_def using q y k c by blast
qed

end
