(* ===== verification/Field_Gcd.thy ===== *)
theory Field_Gcd
  imports Field "HOL-Library.Monad_Syntax"
begin

text \<open>
  The inversions of \<open>field.cpp\<close> by the extended Euclidean algorithm, on 320-bit integers. Their loops
  are bounded by nothing but the values they run on, so they are partial functions: \<open>None\<close> is a loop
  that does not end. For an element that is coprime to the prime three of them return its inverse;
  for zero none returns, and \<open>pow_p_minus_2_stein\<close> does not return for some others.
\<close>

section \<open>320-bit integers\<close>

datatype Uint320 = U320 u64 u64 u64 u64 u64

definition PRIME_U320 :: Uint320 where
  "PRIME_U320 = U320 0xFFFFFFFEFFFFFC2F 0xFFFFFFFFFFFFFFFF 0xFFFFFFFFFFFFFFFF 0xFFFFFFFFFFFFFFFF 0"

definition ONE_U320 :: Uint320 where
  "ONE_U320 = U320 1 0 0 0 0"

definition to_uint320 :: "FieldElement \<Rightarrow> Uint320" where
  "to_uint320 a = (case fe_limbs a of Limbs4 l0 l1 l2 l3 \<Rightarrow> U320 l0 l1 l2 l3 0)"

fun uint320_is_one :: "Uint320 \<Rightarrow> bool" where
  "uint320_is_one (U320 a0 a1 a2 a3 a4) \<longleftrightarrow> a0 = 1 \<and> a1 = 0 \<and> a2 = 0 \<and> a3 = 0 \<and> a4 = 0"

fun uint320_is_even :: "Uint320 \<Rightarrow> bool" where
  "uint320_is_even (U320 a0 a1 a2 a3 a4) \<longleftrightarrow> a0 AND 1 = 0"

text \<open>The comparison of limbs from the top down; \<open>ord\<close> is the result for the limbs below.\<close>

definition compare_limb :: "u64 \<Rightarrow> u64 \<Rightarrow> int \<Rightarrow> int" where
  "compare_limb a b ord = (if b < a then 1 else if a < b then -1 else ord)"

fun uint320_compare :: "Uint320 \<Rightarrow> Uint320 \<Rightarrow> int" where
  "uint320_compare (U320 a0 a1 a2 a3 a4) (U320 b0 b1 b2 b3 b4) =
     compare_limb a4 b4 (compare_limb a3 b3 (compare_limb a2 b2 (compare_limb a1 b1 (compare_limb a0 b0 0))))"

fun uint320_add_assign :: "Uint320 \<Rightarrow> Uint320 \<Rightarrow> Uint320" where
  "uint320_add_assign (U320 a0 a1 a2 a3 a4) (U320 b0 b1 b2 b3 b4) =
     (let (r0, c) = add64 a0 b0 0;
          (r1, c) = add64 a1 b1 c;
          (r2, c) = add64 a2 b2 c;
          (r3, c) = add64 a3 b3 c;
          (r4, c) = add64 a4 b4 c
      in U320 r0 r1 r2 r3 r4)"

fun uint320_sub_assign :: "Uint320 \<Rightarrow> Uint320 \<Rightarrow> Uint320" where
  "uint320_sub_assign (U320 a0 a1 a2 a3 a4) (U320 b0 b1 b2 b3 b4) =
     (let (r0, c) = sub64 a0 b0 0;
          (r1, c) = sub64 a1 b1 c;
          (r2, c) = sub64 a2 b2 c;
          (r3, c) = sub64 a3 b3 c;
          (r4, c) = sub64 a4 b4 c
      in U320 r0 r1 r2 r3 r4)"

fun uint320_rshift1 :: "Uint320 \<Rightarrow> Uint320" where
  "uint320_rshift1 (U320 a0 a1 a2 a3 a4) =
     (let r4 = drop_bit 1 a4 OR push_bit 63 0; carry = a4 AND 1;
          r3 = drop_bit 1 a3 OR push_bit 63 carry; carry = a3 AND 1;
          r2 = drop_bit 1 a2 OR push_bit 63 carry; carry = a2 AND 1;
          r1 = drop_bit 1 a1 OR push_bit 63 carry; carry = a1 AND 1;
          r0 = drop_bit 1 a0 OR push_bit 63 carry
      in U320 r0 r1 r2 r3 r4)"

fun u320_val :: "Uint320 \<Rightarrow> int" where
  "u320_val (U320 a0 a1 a2 a3 a4) = uint a0 + 18446744073709551616 * uint a1
     + 340282366920938463463374607431768211456 * uint a2
     + 6277101735386680763835789423207666416102355444464034512896 * uint a3
     + 115792089237316195423570985008687907853269984665640564039457584007913129639936 * uint a4"

fun u320_top :: "Uint320 \<Rightarrow> u64" where
  "u320_top (U320 a0 a1 a2 a3 a4) = a4"

lemma u320_val_bounds: "0 \<le> u320_val a \<and> u320_val a < two320"
proof (cases a)
  case (U320 a0 a1 a2 a3 a4)
  show ?thesis unfolding U320 u320_val.simps
    using uint_u64 [of a0] uint_u64 [of a1] uint_u64 [of a2] uint_u64 [of a3] uint_u64 [of a4]
      uint_bounds(1) [of a0] uint_bounds(1) [of a1] uint_bounds(1) [of a2] uint_bounds(1) [of a3] uint_bounds(1) [of a4]
    by linarith
qed

lemma uint320_add_value: "u320_val (uint320_add_assign a b) = (u320_val a + u320_val b) mod two320"
proof (cases a; cases b)
  fix a0 a1 a2 a3 a4 b0 b1 b2 b3 b4
  assume ab: "a = U320 a0 a1 a2 a3 a4" "b = U320 b0 b1 b2 b3 b4"
  obtain r0 c0 where e0: "add64 a0 b0 0 = (r0, c0)" by fastforce
  obtain r1 c1 where e1: "add64 a1 b1 c0 = (r1, c1)" by fastforce
  obtain r2 c2 where e2: "add64 a2 b2 c1 = (r2, c2)" by fastforce
  obtain r3 c3 where e3: "add64 a3 b3 c2 = (r3, c3)" by fastforce
  obtain r4 c4 where e4: "add64 a4 b4 c3 = (r4, c4)" by fastforce
  have r: "uint320_add_assign a b = U320 r0 r1 r2 r3 r4" by (simp add: ab e0 e1 e2 e3 e4)
  note v0 = add64_value [OF e0, simplified] note v1 = add64_value [OF e1 v0(2)]
  note v2 = add64_value [OF e2 v1(2)] note v3 = add64_value [OF e3 v2(2)] note v4 = add64_value [OF e4 v3(2)]
  have "u320_val (uint320_add_assign a b) = u320_val a + u320_val b - uint c4 * two320"
    unfolding r unfolding ab u320_val.simps using v0(1) v1(1) v2(1) v3(1) v4(1) by simp
  then show ?thesis using u320_val_bounds [of "uint320_add_assign a b"] by (intro mod_eqI) simp_all
qed

lemma uint320_sub_value: "u320_val (uint320_sub_assign a b) = (u320_val a - u320_val b) mod two320"
proof (cases a; cases b)
  fix a0 a1 a2 a3 a4 b0 b1 b2 b3 b4
  assume ab: "a = U320 a0 a1 a2 a3 a4" "b = U320 b0 b1 b2 b3 b4"
  obtain r0 c0 where e0: "sub64 a0 b0 0 = (r0, c0)" by fastforce
  obtain r1 c1 where e1: "sub64 a1 b1 c0 = (r1, c1)" by fastforce
  obtain r2 c2 where e2: "sub64 a2 b2 c1 = (r2, c2)" by fastforce
  obtain r3 c3 where e3: "sub64 a3 b3 c2 = (r3, c3)" by fastforce
  obtain r4 c4 where e4: "sub64 a4 b4 c3 = (r4, c4)" by fastforce
  have r: "uint320_sub_assign a b = U320 r0 r1 r2 r3 r4" by (simp add: ab e0 e1 e2 e3 e4)
  note v0 = sub64_value [OF e0, simplified] note v1 = sub64_value [OF e1 v0(2)]
  note v2 = sub64_value [OF e2 v1(2)] note v3 = sub64_value [OF e3 v2(2)] note v4 = sub64_value [OF e4 v3(2)]
  have e: "u320_val (uint320_sub_assign a b) = u320_val a - u320_val b - (- uint c4) * two320"
    unfolding r unfolding ab u320_val.simps using v0(1) v1(1) v2(1) v3(1) v4(1) by simp
  show ?thesis by (rule mod_eqI [OF e]) (use u320_val_bounds [of "uint320_sub_assign a b"] in simp_all)
qed

lemma uint320_sub_exact:
  assumes "u320_val b \<le> u320_val a"
  shows "u320_val (uint320_sub_assign a b) = u320_val a - u320_val b"
  unfolding uint320_sub_value using assms u320_val_bounds [of a] u320_val_bounds [of b]
  by (intro mod_pos_pos_trivial) linarith+

lemma uint320_is_one_iff: "uint320_is_one a \<longleftrightarrow> u320_val a = 1"
proof (cases a)
  case (U320 a0 a1 a2 a3 a4)
  note bd = uint_bounds(1) [of a0] uint_bounds(1) [of a1] uint_bounds(1) [of a2] uint_bounds(1) [of a3] uint_bounds(1) [of a4]
  have "u320_val a = 1 \<longleftrightarrow> uint a0 = 1 \<and> uint a1 = 0 \<and> uint a2 = 0 \<and> uint a3 = 0 \<and> uint a4 = 0"
  proof
    assume "u320_val a = 1"
    then have s: "uint a0 + 18446744073709551616 * uint a1
      + 340282366920938463463374607431768211456 * uint a2
      + 6277101735386680763835789423207666416102355444464034512896 * uint a3
      + 115792089237316195423570985008687907853269984665640564039457584007913129639936 * uint a4 = 1"
      unfolding U320 u320_val.simps .
    then have "uint a4 = 0" "uint a3 = 0" "uint a2 = 0" "uint a1 = 0" using bd by linarith+
    with s show "uint a0 = 1 \<and> uint a1 = 0 \<and> uint a2 = 0 \<and> uint a3 = 0 \<and> uint a4 = 0" by linarith
  qed (simp add: U320)
  then show ?thesis by (simp add: U320 word_uint_eq_iff)
qed

lemma uint320_is_even_iff: "uint320_is_even a \<longleftrightarrow> even (u320_val a)"
proof (cases a)
  case (U320 a0 a1 a2 a3 a4)
  have "a0 AND 1 = 0 \<longleftrightarrow> uint a0 mod 2 = 0" using uint_and_1 [of a0] by (simp add: word_uint_eq_iff)
  then show ?thesis by (simp add: U320 even_iff_mod_2_eq_zero [symmetric])
qed

lemma compare_limb_iff:
  fixes a b :: u64
  assumes "0 \<le> x" "x < m" "0 \<le> y" "y < m" "0 \<le> ord \<longleftrightarrow> y \<le> x"
  shows "0 \<le> compare_limb a b ord \<longleftrightarrow> y + m * uint b \<le> x + m * uint a"
proof -
  consider "uint a = uint b" | "uint b + 1 \<le> uint a" | "uint a + 1 \<le> uint b" by linarith
  then show ?thesis
  proof cases
    case 1
    then show ?thesis using assms by (simp add: compare_limb_def word_less_def)
  next
    case 2
    then have "m * (uint b + 1) \<le> m * uint a" using assms by (intro mult_left_mono) linarith+
    then have "y + m * uint b \<le> x + m * uint a" using assms by (simp add: distrib_left)
    then show ?thesis using 2 by (simp add: compare_limb_def word_less_def)
  next
    case 3
    then have "m * (uint a + 1) \<le> m * uint b" using assms by (intro mult_left_mono) linarith+
    then have "\<not> y + m * uint b \<le> x + m * uint a" using assms by (simp add: distrib_left)
    then show ?thesis using 3 by (simp add: compare_limb_def word_less_def)
  qed
qed


lemma uint320_compare_iff: "0 \<le> uint320_compare a b \<longleftrightarrow> u320_val b \<le> u320_val a"
proof (cases a; cases b)
  fix a0 a1 a2 a3 a4 b0 b1 b2 b3 b4
  assume ab: "a = U320 a0 a1 a2 a3 a4" "b = U320 b0 b1 b2 b3 b4"
  note bd = uint_u64 [of a0] uint_u64 [of a1] uint_u64 [of a2] uint_u64 [of a3]
    uint_u64 [of b0] uint_u64 [of b1] uint_u64 [of b2] uint_u64 [of b3]
    uint_bounds(1) [of a0] uint_bounds(1) [of a1] uint_bounds(1) [of a2] uint_bounds(1) [of a3]
    uint_bounds(1) [of b0] uint_bounds(1) [of b1] uint_bounds(1) [of b2] uint_bounds(1) [of b3]
  have c0: "0 \<le> compare_limb a0 b0 0 \<longleftrightarrow> uint b0 \<le> uint a0"
    by (auto simp: compare_limb_def word_less_def)
  note c1 = compare_limb_iff [of "uint a0" 18446744073709551616 "uint b0", OF _ _ _ _ c0, of a1 b1]
  have c1': "0 \<le> compare_limb a1 b1 (compare_limb a0 b0 0) \<longleftrightarrow>
      uint b0 + 18446744073709551616 * uint b1 \<le> uint a0 + 18446744073709551616 * uint a1"
    by (rule c1) (use bd in simp_all)
  have c2: "0 \<le> compare_limb a2 b2 (compare_limb a1 b1 (compare_limb a0 b0 0)) \<longleftrightarrow>
      uint b0 + 18446744073709551616 * uint b1 + 340282366920938463463374607431768211456 * uint b2
      \<le> uint a0 + 18446744073709551616 * uint a1 + 340282366920938463463374607431768211456 * uint a2"
    by (rule compare_limb_iff [OF _ _ _ _ c1']) (use bd in linarith)+
  have c3: "0 \<le> compare_limb a3 b3 (compare_limb a2 b2 (compare_limb a1 b1 (compare_limb a0 b0 0))) \<longleftrightarrow>
      uint b0 + 18446744073709551616 * uint b1 + 340282366920938463463374607431768211456 * uint b2
      + 6277101735386680763835789423207666416102355444464034512896 * uint b3
      \<le> uint a0 + 18446744073709551616 * uint a1 + 340282366920938463463374607431768211456 * uint a2
      + 6277101735386680763835789423207666416102355444464034512896 * uint a3"
    by (rule compare_limb_iff [OF _ _ _ _ c2]) (use bd in linarith)+
  show ?thesis unfolding ab uint320_compare.simps u320_val.simps
    by (rule compare_limb_iff [OF _ _ _ _ c3]) (use bd in linarith)+
qed

lemma shift_limb: "uint (drop_bit 1 (x :: u64) OR push_bit 63 (y AND 1)) = uint x div 2 + 9223372036854775808 * (uint y mod 2)"
proof -
  define z where "z = push_bit 63 (y AND 1)"
  have y: "uint (y AND 1) mod 2 = uint y mod 2" unfolding uint_and_1 by simp
  have "drop_bit 1 x AND z = 0"
    unfolding z_def by (rule bit_eqI) (auto simp: bit_simps dest: bit_imp_le_length)
  then have e: "drop_bit 1 x OR z = drop_bit 1 x + z" by (simp add: disjunctive_add_eq_or)
  have p: "uint z = 9223372036854775808 * (uint y mod 2)"
    unfolding y [symmetric] z_def
    by (simp only: unsigned_push_bit_eq take_bit_push_bit) (simp add: push_bit_eq_mult take_bit_eq_mod)
  have "uint x div 2 < 9223372036854775808" using uint_u64 [of x] by linarith
  moreover have "uint y mod 2 \<le> 1" by linarith
  ultimately have "uint (drop_bit 1 x) + uint z < 18446744073709551616"
    unfolding p uint_drop_bit_div power_one_right by linarith
  then have "uint (drop_bit 1 x + z) = uint (drop_bit 1 x) + uint z" by (simp add: uint_plus_if')
  then show ?thesis unfolding z_def [symmetric] e p uint_drop_bit_div power_one_right .
qed

lemma half_digits_sum:
  fixes a0 :: int
  assumes "a0 = 2 * q0 + m0" "a1 = 2 * q1 + m1" "a2 = 2 * q2 + m2" "a3 = 2 * q3 + m3" "a4 = 2 * q4 + m4"
  shows "a0 + 18446744073709551616 * a1 + 340282366920938463463374607431768211456 * a2
    + 6277101735386680763835789423207666416102355444464034512896 * a3
    + 115792089237316195423570985008687907853269984665640564039457584007913129639936 * a4
   = m0 + 2 * ((q0 + 9223372036854775808 * m1) + 18446744073709551616 * (q1 + 9223372036854775808 * m2)
    + 340282366920938463463374607431768211456 * (q2 + 9223372036854775808 * m3)
    + 6277101735386680763835789423207666416102355444464034512896 * (q3 + 9223372036854775808 * m4)
    + 115792089237316195423570985008687907853269984665640564039457584007913129639936 * q4)"
  unfolding assms by (simp add: algebra_simps)

lemma half_digits:
  fixes a0 :: int
  shows "(a0 div 2 + 9223372036854775808 * (a1 mod 2)) + 18446744073709551616 * (a1 div 2 + 9223372036854775808 * (a2 mod 2))
    + 340282366920938463463374607431768211456 * (a2 div 2 + 9223372036854775808 * (a3 mod 2))
    + 6277101735386680763835789423207666416102355444464034512896 * (a3 div 2 + 9223372036854775808 * (a4 mod 2))
    + 115792089237316195423570985008687907853269984665640564039457584007913129639936 * (a4 div 2)
   = (a0 + 18446744073709551616 * a1 + 340282366920938463463374607431768211456 * a2
    + 6277101735386680763835789423207666416102355444464034512896 * a3
    + 115792089237316195423570985008687907853269984665640564039457584007913129639936 * a4) div 2"
proof -
  have d: "x = 2 * (x div 2) + x mod 2" for x :: int by simp
  have m: "0 \<le> a0 mod 2" "a0 mod 2 < 2" by simp_all
  show ?thesis unfolding half_digits_sum [OF d d d d d, of a0 a1 a2 a3 a4] split_digit(2) [OF m] by (rule refl)
qed

lemma uint320_rshift1_value: "u320_val (uint320_rshift1 a) = u320_val a div 2"
proof (cases a)
  case (U320 a0 a1 a2 a3 a4)
  have "uint (drop_bit 1 a4 OR push_bit 63 0 :: u64) = uint a4 div 2" by (simp add: uint_drop_bit_div)
  then show ?thesis
    unfolding U320 uint320_rshift1.simps Let_def u320_val.simps shift_limb by (simp only: half_digits)
qed

lemma PRIME_U320_value: "u320_val PRIME_U320 = field_prime"
  by (simp add: PRIME_U320_def)

lemma ONE_U320_value: "u320_val ONE_U320 = 1"
  by (simp add: ONE_U320_def)

lemma to_uint320_value: "u320_val (to_uint320 a) = fval a"
  by (cases "fe_limbs a") (simp add: to_uint320_def)


section \<open>Modulo the prime\<close>

text \<open>\<open>while (value.limbs[4] != 0ULL || uint320_compare(value, PRIME_U320) >= 0)\<close>.\<close>

function reduce_loop :: "Uint320 \<Rightarrow> Uint320" where
  "reduce_loop v =
     (if u320_top v \<noteq> 0 \<or> 0 \<le> uint320_compare v PRIME_U320
      then reduce_loop (uint320_sub_assign v PRIME_U320) else v)"
  by pat_completeness auto

lemma top_iff: "u320_top v \<noteq> 0 \<or> 0 \<le> uint320_compare v PRIME_U320 \<longleftrightarrow> field_prime \<le> u320_val v"
proof -
  have "field_prime \<le> u320_val v" if "u320_top v \<noteq> 0"
  proof (cases v)
    case (U320 a0 a1 a2 a3 a4)
    have "uint a4 \<noteq> 0" using that by (simp add: U320 word_uint_eq_iff)
    then have "1 \<le> uint a4" using uint_bounds(1) [of a4] by linarith
    then show ?thesis
      using uint_bounds(1) [of a0] uint_bounds(1) [of a1] uint_bounds(1) [of a2] uint_bounds(1) [of a3]
      unfolding U320 u320_val.simps by linarith
  qed
  then show ?thesis by (auto simp: uint320_compare_iff PRIME_U320_value)
qed

termination reduce_loop
proof (relation "measure (nat \<circ> u320_val)", goal_cases)
  case (2 v)
  then have "field_prime \<le> u320_val v" unfolding top_iff .
  then show ?case by (simp add: uint320_sub_exact PRIME_U320_value)
qed simp

declare reduce_loop.simps [simp del]

definition uint320_reduce_mod_prime :: "Uint320 \<Rightarrow> Uint320" where
  "uint320_reduce_mod_prime v =
     (if u320_top v = 0 \<and> uint320_compare v PRIME_U320 < 0 then v
      else
        let v = uint320_sub_assign v PRIME_U320
        in if u320_top v \<noteq> 0 \<or> 0 \<le> uint320_compare v PRIME_U320
           then reduce_loop (uint320_sub_assign v PRIME_U320) else v)"

definition uint320_sub_mod :: "Uint320 \<Rightarrow> Uint320 \<Rightarrow> Uint320" where
  "uint320_sub_mod target subtrahend =
     uint320_reduce_mod_prime
       (if 0 \<le> uint320_compare target subtrahend then uint320_sub_assign target subtrahend
        else uint320_sub_assign (uint320_add_assign target PRIME_U320) subtrahend)"

definition field_from_uint320 :: "Uint320 \<Rightarrow> FieldElement" where
  "field_from_uint320 v =
     (case uint320_reduce_mod_prime v of U320 l0 l1 l2 l3 l4 \<Rightarrow> fe_from_limbs (Limbs4 l0 l1 l2 l3))"

text \<open>Halving modulo the prime, as every loop below does it.\<close>

definition uint320_half :: "Uint320 \<Rightarrow> Uint320" where
  "uint320_half x =
     (if uint320_is_even x then uint320_rshift1 x
      else uint320_rshift1 (uint320_add_assign x PRIME_U320))"

lemma reduce_loop_value: "u320_val (reduce_loop v) = u320_val v mod field_prime"
proof (induction v rule: reduce_loop.induct)
  case (1 v)
  show ?case
  proof (cases "field_prime \<le> u320_val v")
    case True
    then have "u320_val (uint320_sub_assign v PRIME_U320) mod field_prime = u320_val v mod field_prime"
      by (simp add: uint320_sub_exact PRIME_U320_value)
    then show ?thesis using 1 True by (subst reduce_loop.simps) (simp only: top_iff if_True)
  next
    case False
    then show ?thesis
      using u320_val_bounds [of v] unfolding reduce_loop.simps [of v] top_iff by simp
  qed
qed

lemma reduce_mod_prime_loop: "uint320_reduce_mod_prime v = reduce_loop v"
proof -
  have t: "u320_top v = 0 \<and> uint320_compare v PRIME_U320 < 0 \<longleftrightarrow> \<not> (u320_top v \<noteq> 0 \<or> 0 \<le> uint320_compare v PRIME_U320)" for v
    by auto
  show ?thesis
    unfolding uint320_reduce_mod_prime_def t Let_def
    by (subst reduce_loop.simps, subst reduce_loop.simps) simp
qed

lemma reduce_mod_prime_value: "u320_val (uint320_reduce_mod_prime v) = u320_val v mod field_prime"
  unfolding reduce_mod_prime_loop by (rule reduce_loop_value)

lemma sub_mod_value:
  assumes "u320_val s < field_prime" "u320_val t < field_prime"
  shows "u320_val (uint320_sub_mod t s) = (u320_val t - u320_val s) mod field_prime"
proof (cases "u320_val s \<le> u320_val t")
  case True
  then show ?thesis
    by (simp add: uint320_sub_mod_def reduce_mod_prime_value uint320_compare_iff uint320_sub_exact)
next
  case False
  have a: "u320_val (uint320_add_assign t PRIME_U320) = u320_val t + field_prime"
    unfolding uint320_add_value PRIME_U320_value using assms u320_val_bounds [of t] by (intro mod_pos_pos_trivial) simp_all
  have "u320_val (uint320_sub_assign (uint320_add_assign t PRIME_U320) s) = u320_val t + field_prime - u320_val s"
    using assms u320_val_bounds [of t] by (subst uint320_sub_exact) (simp_all add: a)
  moreover have "(u320_val t + field_prime - u320_val s) mod field_prime = (u320_val t - u320_val s) mod field_prime"
    using mod_add_self2 [of "u320_val t - u320_val s" field_prime] by (simp only: diff_add_eq)
  ultimately show ?thesis using False
    by (simp only: uint320_sub_mod_def reduce_mod_prime_value uint320_compare_iff if_False)
qed

lemma half_value:
  assumes "u320_val x < field_prime"
  shows "u320_val (uint320_half x) < field_prime \<and> 2 * u320_val (uint320_half x) mod field_prime = u320_val x"
proof (cases "even (u320_val x)")
  case True
  then have "u320_val (uint320_half x) = u320_val x div 2" "2 * (u320_val x div 2) = u320_val x"
    by (simp_all add: uint320_half_def uint320_is_even_iff uint320_rshift1_value)
  then show ?thesis using assms u320_val_bounds [of x] by simp
next
  case False
  have a: "u320_val (uint320_add_assign x PRIME_U320) = u320_val x + field_prime"
    unfolding uint320_add_value PRIME_U320_value using assms u320_val_bounds [of x] by (intro mod_pos_pos_trivial) simp_all
  have h: "u320_val (uint320_half x) = (u320_val x + field_prime) div 2"
    using False by (simp add: uint320_half_def uint320_is_even_iff uint320_rshift1_value a)
  have "2 * u320_val (uint320_half x) = u320_val x + field_prime" unfolding h using False by simp
  then show ?thesis using assms u320_val_bounds [of x] by simp
qed


lemma field_from_uint320_value: "fval (field_from_uint320 v) = u320_val v mod field_prime"
proof (cases "uint320_reduce_mod_prime v")
  case (U320 l0 l1 l2 l3 l4)
  have v: "u320_val (U320 l0 l1 l2 l3 l4) = u320_val v mod field_prime"
    using reduce_mod_prime_value [of v] unfolding U320 .
  have "limbs_val (Limbs4 l0 l1 l2 l3) = u320_val (U320 l0 l1 l2 l3 l4) \<or> two256 \<le> u320_val (U320 l0 l1 l2 l3 l4)"
  proof (cases "uint l4 = 0")
    case False
    then have "1 \<le> uint l4" using uint_bounds(1) [of l4] by linarith
    then show ?thesis
      using uint_bounds(1) [of l0] uint_bounds(1) [of l1] uint_bounds(1) [of l2] uint_bounds(1) [of l3]
      unfolding u320_val.simps by linarith
  qed simp
  moreover have "u320_val v mod field_prime < field_prime" by simp
  ultimately have "limbs_val (Limbs4 l0 l1 l2 l3) = u320_val v mod field_prime" unfolding v by linarith
  then show ?thesis by (simp add: field_from_uint320_def U320 fe_from_limbs_def fe_normalize_value del: limbs_val.simps)
qed

section \<open>The loops\<close>

text \<open>The two inner loops: \<open>f\<close> is what is done to the cofactor after it is halved, a reduction in
  \<open>pow_p_minus_2_eea\<close> and nothing in the others.\<close>

partial_function (option) strip_twos :: "(Uint320 \<Rightarrow> Uint320) \<Rightarrow> Uint320 \<Rightarrow> Uint320 \<Rightarrow> (Uint320 \<times> Uint320) option" where
  "strip_twos f u x =
     (if uint320_is_even u then strip_twos f (uint320_rshift1 u) (f (uint320_half x)) else Some (u, x))"

partial_function (option) eea_loop ::
  "(Uint320 \<Rightarrow> Uint320) \<Rightarrow> Uint320 \<Rightarrow> Uint320 \<Rightarrow> Uint320 \<Rightarrow> Uint320 \<Rightarrow> (Uint320 \<times> Uint320 \<times> Uint320 \<times> Uint320) option" where
  "eea_loop f u v x1 x2 =
     (if \<not> uint320_is_one u \<and> \<not> uint320_is_one v then
        do {
          (u, x1) \<leftarrow> strip_twos f u x1;
          (v, x2) \<leftarrow> strip_twos f v x2;
          if 0 \<le> uint320_compare u v
          then eea_loop f (uint320_sub_assign u v) v (uint320_sub_mod x1 x2) x2
          else eea_loop f u (uint320_sub_assign v u) x1 (uint320_sub_mod x2 x1)
        }
      else Some (u, v, x1, x2))"

definition eea_result :: "Uint320 \<times> Uint320 \<times> Uint320 \<times> Uint320 \<Rightarrow> FieldElement" where
  "eea_result st =
     (case st of (u, v, x1, x2) \<Rightarrow>
        field_from_uint320 (uint320_reduce_mod_prime (if uint320_is_one u then x1 else x2)))"

definition pow_p_minus_2_eea :: "FieldElement \<Rightarrow> FieldElement option" where
  "pow_p_minus_2_eea base =
     map_option eea_result
       (eea_loop uint320_reduce_mod_prime (to_uint320 base) PRIME_U320 ONE_U320 (U320 0 0 0 0 0))"

text \<open>\<open>while (uint320_is_even(u) && uint320_is_even(v))\<close>.\<close>

partial_function (option) strip_common :: "Uint320 \<Rightarrow> Uint320 \<Rightarrow> (Uint320 \<times> Uint320) option" where
  "strip_common u v =
     (if uint320_is_even u \<and> uint320_is_even v then strip_common (uint320_rshift1 u) (uint320_rshift1 v)
      else Some (u, v))"

definition pow_p_minus_2_hybrid_eea :: "FieldElement \<Rightarrow> FieldElement option" where
  "pow_p_minus_2_hybrid_eea base =
     do {
       (u, v) \<leftarrow> strip_common (to_uint320 base) PRIME_U320;
       st \<leftarrow> eea_loop (\<lambda>x. x) u v ONE_U320 (U320 0 0 0 0 0);
       Some (eea_result st)
     }"

definition pow_p_minus_2_montgomery_redc :: "FieldElement \<Rightarrow> FieldElement option" where
  "pow_p_minus_2_montgomery_redc base = pow_p_minus_2_hybrid_eea base"

text \<open>\<open>while (uint320_is_even(a) && a_shift < 256)\<close>: the fuel is \<open>256 - a_shift\<close>.\<close>

primrec count_twos :: "nat \<Rightarrow> Uint320 \<Rightarrow> nat \<Rightarrow> Uint320 \<times> nat" where
  "count_twos 0 a a_shift = (a, a_shift)"
| "count_twos (Suc n) a a_shift =
     (if uint320_is_even a then count_twos n (uint320_rshift1 a) (a_shift + 1) else (a, a_shift))"

partial_function (option) binary_euclidean_loop ::
  "Uint320 \<Rightarrow> Uint320 \<Rightarrow> Uint320 \<Rightarrow> Uint320 \<Rightarrow> Uint320 option" where
  "binary_euclidean_loop a b x y =
     (if uint320_is_one a then Some x
      else
        let (a, a_shift) = count_twos 256 a 0;
            x = (uint320_half ^^ a_shift) x;
            (a, b, x, y) = (if uint320_compare a b < 0 then (b, a, y, x) else (a, b, x, y))
        in binary_euclidean_loop (uint320_sub_assign a b) b (uint320_sub_mod x y) y)"

definition pow_p_minus_2_binary_euclidean :: "FieldElement \<Rightarrow> FieldElement option" where
  "pow_p_minus_2_binary_euclidean base =
     map_option (\<lambda>x. field_from_uint320 (uint320_reduce_mod_prime x))
       (binary_euclidean_loop (to_uint320 base) PRIME_U320 ONE_U320 (U320 0 0 0 0 0))"

partial_function (option) stein_loop ::
  "Uint320 \<Rightarrow> Uint320 \<Rightarrow> Uint320 \<Rightarrow> Uint320 \<Rightarrow> Uint320 option" where
  "stein_loop u v x1 x2 =
     (if \<not> uint320_is_one u then
        do {
          (u, x1) \<leftarrow> strip_twos (\<lambda>x. x) u x1;
          (v, x2) \<leftarrow> strip_twos (\<lambda>x. x) v x2;
          if 0 \<le> uint320_compare u v
          then stein_loop (uint320_sub_assign u v) v (uint320_sub_mod x1 x2) x2
          else stein_loop u (uint320_sub_assign v u) x1 (uint320_sub_mod x2 x1)
        }
      else Some x1)"

definition pow_p_minus_2_stein :: "FieldElement \<Rightarrow> FieldElement option" where
  "pow_p_minus_2_stein base =
     map_option (\<lambda>x. field_from_uint320 (uint320_reduce_mod_prime x))
       (stein_loop (to_uint320 base) PRIME_U320 ONE_U320 (U320 0 0 0 0 0))"


section \<open>The invariant\<close>

text \<open>\<open>u\<close> is \<open>x * a\<close> modulo the prime, and \<open>x\<close> is reduced.\<close>

definition cofactor :: "int \<Rightarrow> Uint320 \<Rightarrow> Uint320 \<Rightarrow> bool" where
  "cofactor a u x \<longleftrightarrow> u320_val x < field_prime \<and> field_prime dvd u320_val u - u320_val x * a"

lemma half_dvd:
  fixes p :: int
  assumes "odd p" "p dvd 2 * u - x * a" "2 * y mod p = x"
  shows "p dvd u - y * a"
proof -
  have "p dvd 2 * y - x" using assms(3) mod_eq_dvd_iff [of "2 * y" p x] by (metis mod_mod_trivial)
  then have "p dvd (2 * u - x * a) - (2 * y - x) * a" by (rule dvd_diff [OF assms(2) dvd_mult2])
  moreover have "(2 * u - x * a) - (2 * y - x) * a = 2 * (u - y * a)" by (simp add: algebra_simps)
  ultimately have "p dvd 2 * (u - y * a)" by simp
  then show ?thesis using assms(1) by (metis coprime_dvd_mult_right_iff coprime_right_2_iff_odd)
qed

lemma diff_dvd:
  fixes p :: int
  assumes "p dvd u - x * a" "p dvd v - y * a" "z = (x - y) mod p"
  shows "p dvd (u - v) - z * a"
proof -
  have "p dvd (x - y) - z" using assms(3) mod_eq_dvd_iff [of "x - y" p z] by (metis mod_mod_trivial)
  then have "p dvd (u - x * a) - (v - y * a) + ((x - y) - z) * a" by (rule dvd_add [OF dvd_diff [OF assms(1,2)] dvd_mult2])
  moreover have "(u - x * a) - (v - y * a) + ((x - y) - z) * a = (u - v) - z * a" by (simp add: algebra_simps)
  ultimately show ?thesis by simp
qed

lemma odd_prime: "odd (field_prime :: int)"
  by simp

lemma cofactor_half:
  assumes "cofactor a u x" "even (u320_val u)"
  shows "cofactor a (uint320_rshift1 u) (uint320_half x)"
proof -
  note h = half_value [of x]
  have "2 * (u320_val u div 2) = u320_val u" using assms(2) by simp
  then show ?thesis
    using half_dvd [OF odd_prime, of "u320_val u div 2" "u320_val x" a "u320_val (uint320_half x)"] h assms
    unfolding cofactor_def uint320_rshift1_value by metis
qed

lemma cofactor_sub:
  assumes "cofactor a u x" "cofactor a v y" "u320_val v \<le> u320_val u"
  shows "cofactor a (uint320_sub_assign u v) (uint320_sub_mod x y)"
proof -
  have s: "u320_val (uint320_sub_mod x y) = (u320_val x - u320_val y) mod field_prime"
    using assms by (intro sub_mod_value) (simp_all only: cofactor_def)
  show ?thesis
    using diff_dvd [OF _ _ s, of "u320_val u" a "u320_val v"] assms
    unfolding cofactor_def uint320_sub_exact [OF assms(3)] by (simp add: s)
qed

lemma cofactor_one:
  assumes "cofactor a u x" "u320_val u = 1"
  shows "u320_val x * a mod field_prime = 1"
proof -
  have "1 mod field_prime = u320_val x * a mod field_prime"
    using assms unfolding cofactor_def by (metis mod_eq_dvd_iff)
  then show ?thesis by simp
qed

lemma strip_twos_total:
  assumes "0 < u320_val u" "cofactor a u x" "\<And>z. u320_val z < field_prime \<Longrightarrow> f z = z"
  shows "\<exists>u' x' k. strip_twos f u x = Some (u', x') \<and> cofactor a u' x' \<and> odd (u320_val u')
    \<and> u320_val u = 2 ^ k * u320_val u'"
  using assms(1,2)
proof (induction "nat (u320_val u)" arbitrary: u x rule: less_induct)
  case less
  show ?case
  proof (cases "even (u320_val u)")
    case True
    let ?u = "uint320_rshift1 u" and ?x = "uint320_half x"
    have d: "2 * u320_val ?u = u320_val u" using True by (simp add: uint320_rshift1_value)
    have c: "cofactor a ?u ?x" by (rule cofactor_half [OF less.prems(2) True])
    then have "f ?x = ?x" using assms(3) by (simp add: cofactor_def)
    moreover have "nat (u320_val ?u) < nat (u320_val u)" "0 < u320_val ?u" using d less.prems(1) by linarith+
    ultimately obtain u' x' k where "strip_twos f ?u (f ?x) = Some (u', x')" "cofactor a u' x'" "odd (u320_val u')"
      "u320_val ?u = 2 ^ k * u320_val u'"
      using less.hyps [of ?u ?x] c by auto
    then show ?thesis using True d
      by (intro exI [of _ u'] exI [of _ x'] exI [of _ "Suc k"])
        (subst strip_twos.simps, simp add: uint320_is_even_iff)
  next
    case False
    then show ?thesis using less.prems
      by (intro exI [of _ u] exI [of _ x] exI [of _ 0]) (subst strip_twos.simps, simp add: uint320_is_even_iff)
  qed
qed

lemma eea_loop_total:
  assumes "\<And>z. u320_val z < field_prime \<Longrightarrow> f z = z"
    and "0 < u320_val u" "0 < u320_val v" "cofactor a u x1" "cofactor a v x2" "coprime (u320_val u) (u320_val v)"
  shows "\<exists>u' v' x1' x2'. eea_loop f u v x1 x2 = Some (u', v', x1', x2') \<and> cofactor a u' x1' \<and> cofactor a v' x2'
    \<and> (u320_val u' = 1 \<or> u320_val v' = 1)"
  using assms(2-)
proof (induction "nat (u320_val u + u320_val v)" arbitrary: u v x1 x2 rule: less_induct)
  case less
  show ?case
  proof (cases "u320_val u = 1 \<or> u320_val v = 1")
    case True
    then show ?thesis using less.prems
      by (intro exI [of _ u] exI [of _ v] exI [of _ x1] exI [of _ x2])
        (subst eea_loop.simps, auto simp: uint320_is_one_iff)
  next
    case False
    obtain s y1 k where s: "strip_twos f u x1 = Some (s, y1)" "cofactor a s y1" "odd (u320_val s)"
        "u320_val u = 2 ^ k * u320_val s"
      using strip_twos_total [OF less.prems(1,3) assms(1)] by blast
    obtain t y2 l where t: "strip_twos f v x2 = Some (t, y2)" "cofactor a t y2" "odd (u320_val t)"
        "u320_val v = 2 ^ l * u320_val t"
      using strip_twos_total [OF less.prems(2,4) assms(1)] by blast
    have cop: "coprime (u320_val s) (u320_val t)" using less.prems(5) unfolding s(4) t(4) by simp
    have pos: "0 < u320_val s" "0 < u320_val t" using less.prems(1,2) unfolding s(4) t(4)
      by (simp_all add: zero_less_mult_iff)
    have le: "u320_val s \<le> u320_val u" "u320_val t \<le> u320_val v"
      using pos by (simp_all add: s(4) t(4))
    have ne: "u320_val s \<noteq> u320_val t"
    proof
      assume e: "u320_val s = u320_val t"
      then have "u320_val s = 1" "u320_val t = 1" using cop pos by simp_all
      then show False using False less.prems(5) by (cases k; cases l) (auto simp: s(4) t(4))
    qed
    have n: "\<not> uint320_is_one u" "\<not> uint320_is_one v" using False by (simp_all add: uint320_is_one_iff)
    show ?thesis
    proof (cases "u320_val t \<le> u320_val s")
      case True
      let ?d = "uint320_sub_assign s t"
      have d: "u320_val ?d = u320_val s - u320_val t" by (rule uint320_sub_exact [OF True])
      have "coprime (u320_val ?d) (u320_val t)" using cop by (simp add: d coprime_iff_gcd_eq_1 gcd_diff1)
      then have "\<exists>u' v' x1' x2'. eea_loop f ?d t (uint320_sub_mod y1 y2) y2 = Some (u', v', x1', x2')
          \<and> cofactor a u' x1' \<and> cofactor a v' x2' \<and> (u320_val u' = 1 \<or> u320_val v' = 1)"
        using True ne pos le by (intro less.hyps cofactor_sub s t) (simp_all add: d)
      then show ?thesis using True n
        by (subst eea_loop.simps) (simp add: s(1) t(1) uint320_compare_iff)
    next
      case False
      let ?d = "uint320_sub_assign t s"
      have d: "u320_val ?d = u320_val t - u320_val s" using False by (intro uint320_sub_exact) simp
      have "coprime (u320_val s) (u320_val ?d)"
        using cop unfolding d by (metis coprime_iff_gcd_eq_1 gcd.commute gcd_diff1)
      then have "\<exists>u' v' x1' x2'. eea_loop f s ?d y1 (uint320_sub_mod y2 y1) = Some (u', v', x1', x2')
          \<and> cofactor a u' x1' \<and> cofactor a v' x2' \<and> (u320_val u' = 1 \<or> u320_val v' = 1)"
        using False ne pos le by (intro less.hyps cofactor_sub s t) (simp_all add: d)
      then show ?thesis using False n
        by (subst eea_loop.simps) (simp add: s(1) t(1) uint320_compare_iff)
    qed
  qed
qed

lemma cofactor_start:
  "cofactor (fval a) (to_uint320 a) ONE_U320" "cofactor (fval a) PRIME_U320 (U320 0 0 0 0 0)"
  by (simp_all add: cofactor_def to_uint320_value ONE_U320_value PRIME_U320_value)

lemma reduce_id: "u320_val z < field_prime \<Longrightarrow> uint320_reduce_mod_prime z = z"
  unfolding reduce_mod_prime_loop reduce_loop.simps [of z] top_iff by simp

lemma eea_result_value:
  assumes "cofactor a u x1" "cofactor a v x2" "u320_val u = 1 \<or> u320_val v = 1"
  shows "fval (eea_result (u, v, x1, x2)) * a mod field_prime = 1 \<and> fe_ok (eea_result (u, v, x1, x2))"
proof -
  let ?x = "if uint320_is_one u then x1 else x2"
  have x: "u320_val ?x * a mod field_prime = 1"
    using cofactor_one [OF assms(1)] cofactor_one [OF assms(2)] assms(3) by (auto simp: uint320_is_one_iff)
  have e: "fval (eea_result (u, v, x1, x2)) = u320_val ?x mod field_prime"
    unfolding eea_result_def prod.case field_from_uint320_value reduce_mod_prime_value by simp
  have "u320_val ?x mod field_prime * a mod field_prime = 1" using x by (simp only: mod_mult_left_eq)
  then show ?thesis by (simp add: fe_ok_def e del: mod_mult_left_eq)
qed

lemma coprime_pos:
  assumes "coprime (fval a) field_prime"
  shows "0 < fval a"
  using assms limbs_val_bounds [of "fe_limbs a"] by (cases "fval a = 0") auto

lemma eea_inverse:
  assumes "coprime (fval a) field_prime"
  shows "\<exists>r. pow_p_minus_2_eea a = Some r \<and> fe_ok r \<and> fval r * fval a mod field_prime = 1"
proof -
  note v = to_uint320_value PRIME_U320_value
  obtain u' v' x1' x2' where e: "eea_loop uint320_reduce_mod_prime (to_uint320 a) PRIME_U320 ONE_U320 (U320 0 0 0 0 0)
      = Some (u', v', x1', x2')" "cofactor (fval a) u' x1'" "cofactor (fval a) v' x2'" "u320_val u' = 1 \<or> u320_val v' = 1"
    using eea_loop_total [OF reduce_id _ _ cofactor_start [of a], unfolded v, OF _ coprime_pos [OF assms] _ assms] by auto
  then show ?thesis using eea_result_value [OF e(2-4)] by (auto simp: pow_p_minus_2_eea_def)
qed

lemma hybrid_inverse:
  assumes "coprime (fval a) field_prime"
  shows "\<exists>r. pow_p_minus_2_hybrid_eea a = Some r \<and> fe_ok r \<and> fval r * fval a mod field_prime = 1"
proof -
  note v = to_uint320_value PRIME_U320_value
  have c: "strip_common (to_uint320 a) PRIME_U320 = Some (to_uint320 a, PRIME_U320)"
    by (subst strip_common.simps) (simp add: PRIME_U320_def)
  obtain u' v' x1' x2' where e: "eea_loop (\<lambda>x. x) (to_uint320 a) PRIME_U320 ONE_U320 (U320 0 0 0 0 0)
      = Some (u', v', x1', x2')" "cofactor (fval a) u' x1'" "cofactor (fval a) v' x2'" "u320_val u' = 1 \<or> u320_val v' = 1"
    using eea_loop_total [OF refl _ _ cofactor_start [of a], unfolded v, OF coprime_pos [OF assms] _ assms] by auto
  then show ?thesis using eea_result_value [OF e(2-4)] by (auto simp: pow_p_minus_2_hybrid_eea_def c)
qed

subsection \<open>\<open>pow_p_minus_2_binary_euclidean\<close>\<close>

lemma count_twos_cofactor:
  assumes "count_twos n u k = (u', k')" "cofactor a u x"
  shows "\<exists>m. k' = k + m \<and> u320_val u = 2 ^ m * u320_val u' \<and> cofactor a u' ((uint320_half ^^ m) x)
    \<and> (even (u320_val u') \<longrightarrow> m = n)"
  using assms
proof (induction n arbitrary: u k x)
  case (Suc n)
  show ?case
  proof (cases "even (u320_val u)")
    case True
    have d: "2 * u320_val (uint320_rshift1 u) = u320_val u" using True by (simp add: uint320_rshift1_value)
    obtain m where "k' = k + 1 + m" "u320_val (uint320_rshift1 u) = 2 ^ m * u320_val u'"
        "cofactor a u' ((uint320_half ^^ m) (uint320_half x))" "even (u320_val u') \<longrightarrow> m = n"
      using Suc.IH [OF _ cofactor_half [OF Suc.prems(2) True], of "k + 1"] Suc.prems(1) True
      by (auto simp: uint320_is_even_iff)
    then show ?thesis using d by (intro exI [of _ "Suc m"]) (simp add: funpow_swap1)
  next
    case False
    then show ?thesis using Suc.prems by (simp add: uint320_is_even_iff)
  qed
qed simp

lemma cofactor_zero:
  assumes "cofactor a u x" "u320_val u = 0" "coprime a field_prime"
  shows "u320_val x = 0"
proof -
  have "field_prime dvd u320_val x * a" using assms(1,2) by (simp add: cofactor_def)
  then have "field_prime dvd u320_val x" using assms(3) by (metis coprime_commute coprime_dvd_mult_left_iff)
  then show ?thesis using assms(1) u320_val_bounds [of x] by (metis cofactor_def zdvd_not_zless order_le_less)
qed


lemma count_twos_odd:
  assumes "0 < u320_val u" "u320_val u < two256" "cofactor a u x"
  obtains s m where "count_twos 256 u 0 = (s, m)" "cofactor a s ((uint320_half ^^ m) x)" "odd (u320_val s)"
    "u320_val u = 2 ^ m * u320_val s"
proof -
  obtain s m where e: "count_twos 256 u 0 = (s, m)" by fastforce
  obtain m' where m: "m = 0 + m'" "u320_val u = 2 ^ m' * u320_val s" "cofactor a s ((uint320_half ^^ m') x)"
      "even (u320_val s) \<longrightarrow> m' = 256"
    using count_twos_cofactor [OF e assms(3)] by blast
  have "odd (u320_val s)"
  proof
    assume "even (u320_val s)"
    then have "u320_val u = two256 * u320_val s" using m(2,4) by simp
    moreover have "1 \<le> u320_val s" using assms(1) m(2) by (simp add: zero_less_mult_iff)
    ultimately show False using assms(2) by linarith
  qed
  then show ?thesis using that e m by simp
qed

lemma count_twos_zero:
  assumes "u320_val u = 0" "cofactor a u x"
  obtains s m where "count_twos 256 u 0 = (s, m)" "cofactor a s ((uint320_half ^^ m) x)" "u320_val s = 0"
proof -
  obtain s m where e: "count_twos 256 u 0 = (s, m)" by fastforce
  obtain m' where "m = 0 + m'" "u320_val u = 2 ^ m' * u320_val s" "cofactor a s ((uint320_half ^^ m') x)"
    using count_twos_cofactor [OF e assms(2)] by blast
  then show ?thesis using that e assms(1) by simp
qed

text \<open>One pass of the loop, with the swap made.\<close>

lemma binary_euclidean_step:
  assumes "\<not> uint320_is_one a" "count_twos 256 a 0 = (s, m)"
  shows "binary_euclidean_loop a b x y =
    (if u320_val s < u320_val b
     then binary_euclidean_loop (uint320_sub_assign b s) s (uint320_sub_mod y ((uint320_half ^^ m) x)) ((uint320_half ^^ m) x)
     else binary_euclidean_loop (uint320_sub_assign s b) b (uint320_sub_mod ((uint320_half ^^ m) x) y) y)"
proof -
  have "uint320_compare s b < 0 \<longleftrightarrow> u320_val s < u320_val b" using uint320_compare_iff [of s b] by linarith
  then show ?thesis using assms by (subst binary_euclidean_loop.simps) (simp add: Let_def)
qed

lemma binary_euclidean_total:
  assumes "0 \<le> u320_val a" "0 < u320_val b" "u320_val a < two256" "u320_val b < two256" "odd (u320_val b)"
    "cofactor n a x" "cofactor n b y" "coprime (u320_val a) (u320_val b)"
  shows "\<exists>z. binary_euclidean_loop a b x y = Some z \<and> u320_val z * n mod field_prime = 1"
  using assms
proof (induction "nat (u320_val a + u320_val b)" arbitrary: a b x y rule: less_induct)
  case less
  consider "u320_val a = 1" | "u320_val a = 0" | "1 < u320_val a" using less.prems(1) by linarith
  then show ?case
  proof cases
    case 1
    then show ?thesis using cofactor_one [OF less.prems(6)]
      by (subst binary_euclidean_loop.simps) (simp add: uint320_is_one_iff)
  next
    case 2
    then have b: "u320_val b = 1" using less.prems(2,8) by simp
    obtain s m where s: "count_twos 256 a 0 = (s, m)" "cofactor n s ((uint320_half ^^ m) x)" "u320_val s = 0"
      using count_twos_zero [OF 2 less.prems(6)] by blast
    have "cofactor n (uint320_sub_assign b s) (uint320_sub_mod y ((uint320_half ^^ m) x))"
      using s b by (intro cofactor_sub less.prems) simp_all
    moreover have one: "u320_val (uint320_sub_assign b s) = 1" using s b by (simp add: uint320_sub_exact)
    ultimately have z: "u320_val (uint320_sub_mod y ((uint320_half ^^ m) x)) * n mod field_prime = 1" by (rule cofactor_one)
    have na: "\<not> uint320_is_one a" using 2 by (simp add: uint320_is_one_iff)
    show ?thesis unfolding binary_euclidean_step [OF na s(1)]
      using z one s b by (simp add: uint320_is_one_iff binary_euclidean_loop.simps)
  next
    case 3
    obtain s m where s: "count_twos 256 a 0 = (s, m)" "cofactor n s ((uint320_half ^^ m) x)" "odd (u320_val s)"
        "u320_val a = 2 ^ m * u320_val s"
      using count_twos_odd [OF _ less.prems(3,6)] 3 by auto
    have cop: "coprime (u320_val s) (u320_val b)" using less.prems(8) unfolding s(4) by simp
    have "0 < u320_val a" using 3 by simp
    then have pos: "0 < u320_val s" unfolding s(4) by (simp add: zero_less_mult_iff)
    have le: "u320_val s \<le> u320_val a" using pos by (simp add: s(4))
    have na: "\<not> uint320_is_one a" using 3 by (simp add: uint320_is_one_iff)
    show ?thesis
    proof (cases "u320_val s < u320_val b")
      case True
      let ?d = "uint320_sub_assign b s"
      have d: "u320_val ?d = u320_val b - u320_val s" using True by (simp add: uint320_sub_exact)
      have "coprime (u320_val ?d) (u320_val s)"
        using cop unfolding d by (metis coprime_iff_gcd_eq_1 gcd.commute gcd_diff1)
      then show ?thesis unfolding binary_euclidean_step [OF na s(1)] if_P [OF True]
        using True 3 pos le less.prems d s(1-3) by (intro less.hyps cofactor_sub) (simp_all add: d)
    next
      case False
      let ?d = "uint320_sub_assign s b"
      have d: "u320_val ?d = u320_val s - u320_val b" using False by (simp add: uint320_sub_exact)
      have "coprime (u320_val ?d) (u320_val b)" using cop unfolding d by (simp add: coprime_iff_gcd_eq_1 gcd_diff1)
      then show ?thesis unfolding binary_euclidean_step [OF na s(1)] if_not_P [OF False]
        using False 3 pos le less.prems d s(1-3) by (intro less.hyps cofactor_sub) (simp_all add: d)
    qed
  qed
qed

lemma binary_euclidean_inverse:
  assumes "coprime (fval a) field_prime"
  shows "\<exists>r. pow_p_minus_2_binary_euclidean a = Some r \<and> fe_ok r \<and> fval r * fval a mod field_prime = 1"
proof -
  have b: "0 \<le> fval a" "fval a < two256" using limbs_val_bounds [of "fe_limbs a"] by simp_all
  obtain z where z: "binary_euclidean_loop (to_uint320 a) PRIME_U320 ONE_U320 (U320 0 0 0 0 0) = Some z"
      "u320_val z * fval a mod field_prime = 1"
    using binary_euclidean_total [OF _ _ _ _ _ cofactor_start [of a]] assms b
    by (auto simp: to_uint320_value PRIME_U320_value)
  have "u320_val z mod field_prime * fval a mod field_prime = 1" using z(2) by (simp only: mod_mult_left_eq)
  then show ?thesis
    by (simp add: pow_p_minus_2_binary_euclidean_def z(1) fe_ok_def field_from_uint320_value reduce_mod_prime_value
        del: mod_mult_left_eq)
qed

section \<open>Loops that do not end\<close>

lemma strip_twos_nonzero:
  assumes "strip_twos f u x = Some r"
  shows "u320_val u \<noteq> 0"
proof (rule strip_twos.raw_induct [where P = "\<lambda>f u x r. u320_val u \<noteq> 0" and xa = "((f, u), x)" and y = r, unfolded prod.case])
  show "\<And>strip f u x r. (\<And>f u x r. strip f u x = Some r \<Longrightarrow> u320_val u \<noteq> 0) \<Longrightarrow>
    (if uint320_is_even u then strip f (uint320_rshift1 u) (f (uint320_half x)) else Some (u, x)) = Some r \<Longrightarrow> u320_val u \<noteq> 0"
    by (fastforce simp: uint320_rshift1_value uint320_is_even_iff split: if_splits)
qed (rule assms)

lemma strip_twos_zero: "u320_val u = 0 \<Longrightarrow> strip_twos f u x = None"
  using strip_twos_nonzero [of f u x] by (cases "strip_twos f u x") auto

lemma eea_loop_zero: "u320_val u = 0 \<Longrightarrow> u320_val v \<noteq> 1 \<Longrightarrow> eea_loop f u v x1 x2 = None"
  by (subst eea_loop.simps) (simp add: uint320_is_one_iff strip_twos_zero)

lemma stein_loop_zero: "u320_val u = 0 \<Longrightarrow> stein_loop u v x1 x2 = None"
  by (subst stein_loop.simps) (simp add: uint320_is_one_iff strip_twos_zero)

text \<open>Once \<open>v\<close> is one and \<open>u\<close> is even, \<open>u\<close> is stripped to an odd number and one is subtracted from
  it, so that it is even again: it reaches zero and never one.\<close>

lemma stein_loop_stuck:
  assumes "u320_val v = 1" "even (u320_val u)" "cofactor a u x1" "cofactor a v x2"
  shows "stein_loop u v x1 x2 = None"
  using assms
proof (induction "nat (u320_val u)" arbitrary: u x1 rule: less_induct)
  case less
  show ?case
  proof (cases "u320_val u = 0")
    case False
    then have pos: "0 < u320_val u" using u320_val_bounds [of u] by linarith
    obtain s y k where s: "strip_twos (\<lambda>x. x) u x1 = Some (s, y)" "cofactor a s y" "odd (u320_val s)"
        "u320_val u = 2 ^ k * u320_val s"
      using strip_twos_total [OF pos less.prems(3) refl] by blast
    have v: "strip_twos (\<lambda>x. x) v x2 = Some (v, x2)"
      by (subst strip_twos.simps) (simp add: uint320_is_even_iff less.prems(1))
    have p: "1 \<le> u320_val s" using pos unfolding s(4) by (simp add: zero_less_mult_iff)
    have le: "u320_val s \<le> u320_val u" using p by (simp add: s(4))
    have d: "u320_val (uint320_sub_assign s v) = u320_val s - 1" using p less.prems(1) by (simp add: uint320_sub_exact)
    have "stein_loop (uint320_sub_assign s v) v (uint320_sub_mod y x2) x2 = None"
    proof (rule less.hyps)
      show "nat (u320_val (uint320_sub_assign s v)) < nat (u320_val u)" unfolding d using p le by linarith
      show "cofactor a (uint320_sub_assign s v) (uint320_sub_mod y x2)"
        using p less.prems by (intro cofactor_sub s) simp_all
    qed (use s(3) less.prems in \<open>simp_all add: d\<close>)
    moreover have "\<not> uint320_is_one u" using less.prems(2) by (auto simp: uint320_is_one_iff)
    ultimately show ?thesis using p less.prems(1)
      by (subst stein_loop.simps) (simp add: s(1) v uint320_compare_iff)
  qed (simp add: stein_loop_zero)
qed

lemma binary_euclidean_nonzero:
  assumes "binary_euclidean_loop a b x y = Some r"
  shows "\<not> (u320_val a = field_prime \<and> u320_val b = 0)"
proof (rule binary_euclidean_loop.raw_induct [where P = "\<lambda>a b x y r. \<not> (u320_val a = field_prime \<and> u320_val b = 0)"
      and xa = "(((a, b), x), y)" and ya = r, unfolded prod.case])
  fix loop a b x y r
  assume ih: "\<And>a b x y r. loop a b x y = Some r \<Longrightarrow> \<not> (u320_val a = field_prime \<and> u320_val b = 0)"
    and e: "(if uint320_is_one a then Some x
      else
        let (a, a_shift) = count_twos 256 a 0;
            x = (uint320_half ^^ a_shift) x;
            (a, b, x, y) = (if uint320_compare a b < 0 then (b, a, y, x) else (a, b, x, y))
        in loop (uint320_sub_assign a b) b (uint320_sub_mod x y) y) = Some (r :: Uint320)"
  show "\<not> (u320_val a = field_prime \<and> u320_val b = 0)"
  proof
    assume v: "u320_val a = field_prime \<and> u320_val b = 0"
    have c: "count_twos 256 a 0 = (a, 0)" using v by (simp add: eval_nat_numeral uint320_is_even_iff)
    have "\<not> uint320_compare a b < 0" using uint320_compare_iff [of a b] v by simp
    then have "loop (uint320_sub_assign a b) b (uint320_sub_mod x y) y = Some r"
      using e v c by (simp add: uint320_is_one_iff Let_def)
    from ih [OF this] show False using v by (simp add: uint320_sub_exact)
  qed
qed (rule assms)

lemma binary_euclidean_zero: "pow_p_minus_2_binary_euclidean fe_zero = None"
proof -
  have z: "u320_val (to_uint320 fe_zero) = 0" "cofactor 0 (to_uint320 fe_zero) ONE_U320"
    by (simp_all add: to_uint320_value fe_zero_def cofactor_def ONE_U320_value)
  obtain s m where s: "count_twos 256 (to_uint320 fe_zero) 0 = (s, m)" "u320_val s = 0"
    using count_twos_zero [OF z] by blast
  have d: "u320_val (uint320_sub_assign PRIME_U320 s) = field_prime"
    by (simp add: uint320_sub_exact s PRIME_U320_value)
  have na: "\<not> uint320_is_one (to_uint320 fe_zero)" using z by (simp add: uint320_is_one_iff)
  have stuck: "binary_euclidean_loop (uint320_sub_assign PRIME_U320 s) s x y = None" for x y
    using binary_euclidean_nonzero [of "uint320_sub_assign PRIME_U320 s" s x y] d s(2)
    by (cases "binary_euclidean_loop (uint320_sub_assign PRIME_U320 s) s x y") simp_all
  have lt: "u320_val s < u320_val PRIME_U320" by (simp add: s(2) PRIME_U320_value)
  have "binary_euclidean_loop (to_uint320 fe_zero) PRIME_U320 ONE_U320 (U320 0 0 0 0 0) = None"
    unfolding binary_euclidean_step [OF na s(1)] if_P [OF lt] by (rule stuck)
  then show ?thesis by (simp add: pow_p_minus_2_binary_euclidean_def)
qed

lemma strip_twos_odd: "odd (u320_val u) \<Longrightarrow> strip_twos f u x = Some (u, x)"
  by (subst strip_twos.simps) (simp add: uint320_is_even_iff)

lemma stein_prime_minus_2:
  assumes "fval a = field_prime - 2"
  shows "pow_p_minus_2_stein a = None"
proof -
  let ?u = "to_uint320 a" and ?x2 = "uint320_sub_mod (U320 0 0 0 0 0) ONE_U320"
  define v where "v = uint320_sub_assign PRIME_U320 ?u"
  have u: "u320_val ?u = field_prime - 2" by (simp add: to_uint320_value assms)
  have v: "u320_val v = 2" by (simp add: v_def uint320_sub_exact u PRIME_U320_value)
  have c: "cofactor (fval a) v ?x2"
    unfolding v_def by (intro cofactor_sub cofactor_start) (simp add: u PRIME_U320_value)
  obtain t y k where t: "strip_twos (\<lambda>x. x) v ?x2 = Some (t, y)" "cofactor (fval a) t y" "odd (u320_val t)"
      "u320_val v = 2 ^ k * u320_val t"
    using strip_twos_total [OF _ c refl] v by auto
  have t1: "u320_val t = 1"
  proof -
    have "u320_val t dvd 2" using t(4) v by (metis dvd_triv_right)
    moreover have "0 < u320_val t" using t(4) v u320_val_bounds [of t] by (cases "u320_val t = 0") auto
    moreover have "u320_val t \<le> 2" using calculation by (simp add: zdvd_imp_le)
    ultimately show ?thesis using t(3) by (cases "u320_val t = 2") auto
  qed
  let ?w = "uint320_sub_assign ?u t"
  have w: "u320_val ?w = field_prime - 3" by (simp add: uint320_sub_exact u t1)
  have stuck: "stein_loop ?w t (uint320_sub_mod ONE_U320 y) y = None"
    by (rule stein_loop_stuck [OF t1 _ cofactor_sub [OF cofactor_start(1) t(2)] t(2)]) (simp_all add: w u t1)
  have n: "\<not> uint320_is_one ?u" by (simp add: uint320_is_one_iff u)
  have second: "stein_loop ?u v ONE_U320 ?x2 = None"
    using stuck n by (subst stein_loop.simps) (simp add: strip_twos_odd u t(1) uint320_compare_iff t1)
  have "\<not> 0 \<le> uint320_compare ?u PRIME_U320" by (simp add: uint320_compare_iff u PRIME_U320_value)
  then have "stein_loop ?u PRIME_U320 ONE_U320 (U320 0 0 0 0 0) = None"
    using second n by (subst stein_loop.simps) (simp add: strip_twos_odd u PRIME_U320_value v_def)
  then show ?thesis by (simp add: pow_p_minus_2_stein_def)
qed

section \<open>Properties\<close>

lemma inverse_unique:
  assumes "fe_ok r" "fe_ok s" "coprime a field_prime" "fval r * a mod field_prime = 1" "fval s * a mod field_prime = 1"
  shows "r = s"
proof (rule fval_inj)
  have "field_prime dvd fval r * a - fval s * a" using assms(4,5) by (metis mod_eq_dvd_iff)
  then have "field_prime dvd (fval r - fval s) * a" by (simp add: left_diff_distrib)
  then have "field_prime dvd fval r - fval s" using assms(3) by (metis coprime_commute coprime_dvd_mult_left_iff)
  then have "fval r mod field_prime = fval s mod field_prime" by (metis mod_eq_dvd_iff)
  then show "fval r = fval s"
    using assms(1,2) limbs_val_bounds [of "fe_limbs r"] limbs_val_bounds [of "fe_limbs s"] by (simp add: fe_ok_def)
qed

text \<open>C17: For an element that is coprime to the prime the loops end, and the three algorithms return the
  one canonical inverse.\<close>
theorem gcd_inverses_return:
  assumes "coprime (fval a) field_prime"
  shows "\<exists>r. pow_p_minus_2_eea a = Some r \<and> pow_p_minus_2_hybrid_eea a = Some r
    \<and> pow_p_minus_2_montgomery_redc a = Some r \<and> pow_p_minus_2_binary_euclidean a = Some r
    \<and> fe_ok r \<and> fval r * fval a mod field_prime = 1"
proof -
  obtain r where r: "pow_p_minus_2_eea a = Some r" "fe_ok r" "fval r * fval a mod field_prime = 1"
    using eea_inverse [OF assms] by blast
  obtain s where s: "pow_p_minus_2_hybrid_eea a = Some s" "fe_ok s" "fval s * fval a mod field_prime = 1"
    using hybrid_inverse [OF assms] by blast
  obtain t where t: "pow_p_minus_2_binary_euclidean a = Some t" "fe_ok t" "fval t * fval a mod field_prime = 1"
    using binary_euclidean_inverse [OF assms] by blast
  have "s = r" "t = r"
    by (rule inverse_unique [OF s(2) r(2) assms s(3) r(3)], rule inverse_unique [OF t(2) r(2) assms t(3) r(3)])
  then show ?thesis using r s t by (simp add: pow_p_minus_2_montgomery_redc_def)
qed

theorem gcd_inverses_return_witness:
  "\<exists>r. pow_p_minus_2_eea (FE (Limbs4 3 0 0 0)) = Some r \<and> fval r * 3 mod field_prime = 1"
proof -
  have "coprime (fval (FE (Limbs4 3 0 0 0))) field_prime" by (simp add: coprime_iff_gcd_eq_1 gcd_non_0_int)
  from gcd_inverses_return [OF this] show ?thesis by auto
qed

text \<open>C39: None of them returns for zero, which their callers must exclude, and the binary one that stops
  only at \<open>u = 1\<close> does not return for \<open>p - 2\<close> either, though that is coprime to the prime.\<close>
theorem gcd_inverses_hang:
  "pow_p_minus_2_eea fe_zero = None \<and> pow_p_minus_2_hybrid_eea fe_zero = None
   \<and> pow_p_minus_2_binary_euclidean fe_zero = None \<and> pow_p_minus_2_stein fe_zero = None
   \<and> pow_p_minus_2_stein (FE (Limbs4 0xFFFFFFFEFFFFFC2D 0xFFFFFFFFFFFFFFFF 0xFFFFFFFFFFFFFFFF 0xFFFFFFFFFFFFFFFF)) = None
   \<and> coprime (fval (FE (Limbs4 0xFFFFFFFEFFFFFC2D 0xFFFFFFFFFFFFFFFF 0xFFFFFFFFFFFFFFFF 0xFFFFFFFFFFFFFFFF))) field_prime"
proof -
  let ?a = "FE (Limbs4 0xFFFFFFFEFFFFFC2D 0xFFFFFFFFFFFFFFFF 0xFFFFFFFFFFFFFFFF 0xFFFFFFFFFFFFFFFF)"
  have z: "u320_val (to_uint320 fe_zero) = 0" by (simp add: to_uint320_value fe_zero_def)
  have p: "u320_val PRIME_U320 \<noteq> 1" by (simp add: PRIME_U320_value)
  have c: "strip_common (to_uint320 fe_zero) PRIME_U320 = Some (to_uint320 fe_zero, PRIME_U320)"
    by (subst strip_common.simps) (simp add: PRIME_U320_def)
  have "coprime (fval ?a) field_prime" by (simp add: coprime_iff_gcd_eq_1 gcd_non_0_int)
  moreover have "pow_p_minus_2_stein ?a = None" by (rule stein_prime_minus_2) simp
  moreover have "pow_p_minus_2_eea fe_zero = None \<and> pow_p_minus_2_hybrid_eea fe_zero = None
      \<and> pow_p_minus_2_stein fe_zero = None"
    by (simp add: pow_p_minus_2_eea_def pow_p_minus_2_hybrid_eea_def pow_p_minus_2_stein_def c eea_loop_zero [OF z p]
        stein_loop_zero [OF z])
  ultimately show ?thesis using binary_euclidean_zero by blast
qed
end
