(* ===== verification/Curve.thy ===== *)
theory Curve
  imports Field
begin

text \<open>
  The abstract side of the point formulas: affine points with integer coordinates read modulo the
  field prime, \<open>None\<close> for the point at infinity, and the chord and tangent rule as the relation
  \<open>ec_sum\<close>. The slope of a chord or tangent is any solution of its equation, so that no inverse is
  needed; the premise that the difference of the abscissas, or twice the ordinate, is coprime to the
  prime makes it unique.
\<close>

type_synonym point = "(int \<times> int) option"

definition eq_p :: "int \<Rightarrow> int \<Rightarrow> bool" where
  "eq_p a b \<longleftrightarrow> a mod field_prime = b mod field_prime"

lemma eq_p_refl [simp]: "eq_p a a" by (simp add: eq_p_def)
lemma eq_p_sym: "eq_p a b \<Longrightarrow> eq_p b a" by (simp add: eq_p_def)
lemma eq_p_trans: "eq_p a b \<Longrightarrow> eq_p b c \<Longrightarrow> eq_p a c" by (simp add: eq_p_def)

lemma eq_p_dvd: "eq_p a b \<longleftrightarrow> field_prime dvd a - b"
  by (simp add: eq_p_def mod_eq_dvd_iff)

lemma eq_p_add: "eq_p a b \<Longrightarrow> eq_p c d \<Longrightarrow> eq_p (a + c) (b + d)"
  unfolding eq_p_def by (rule mod_add_cong)

lemma eq_p_diff: "eq_p a b \<Longrightarrow> eq_p c d \<Longrightarrow> eq_p (a - c) (b - d)"
  unfolding eq_p_def by (rule mod_diff_cong)

lemma eq_p_mult: "eq_p a b \<Longrightarrow> eq_p c d \<Longrightarrow> eq_p (a * c) (b * d)"
  unfolding eq_p_def by (rule mod_mult_cong)

lemma eq_p_minus: "eq_p a b \<Longrightarrow> eq_p (- a) (- b)"
  using eq_p_diff [OF eq_p_refl [of 0]] by simp

lemma eq_p_power: "eq_p a b \<Longrightarrow> eq_p (a ^ n) (b ^ n)"
  by (induction n) (simp_all add: eq_p_mult)

lemmas eq_p_arith = eq_p_add eq_p_diff eq_p_mult eq_p_minus eq_p_power

lemma eq_p_cancel: "coprime c field_prime \<Longrightarrow> eq_p (c * a) (c * b) \<Longrightarrow> eq_p a b"
  by (simp only: eq_p_dvd right_diff_distrib [symmetric] coprime_commute [of c] coprime_dvd_mult_right_iff)

lemma eq_p_zero_coprime: "eq_p a 0 \<Longrightarrow> \<not> coprime a field_prime"
  using coprime_common_divisor [of a field_prime field_prime] by (auto simp: eq_p_dvd)

lemma eq_p_coprime:
  assumes "eq_p a b" "coprime a field_prime"
  shows "coprime b field_prime"
proof -
  have "gcd a field_prime = gcd b field_prime"
    using assms(1) unfolding eq_p_def gcd_red_int [of a] gcd_red_int [of b] by (simp only:)
  then show ?thesis using assms(2) by (simp only: coprime_iff_gcd_eq_1)
qed

lemma coprime_2_prime: "coprime 2 field_prime"
  by (simp add: coprime_right_2_iff_odd coprime_commute [of 2])

inductive ec_sum :: "point \<Rightarrow> point \<Rightarrow> point \<Rightarrow> bool" where
  left_infinity: "ec_sum None Q Q"
| right_infinity: "ec_sum P None P"
| chord: "coprime (x2 - x1) field_prime \<Longrightarrow> eq_p (s * (x2 - x1)) (y2 - y1) \<Longrightarrow>
    eq_p x3 (s\<^sup>2 - x1 - x2) \<Longrightarrow> eq_p y3 (s * (x1 - x3) - y1) \<Longrightarrow>
    ec_sum (Some (x1, y1)) (Some (x2, y2)) (Some (x3, y3))"
| tangent: "eq_p x1 x2 \<Longrightarrow> eq_p y1 y2 \<Longrightarrow> coprime (2 * y1) field_prime \<Longrightarrow> eq_p (s * (2 * y1)) (3 * x1\<^sup>2) \<Longrightarrow>
    eq_p x3 (s\<^sup>2 - 2 * x1) \<Longrightarrow> eq_p y3 (s * (x1 - x3) - y1) \<Longrightarrow>
    ec_sum (Some (x1, y1)) (Some (x2, y2)) (Some (x3, y3))"
| opposite: "eq_p x1 x2 \<Longrightarrow> eq_p (y1 + y2) 0 \<Longrightarrow> \<not> eq_p y1 y2 \<Longrightarrow>
    ec_sum (Some (x1, y1)) (Some (x2, y2)) None"

definition point_eq :: "point \<Rightarrow> point \<Rightarrow> bool" where
  "point_eq P Q = rel_option (rel_prod eq_p eq_p) P Q"

definition ec_neg :: "point \<Rightarrow> point" where
  "ec_neg P = map_option (\<lambda>(x, y). (x, - y)) P"

fun on_curve :: "point \<Rightarrow> bool" where
  "on_curve None \<longleftrightarrow> True"
| "on_curve (Some (x, y)) \<longleftrightarrow> eq_p (y\<^sup>2) (x ^ 3 + 7)"

lemma ec_sum_commute:
  assumes "ec_sum P Q R" shows "ec_sum Q P R"
  using assms
proof cases
  case (chord x2 x1 s y2 y1 x3 y3)
  have "coprime (x1 - x2) field_prime" using chord(4) by (metis coprime_minus_left_iff minus_diff_eq)
  moreover have "eq_p (s * (x1 - x2)) (y1 - y2)"
    using eq_p_minus [OF chord(5)] by (simp add: algebra_simps)
  moreover have "eq_p x3 (s\<^sup>2 - x2 - x1)" using chord(6) by (simp add: algebra_simps)
  moreover have "eq_p (s * (x1 - x3) - y1) (s * (x2 - x3) - y2)"
    using chord(5) by (simp add: eq_p_dvd algebra_simps) (metis dvd_minus_iff minus_diff_eq)
  ultimately show ?thesis unfolding chord(1-3) using chord(7) by (blast intro: ec_sum.chord eq_p_trans)
next
  case (tangent x1 x2 y1 y2 s x3 y3)
  have "coprime (2 * y2) field_prime" by (rule eq_p_coprime [OF eq_p_mult [OF eq_p_refl tangent(5)] tangent(6)])
  moreover have "eq_p (s * (2 * y2)) (3 * x2\<^sup>2)"
    by (rule eq_p_trans [OF _ eq_p_trans [OF tangent(7)]])
      (intro eq_p_arith eq_p_refl eq_p_sym [OF tangent(5)] tangent(4))+
  moreover have "eq_p x3 (s\<^sup>2 - 2 * x2)"
    by (rule eq_p_trans [OF tangent(8)]) (intro eq_p_arith eq_p_refl tangent(4))
  moreover have "eq_p y3 (s * (x2 - x3) - y2)"
    by (rule eq_p_trans [OF tangent(9)]) (intro eq_p_arith eq_p_refl tangent(4,5))
  ultimately show ?thesis unfolding tangent(1-3) using tangent(4,5) by (blast intro: ec_sum.tangent eq_p_sym)
next
  case (opposite x1 x2 y1 y2)
  then show ?thesis by (auto intro!: ec_sum.opposite simp: eq_p_sym add.commute)
qed (auto intro: ec_sum.intros)

text \<open>The line through the points meets the curve where a monic cubic vanishes.\<close>

lemma line_third_root:
  fixes s x1 x2 y1 c :: int
  assumes "coprime d field_prime" "d = x2 - x1"
    and "eq_p (y1\<^sup>2) (x1 ^ 3 + c)" "eq_p ((y1 + s * d)\<^sup>2) (x2 ^ 3 + c)" "x3 = s\<^sup>2 - x1 - x2"
  shows "eq_p ((s * (x1 - x3) - y1)\<^sup>2) (x3 ^ 3 + c)"
proof -
  define g where "g x = x\<^sup>2 + x * x1 + x1\<^sup>2 - s\<^sup>2 * (x - x1) - 2 * s * y1" for x
  have f: "x ^ 3 + c - (y1 + s * (x - x1))\<^sup>2 = (x - x1) * g x + (x1 ^ 3 + c - y1\<^sup>2)" for x
    unfolding g_def by algebra
  have "field_prime dvd d * g x2 + (x1 ^ 3 + c - y1\<^sup>2)"
    using assms(4) by (simp only: assms(2) f [symmetric] eq_p_dvd dvd_diff_commute)
  moreover have r1: "field_prime dvd x1 ^ 3 + c - y1\<^sup>2" using assms(3) by (simp only: eq_p_dvd dvd_diff_commute)
  ultimately have "field_prime dvd d * g x2" by (simp only: dvd_add_left_iff)
  then have "field_prime dvd g x2"
    using assms(1) by (simp only: coprime_commute [of d] coprime_dvd_mult_right_iff)
  moreover have "g x3 = g x2" unfolding g_def assms(5) by algebra
  ultimately have "field_prime dvd (x3 - x1) * g x3 + (x1 ^ 3 + c - y1\<^sup>2)" using r1 by simp
  then have "field_prime dvd x3 ^ 3 + c - (y1 + s * (x3 - x1))\<^sup>2" by (simp only: f)
  moreover have "(y1 + s * (x3 - x1))\<^sup>2 = (s * (x1 - x3) - y1)\<^sup>2" by algebra
  ultimately show ?thesis by (simp only: eq_p_dvd dvd_diff_commute)
qed

lemma tangent_third_root:
  fixes s x1 y1 c :: int
  assumes "eq_p (s * (2 * y1)) (3 * x1\<^sup>2)" "eq_p (y1\<^sup>2) (x1 ^ 3 + c)" "x3 = s\<^sup>2 - 2 * x1"
  shows "eq_p ((s * (x1 - x3) - y1)\<^sup>2) (x3 ^ 3 + c)"
proof -
  have "(s * (x1 - x3) - y1)\<^sup>2 - (x3 ^ 3 + c)
      = (y1\<^sup>2 - (x1 ^ 3 + c)) + (x3 - x1) * (s * (2 * y1) - 3 * x1\<^sup>2)"
    unfolding assms(3) by algebra
  then show ?thesis using assms(1,2) unfolding eq_p_dvd by (simp only: dvd_add dvd_mult)
qed

lemma ec_sum_on_curve:
  assumes "ec_sum P Q R" "on_curve P" "on_curve Q"
  shows "on_curve R"
  using assms(1)
proof cases
  case (chord x2 x1 s y2 y1 x3 y3)
  have c1: "eq_p (y1\<^sup>2) (x1 ^ 3 + 7)" and c2: "eq_p (y2\<^sup>2) (x2 ^ 3 + 7)"
    using assms(2,3) unfolding chord(1,2) by simp_all
  have "eq_p (y1 + s * (x2 - x1)) (y1 + (y2 - y1))" by (intro eq_p_arith eq_p_refl chord(5))
  then have "eq_p ((y1 + s * (x2 - x1))\<^sup>2) (x2 ^ 3 + 7)" using c2 by (auto intro: eq_p_trans eq_p_power)
  from line_third_root [OF chord(4) refl c1 this refl]
  have r: "eq_p ((s * (x1 - (s\<^sup>2 - x1 - x2)) - y1)\<^sup>2) ((s\<^sup>2 - x1 - x2) ^ 3 + 7)" .
  have "eq_p y3 (s * (x1 - (s\<^sup>2 - x1 - x2)) - y1)"
    by (rule eq_p_trans [OF chord(7)]) (intro eq_p_arith eq_p_refl chord(6))
  then have "eq_p (y3\<^sup>2) ((s\<^sup>2 - x1 - x2) ^ 3 + 7)" using r by (auto intro: eq_p_trans eq_p_power)
  moreover have "eq_p ((s\<^sup>2 - x1 - x2) ^ 3 + 7) (x3 ^ 3 + 7)"
    by (intro eq_p_arith eq_p_refl eq_p_sym [OF chord(6)])
  ultimately show ?thesis unfolding chord(3) by (auto intro: eq_p_trans)
next
  case (tangent x1 x2 y1 y2 s x3 y3)
  have c1: "eq_p (y1\<^sup>2) (x1 ^ 3 + 7)" using assms(2) unfolding tangent(1) by simp
  have r: "eq_p ((s * (x1 - (s\<^sup>2 - 2 * x1)) - y1)\<^sup>2) ((s\<^sup>2 - 2 * x1) ^ 3 + 7)"
    by (rule tangent_third_root [OF tangent(7) c1 refl])
  have "eq_p y3 (s * (x1 - (s\<^sup>2 - 2 * x1)) - y1)"
    by (rule eq_p_trans [OF tangent(9)]) (intro eq_p_arith eq_p_refl tangent(8))
  then have "eq_p (y3\<^sup>2) ((s\<^sup>2 - 2 * x1) ^ 3 + 7)" using r by (auto intro: eq_p_trans eq_p_power)
  moreover have "eq_p ((s\<^sup>2 - 2 * x1) ^ 3 + 7) (x3 ^ 3 + 7)"
    by (intro eq_p_arith eq_p_refl eq_p_sym [OF tangent(8)])
  ultimately show ?thesis unfolding tangent(3) by (auto intro: eq_p_trans)
qed (use assms(2,3) in auto)

end
