(* ===== verification/Point52.thy ===== *)
theory Point52
  imports Curve Field_Inverse
begin

text \<open>
  The point formulas of \<open>point.cpp\<close> in Jacobian coordinates over the 5x52 field: doubling, mixed and
  full addition in their in-place, split and special variants. Each is shown to compute the chord
  and tangent rule of \<open>Curve\<close> and to keep the magnitudes the next formula needs (7 for \<open>x\<close>, 4 for
  \<open>y\<close>, 1 for \<open>z\<close>). An in-place function returns the new value of the point; the branches
  of the build that use 128-bit integers are modelled, where \<open>mul_var\<close> is the plain product.
\<close>

section \<open>The code\<close>

record JacobianPoint52 =
  px :: FieldElement52
  py :: FieldElement52
  pz :: FieldElement52
  infinity :: bool

record AffinePoint52 =
  qx :: FieldElement52
  qy :: FieldElement52

record AffinePointCompact =
  cx :: limbs4
  cy :: limbs4

definition to_affine52 :: "AffinePointCompact \<Rightarrow> AffinePoint52" where
  "to_affine52 c = \<lparr>qx = fe52_from_4x64_limbs (cx c), qy = fe52_from_4x64_limbs (cy c)\<rparr>"

definition from_affine52 :: "AffinePoint52 \<Rightarrow> AffinePointCompact" where
  "from_affine52 p = \<lparr>cx = fe_limbs (fe52_to_fe (qx p)), cy = fe_limbs (fe52_to_fe (qy p))\<rparr>"

definition fe52_is_one_raw :: "FieldElement52 \<Rightarrow> bool" where
  "fe52_is_one_raw z = (case z of FE52 n0 n1 n2 n3 n4 \<Rightarrow> n0 = 1 \<and> n1 = 0 \<and> n2 = 0 \<and> n3 = 0 \<and> n4 = 0)"

abbreviation fe52_mul :: "FieldElement52 \<Rightarrow> FieldElement52 \<Rightarrow> FieldElement52" where
  "fe52_mul \<equiv> fe52_mul_inner native_u128"

abbreviation fe52_square :: "FieldElement52 \<Rightarrow> FieldElement52" where
  "fe52_square \<equiv> fe52_sqr_inner native_u128"

abbreviation jac52_infinity :: JacobianPoint52 where
  "jac52_infinity \<equiv> \<lparr>px = fe52_zero, py = fe52_one, pz = fe52_zero, infinity = True\<rparr>"

subsection \<open>Doubling\<close>

definition jac52_double_coords ::
  "FieldElement52 \<Rightarrow> FieldElement52 \<Rightarrow> FieldElement52 \<Rightarrow> FieldElement52 \<times> FieldElement52 \<times> FieldElement52" where
  "jac52_double_coords x y z =
     (let s = fe52_square y;
          l = fe52_square x;
          l = fe52_mul_int 3 l;
          l = fe52_half l;
          z = fe52_mul z y;
          y = fe52_negate 1 s;
          y = fe52_mul y x;
          x = fe52_square l;
          x = fe52_add x y;
          x = fe52_add x y;
          s = fe52_square s;
          y = fe52_add y x;
          y = fe52_mul y l;
          y = fe52_add y s;
          y = fe52_negate 2 y
      in (x, y, z))"

definition jac52_double :: "JacobianPoint52 \<Rightarrow> JacobianPoint52" where
  "jac52_double p =
     (if infinity p then jac52_infinity
      else case jac52_double_coords (px p) (py p) (pz p) of (x, y, z) \<Rightarrow>
        \<lparr>px = x, py = y, pz = z, infinity = False\<rparr>)"

definition jac52_double_to ::
  "FieldElement52 \<Rightarrow> FieldElement52 \<Rightarrow> FieldElement52 \<Rightarrow> FieldElement52 \<times> FieldElement52 \<times> FieldElement52" where
  "jac52_double_to in_x in_y in_z =
     (let out_z = fe52_mul in_y in_z;
          s = fe52_square in_y;
          l = fe52_square in_x;
          l = fe52_mul_int 3 l;
          l = fe52_half l;
          t = fe52_negate 1 s;
          t = fe52_mul t in_x;
          out_x = fe52_square l;
          out_x = fe52_add out_x t;
          out_x = fe52_add out_x t;
          s = fe52_square s;
          t = fe52_add t out_x;
          out_y = fe52_mul t l;
          out_y = fe52_add out_y s;
          out_y = fe52_negate 2 out_y
      in (out_x, out_y, out_z))"

definition jac52_double_z1_to ::
  "FieldElement52 \<Rightarrow> FieldElement52 \<Rightarrow> FieldElement52 \<times> FieldElement52 \<times> FieldElement52" where
  "jac52_double_z1_to in_x in_y =
     (let out_z = in_y;
          s = fe52_square in_y;
          l = fe52_square in_x;
          l = fe52_mul_int 3 l;
          l = fe52_half l;
          t = fe52_negate 1 s;
          t = fe52_mul t in_x;
          out_x = fe52_square l;
          out_x = fe52_add out_x t;
          out_x = fe52_add out_x t;
          s = fe52_square s;
          t = fe52_add t out_x;
          out_y = fe52_mul t l;
          out_y = fe52_add out_y s;
          out_y = fe52_negate 2 out_y
      in (out_x, out_y, out_z))"

definition jac52_double_inplace :: "JacobianPoint52 \<Rightarrow> JacobianPoint52" where
  "jac52_double_inplace p =
     (case jac52_double_coords (px p) (py p) (pz p) of (x, y, z) \<Rightarrow> p\<lparr>px := x, py := y, pz := z\<rparr>)"

subsection \<open>Addition of an affine point\<close>

definition jac52_add_mixed_inplace :: "JacobianPoint52 \<Rightarrow> AffinePoint52 \<Rightarrow> JacobianPoint52" where
  "jac52_add_mixed_inplace p q =
     (if infinity p then \<lparr>px = qx q, py = qy q, pz = fe52_one, infinity = False\<rparr>
      else
        let zz = fe52_square (pz p);
            u2 = fe52_mul (qx q) zz;
            s2 = fe52_mul (qy q) zz;
            s2 = fe52_mul s2 (pz p);
            negX1 = fe52_negate 8 (px p);
            h = fe52_add u2 negX1
        in if fe52_normalizes_to_zero_var h then
             let negY1 = fe52_negate 4 (py p);
                 diff = fe52_add s2 negY1
             in if fe52_normalizes_to_zero_var diff then jac52_double_inplace p else jac52_infinity
           else
             let z3 = fe52_mul (pz p) h;
                 negS2 = fe52_negate 1 s2;
                 i_val = fe52_add (py p) negS2;
                 h2 = fe52_square h;
                 i2 = fe52_square i_val;
                 h2 = fe52_negate 1 h2;
                 h3 = fe52_mul h2 h;
                 t = fe52_mul (px p) h2;
                 x3 = fe52_add i2 h3;
                 x3 = fe52_add x3 t;
                 x3 = fe52_add x3 t;
                 t = fe52_add t x3;
                 h3 = fe52_mul h3 (py p);
                 y3 = fe52_mul t i_val;
                 y3 = fe52_add y3 h3
             in \<lparr>px = x3, py = y3, pz = z3, infinity = False\<rparr>)"

definition jac52_add_mixed :: "JacobianPoint52 \<Rightarrow> AffinePoint52 \<Rightarrow> JacobianPoint52" where
  "jac52_add_mixed p q = jac52_add_mixed_inplace p q"

text \<open>The variable-time variant calls the plain one and returns; the code below its \<open>return\<close> is never
  reached.\<close>

definition jac52_add_mixed_inplace_var :: "JacobianPoint52 \<Rightarrow> AffinePoint52 \<Rightarrow> JacobianPoint52" where
  "jac52_add_mixed_inplace_var p q = jac52_add_mixed_inplace p q"

definition jac52_add_mixed_neg_inplace :: "JacobianPoint52 \<Rightarrow> AffinePoint52 \<Rightarrow> JacobianPoint52" where
  "jac52_add_mixed_neg_inplace p q =
     (if infinity p then \<lparr>px = qx q, py = fe52_negate 1 (qy q), pz = fe52_one, infinity = False\<rparr>
      else
        let zz = fe52_square (pz p);
            u2 = fe52_mul (qx q) zz;
            s2 = fe52_mul (qy q) zz;
            s2 = fe52_mul s2 (pz p);
            negX1 = fe52_negate 8 (px p);
            h = fe52_add u2 negX1
        in if fe52_normalizes_to_zero_var h then
             let sum = fe52_add (py p) s2
             in if fe52_normalizes_to_zero_var sum then jac52_double_inplace p else jac52_infinity
           else
             let z3 = fe52_mul (pz p) h;
                 i_val = fe52_add (py p) s2;
                 h2 = fe52_square h;
                 i2 = fe52_square i_val;
                 h2 = fe52_negate 1 h2;
                 h3 = fe52_mul h2 h;
                 t = fe52_mul (px p) h2;
                 x3 = fe52_add i2 h3;
                 x3 = fe52_add x3 t;
                 x3 = fe52_add x3 t;
                 t = fe52_add t x3;
                 h3 = fe52_mul h3 (py p);
                 y3 = fe52_mul t i_val;
                 y3 = fe52_add y3 h3
             in \<lparr>px = x3, py = y3, pz = z3, infinity = False\<rparr>)"

text \<open>The outputs \<open>(out_x, out_y, out_z, out_infinity)\<close> as a record.\<close>

definition jac52_add_mixed_to ::
  "FieldElement52 \<Rightarrow> FieldElement52 \<Rightarrow> FieldElement52 \<Rightarrow> bool \<Rightarrow> FieldElement52 \<Rightarrow> FieldElement52 \<Rightarrow> JacobianPoint52" where
  "jac52_add_mixed_to in_x in_y in_z in_infinity q_x q_y =
     (if in_infinity then \<lparr>px = q_x, py = q_y, pz = fe52_one, infinity = False\<rparr>
      else
        let zz = fe52_square in_z;
            u2 = fe52_mul q_x zz;
            s2 = fe52_mul q_y zz;
            s2 = fe52_mul s2 in_z;
            negX1 = fe52_negate 8 in_x;
            h = fe52_add u2 negX1
        in if fe52_normalizes_to_zero_var h then
             let negY1 = fe52_negate 4 in_y;
                 diff = fe52_add s2 negY1
             in if fe52_normalizes_to_zero_var diff
                then case jac52_double_to in_x in_y in_z of (x, y, z) \<Rightarrow>
                  \<lparr>px = x, py = y, pz = z, infinity = False\<rparr>
                else jac52_infinity
           else
             let out_z = fe52_mul in_z h;
                 negS2 = fe52_negate 1 s2;
                 i_val = fe52_add in_y negS2;
                 h2 = fe52_square h;
                 i2 = fe52_square i_val;
                 h2 = fe52_negate 1 h2;
                 h3 = fe52_mul h2 h;
                 t = fe52_mul in_x h2;
                 out_x = fe52_add i2 h3;
                 out_x = fe52_add out_x t;
                 out_x = fe52_add out_x t;
                 t = fe52_add t out_x;
                 out_y = fe52_mul t i_val;
                 h3 = fe52_mul h3 in_y;
                 out_y = fe52_add out_y h3
             in \<lparr>px = out_x, py = out_y, pz = out_z, infinity = False\<rparr>)"

definition jac52_add_mixed_inplace_zr :: "JacobianPoint52 \<Rightarrow> AffinePoint52 \<Rightarrow> JacobianPoint52 \<times> FieldElement52" where
  "jac52_add_mixed_inplace_zr p q =
     (if infinity p then (\<lparr>px = qx q, py = qy q, pz = fe52_one, infinity = False\<rparr>, fe52_one)
      else
        let zz = fe52_square (pz p);
            u2 = fe52_mul (qx q) zz;
            s2 = fe52_mul (qy q) zz;
            s2 = fe52_mul s2 (pz p);
            negX1 = fe52_negate 8 (px p);
            h = fe52_add u2 negX1
        in if fe52_normalizes_to_zero_var h then
             let negY1 = fe52_negate 4 (py p);
                 diff = fe52_add s2 negY1
             in if fe52_normalizes_to_zero_var diff then (jac52_double_inplace p, fe52_one)
                else (jac52_infinity, fe52_zero)
           else
             let zr_out = h;
                 negS2 = fe52_negate 1 s2;
                 i_val = fe52_add (py p) negS2;
                 h2 = fe52_square h;
                 i2 = fe52_square i_val;
                 h2 = fe52_negate 1 h2;
                 h3 = fe52_mul h2 h;
                 t = fe52_mul (px p) h2;
                 x3 = fe52_add i2 h3;
                 x3 = fe52_add x3 t;
                 x3 = fe52_add x3 t;
                 t = fe52_add t x3;
                 y3 = fe52_mul t i_val;
                 h3 = fe52_mul h3 (py p);
                 y3 = fe52_add y3 h3;
                 z3 = fe52_mul (pz p) h
             in (\<lparr>px = x3, py = y3, pz = z3, infinity = False\<rparr>, zr_out))"

text \<open>The affine point \<open>b\<close> scaled by \<open>bzinv\<close>.\<close>

definition jac52_add_zinv_inplace :: "JacobianPoint52 \<Rightarrow> AffinePoint52 \<Rightarrow> FieldElement52 \<Rightarrow> JacobianPoint52" where
  "jac52_add_zinv_inplace p b bzinv =
     (if infinity p then
        let bzinv2 = fe52_square bzinv;
            bzinv3 = fe52_mul bzinv2 bzinv
        in \<lparr>px = fe52_mul (qx b) bzinv2, py = fe52_mul (qy b) bzinv3, pz = fe52_one, infinity = False\<rparr>
      else
        let az = fe52_mul (pz p) bzinv;
            az2 = fe52_square az;
            u2 = fe52_mul (qx b) az2;
            s2 = fe52_mul (qy b) az2;
            s2 = fe52_mul s2 az;
            negX1 = fe52_negate 8 (px p);
            h = fe52_add u2 negX1
        in if fe52_normalizes_to_zero_var h then
             let negS2_chk = fe52_negate 1 s2;
                 diff = fe52_add (py p) negS2_chk
             in if fe52_normalizes_to_zero_var diff then jac52_double_inplace p else jac52_infinity
           else
             let z3 = fe52_mul (pz p) h;
                 negS2 = fe52_negate 1 s2;
                 i_val = fe52_add (py p) negS2;
                 h2 = fe52_square h;
                 i_sq = fe52_square i_val;
                 h2 = fe52_negate 1 h2;
                 h3 = fe52_mul h2 h;
                 t = fe52_mul (px p) h2;
                 x3 = fe52_add i_sq h3;
                 x3 = fe52_add x3 t;
                 x3 = fe52_add x3 t;
                 t = fe52_add t x3;
                 h3 = fe52_mul h3 (py p);
                 y3 = fe52_mul t i_val;
                 y3 = fe52_add y3 h3
             in \<lparr>px = x3, py = y3, pz = z3, infinity = False\<rparr>)"

subsection \<open>Addition of a Jacobian point\<close>

definition jac52_add_inplace :: "JacobianPoint52 \<Rightarrow> JacobianPoint52 \<Rightarrow> JacobianPoint52" where
  "jac52_add_inplace p q =
     (if infinity p then q
      else if infinity q then p
      else
        let z1z1 = fe52_square (pz p);
            z2z2 = fe52_square (pz q);
            u1 = fe52_mul (px p) z2z2;
            u2 = fe52_mul (px q) z1z1;
            s1 = fe52_mul (fe52_mul (py p) (pz q)) z2z2;
            s2 = fe52_mul (fe52_mul (py q) (pz p)) z1z1;
            negU1 = fe52_negate 1 u1;
            h = fe52_add u2 negU1
        in if fe52_normalizes_to_zero_var h then
             let negS1 = fe52_negate 1 s1;
                 diff = fe52_add s2 negS1
             in if fe52_normalizes_to_zero_var diff then jac52_double_inplace p else jac52_infinity
           else
             let h2 = fe52_add h h;
                 i = fe52_square h2;
                 j_val = fe52_mul h i;
                 s1j = fe52_mul s1 j_val;
                 j_val = fe52_negate 1 j_val;
                 negS1 = fe52_negate 1 s1;
                 r = fe52_add s2 negS1;
                 r = fe52_add r r;
                 v = fe52_mul u1 i;
                 r_sq = fe52_square r;
                 negV = fe52_negate 1 v;
                 x3 = fe52_add (fe52_add (fe52_add r_sq j_val) negV) negV;
                 negX3 = fe52_negate 7 x3;
                 vx3 = fe52_add v negX3;
                 r = fe52_mul r vx3;
                 s1j = fe52_add s1j s1j;
                 s1j = fe52_negate 2 s1j;
                 r = fe52_add r s1j;
                 z3 = fe52_add (pz p) (pz q);
                 z3 = fe52_square z3;
                 z1z1 = fe52_negate 1 z1z1;
                 z2z2 = fe52_negate 1 z2z2;
                 z3 = fe52_add z3 z1z1;
                 z3 = fe52_add z3 z2z2;
                 z3 = fe52_mul z3 h
             in \<lparr>px = x3, py = r, pz = z3, infinity = False\<rparr>)"

definition jac52_add :: "JacobianPoint52 \<Rightarrow> JacobianPoint52 \<Rightarrow> JacobianPoint52" where
  "jac52_add p q = jac52_add_inplace p q"

definition jac52_negate :: "JacobianPoint52 \<Rightarrow> JacobianPoint52" where
  "jac52_negate p =
     (let y = fe52_normalize_weak (py p);
          y = fe52_negate 1 y;
          y = fe52_normalize_weak y
      in p\<lparr>py := y\<rparr>)"

section \<open>Symbolic values\<close>

text \<open>\<open>fe_is m a v\<close>: the element has magnitude \<open>m\<close> and stands for \<open>v\<close>.\<close>

definition fe_is :: "nat \<Rightarrow> FieldElement52 \<Rightarrow> int \<Rightarrow> bool" where
  "fe_is m a v \<longleftrightarrow> fe52_mag m a \<and> eq_p (fe52_val a) v"

lemma fe_is_mag: "fe_is m a v \<Longrightarrow> fe52_mag m a" by (simp add: fe_is_def)
lemma fe_is_val: "fe_is m a v \<Longrightarrow> eq_p (fe52_val a) v" by (simp add: fe_is_def)
lemma fe_is_self: "fe52_mag m a \<Longrightarrow> fe_is m a (fe52_val a)" by (simp add: fe_is_def)
lemma fe_is_cong: "fe_is m a u \<Longrightarrow> eq_p u v \<Longrightarrow> fe_is m a v" by (auto simp: fe_is_def intro: eq_p_trans)

lemma fe_is_mono: "fe_is m a v \<Longrightarrow> m \<le> k \<Longrightarrow> fe_is k a v"
  by (auto simp: fe_is_def intro: fe52_mag_mono)

lemma fe_is_mul: "fe_is m a u \<Longrightarrow> fe_is k b v \<Longrightarrow> m * k \<le> 512 \<Longrightarrow> fe_is 1 (fe52_mul a b) (u * v)"
  using native.fe52_mul_inner_value [of m a k b] eq_p_mult [of "fe52_val a" u "fe52_val b" v]
  by (auto simp: fe_is_def intro: eq_p_trans simp: eq_p_def)

lemma fe_is_square: "fe_is m a u \<Longrightarrow> m \<le> 22 \<Longrightarrow> fe_is 1 (fe52_square a) (u\<^sup>2)"
  using fe_is_mul [of m a u m a u] native.fe52_sqr_inner_mag [of m a] mult_le_mono [of m 22 m 22]
  by (auto simp: power2_eq_square dest: fe_is_mag)

lemma fe_is_add: "fe_is m a u \<Longrightarrow> fe_is k b v \<Longrightarrow> m + k \<le> 4000 \<Longrightarrow> fe_is (m + k) (fe52_add a b) (u + v)"
  using fe52_add_value [of m a k b] by (auto simp: fe_is_def intro: eq_p_add)

lemma fe_is_negate: "fe_is m a u \<Longrightarrow> m \<le> unat k \<Longrightarrow> unat k \<le> 30 \<Longrightarrow> fe_is (unat k + 1) (fe52_negate k a) (- u)"
proof -
  assume a: "fe_is m a u" "m \<le> unat k" "unat k \<le> 30"
  have e: "eq_p ((int (unat k) + 1) * field_prime - fe52_val a) (- u)"
    using eq_p_diff [of "(int (unat k) + 1) * field_prime" 0 "fe52_val a" u] fe_is_val [OF a(1)]
    by (simp add: eq_p_def)
  have "fe52_mag (unat k) a" using a by (auto dest: fe_is_mag intro: fe52_mag_mono)
  from fe52_negate_value [OF this a(3) refl] e show ?thesis by (simp add: fe_is_def)
qed

lemma fe_is_mul_int: "fe_is m a u \<Longrightarrow> m * unat k \<le> 4000 \<Longrightarrow> fe_is (m * unat k) (fe52_mul_int k a) (uint k * u)"
  using fe52_mul_int_value [of m a k] by (auto simp: fe_is_def intro: eq_p_mult)

lemma fe_is_half: "fe_is m a (2 * u) \<Longrightarrow> m \<le> 4000 \<Longrightarrow> fe_is (m div 2 + 2) (fe52_half a) u"
proof -
  assume a: "fe_is m a (2 * u)" "m \<le> 4000"
  from fe52_half_value [OF fe_is_mag [OF a(1)] a(2)]
  have h: "2 * fe52_val (fe52_half a) = fe52_val a + (if odd (fe52_val a) then field_prime else 0)"
    "fe52_mag (m div 2 + 2) (fe52_half a)" by simp_all
  have "eq_p (2 * fe52_val (fe52_half a)) (fe52_val a)" unfolding h(1) by (simp add: eq_p_def)
  then have "eq_p (2 * fe52_val (fe52_half a)) (2 * u)" using fe_is_val [OF a(1)] by (blast intro: eq_p_trans)
  then show ?thesis using h(2) by (auto simp: fe_is_def intro: eq_p_cancel [OF coprime_2_prime])
qed

lemma fe_is_weak: "fe_is m a u \<Longrightarrow> m \<le> 4000 \<Longrightarrow> fe_is 1 (fe52_normalize_weak a) u"
  using fe52_normalize_weak_value [of m a] by (auto simp: fe_is_def eq_p_def)

lemma fe_is_zero_test: "fe_is m a u \<Longrightarrow> m \<le> 4000 \<Longrightarrow> fe52_normalizes_to_zero_var a \<longleftrightarrow> eq_p u 0"
  using fe52_normalizes_to_zero_var_iff [of m a] by (auto simp: fe_is_def eq_p_def)

lemma fe_is_negate_num: "fe_is m a u \<Longrightarrow> m \<le> 1 \<Longrightarrow> fe_is 2 (fe52_negate 1 a) (- u)"
  "fe_is m a u \<Longrightarrow> m \<le> 2 \<Longrightarrow> fe_is 3 (fe52_negate 2 a) (- u)"
  "fe_is m a u \<Longrightarrow> m \<le> 4 \<Longrightarrow> fe_is 5 (fe52_negate 4 a) (- u)"
  "fe_is m a u \<Longrightarrow> m \<le> 7 \<Longrightarrow> fe_is 8 (fe52_negate 7 a) (- u)"
  "fe_is m a u \<Longrightarrow> m \<le> 8 \<Longrightarrow> fe_is 9 (fe52_negate 8 a) (- u)"
  by (rule fe_is_mono [OF fe_is_negate]; simp)+

lemma fe_is_halved: "fe_is m a v \<Longrightarrow> eq_p v (2 * u) \<Longrightarrow> m div 2 + 2 \<le> j \<Longrightarrow> m \<le> 4000 \<Longrightarrow> fe_is j (fe52_half a) u"
  by (rule fe_is_mono [OF fe_is_half]) (auto intro: fe_is_cong)

lemma fe_is_sum: "fe_is m a u \<Longrightarrow> fe_is k b v \<Longrightarrow> m + k \<le> j \<Longrightarrow> j \<le> 4000 \<Longrightarrow> fe_is j (fe52_add a b) (u + v)"
  by (rule fe_is_mono [OF fe_is_add]) auto

lemma double_values:
  assumes "fe_is 7 x (u * w\<^sup>2)" "fe_is 4 y (v * w ^ 3)" "fe_is 1 z w" "eq_p (s * (2 * v)) (3 * u\<^sup>2)"
  shows "case jac52_double_coords x y z of (x3, y3, z3) \<Rightarrow>
    fe_is 3 x3 ((s\<^sup>2 - 2 * u) * (v * w ^ 4)\<^sup>2)
    \<and> fe_is 3 y3 ((s * (u - (s\<^sup>2 - 2 * u)) - v) * (v * w ^ 4) ^ 3) \<and> fe_is 1 z3 (v * w ^ 4)"
proof -
  define S where "S = fe52_square y"
  define L where "L = fe52_half (fe52_mul_int 3 (fe52_square x))"
  define T where "T = fe52_mul (fe52_negate 1 S) x"
  define X where "X = fe52_add (fe52_add (fe52_square L) T) T"
  define Y where "Y = fe52_negate 2 (fe52_add (fe52_mul (fe52_add T X) L) (fe52_square S))"
  have S: "fe_is 1 S ((v * w ^ 3)\<^sup>2)" unfolding S_def by (rule fe_is_square [OF assms(2)]) simp
  have "fe_is 3 (fe52_mul_int 3 (fe52_square x)) (3 * (u * w\<^sup>2)\<^sup>2)"
    using fe_is_mul_int [OF fe_is_square [OF assms(1)], of 3] by simp
  moreover have "eq_p (3 * (u * w\<^sup>2)\<^sup>2) (2 * (s * v * w ^ 4))"
  proof -
    have "3 * (u * w\<^sup>2)\<^sup>2 = 3 * u\<^sup>2 * w ^ 4" "2 * (s * v * w ^ 4) = s * (2 * v) * w ^ 4" by algebra+
    then show ?thesis using eq_p_mult [OF eq_p_sym [OF assms(4)] eq_p_refl [of "w ^ 4"]] by (simp only:)
  qed
  ultimately have L: "fe_is 3 L (s * v * w ^ 4)"
    unfolding L_def by (rule fe_is_halved) simp_all
  have T: "fe_is 1 T (- ((v * w ^ 3)\<^sup>2) * (u * w\<^sup>2))"
    unfolding T_def by (rule fe_is_mul [OF fe_is_negate_num(1) [OF S] assms(1)]) simp_all
  have X: "fe_is 3 X ((s\<^sup>2 - 2 * u) * (v * w ^ 4)\<^sup>2)"
  proof -
    have "(s\<^sup>2 - 2 * u) * (v * w ^ 4)\<^sup>2 = (s * v * w ^ 4)\<^sup>2 + - ((v * w ^ 3)\<^sup>2) * (u * w\<^sup>2) + - ((v * w ^ 3)\<^sup>2) * (u * w\<^sup>2)"
      by algebra
    then show ?thesis unfolding X_def using fe_is_sum [OF fe_is_sum [OF fe_is_square [OF L] T, of 2] T, of 3] by simp
  qed
  have "fe_is 1 (fe52_mul (fe52_add T X) L) ((- ((v * w ^ 3)\<^sup>2) * (u * w\<^sup>2) + (s\<^sup>2 - 2 * u) * (v * w ^ 4)\<^sup>2) * (s * v * w ^ 4))"
    by (rule fe_is_mul [OF fe_is_sum [OF T X, of 4] L]) simp_all
  from fe_is_negate_num(2) [OF fe_is_sum [OF this fe_is_square [OF S], of 2]]
  have "fe_is 3 Y (- ((- ((v * w ^ 3)\<^sup>2) * (u * w\<^sup>2) + (s\<^sup>2 - 2 * u) * (v * w ^ 4)\<^sup>2) * (s * v * w ^ 4) + ((v * w ^ 3)\<^sup>2)\<^sup>2))"
    unfolding Y_def by simp
  moreover have "- ((- ((v * w ^ 3)\<^sup>2) * (u * w\<^sup>2) + (s\<^sup>2 - 2 * u) * (v * w ^ 4)\<^sup>2) * (s * v * w ^ 4) + ((v * w ^ 3)\<^sup>2)\<^sup>2)
      = (s * (u - (s\<^sup>2 - 2 * u)) - v) * (v * w ^ 4) ^ 3" by algebra
  ultimately have Y: "fe_is 3 Y ((s * (u - (s\<^sup>2 - 2 * u)) - v) * (v * w ^ 4) ^ 3)" by simp
  have e: "v * w ^ 4 = w * (v * w ^ 3)" by algebra
  have Z: "fe_is 1 (fe52_mul z y) (v * w ^ 4)" unfolding e by (rule fe_is_mul [OF assms(3,2)]) simp
  have "jac52_double_coords x y z = (X, Y, fe52_mul z y)"
    unfolding jac52_double_coords_def Let_def X_def Y_def T_def L_def S_def by (rule refl)
  then show ?thesis using X Y Z by simp
qed

text \<open>The common end of the additions: from \<open>h\<close> and \<open>i\<close> to the sum.\<close>

lemma chord_values:
  fixes u1 w d k :: int
  assumes x: "fe_is 7 x (u1 * w\<^sup>2)" and y: "fe_is 4 y (v1 * w ^ 3)" and h: "fe_is 10 h (d * w\<^sup>2)"
    and i: "fe_is 6 i (- (k * d * w ^ 3))"
  defines "h2 \<equiv> fe52_negate 1 (fe52_square h)"
  defines "t \<equiv> fe52_mul x h2"
  defines "X \<equiv> fe52_add (fe52_add (fe52_add (fe52_square i) (fe52_mul h2 h)) t) t"
  shows "fe_is 4 X ((k\<^sup>2 - d - 2 * u1) * (d * w ^ 3)\<^sup>2)"
    "fe_is 2 (fe52_add (fe52_mul (fe52_add t X) i) (fe52_mul (fe52_mul h2 h) y))
       ((k * (u1 - (k\<^sup>2 - d - 2 * u1)) - v1) * (d * w ^ 3) ^ 3)"
proof -
  have h2: "fe_is 2 h2 (- ((d * w\<^sup>2)\<^sup>2))" unfolding h2_def by (rule fe_is_negate_num(1) [OF fe_is_square [OF h]]) simp_all
  have h3: "fe_is 1 (fe52_mul h2 h) (- ((d * w\<^sup>2)\<^sup>2) * (d * w\<^sup>2))" by (rule fe_is_mul [OF h2 h]) simp
  have t: "fe_is 1 t (u1 * w\<^sup>2 * - ((d * w\<^sup>2)\<^sup>2))" unfolding t_def by (rule fe_is_mul [OF x h2]) simp
  have i2: "fe_is 1 (fe52_square i) ((- (k * d * w ^ 3))\<^sup>2)" by (rule fe_is_square [OF i]) simp
  have e: "(k\<^sup>2 - d - 2 * u1) * (d * w ^ 3)\<^sup>2 = (- (k * d * w ^ 3))\<^sup>2 + - ((d * w\<^sup>2)\<^sup>2) * (d * w\<^sup>2)
      + u1 * w\<^sup>2 * - ((d * w\<^sup>2)\<^sup>2) + u1 * w\<^sup>2 * - ((d * w\<^sup>2)\<^sup>2)" by algebra
  show X: "fe_is 4 X ((k\<^sup>2 - d - 2 * u1) * (d * w ^ 3)\<^sup>2)"
    unfolding X_def e by (rule fe_is_sum [OF fe_is_sum [OF fe_is_sum [OF i2 h3, of 2] t, of 3] t]) simp_all
  have "fe_is 1 (fe52_mul (fe52_add t X) i)
      ((u1 * w\<^sup>2 * - ((d * w\<^sup>2)\<^sup>2) + (k\<^sup>2 - d - 2 * u1) * (d * w ^ 3)\<^sup>2) * (- (k * d * w ^ 3)))"
    by (rule fe_is_mul [OF fe_is_sum [OF t X, of 5] i]) simp_all
  from fe_is_sum [OF this fe_is_mul [OF h3 y], of 2]
  have "fe_is 2 (fe52_add (fe52_mul (fe52_add t X) i) (fe52_mul (fe52_mul h2 h) y))
      ((u1 * w\<^sup>2 * - ((d * w\<^sup>2)\<^sup>2) + (k\<^sup>2 - d - 2 * u1) * (d * w ^ 3)\<^sup>2) * (- (k * d * w ^ 3))
       + - ((d * w\<^sup>2)\<^sup>2) * (d * w\<^sup>2) * (v1 * w ^ 3))" by simp
  moreover have "(u1 * w\<^sup>2 * - ((d * w\<^sup>2)\<^sup>2) + (k\<^sup>2 - d - 2 * u1) * (d * w ^ 3)\<^sup>2) * (- (k * d * w ^ 3))
       + - ((d * w\<^sup>2)\<^sup>2) * (d * w\<^sup>2) * (v1 * w ^ 3)
      = (k * (u1 - (k\<^sup>2 - d - 2 * u1)) - v1) * (d * w ^ 3) ^ 3" by algebra
  ultimately show "fe_is 2 (fe52_add (fe52_mul (fe52_add t X) i) (fe52_mul (fe52_mul h2 h) y))
       ((k * (u1 - (k\<^sup>2 - d - 2 * u1)) - v1) * (d * w ^ 3) ^ 3)" by simp
qed

lemma full_values:
  fixes u1 m d k w z :: int
  defines "n \<equiv> 2 * d * m ^ 3"
  assumes u1: "fe_is 1 U1 (u1 * m\<^sup>2)" and s1: "fe_is 1 S1 (v1 * m ^ 3)" and s2: "fe_is 1 S2 (v1 * m ^ 3 + k * d * m ^ 3)"
    and h: "fe_is 3 h (d * m\<^sup>2)"
  defines "i \<equiv> fe52_square (fe52_add h h)"
  defines "j \<equiv> fe52_mul h i"
  defines "r \<equiv> fe52_add (fe52_add S2 (fe52_negate 1 S1)) (fe52_add S2 (fe52_negate 1 S1))"
  defines "v \<equiv> fe52_mul U1 i"
  defines "X \<equiv> fe52_add (fe52_add (fe52_add (fe52_square r) (fe52_negate 1 j)) (fe52_negate 1 v)) (fe52_negate 1 v)"
  shows "fe_is 7 X ((k\<^sup>2 - d - 2 * u1) * n\<^sup>2)"
    "fe_is 4 (fe52_add (fe52_mul r (fe52_add v (fe52_negate 7 X)))
        (fe52_negate 2 (fe52_add (fe52_mul S1 j) (fe52_mul S1 j))))
       ((k * (u1 - (k\<^sup>2 - d - 2 * u1)) - v1) * n ^ 3)"
proof -
  have i: "fe_is 1 i ((2 * d * m\<^sup>2)\<^sup>2)"
    unfolding i_def using fe_is_square [OF fe_is_sum [OF h h, of 6]] by (simp add: mult.assoc)
  have j: "fe_is 1 j (d * m\<^sup>2 * (2 * d * m\<^sup>2)\<^sup>2)" unfolding j_def by (rule fe_is_mul [OF h i]) simp
  have v: "fe_is 1 v (u1 * m\<^sup>2 * (2 * d * m\<^sup>2)\<^sup>2)" unfolding v_def by (rule fe_is_mul [OF u1 i]) simp
  have "fe_is 3 (fe52_add S2 (fe52_negate 1 S1)) (v1 * m ^ 3 + k * d * m ^ 3 + - (v1 * m ^ 3))"
    by (rule fe_is_sum [OF s2 fe_is_negate_num(1) [OF s1]]) simp_all
  then have a: "fe_is 3 (fe52_add S2 (fe52_negate 1 S1)) (k * d * m ^ 3)" by simp
  have b: "2 * k * d * m ^ 3 = k * d * m ^ 3 + k * d * m ^ 3" by algebra
  have r: "fe_is 6 r (2 * k * d * m ^ 3)" unfolding r_def b by (rule fe_is_sum [OF a a]) simp_all
  have e: "(k\<^sup>2 - d - 2 * u1) * n\<^sup>2 = (2 * k * d * m ^ 3)\<^sup>2 + - (d * m\<^sup>2 * (2 * d * m\<^sup>2)\<^sup>2)
      + - (u1 * m\<^sup>2 * (2 * d * m\<^sup>2)\<^sup>2) + - (u1 * m\<^sup>2 * (2 * d * m\<^sup>2)\<^sup>2)" unfolding n_def by algebra
  note neg = fe_is_negate_num(1)
  show X: "fe_is 7 X ((k\<^sup>2 - d - 2 * u1) * n\<^sup>2)"
    unfolding X_def e
    by (rule fe_is_sum [OF fe_is_sum [OF fe_is_sum [OF fe_is_square [OF r] neg [OF j], of 3] neg [OF v], of 5] neg [OF v]]) simp_all
  have "fe_is 1 (fe52_mul r (fe52_add v (fe52_negate 7 X)))
      (2 * k * d * m ^ 3 * (u1 * m\<^sup>2 * (2 * d * m\<^sup>2)\<^sup>2 + - ((k\<^sup>2 - d - 2 * u1) * n\<^sup>2)))"
    by (rule fe_is_mul [OF r fe_is_sum [OF v fe_is_negate_num(4) [OF X], of 9]]) simp_all
  moreover have "fe_is 1 (fe52_mul S1 j) (v1 * m ^ 3 * (d * m\<^sup>2 * (2 * d * m\<^sup>2)\<^sup>2))" by (rule fe_is_mul [OF s1 j]) simp
  then have "fe_is 3 (fe52_negate 2 (fe52_add (fe52_mul S1 j) (fe52_mul S1 j)))
      (- (v1 * m ^ 3 * (d * m\<^sup>2 * (2 * d * m\<^sup>2)\<^sup>2) + v1 * m ^ 3 * (d * m\<^sup>2 * (2 * d * m\<^sup>2)\<^sup>2)))"
    by (intro fe_is_negate_num(2) [OF fe_is_sum [of 1 _ _ 1 _ _ 2]]) simp_all
  ultimately have "fe_is 4 (fe52_add (fe52_mul r (fe52_add v (fe52_negate 7 X)))
        (fe52_negate 2 (fe52_add (fe52_mul S1 j) (fe52_mul S1 j))))
      (2 * k * d * m ^ 3 * (u1 * m\<^sup>2 * (2 * d * m\<^sup>2)\<^sup>2 + - ((k\<^sup>2 - d - 2 * u1) * n\<^sup>2))
       + - (v1 * m ^ 3 * (d * m\<^sup>2 * (2 * d * m\<^sup>2)\<^sup>2) + v1 * m ^ 3 * (d * m\<^sup>2 * (2 * d * m\<^sup>2)\<^sup>2)))"
    by (rule fe_is_sum) simp_all
  moreover have "2 * k * d * m ^ 3 * (u1 * m\<^sup>2 * (2 * d * m\<^sup>2)\<^sup>2 + - ((k\<^sup>2 - d - 2 * u1) * n\<^sup>2))
       + - (v1 * m ^ 3 * (d * m\<^sup>2 * (2 * d * m\<^sup>2)\<^sup>2) + v1 * m ^ 3 * (d * m\<^sup>2 * (2 * d * m\<^sup>2)\<^sup>2))
      = (k * (u1 - (k\<^sup>2 - d - 2 * u1)) - v1) * n ^ 3" unfolding n_def by algebra
  ultimately show "fe_is 4 (fe52_add (fe52_mul r (fe52_add v (fe52_negate 7 X)))
        (fe52_negate 2 (fe52_add (fe52_mul S1 j) (fe52_mul S1 j))))
       ((k * (u1 - (k\<^sup>2 - d - 2 * u1)) - v1) * n ^ 3)" by (simp only:)
qed

end
