(* ===== verification/Point_Law.thy ===== *)
theory Point_Law
  imports Point52
begin

text \<open>
  The point formulas compute the chord and tangent rule: \<open>jac\<close> relates a Jacobian point to the affine
  point it stands for, with the magnitudes the formulas rely on, and every operation of \<open>Point52\<close>
  takes related arguments to a related result.
\<close>

section \<open>Jacobian points\<close>

definition jac_is :: "FieldElement52 \<Rightarrow> FieldElement52 \<Rightarrow> FieldElement52 \<Rightarrow> int \<times> int \<Rightarrow> bool" where
  "jac_is X Y Z xy \<longleftrightarrow> coprime (fe52_val Z) field_prime \<and> fe52_mag 1 Z \<and>
     fe_is 7 X (fst xy * (fe52_val Z)\<^sup>2) \<and> fe_is 4 Y (snd xy * fe52_val Z ^ 3)"

definition jac :: "JacobianPoint52 \<Rightarrow> point \<Rightarrow> bool" where
  "jac P A = (case A of None \<Rightarrow> infinity P | Some xy \<Rightarrow> \<not> infinity P \<and> jac_is (px P) (py P) (pz P) xy)"

definition aff :: "AffinePoint52 \<Rightarrow> int \<times> int \<Rightarrow> bool" where
  "aff q xy \<longleftrightarrow> fe_is 7 (qx q) (fst xy) \<and> fe_is 4 (qy q) (snd xy)"

lemma jac_None [simp]: "jac P None = infinity P" by (simp add: jac_def)

lemma jac_Some: "jac P (Some xy) \<longleftrightarrow> \<not> infinity P \<and> jac_is (px P) (py P) (pz P) xy"
  by (simp add: jac_def)

lemma jac_isI:
  assumes "fe_is 7 X (x * n\<^sup>2)" "fe_is 4 Y (y * n ^ 3)" "fe_is 1 Z n" "coprime n field_prime"
    "eq_p x3 x" "eq_p y3 y"
  shows "jac_is X Y Z (x3, y3)"
proof -
  have n: "eq_p n (fe52_val Z)" using fe_is_val [OF assms(3)] by (rule eq_p_sym)
  have "eq_p (x * n\<^sup>2) (x3 * (fe52_val Z)\<^sup>2)" "eq_p (y * n ^ 3) (y3 * fe52_val Z ^ 3)"
    by (intro eq_p_mult eq_p_power n eq_p_sym [OF assms(5)] eq_p_sym [OF assms(6)])+
  then show ?thesis
    unfolding jac_is_def using assms eq_p_coprime [OF n assms(4)] by (auto intro: fe_is_cong fe_is_mag)
qed

lemma jac_isD:
  assumes "jac_is X Y Z (x, y)"
  shows "fe_is 7 X (x * (fe52_val Z)\<^sup>2)" "fe_is 4 Y (y * fe52_val Z ^ 3)" "fe_is 1 Z (fe52_val Z)"
    "coprime (fe52_val Z) field_prime"
  using assms by (simp_all add: jac_is_def fe_is_self)

lemma coprime_prod: "coprime (a * b) (c :: int) \<longleftrightarrow> coprime a c \<and> coprime b c"
  by simp

lemma double_jac:
  assumes "jac_is X Y Z (x1, y1)" "coprime (2 * y1) field_prime" "eq_p (s * (2 * y1)) (3 * x1\<^sup>2)"
    "eq_p x3 (s\<^sup>2 - 2 * x1)" "eq_p y3 (s * (x1 - x3) - y1)"
  shows "case jac52_double_coords X Y Z of (a, b, c) \<Rightarrow> jac_is a b c (x3, y3)"
    and "case jac52_double_to X Y Z of (a, b, c) \<Rightarrow> jac_is a b c (x3, y3)"
    and "eq_p (fe52_val Z) 1 \<Longrightarrow> fe52_mag 1 Y \<Longrightarrow> case jac52_double_z1_to X Y of (a, b, c) \<Rightarrow> jac_is a b c (x3, y3)"
proof -
  note D = jac_isD [OF assms(1)]
  define w where "w = fe52_val Z"
  obtain a b c where r: "jac52_double_coords X Y Z = (a, b, c)" by (cases "jac52_double_coords X Y Z")
  have v: "fe_is 3 a ((s\<^sup>2 - 2 * x1) * (y1 * w ^ 4)\<^sup>2)"
    "fe_is 3 b ((s * (x1 - (s\<^sup>2 - 2 * x1)) - y1) * (y1 * w ^ 4) ^ 3)" "fe_is 1 c (y1 * w ^ 4)"
    using double_values [OF D(1-3) assms(3)] unfolding r w_def by simp_all
  have ab: "fe_is 7 a ((s\<^sup>2 - 2 * x1) * (y1 * w ^ 4)\<^sup>2)"
    "fe_is 4 b ((s * (x1 - (s\<^sup>2 - 2 * x1)) - y1) * (y1 * w ^ 4) ^ 3)"
    using v(1,2) by (auto intro: fe_is_mono)
  have n: "coprime (y1 * w ^ 4) field_prime" using assms(2) D(4) unfolding w_def coprime_prod by simp
  have y3: "eq_p y3 (s * (x1 - (s\<^sup>2 - 2 * x1)) - y1)"
    by (rule eq_p_trans [OF assms(5)]) (intro eq_p_arith eq_p_refl assms(4))
  have I: "fe_is 1 z (y1 * w ^ 4) \<Longrightarrow> jac_is a b z (x3, y3)" for z
    by (rule jac_isI [OF ab _ n assms(4) y3])
  show "case jac52_double_coords X Y Z of (a, b, c) \<Rightarrow> jac_is a b c (x3, y3)" unfolding r using I [OF v(3)] by simp
  have "jac52_double_to X Y Z = (a, b, fe52_mul Y Z)"
    using r unfolding jac52_double_to_def jac52_double_coords_def Let_def by (auto simp only: prod.inject)
  moreover have e: "y1 * w ^ 4 = y1 * w ^ 3 * w" by algebra
  have "fe_is 1 (fe52_mul Y Z) (y1 * w ^ 4)" unfolding e by (rule fe_is_mul [OF D(2,3), folded w_def]) simp
  ultimately show "case jac52_double_to X Y Z of (a, b, c) \<Rightarrow> jac_is a b c (x3, y3)" using I by simp
  assume one: "eq_p (fe52_val Z) 1" "fe52_mag 1 Y"
  have "eq_p (w ^ k) 1" for k using eq_p_power [OF one(1), of k] by (simp add: w_def)
  then have "eq_p (y1 * w ^ 3) (y1 * w ^ 4)" by (intro eq_p_mult eq_p_refl) (blast intro: eq_p_trans eq_p_sym)
  then have "eq_p (fe52_val Y) (y1 * w ^ 4)" using fe_is_val [OF D(2)] by (auto simp: w_def intro: eq_p_trans)
  then have "fe_is 1 Y (y1 * w ^ 4)" using one(2) by (simp add: fe_is_def)
  moreover have "jac52_double_z1_to X Y = (a, b, Y)"
    using r unfolding jac52_double_z1_to_def jac52_double_coords_def Let_def by (auto simp only: prod.inject)
  ultimately show "case jac52_double_z1_to X Y of (a, b, c) \<Rightarrow> jac_is a b c (x3, y3)" using I by simp
qed

lemma mixed_inputs:
  assumes "jac_is X Y Z (x1, y1)" "fe_is 7 a x2" "fe_is 4 b y2"
  defines "w \<equiv> fe52_val Z"
  defines "u2 \<equiv> fe52_mul a (fe52_square Z)"
  defines "s2 \<equiv> fe52_mul (fe52_mul b (fe52_square Z)) Z"
  shows "fe_is 10 (fe52_add u2 (fe52_negate 8 X)) ((x2 - x1) * w\<^sup>2)" "fe_is 1 s2 (y2 * w ^ 3)"
proof -
  note D = jac_isD [OF assms(1), folded w_def]
  have zz: "fe_is 1 (fe52_square Z) (w\<^sup>2)" by (rule fe_is_square [OF D(3)]) simp
  have "fe_is 1 u2 (x2 * w\<^sup>2)" unfolding u2_def by (rule fe_is_mul [OF assms(2) zz]) simp
  moreover have "fe_is 9 (fe52_negate 8 X) (- (x1 * w\<^sup>2))" by (rule fe_is_negate_num(5) [OF D(1)]) simp
  ultimately have "fe_is 10 (fe52_add u2 (fe52_negate 8 X)) (x2 * w\<^sup>2 + - (x1 * w\<^sup>2))"
    by (rule fe_is_sum) simp_all
  then show "fe_is 10 (fe52_add u2 (fe52_negate 8 X)) ((x2 - x1) * w\<^sup>2)" by (simp add: left_diff_distrib)
  have "fe_is 1 s2 (y2 * w\<^sup>2 * w)"
    unfolding s2_def by (rule fe_is_mul [OF fe_is_mul [OF assms(3) zz] D(3)]) simp_all
  moreover have "y2 * w\<^sup>2 * w = y2 * w ^ 3" by algebra
  ultimately show "fe_is 1 s2 (y2 * w ^ 3)" by simp
qed


lemma mixed_chord:
  assumes J: "jac_is X Y Z (x1, y1)" and h: "fe_is 10 h ((x2 - x1) * (fe52_val Z)\<^sup>2)"
    and i: "fe_is 6 i (- (s * (x2 - x1) * fe52_val Z ^ 3))"
    and c: "coprime (x2 - x1) field_prime" "eq_p x3 (s\<^sup>2 - x1 - x2)" "eq_p y3 (s * (x1 - x3) - y1)"
  defines "h2 \<equiv> fe52_negate 1 (fe52_square h)"
  defines "t \<equiv> fe52_mul X h2"
  defines "X3 \<equiv> fe52_add (fe52_add (fe52_add (fe52_square i) (fe52_mul h2 h)) t) t"
  shows "jac_is X3 (fe52_add (fe52_mul (fe52_add t X3) i) (fe52_mul (fe52_mul h2 h) Y)) (fe52_mul Z h) (x3, y3)"
proof -
  define w d where w: "w = fe52_val Z" and d: "d = x2 - x1"
  note D = jac_isD [OF J, folded w]
  note V = chord_values [OF D(1,2) h [folded w d] i [folded w d], folded h2_def, folded t_def, folded X3_def]
  have e: "d * w ^ 3 = w * (d * w\<^sup>2)" by algebra
  have Z: "fe_is 1 (fe52_mul Z h) (d * w ^ 3)"
    unfolding e by (rule fe_is_mul [OF D(3) h [folded w d]]) simp
  have x: "eq_p x3 (s\<^sup>2 - d - 2 * x1)" using c(2) by (simp add: d algebra_simps)
  have y: "eq_p y3 (s * (x1 - (s\<^sup>2 - d - 2 * x1)) - y1)"
    by (rule eq_p_trans [OF c(3)]) (intro eq_p_arith eq_p_refl x)
  show ?thesis
    by (rule jac_isI [OF fe_is_mono [OF V(1)] fe_is_mono [OF V(2)] Z _ x y])
      (use c(1) D(4) in \<open>simp_all add: d coprime_prod\<close>)
qed

text \<open>What the branches of the mixed additions have to test, by the sum \<open>B\<close>.\<close>

lemma addition_tests:
  assumes w: "coprime w field_prime" and S: "ec_sum (Some (x1, y1)) (Some (x2, y2)) B"
    and h: "fe_is n h ((x2 - x1) * w\<^sup>2)" "n \<le> 4000"
    and t: "fe_is m t ((y2 - y1) * w ^ 3) \<or> fe_is m t ((y1 - y2) * w ^ 3)" "m \<le> 4000"
  obtains (chord) s x3 y3 where "B = Some (x3, y3)" "\<not> fe52_normalizes_to_zero_var h"
      "coprime (x2 - x1) field_prime" "eq_p (s * (x2 - x1)) (y2 - y1)"
      "eq_p x3 (s\<^sup>2 - x1 - x2)" "eq_p y3 (s * (x1 - x3) - y1)"
    | (tangent) s x3 y3 where "B = Some (x3, y3)" "fe52_normalizes_to_zero_var h" "fe52_normalizes_to_zero_var t"
      "coprime (2 * y1) field_prime" "eq_p (s * (2 * y1)) (3 * x1\<^sup>2)" "eq_p x3 (s\<^sup>2 - 2 * x1)" "eq_p y3 (s * (x1 - x3) - y1)"
    | (opposite) "B = None" "fe52_normalizes_to_zero_var h" "\<not> fe52_normalizes_to_zero_var t"
proof -
  have cancel: "eq_p (a * w ^ n) 0 \<longleftrightarrow> eq_p a 0" for a n
  proof -
    have "coprime (w ^ n) field_prime" using w by simp
    then show ?thesis using eq_p_cancel [of "w ^ n" a 0] eq_p_mult [of a 0 "w ^ n" "w ^ n"] by (auto simp: mult.commute)
  qed
  have hz: "fe52_normalizes_to_zero_var h \<longleftrightarrow> eq_p x1 x2"
    using fe_is_zero_test [OF h] cancel [of "x2 - x1" 2] by (auto simp: eq_p_dvd dvd_diff_commute)
  have tz: "fe52_normalizes_to_zero_var t \<longleftrightarrow> eq_p y1 y2"
    using t(1)
  proof
    assume "fe_is m t ((y2 - y1) * w ^ 3)"
    from fe_is_zero_test [OF this t(2)] cancel [of "y2 - y1" 3] show ?thesis
      by (auto simp: eq_p_dvd dvd_diff_commute)
  next
    assume "fe_is m t ((y1 - y2) * w ^ 3)"
    from fe_is_zero_test [OF this t(2)] cancel [of "y1 - y2" 3] show ?thesis by (auto simp: eq_p_dvd)
  qed
  show thesis using S
  proof cases
    case (chord s x3 y3)
    have "\<not> eq_p x1 x2"
    proof
      assume "eq_p x1 x2"
      then have "eq_p (x2 - x1) 0" by (auto simp: eq_p_dvd dvd_diff_commute)
      then show False using chord(2) eq_p_zero_coprime by blast
    qed
    then show ?thesis using chord that(1) hz by blast
  next
    case (tangent s x3 y3)
    then show ?thesis using that(2) hz tz by blast
  next
    case opposite
    then show ?thesis using that(3) hz tz by blast
  qed
qed


text \<open>The mixed additions differ in how they double and how they compute \<open>h\<close>, the difference that is
  tested and \<open>i\<close>.\<close>

definition mixed_branch ::
  "JacobianPoint52 \<Rightarrow> JacobianPoint52 \<Rightarrow> FieldElement52 \<Rightarrow> FieldElement52 \<Rightarrow> FieldElement52 \<Rightarrow> JacobianPoint52" where
  "mixed_branch p doubled h diff i =
     (if fe52_normalizes_to_zero_var h
      then if fe52_normalizes_to_zero_var diff then doubled else jac52_infinity
      else
        let h2 = fe52_negate 1 (fe52_square h);
            t = fe52_mul (px p) h2;
            X = fe52_add (fe52_add (fe52_add (fe52_square i) (fe52_mul h2 h)) t) t
        in \<lparr>px = X, py = fe52_add (fe52_mul (fe52_add t X) i) (fe52_mul (fe52_mul h2 h) (py p)),
            pz = fe52_mul (pz p) h, infinity = False\<rparr>)"

lemma jac_double_inplace:
  assumes "jac_is (px p) (py p) (pz p) (x1, y1)" "coprime (2 * y1) field_prime" "eq_p (s * (2 * y1)) (3 * x1\<^sup>2)"
    "eq_p x3 (s\<^sup>2 - 2 * x1)" "eq_p y3 (s * (x1 - x3) - y1)" "\<not> infinity p"
  shows "jac (jac52_double_inplace p) (Some (x3, y3))"
  using double_jac(1) [OF assms(1-5)] assms(6) by (auto simp: jac52_double_inplace_def jac_Some split: prod.splits)

lemma mixed_branch_jac:
  assumes J: "jac_is (px p) (py p) (pz p) (x1, y1)" "\<not> infinity p"
    and S: "ec_sum (Some (x1, y1)) (Some (x2, y2)) B"
    and h: "fe_is 10 h ((x2 - x1) * (fe52_val (pz p))\<^sup>2)"
    and t: "fe_is m t ((y2 - y1) * fe52_val (pz p) ^ 3) \<or> fe_is m t ((y1 - y2) * fe52_val (pz p) ^ 3)" "m \<le> 4000"
    and i: "fe_is 6 i ((y1 - y2) * fe52_val (pz p) ^ 3)"
    and D: "\<And>s x3 y3. coprime (2 * y1) field_prime \<Longrightarrow> eq_p (s * (2 * y1)) (3 * x1\<^sup>2) \<Longrightarrow>
      eq_p x3 (s\<^sup>2 - 2 * x1) \<Longrightarrow> eq_p y3 (s * (x1 - x3) - y1) \<Longrightarrow> jac doubled (Some (x3, y3))"
  shows "jac (mixed_branch p doubled h t i) B"
  using jac_isD(4) [OF J(1)] S h _ t
proof (rule addition_tests)
  fix s x3 y3
  assume B: "B = Some (x3, y3)" and c: "coprime (x2 - x1) field_prime" "eq_p (s * (x2 - x1)) (y2 - y1)"
    "eq_p x3 (s\<^sup>2 - x1 - x2)" "eq_p y3 (s * (x1 - x3) - y1)" and z: "\<not> fe52_normalizes_to_zero_var h"
  define w where "w = fe52_val (pz p)"
  have "eq_p ((y1 - y2) * w ^ 3) (- (s * (x2 - x1) * w ^ 3))"
    using eq_p_mult [OF eq_p_minus [OF eq_p_sym [OF c(2)]] eq_p_refl [of "w ^ 3"]] by (simp add: algebra_simps)
  then have "fe_is 6 i (- (s * (x2 - x1) * fe52_val (pz p) ^ 3))" unfolding w_def by (rule fe_is_cong [OF i])
  from mixed_chord [OF J(1) h this c(1,3,4)] z show "jac (mixed_branch p doubled h t i) B"
    by (simp add: B jac_Some mixed_branch_def Let_def)
next
  fix s x3 y3
  assume B: "B = Some (x3, y3)" and c: "coprime (2 * y1) field_prime" "eq_p (s * (2 * y1)) (3 * x1\<^sup>2)"
    "eq_p x3 (s\<^sup>2 - 2 * x1)" "eq_p y3 (s * (x1 - x3) - y1)"
    and z: "fe52_normalizes_to_zero_var h" "fe52_normalizes_to_zero_var t"
  show "jac (mixed_branch p doubled h t i) B" using D [OF c] z by (simp add: B mixed_branch_def)
next
  assume "B = None" "fe52_normalizes_to_zero_var h" "\<not> fe52_normalizes_to_zero_var t"
  then show "jac (mixed_branch p doubled h t i) B" by (simp add: mixed_branch_def)
qed simp_all

lemma one_is: "fe_is 1 fe52_one 1" "fe52_val fe52_one = 1"
  by (simp_all add: fe_is_def fe52_one_def)

lemma jac_affine: "fe_is 7 X x \<Longrightarrow> fe_is 4 Y y \<Longrightarrow> jac_is X Y fe52_one (x, y)"
  by (simp add: jac_is_def one_is) (simp add: fe52_one_def)

lemma ec_sum_None [simp]: "ec_sum None Q B \<longleftrightarrow> B = Q"
  by (auto elim: ec_sum.cases intro: left_infinity)

text \<open>The point to be added, and the two orders in which its ordinate is compared.\<close>

lemma i_values:
  assumes J: "jac_is X Y Z (x1, y1)" and s2: "fe_is 1 s2 (y2 * fe52_val Z ^ 3)"
  shows "fe_is 6 (fe52_add Y (fe52_negate 1 s2)) ((y1 - y2) * fe52_val Z ^ 3)"
    "fe_is 6 (fe52_add s2 (fe52_negate 4 Y)) ((y2 - y1) * fe52_val Z ^ 3)"
    "fe_is 6 (fe52_add Y s2) ((y1 - - y2) * fe52_val Z ^ 3)"
proof -
  note D = jac_isD [OF J]
  have "fe_is 6 (fe52_add Y (fe52_negate 1 s2)) (y1 * fe52_val Z ^ 3 + - (y2 * fe52_val Z ^ 3))"
    by (rule fe_is_sum [OF D(2) fe_is_negate_num(1) [OF s2]]) simp_all
  then show "fe_is 6 (fe52_add Y (fe52_negate 1 s2)) ((y1 - y2) * fe52_val Z ^ 3)" by (simp add: left_diff_distrib)
  have "fe_is 6 (fe52_add s2 (fe52_negate 4 Y)) (y2 * fe52_val Z ^ 3 + - (y1 * fe52_val Z ^ 3))"
    by (rule fe_is_sum [OF s2 fe_is_negate_num(3) [OF D(2)]]) simp_all
  then show "fe_is 6 (fe52_add s2 (fe52_negate 4 Y)) ((y2 - y1) * fe52_val Z ^ 3)" by (simp add: left_diff_distrib)
  have "fe_is 6 (fe52_add Y s2) (y1 * fe52_val Z ^ 3 + y2 * fe52_val Z ^ 3)"
    by (rule fe_is_sum [OF D(2) s2]) simp_all
  then show "fe_is 6 (fe52_add Y s2) ((y1 - - y2) * fe52_val Z ^ 3)" by (simp add: distrib_right)
qed

lemma jac_cases:
  assumes "jac p A"
  obtains "A = None" "infinity p"
    | x1 y1 where "A = Some (x1, y1)" "\<not> infinity p" "jac_is (px p) (py p) (pz p) (x1, y1)"
  using assms by (cases A) (auto simp: jac_Some)

lemma add_mixed_branch:
  fixes p :: JacobianPoint52 and q :: AffinePoint52
  assumes "\<not> infinity p"
  defines "s2 \<equiv> fe52_mul (fe52_mul (qy q) (fe52_square (pz p))) (pz p)"
  defines "h \<equiv> fe52_add (fe52_mul (qx q) (fe52_square (pz p))) (fe52_negate 8 (px p))"
  shows "jac52_add_mixed_inplace p q =
      mixed_branch p (jac52_double_inplace p) h (fe52_add s2 (fe52_negate 4 (py p))) (fe52_add (py p) (fe52_negate 1 s2))"
    "jac52_add_mixed_neg_inplace p q = mixed_branch p (jac52_double_inplace p) h (fe52_add (py p) s2) (fe52_add (py p) s2)"
  unfolding jac52_add_mixed_inplace_def jac52_add_mixed_neg_inplace_def mixed_branch_def Let_def s2_def h_def
  using assms(1) by simp_all

lemma add_mixed_jac:
  assumes J: "jac p A" and q: "aff q (x2, y2)"
  shows "ec_sum A (Some (x2, y2)) B \<Longrightarrow> jac (jac52_add_mixed_inplace p q) B"
    "fe52_mag 1 (qy q) \<Longrightarrow> ec_sum A (Some (x2, - y2)) B \<Longrightarrow> jac (jac52_add_mixed_neg_inplace p q) B"
  using J
proof (atomize (full), cases rule: jac_cases)
  case 1
  have "fe_is 4 (fe52_negate 1 (qy q)) (- y2)" if "fe52_mag 1 (qy q)"
  proof -
    have "fe_is 1 (qy q) y2" using q that by (simp add: aff_def fe_is_def)
    then show ?thesis using fe_is_mono [OF fe_is_negate_num(1)] by simp
  qed
  then show "(ec_sum A (Some (x2, y2)) B \<longrightarrow> jac (jac52_add_mixed_inplace p q) B) \<and>
    (fe52_mag 1 (qy q) \<longrightarrow> ec_sum A (Some (x2, - y2)) B \<longrightarrow> jac (jac52_add_mixed_neg_inplace p q) B)"
    using q 1 by (simp add: jac52_add_mixed_inplace_def jac52_add_mixed_neg_inplace_def jac_Some jac_affine aff_def)
next
  case (2 x1 y1)
  define s2 where "s2 = fe52_mul (fe52_mul (qy q) (fe52_square (pz p))) (pz p)"
  define h where "h = fe52_add (fe52_mul (qx q) (fe52_square (pz p))) (fe52_negate 8 (px p))"
  have I: "fe_is 10 h ((x2 - x1) * (fe52_val (pz p))\<^sup>2)" "fe_is 1 s2 (y2 * fe52_val (pz p) ^ 3)"
    using mixed_inputs [OF 2(3), of "qx q" x2 "qy q" y2] q by (simp_all add: aff_def s2_def h_def)
  note i = i_values [OF 2(3) I(2)]
  note D = jac_double_inplace [OF 2(3) _ _ _ _ 2(2)]
  note b = add_mixed_branch [OF 2(2), of q, folded s2_def h_def]
  show "(ec_sum A (Some (x2, y2)) B \<longrightarrow> jac (jac52_add_mixed_inplace p q) B) \<and>
    (fe52_mag 1 (qy q) \<longrightarrow> ec_sum A (Some (x2, - y2)) B \<longrightarrow> jac (jac52_add_mixed_neg_inplace p q) B)"
    unfolding b 2(1)
    using mixed_branch_jac [OF 2(3,2) _ I(1) disjI1 [OF i(2)] _ i(1) D]
      mixed_branch_jac [OF 2(3,2) _ I(1) disjI2 [OF i(3)] _ i(3) D] by simp
qed


lemma add_zinv_branch:
  fixes p :: JacobianPoint52 and b :: AffinePoint52 and bzinv :: FieldElement52
  assumes "\<not> infinity p"
  defines "az \<equiv> fe52_mul (pz p) bzinv"
  defines "s2 \<equiv> fe52_mul (fe52_mul (qy b) (fe52_square az)) az"
  defines "h \<equiv> fe52_add (fe52_mul (qx b) (fe52_square az)) (fe52_negate 8 (px p))"
  shows "jac52_add_zinv_inplace p b bzinv = mixed_branch p (jac52_double_inplace p) h
      (fe52_add (py p) (fe52_negate 1 s2)) (fe52_add (py p) (fe52_negate 1 s2))"
  unfolding jac52_add_zinv_inplace_def mixed_branch_def Let_def s2_def h_def az_def using assms(1) by simp

lemma add_zinv_jac:
  assumes J: "jac p A" and b: "aff b (x2, y2)" and v: "fe_is 1 bzinv v"
    and S: "ec_sum A (Some (x2 * v\<^sup>2, y2 * v ^ 3)) B"
  shows "jac (jac52_add_zinv_inplace p b bzinv) B"
  using J
proof (cases rule: jac_cases)
  case 1
  have v2: "fe_is 1 (fe52_square bzinv) (v\<^sup>2)" by (rule fe_is_square [OF v]) simp
  have e: "y2 * v ^ 3 = y2 * (v\<^sup>2 * v)" by algebra
  have "fe_is 1 (fe52_mul (qx b) (fe52_square bzinv)) (x2 * v\<^sup>2)"
    by (rule fe_is_mul [OF _ v2]) (use b in \<open>auto simp: aff_def\<close>)
  moreover have "fe_is 1 (fe52_mul (qy b) (fe52_mul (fe52_square bzinv) bzinv)) (y2 * v ^ 3)"
    unfolding e by (rule fe_is_mul [OF _ fe_is_mul [OF v2 v]]) (use b in \<open>auto simp: aff_def\<close>)
  ultimately show ?thesis using 1 S
    by (auto simp: jac52_add_zinv_inplace_def Let_def jac_Some intro!: jac_affine elim: fe_is_mono)
next
  case (2 x1 y1)
  define w where "w = fe52_val (pz p)"
  note X = jac_isD [OF 2(3), folded w_def]
  define az where "az = fe52_mul (pz p) bzinv"
  define s2 where "s2 = fe52_mul (fe52_mul (qy b) (fe52_square az)) az"
  define h where "h = fe52_add (fe52_mul (qx b) (fe52_square az)) (fe52_negate 8 (px p))"
  have az: "fe_is 1 az (w * v)" unfolding az_def by (rule fe_is_mul [OF X(3) v]) simp
  have az2: "fe_is 1 (fe52_square az) ((w * v)\<^sup>2)" by (rule fe_is_square [OF az]) simp
  have q: "fe_is 7 (qx b) x2" "fe_is 4 (qy b) y2" using b by (simp_all add: aff_def)
  have "fe_is 10 h (x2 * (w * v)\<^sup>2 + - (x1 * w\<^sup>2))"
    unfolding h_def by (rule fe_is_sum [OF fe_is_mul [OF q(1) az2] fe_is_negate_num(5) [OF X(1)]]) simp_all
  moreover have "x2 * (w * v)\<^sup>2 + - (x1 * w\<^sup>2) = (x2 * v\<^sup>2 - x1) * w\<^sup>2" by algebra
  ultimately have h: "fe_is 10 h ((x2 * v\<^sup>2 - x1) * (fe52_val (pz p))\<^sup>2)" by (simp add: w_def)
  have "fe_is 1 s2 (y2 * (w * v)\<^sup>2 * (w * v))"
    unfolding s2_def by (rule fe_is_mul [OF fe_is_mul [OF q(2) az2] az]) simp_all
  moreover have "y2 * (w * v)\<^sup>2 * (w * v) = y2 * v ^ 3 * w ^ 3" by algebra
  ultimately have s2: "fe_is 1 s2 (y2 * v ^ 3 * fe52_val (pz p) ^ 3)" by (simp only: w_def)
  note i = i_values [OF 2(3) s2]
  show ?thesis
    unfolding add_zinv_branch [OF 2(2), of b bzinv, folded az_def, folded s2_def h_def]
    by (rule mixed_branch_jac [OF 2(3,2) S [unfolded 2(1)] h disjI2 [OF i(1)] _ i(1) jac_double_inplace [OF 2(3) _ _ _ _ 2(2)]])
      simp_all
qed

lemma add_mixed_to_jac:
  assumes J: "jac p A" and q: "aff q (x2, y2)" and S: "ec_sum A (Some (x2, y2)) B"
  shows "jac (jac52_add_mixed_to (px p) (py p) (pz p) (infinity p) (qx q) (qy q)) B"
  using J
proof (cases rule: jac_cases)
  case 1
  then show ?thesis using S q by (simp add: jac52_add_mixed_to_def jac_Some jac_affine aff_def)
next
  case (2 x1 y1)
  define s2 where "s2 = fe52_mul (fe52_mul (qy q) (fe52_square (pz p))) (pz p)"
  define h where "h = fe52_add (fe52_mul (qx q) (fe52_square (pz p))) (fe52_negate 8 (px p))"
  define doubled where "doubled = (case jac52_double_to (px p) (py p) (pz p) of (x, y, z) \<Rightarrow>
    \<lparr>px = x, py = y, pz = z, infinity = False\<rparr>)"
  have I: "fe_is 10 h ((x2 - x1) * (fe52_val (pz p))\<^sup>2)" "fe_is 1 s2 (y2 * fe52_val (pz p) ^ 3)"
    using mixed_inputs [OF 2(3), of "qx q" x2 "qy q" y2] q by (simp_all add: aff_def s2_def h_def)
  note i = i_values [OF 2(3) I(2)]
  have "jac52_add_mixed_to (px p) (py p) (pz p) (infinity p) (qx q) (qy q)
    = mixed_branch p doubled h (fe52_add s2 (fe52_negate 4 (py p))) (fe52_add (py p) (fe52_negate 1 s2))"
    unfolding jac52_add_mixed_to_def mixed_branch_def Let_def s2_def h_def doubled_def using 2(2) by simp
  moreover have "jac doubled (Some (x3, y3))" if "coprime (2 * y1) field_prime" "eq_p (s * (2 * y1)) (3 * x1\<^sup>2)"
    "eq_p x3 (s\<^sup>2 - 2 * x1)" "eq_p y3 (s * (x1 - x3) - y1)" for s x3 y3
    using double_jac(2) [OF 2(3) that] by (auto simp: doubled_def jac_Some split: prod.splits)
  ultimately show ?thesis
    using mixed_branch_jac [OF 2(3,2) S [unfolded 2(1)] I(1) disjI1 [OF i(2)] _ i(1), of doubled] by simp
qed

lemma add_mixed_zr:
  "fst (jac52_add_mixed_inplace_zr p q) = jac52_add_mixed_inplace p q"
  by (simp add: jac52_add_mixed_inplace_zr_def jac52_add_mixed_inplace_def Let_def)

text \<open>The ratio of the \<open>z\<close> coordinates.\<close>

lemma zr_ratio:
  assumes J: "jac p A" and q: "aff q (x2, y2)"
  shows "\<forall>x1 y1. A = Some (x1, y1) \<and> \<not> eq_p x1 x2 \<longrightarrow>
    eq_p (fe52_val (pz (jac52_add_mixed_inplace p q))) (fe52_val (pz p) * fe52_val (snd (jac52_add_mixed_inplace_zr p q)))"
  using J
proof (cases rule: jac_cases)
  case (2 x1 y1)
  define h where "h = fe52_add (fe52_mul (qx q) (fe52_square (pz p))) (fe52_negate 8 (px p))"
  have h: "fe_is 10 h ((x2 - x1) * (fe52_val (pz p))\<^sup>2)"
    using mixed_inputs [OF 2(3), of "qx q" x2 "qy q" y2] q by (simp_all add: aff_def h_def)
  have "eq_p x1 x2" if "fe52_normalizes_to_zero_var h"
  proof -
    have "coprime ((fe52_val (pz p))\<^sup>2) field_prime" using jac_isD(4) [OF 2(3)] by simp
    moreover have "eq_p ((fe52_val (pz p))\<^sup>2 * (x2 - x1)) ((fe52_val (pz p))\<^sup>2 * 0)"
      using fe_is_zero_test [OF h] that by (simp add: mult.commute)
    ultimately have "eq_p (x2 - x1) 0" by (rule eq_p_cancel)
    then show ?thesis by (auto simp: eq_p_dvd dvd_diff_commute)
  qed
  moreover have "eq_p (fe52_val (fe52_mul (pz p) h)) (fe52_val (pz p) * fe52_val h)"
    by (rule fe_is_val [OF fe_is_mul [OF jac_isD(3) [OF 2(3)] fe_is_self [OF fe_is_mag [OF h]]]]) simp
  ultimately show ?thesis
    using 2(1,2) by (auto simp: jac52_add_mixed_inplace_def jac52_add_mixed_inplace_zr_def Let_def h_def)
qed simp

lemma full_inputs:
  assumes P: "jac_is X1 Y1 Z1 (x1, y1)" and Q: "jac_is X2 Y2 Z2 (x2, y2)"
  defines "m \<equiv> fe52_val Z1 * fe52_val Z2"
  defines "U1 \<equiv> fe52_mul X1 (fe52_square Z2)" and "U2 \<equiv> fe52_mul X2 (fe52_square Z1)"
  defines "S1 \<equiv> fe52_mul (fe52_mul Y1 Z2) (fe52_square Z2)" and "S2 \<equiv> fe52_mul (fe52_mul Y2 Z1) (fe52_square Z1)"
  shows "fe_is 1 U1 (x1 * m\<^sup>2)" "fe_is 1 S1 (y1 * m ^ 3)" "fe_is 1 S2 (y2 * m ^ 3)"
    "fe_is 3 (fe52_add U2 (fe52_negate 1 U1)) ((x2 - x1) * m\<^sup>2)"
    "fe_is 3 (fe52_add S2 (fe52_negate 1 S1)) ((y2 - y1) * m ^ 3)"
    "fe_is 5 (fe52_add (fe52_add (fe52_square (fe52_add Z1 Z2)) (fe52_negate 1 (fe52_square Z1))) (fe52_negate 1 (fe52_square Z2))) (2 * m)"
proof -
  define w z where w: "w = fe52_val Z1" and z: "z = fe52_val Z2"
  note D = jac_isD [OF P, folded w] note E = jac_isD [OF Q, folded z]
  have zz: "fe_is 1 (fe52_square Z1) (w\<^sup>2)" "fe_is 1 (fe52_square Z2) (z\<^sup>2)"
    by (rule fe_is_square [OF D(3)], simp) (rule fe_is_square [OF E(3)], simp)
  have m: "m = w * z" by (simp add: m_def w z)
  have e: "x1 * m\<^sup>2 = x1 * w\<^sup>2 * z\<^sup>2" "x2 * m\<^sup>2 = x2 * z\<^sup>2 * w\<^sup>2"
    "y1 * m ^ 3 = y1 * w ^ 3 * z * z\<^sup>2" "y2 * m ^ 3 = y2 * z ^ 3 * w * w\<^sup>2"
    "2 * m = (w + z)\<^sup>2 + - (w\<^sup>2) + - (z\<^sup>2)" unfolding m by algebra+
  show u1: "fe_is 1 U1 (x1 * m\<^sup>2)" unfolding U1_def e by (rule fe_is_mul [OF D(1) zz(2)]) simp
  have u2: "fe_is 1 U2 (x2 * m\<^sup>2)" unfolding U2_def e by (rule fe_is_mul [OF E(1) zz(1)]) simp
  show s1: "fe_is 1 S1 (y1 * m ^ 3)"
    unfolding S1_def e by (rule fe_is_mul [OF fe_is_mul [OF D(2) E(3)] zz(2)]) simp_all
  show s2: "fe_is 1 S2 (y2 * m ^ 3)"
    unfolding S2_def e by (rule fe_is_mul [OF fe_is_mul [OF E(2) D(3)] zz(1)]) simp_all
  have "fe_is 3 (fe52_add U2 (fe52_negate 1 U1)) (x2 * m\<^sup>2 + - (x1 * m\<^sup>2))"
    by (rule fe_is_sum [OF u2 fe_is_negate_num(1) [OF u1]]) simp_all
  then show "fe_is 3 (fe52_add U2 (fe52_negate 1 U1)) ((x2 - x1) * m\<^sup>2)" by (simp add: left_diff_distrib)
  have "fe_is 3 (fe52_add S2 (fe52_negate 1 S1)) (y2 * m ^ 3 + - (y1 * m ^ 3))"
    by (rule fe_is_sum [OF s2 fe_is_negate_num(1) [OF s1]]) simp_all
  then show "fe_is 3 (fe52_add S2 (fe52_negate 1 S1)) ((y2 - y1) * m ^ 3)" by (simp add: left_diff_distrib)
  have "fe_is 1 (fe52_square (fe52_add Z1 Z2)) ((w + z)\<^sup>2)"
    by (rule fe_is_square [OF fe_is_sum [OF D(3) E(3), of 2]]) simp_all
  then show "fe_is 5 (fe52_add (fe52_add (fe52_square (fe52_add Z1 Z2)) (fe52_negate 1 (fe52_square Z1)))
      (fe52_negate 1 (fe52_square Z2))) (2 * m)"
    unfolding e by (intro fe_is_sum [OF fe_is_sum [of 1 _ _ 2 _ _ 3] fe_is_negate_num(1) [OF zz(2)]]
        fe_is_negate_num(1) [OF zz(1)]) simp_all
qed

lemma add_jac:
  assumes P: "jac p A" and Q: "jac q B" and S: "ec_sum A B C"
  shows "jac (jac52_add_inplace p q) C"
  using P
proof (cases rule: jac_cases)
  case 1
  then show ?thesis using S Q by (simp add: jac52_add_inplace_def)
next
  case p: (2 x1 y1)
  show ?thesis using Q
  proof (cases rule: jac_cases)
    case 1
    then have "C = A" using S p(1) by (auto elim: ec_sum.cases)
    then show ?thesis using 1 p P by (simp add: jac52_add_inplace_def)
  next
    case q: (2 x2 y2)
    define m where "m = fe52_val (pz p) * fe52_val (pz q)"
    note I = full_inputs [OF p(3) q(3), folded m_def]
    have m: "coprime m field_prime" using jac_isD(4) [OF p(3)] jac_isD(4) [OF q(3)] by (simp add: m_def coprime_prod)
    from m S [unfolded p(1) q(1)] I(4) _ disjI1 [OF I(5)] _ show ?thesis
    proof (rule addition_tests)
      fix s x3 y3
      assume C: "C = Some (x3, y3)" and c: "coprime (x2 - x1) field_prime" "eq_p (s * (x2 - x1)) (y2 - y1)"
        "eq_p x3 (s\<^sup>2 - x1 - x2)" "eq_p y3 (s * (x1 - x3) - y1)"
        and z: "\<not> fe52_normalizes_to_zero_var (fe52_add (fe52_mul (px q) (fe52_square (pz p)))
          (fe52_negate 1 (fe52_mul (px p) (fe52_square (pz q)))))"
      define d where "d = x2 - x1"
      have "eq_p (y2 * m ^ 3) ((y1 + s * d) * m ^ 3)"
        using eq_p_add [OF eq_p_refl [of y1] c(2)] by (intro eq_p_mult eq_p_refl) (simp add: d_def eq_p_sym)
      then have "eq_p (y2 * m ^ 3) (y1 * m ^ 3 + s * d * m ^ 3)" by (simp only: distrib_right)
      note V = full_values [OF I(1,2) fe_is_cong [OF I(3) this] I(4) [folded d_def]]
      have x: "eq_p x3 (s\<^sup>2 - d - 2 * x1)" using c(3) by (simp add: d_def algebra_simps)
      have y: "eq_p y3 (s * (x1 - (s\<^sup>2 - d - 2 * x1)) - y1)"
        by (rule eq_p_trans [OF c(4)]) (intro eq_p_arith eq_p_refl x)
      have e: "2 * d * m ^ 3 = 2 * m * (d * m\<^sup>2)" by algebra
      have n: "coprime (2 * d * m ^ 3) field_prime"
        using c(1) m coprime_2_prime unfolding coprime_prod d_def [symmetric] by simp
      have Z: "fe_is 1 (fe52_mul (fe52_add (fe52_add (fe52_square (fe52_add (pz p) (pz q)))
          (fe52_negate 1 (fe52_square (pz p)))) (fe52_negate 1 (fe52_square (pz q))))
          (fe52_add (fe52_mul (px q) (fe52_square (pz p))) (fe52_negate 1 (fe52_mul (px p) (fe52_square (pz q))))))
          (2 * d * m ^ 3)"
        unfolding e by (rule fe_is_mul [OF I(6) I(4) [folded d_def]]) simp
      from jac_isI [OF V Z n x y] z p(2) q(2) show ?thesis
        by (simp add: C jac_Some jac52_add_inplace_def Let_def)
    next
      fix s x3 y3
      assume C: "C = Some (x3, y3)" and c: "coprime (2 * y1) field_prime" "eq_p (s * (2 * y1)) (3 * x1\<^sup>2)"
        "eq_p x3 (s\<^sup>2 - 2 * x1)" "eq_p y3 (s * (x1 - x3) - y1)"
        and z: "fe52_normalizes_to_zero_var (fe52_add (fe52_mul (px q) (fe52_square (pz p)))
          (fe52_negate 1 (fe52_mul (px p) (fe52_square (pz q)))))"
          "fe52_normalizes_to_zero_var (fe52_add (fe52_mul (fe52_mul (py q) (pz p)) (fe52_square (pz p)))
           (fe52_negate 1 (fe52_mul (fe52_mul (py p) (pz q)) (fe52_square (pz q)))))"
      show ?thesis using jac_double_inplace [OF p(3) c p(2)] z p(2) q(2)
        by (simp add: C jac52_add_inplace_def Let_def)
    qed (use p(2) q(2) in \<open>simp_all add: jac52_add_inplace_def Let_def\<close>)
  qed
qed

lemma negate_jac:
  assumes "jac p A"
  shows "jac (jac52_negate p) (ec_neg A)"
  using assms
proof (cases rule: jac_cases)
  case (2 x y)
  note D = jac_isD [OF 2(3)]
  have "fe_is 1 (fe52_normalize_weak (fe52_negate 1 (fe52_normalize_weak (py p)))) (- (y * fe52_val (pz p) ^ 3))"
    by (rule fe_is_weak [OF fe_is_negate_num(1) [OF fe_is_weak [OF D(2)]]]) simp_all
  then have "fe_is 4 (fe52_normalize_weak (fe52_negate 1 (fe52_normalize_weak (py p)))) (- y * fe52_val (pz p) ^ 3)"
    using fe_is_mono [of 1 _ _ 4] by simp
  then show ?thesis using 2 D by (simp add: jac52_negate_def jac_Some ec_neg_def jac_is_def Let_def fe_is_mag)
qed (simp add: jac52_negate_def ec_neg_def Let_def)

lemma double_inplace_jac:
  assumes "jac p A" "ec_sum A A B"
  shows "jac (jac52_double_inplace p) B \<and> jac (jac52_double p) B"
  using assms(1)
proof (cases rule: jac_cases)
  case 1
  then show ?thesis using assms(2)
    by (simp add: jac52_double_def jac52_double_inplace_def split: prod.split)
next
  case (2 x y)
  have z: "\<not> coprime (0 :: int) field_prime" by simp
  show ?thesis using assms(2) unfolding 2(1)
  proof cases
    case (tangent s x3 y3)
    from double_jac(1) [OF 2(3) tangent(4-7)] show ?thesis
      using 2(2) by (auto simp: tangent(1) jac52_double_def jac52_double_inplace_def jac_Some split: prod.splits)
  qed (use z in simp_all)
qed

section \<open>The operations refine the chord and tangent rule\<close>

text \<open>Points with small coordinates, for the applications of the theorems.\<close>

definition small_fe :: "u64 \<Rightarrow> FieldElement52" where
  "small_fe n = FE52 n 0 0 0 0"

lemma small_fe_is: "uint n \<le> 100 \<Longrightarrow> 1 \<le> m \<Longrightarrow> m \<le> 8 \<Longrightarrow> fe_is m (small_fe n) (uint n)"
proof (rule fe_is_mono [of 1])
  assume "uint n \<le> 100"
  then show "fe_is 1 (small_fe n) (uint n)" by (simp add: fe_is_def small_fe_def)
qed

definition jac_2_3 :: JacobianPoint52 where
  "jac_2_3 = \<lparr>px = small_fe 2, py = small_fe 3, pz = fe52_one, infinity = False\<rparr>"

lemma jac_2_3: "jac jac_2_3 (Some (2, 3))"
  using small_fe_is [of 2 7] small_fe_is [of 3 4] by (simp add: jac_2_3_def jac_Some jac_affine)

lemma coprime_6_prime: "coprime 6 field_prime"
proof -
  have "coprime (field_prime mod 6) 6" by simp
  then have "coprime field_prime 6" by (simp only: coprime_mod_left_iff)
  then show ?thesis by (simp only: coprime_commute [of 6])
qed

lemma sum_2_3: "ec_sum (Some (2, 3)) (Some (2, 3)) (Some (0, 1))"
  using coprime_6_prime by (intro ec_sum.tangent [where s = 2]) simp_all

lemma sum_2_3_0_1: "ec_sum (Some (2, 3)) (Some (0, 1)) (Some (- 1, 0))"
  using coprime_2_prime by (intro ec_sum.chord [where s = 1]) simp_all

text \<open>C7: Doubling in place, by value and into separate outputs computes the tangent rule; the variant for
  affine points does when \<open>z\<close> is one and the ordinate is reduced.\<close>
theorem jac52_double_spec:
  assumes "jac p A" "ec_sum A A B"
  shows "jac (jac52_double p) B \<and> jac (jac52_double_inplace p) B
    \<and> (\<not> infinity p \<longrightarrow> (case jac52_double_to (px p) (py p) (pz p) of (x, y, z) \<Rightarrow>
          jac \<lparr>px = x, py = y, pz = z, infinity = False\<rparr> B)
        \<and> (eq_p (fe52_val (pz p)) 1 \<and> fe52_mag 1 (py p) \<longrightarrow> (case jac52_double_z1_to (px p) (py p) of (x, y, z) \<Rightarrow>
          jac \<lparr>px = x, py = y, pz = z, infinity = False\<rparr> B)))"
  using assms(1)
proof (cases rule: jac_cases)
  case (2 x y)
  have z: "\<not> coprime (0 :: int) field_prime" by simp
  show ?thesis using assms(2) double_inplace_jac [OF assms] unfolding 2(1)
  proof cases
    case (tangent s x3 y3)
    show ?thesis
      using double_jac(2,3) [OF 2(3) tangent(4-7)] double_inplace_jac [OF assms] 2
      by (auto simp: tangent(1) jac_Some split: prod.splits)
  qed (use z in simp_all)
qed (use double_inplace_jac [OF assms] in simp)

theorem jac52_double_spec_witness:
  "jac (jac52_double jac_2_3) (Some (0, 1))"
  using jac52_double_spec [OF jac_2_3 sum_2_3] by simp

text \<open>C4: All seven variants of the mixed addition compute the chord and tangent rule: by value, in place,
  in place in variable time, into separate outputs, with the ratio of the \<open>z\<close> coordinates, of a
  negated point, and of a point scaled by \<open>bzinv\<close>. The ratio is the factor of \<open>z\<close> when the
  abscissas differ; for a doubling the code answers one, which is not that factor.\<close>
theorem jac52_add_mixed_spec:
  assumes "jac p A" "aff q (x, y)" "ec_sum A (Some (x, y)) B"
    and "fe52_mag 1 (qy q)" "ec_sum A (Some (x, - y)) C"
    and "fe_is 1 bzinv v" "ec_sum A (Some (x * v\<^sup>2, y * v ^ 3)) D"
  shows "jac (jac52_add_mixed_inplace p q) B \<and> jac (jac52_add_mixed p q) B
    \<and> jac (jac52_add_mixed_inplace_var p q) B
    \<and> jac (jac52_add_mixed_to (px p) (py p) (pz p) (infinity p) (qx q) (qy q)) B
    \<and> fst (jac52_add_mixed_inplace_zr p q) = jac52_add_mixed_inplace p q
    \<and> (\<forall>x1 y1. A = Some (x1, y1) \<and> \<not> eq_p x1 x \<longrightarrow>
        eq_p (fe52_val (pz (jac52_add_mixed_inplace p q))) (fe52_val (pz p) * fe52_val (snd (jac52_add_mixed_inplace_zr p q))))
    \<and> jac (jac52_add_mixed_neg_inplace p q) C
    \<and> jac (jac52_add_zinv_inplace p q bzinv) D"
  using add_mixed_jac(1) [OF assms(1-3)] add_mixed_jac(2) [OF assms(1,2,4,5)] add_mixed_to_jac [OF assms(1-3)]
    add_zinv_jac [OF assms(1,2,6,7)] add_mixed_zr [of p q] zr_ratio [OF assms(1,2)]
  by (simp add: jac52_add_mixed_def jac52_add_mixed_inplace_var_def)

theorem jac52_add_mixed_spec_witness:
  "jac (jac52_add_mixed jac_2_3 \<lparr>qx = small_fe 0, qy = fe52_one\<rparr>) (Some (- 1, 0))
    \<and> jac (jac52_add_mixed_neg_inplace jac_2_3 \<lparr>qx = small_fe 0, qy = fe52_one\<rparr>) (Some (2, - 3))"
proof -
  have q: "aff \<lparr>qx = small_fe 0, qy = fe52_one\<rparr> (0, 1)"
    using small_fe_is [of 0 7] fe_is_mono [OF one_is(1), of 4] by (simp add: aff_def)
  have neg: "ec_sum (Some (2, 3)) (Some (0, - 1)) (Some (2, - 3))"
    using coprime_2_prime by (intro ec_sum.chord [where s = 2]) simp_all
  from jac52_add_mixed_spec [OF jac_2_3 q sum_2_3_0_1 _ neg one_is(1)] sum_2_3_0_1 show ?thesis
    by (simp add: fe52_one_def)
qed

text \<open>C3: Full Jacobian addition computes the chord and tangent rule, equal and opposite points and the point
  at infinity included, negation the opposite point; sums of points of the curve are on the curve.\<close>
theorem jac52_add_spec:
  assumes "jac p A" "jac q B" "ec_sum A B C"
  shows "jac (jac52_add p q) C \<and> jac (jac52_add_inplace p q) C \<and> jac (jac52_negate p) (ec_neg A)
    \<and> (on_curve A \<and> on_curve B \<longrightarrow> on_curve C)"
  using add_jac [OF assms] negate_jac [OF assms(1)] ec_sum_on_curve [OF assms(3)] by (simp add: jac52_add_def)

theorem jac52_add_spec_witness:
  "jac (jac52_add jac_2_3 jac_2_3) (Some (0, 1)) \<and> jac (jac52_negate jac_2_3) (Some (2, - 3))"
  using jac52_add_spec [OF jac_2_3 jac_2_3 sum_2_3] by (simp add: ec_neg_def)

end
