(* ===== verification/Point_Class.thy ===== *)
theory Point_Class
  imports Point_Law
begin

text \<open>
  The class \<open>Point\<close> of \<open>point.cpp\<close>: construction, addition, doubling and negation in their value
  and in-place forms, normalisation and serialization, one by one and in batches with one inversion.
  The fields are those of the class: Jacobian coordinates over the 5x52 field, the flag of infinity,
  the mark of the generator and the claim that \<open>z\<close> is one. The product of the 4x64 field and the two
  inversions, which the build selects, are the record \<open>field_impl\<close>; \<open>field_impl_laws\<close> states what is
  relied on, and \<open>eea_field\<close> is an implementation for which it is proved.
\<close>

section \<open>The code\<close>

record field_impl =
  times4 :: "FieldElement \<Rightarrow> FieldElement \<Rightarrow> FieldElement"
  inverse4 :: "FieldElement \<Rightarrow> FieldElement"
  inverse52 :: "FieldElement52 \<Rightarrow> FieldElement52"

record Point =
  X52 :: FieldElement52
  Y52 :: FieldElement52
  Z52 :: FieldElement52
  is_infinity :: bool
  is_gen :: bool
  z_one :: bool

definition kGeneratorX :: FieldElement where
  "kGeneratorX = fe_from_bytes
     [0x79,0xBE,0x66,0x7E,0xF9,0xDC,0xBB,0xAC,0x55,0xA0,0x62,0x95,0xCE,0x87,0x0B,0x07,
      0x02,0x9B,0xFC,0xDB,0x2D,0xCE,0x28,0xD9,0x59,0xF2,0x81,0x5B,0x16,0xF8,0x17,0x98]"

definition kGeneratorY :: FieldElement where
  "kGeneratorY = fe_from_bytes
     [0x48,0x3A,0xDA,0x77,0x26,0xA3,0xC4,0x65,0x5D,0xA4,0xFB,0xFC,0x0E,0x11,0x08,0xA8,
      0xFD,0x17,0xB4,0x48,0xA6,0x85,0x54,0x19,0x9C,0x47,0xD0,0x8F,0xFB,0x10,0xD4,0xB8]"

definition kNegGeneratorY :: FieldElement where
  "kNegGeneratorY = fe_from_bytes
     [0xB7,0xC5,0x25,0x88,0xD9,0x5C,0x3B,0x9A,0xA2,0x5B,0x04,0x03,0xF1,0xEE,0xF7,0x57,
      0x02,0xE8,0x4B,0xB7,0x59,0x7A,0xAB,0xE6,0x63,0xB8,0x2F,0x6F,0x04,0xEF,0x27,0x77]"

subsection \<open>Construction\<close>

definition point_new :: "FieldElement \<Rightarrow> FieldElement \<Rightarrow> FieldElement \<Rightarrow> bool \<Rightarrow> Point" where
  "point_new x y z at_inf = \<lparr>X52 = fe52_from_fe x, Y52 = fe52_from_fe y, Z52 = fe52_from_fe z,
     is_infinity = at_inf, is_gen = False, z_one = False\<rparr>"

definition point_new52 :: "FieldElement52 \<Rightarrow> FieldElement52 \<Rightarrow> FieldElement52 \<Rightarrow> bool \<Rightarrow> bool \<Rightarrow> Point" where
  "point_new52 x y z at_inf gen = \<lparr>X52 = x, Y52 = y, Z52 = z, is_infinity = at_inf, is_gen = gen, z_one = False\<rparr>"

definition point_infinity :: Point where
  "point_infinity = point_new fe_zero fe_one fe_zero True"

definition from_jacobian_coords :: "FieldElement \<Rightarrow> FieldElement \<Rightarrow> FieldElement \<Rightarrow> bool \<Rightarrow> Point" where
  "from_jacobian_coords x y z at_inf =
     (if at_inf \<or> fe_eq z fe_zero then point_infinity else point_new x y z False)"

definition from_jacobian52 :: "FieldElement52 \<Rightarrow> FieldElement52 \<Rightarrow> FieldElement52 \<Rightarrow> bool \<Rightarrow> Point" where
  "from_jacobian52 x y z at_inf = (if at_inf then point_infinity else point_new52 x y z False False)"

definition point_from_affine52 :: "FieldElement52 \<Rightarrow> FieldElement52 \<Rightarrow> Point" where
  "point_from_affine52 x y =
     (let p = point_new52 x y fe52_one False False;
          p = p\<lparr>X52 := fe52_normalize (X52 p)\<rparr>;
          p = p\<lparr>Y52 := fe52_normalize (Y52 p)\<rparr>
      in p\<lparr>z_one := True\<rparr>)"

definition point_generator :: Point where
  "point_generator =
     (let g = point_new kGeneratorX kGeneratorY (fe_from_u64 1) False;
          g = g\<lparr>is_gen := True\<rparr>
      in g\<lparr>z_one := True\<rparr>)"

definition from_affine :: "FieldElement \<Rightarrow> FieldElement \<Rightarrow> Point" where
  "from_affine x y =
     (let p = point_new x y (fe_from_u64 1) False;
          p = p\<lparr>X52 := fe52_normalize (X52 p)\<rparr>;
          p = p\<lparr>Y52 := fe52_normalize (Y52 p)\<rparr>
      in p\<lparr>z_one := True\<rparr>)"

definition point_from_hex :: "string \<Rightarrow> string \<Rightarrow> exn + Point" where
  "point_from_hex x_hex y_hex =
     (case fe_from_hex x_hex of Inl e \<Rightarrow> Inl e | Inr x \<Rightarrow>
      case fe_from_hex y_hex of Inl e \<Rightarrow> Inl e | Inr y \<Rightarrow> Inr (from_affine x y))"

subsection \<open>Affine coordinates\<close>

definition point_x :: "field_impl \<Rightarrow> Point \<Rightarrow> FieldElement" where
  "point_x F p =
     (if is_infinity p then fe_zero
      else if z_one p then fe52_to_fe (X52 p)
      else let z_inv = inverse52 F (Z52 p)
           in if fe52_normalizes_to_zero_var z_inv then fe_zero
              else fe52_to_fe (fe52_mul (X52 p) (fe52_square z_inv)))"

definition point_y :: "field_impl \<Rightarrow> Point \<Rightarrow> FieldElement" where
  "point_y F p =
     (if is_infinity p then fe_zero
      else if z_one p then fe52_to_fe (Y52 p)
      else let z_inv = inverse52 F (Z52 p)
           in if fe52_normalizes_to_zero_var z_inv then fe_zero
              else let z_inv2 = fe52_square z_inv
                   in fe52_to_fe (fe52_mul (Y52 p) (fe52_mul z_inv2 z_inv)))"

definition x_first_half :: "field_impl \<Rightarrow> Point \<Rightarrow> bytes" where
  "x_first_half F p = take 16 (fe_to_bytes (point_x F p))"

definition x_second_half :: "field_impl \<Rightarrow> Point \<Rightarrow> bytes" where
  "x_second_half F p = drop 16 (fe_to_bytes (point_x F p))"

subsection \<open>Addition, doubling, negation\<close>

definition point_dbl :: "Point \<Rightarrow> Point" where
  "point_dbl p =
     (if is_infinity p then point_new52 (X52 p) (Y52 p) (Z52 p) True False
      else case (if z_one p then jac52_double_z1_to (X52 p) (Y52 p) else jac52_double_to (X52 p) (Y52 p) (Z52 p))
        of (x, y, z) \<Rightarrow> \<lparr>X52 = x, Y52 = y, Z52 = z, is_infinity = False, is_gen = False, z_one = False\<rparr>)"

text \<open>The result of a mixed addition in fresh coordinates.\<close>

definition point_of_jac :: "JacobianPoint52 \<Rightarrow> Point" where
  "point_of_jac r = \<lparr>X52 = px r, Y52 = py r, Z52 = pz r, is_infinity = infinity r, is_gen = False, z_one = False\<rparr>"

definition point_jac :: "Point \<Rightarrow> JacobianPoint52" where
  "point_jac p = \<lparr>px = X52 p, py = Y52 p, pz = Z52 p, infinity = is_infinity p\<rparr>"

definition point_add :: "field_impl \<Rightarrow> Point \<Rightarrow> Point \<Rightarrow> Point" where
  "point_add F this other =
     (if z_one this \<and> z_one other then
        if is_infinity this then other
        else if is_infinity other then this
        else
          let dx52 = fe52_add (X52 other) (fe52_negate 1 (X52 this))
          in if fe52_normalizes_to_zero_var dx52 then
               let dy52 = fe52_add (Y52 other) (fe52_negate 1 (Y52 this))
               in if fe52_normalizes_to_zero_var dy52 then point_dbl this else point_infinity
             else
               let dx = fe52_to_fe dx52;
                   dx_inv = inverse4 F dx;
                   x1 = fe52_to_fe (X52 this);
                   y1 = fe52_to_fe (Y52 this);
                   x2 = fe52_to_fe (X52 other);
                   y2 = fe52_to_fe (Y52 other);
                   lam = times4 F (fe_sub y2 y1) dx_inv;
                   x3 = fe_sub (fe_sub (times4 F lam lam) x1) x2;
                   y3 = fe_sub (times4 F lam (fe_sub x1 x3)) y1
               in from_affine x3 y3
      else if \<not> is_infinity other \<and> (z_one other \<or> fe52_is_one_raw (Z52 other)) then
        point_of_jac (jac52_add_mixed_to (X52 this) (Y52 this) (Z52 this) (is_infinity this) (X52 other) (Y52 other))
      else if \<not> is_infinity this \<and> (z_one this \<or> fe52_is_one_raw (Z52 this)) then
        point_of_jac (jac52_add_mixed_to (X52 other) (Y52 other) (Z52 other) (is_infinity other) (X52 this) (Y52 this))
      else
        let r52 = jac52_add (point_jac this) (point_jac other)
        in point_new52 (px r52) (py r52) (pz r52) (infinity r52) False)"

definition point_negate :: "Point \<Rightarrow> Point" where
  "point_negate p =
     (if is_infinity p then p
      else
        let neg_y = Y52 p;
            neg_y = fe52_normalize_weak neg_y;
            neg_y = fe52_negate 1 neg_y;
            neg_y = fe52_normalize_weak neg_y;
            result = point_new52 (X52 p) neg_y (Z52 p) False False
        in result\<lparr>z_one := z_one p\<rparr>)"

definition add_gen_mixed :: "Point \<Rightarrow> FieldElement \<Rightarrow> Point" where
  "add_gen_mixed self gen_y_4x64 =
     (let gen_y_52 = fe52_from_fe gen_y_4x64;
          p52 = point_jac self;
          g52 = \<lparr>qx = fe52_from_fe kGeneratorX, qy = gen_y_52\<rparr>;
          p52 = jac52_add_mixed_inplace p52 g52
      in from_jacobian52 (px p52) (py p52) (pz p52) (infinity p52))"

definition point_next :: "Point \<Rightarrow> Point" where
  "point_next p = add_gen_mixed p kGeneratorY"

definition point_prev :: "Point \<Rightarrow> Point" where
  "point_prev p = add_gen_mixed p kNegGeneratorY"

definition next_inplace :: "Point \<Rightarrow> Point" where
  "next_inplace p =
     (let p = p\<lparr>z_one := False\<rparr>
      in if is_infinity p then point_generator else add_gen_mixed p kGeneratorY)"

definition prev_inplace :: "Point \<Rightarrow> Point" where
  "prev_inplace p =
     (let p = p\<lparr>z_one := False\<rparr>
      in if is_infinity p then point_negate point_generator else add_gen_mixed p kNegGeneratorY)"

text \<open>The assignment of the working copy back to the members.\<close>

definition store_jac :: "Point \<Rightarrow> JacobianPoint52 \<Rightarrow> Point" where
  "store_jac p p52 = p\<lparr>X52 := px p52, Y52 := py p52, Z52 := pz p52, is_infinity := infinity p52, is_gen := False\<rparr>"

definition add_inplace :: "Point \<Rightarrow> Point \<Rightarrow> Point" where
  "add_inplace this other =
     (let this = this\<lparr>z_one := False\<rparr>
      in if \<not> is_infinity other \<and> fe52_is_one_raw (Z52 other) then
           let q52 = \<lparr>qx = X52 other, qy = Y52 other\<rparr>;
               p52 = jac52_add_mixed_inplace (point_jac this) q52
           in store_jac this p52
         else
           let p52 = jac52_add_inplace (point_jac this) (point_jac other)
           in store_jac this p52)"

definition sub_inplace :: "Point \<Rightarrow> Point \<Rightarrow> Point" where
  "sub_inplace this other =
     (let this = this\<lparr>z_one := False\<rparr>;
          q52 = point_jac other;
          q52 = q52\<lparr>py := fe52_normalize_weak (py q52)\<rparr>;
          q52 = q52\<lparr>py := fe52_negate 1 (py q52)\<rparr>;
          q52 = q52\<lparr>py := fe52_normalize_weak (py q52)\<rparr>;
          p52 = jac52_add_inplace (point_jac this) q52
      in store_jac this p52)"

definition dbl_inplace :: "Point \<Rightarrow> Point" where
  "dbl_inplace p =
     (let p = p\<lparr>z_one := False\<rparr>
      in if is_infinity p then p
         else case jac52_double_coords (X52 p) (Y52 p) (Z52 p) of (x, y, z) \<Rightarrow>
           p\<lparr>X52 := x, Y52 := y, Z52 := z, is_gen := False\<rparr>)"

definition negate_inplace :: "Point \<Rightarrow> Point" where
  "negate_inplace p =
     (let y = fe52_normalize_weak (Y52 p);
          y = fe52_negate 1 y;
          y = fe52_normalize_weak y
      in p\<lparr>Y52 := y, is_gen := False\<rparr>)"

definition add_mixed_inplace :: "Point \<Rightarrow> FieldElement \<Rightarrow> FieldElement \<Rightarrow> Point" where
  "add_mixed_inplace this ax ay =
     (let this = this\<lparr>z_one := False\<rparr>
      in if is_infinity this then
           this\<lparr>X52 := fe52_from_fe ax, Y52 := fe52_from_fe ay, Z52 := fe52_one, is_infinity := False, is_gen := False\<rparr>
         else
           let q52 = \<lparr>qx = fe52_from_fe ax, qy = fe52_from_fe ay\<rparr>;
               p52 = jac52_add_mixed_inplace (point_jac this) q52
           in store_jac this p52)"

definition sub_mixed_inplace :: "Point \<Rightarrow> FieldElement \<Rightarrow> FieldElement \<Rightarrow> Point" where
  "sub_mixed_inplace this ax ay = add_mixed_inplace this ax (fe_sub fe_zero ay)"

definition add_affine_constant_inplace :: "Point \<Rightarrow> FieldElement \<Rightarrow> FieldElement \<Rightarrow> Point" where
  "add_affine_constant_inplace this ax ay = add_mixed_inplace (this\<lparr>z_one := False\<rparr>) ax ay"

definition add_mixed52_inplace :: "Point \<Rightarrow> FieldElement52 \<Rightarrow> FieldElement52 \<Rightarrow> Point" where
  "add_mixed52_inplace this ax ay =
     (let this = this\<lparr>z_one := False\<rparr>
      in if is_infinity this then
           this\<lparr>X52 := ax, Y52 := ay, Z52 := fe52_one, is_infinity := False, is_gen := False\<rparr>
         else
           let zz = fe52_square (Z52 this);
               u2 = fe52_mul ax zz;
               s2 = fe52_mul ay zz;
               s2 = fe52_mul s2 (Z52 this);
               negX1 = fe52_negate 8 (X52 this);
               h = fe52_add u2 negX1
           in if fe52_normalizes_to_zero_var h then
                let negY1 = fe52_negate 4 (Y52 this);
                    diff = fe52_add s2 negY1
                in if fe52_normalizes_to_zero_var diff then
                     case jac52_double_coords (X52 this) (Y52 this) (Z52 this) of (x, y, z) \<Rightarrow>
                       this\<lparr>X52 := x, Y52 := y, Z52 := z, is_infinity := False, is_gen := False\<rparr>
                   else this\<lparr>X52 := fe52_zero, Y52 := fe52_one, Z52 := fe52_zero, is_infinity := True, is_gen := False\<rparr>
              else
                let z3 = fe52_mul (Z52 this) h;
                    negS2 = fe52_negate 1 s2;
                    i_val = fe52_add (Y52 this) negS2;
                    h2 = fe52_square h;
                    i2 = fe52_square i_val;
                    h2 = fe52_negate 1 h2;
                    h3 = fe52_mul h2 h;
                    t = fe52_mul (X52 this) h2;
                    x3 = fe52_add i2 h3;
                    x3 = fe52_add x3 t;
                    x3 = fe52_add x3 t;
                    t = fe52_add t x3;
                    h3 = fe52_mul h3 (Y52 this);
                    y3 = fe52_mul t i_val;
                    y3 = fe52_add y3 h3
                in this\<lparr>X52 := x3, Y52 := y3, Z52 := z3, is_infinity := False, is_gen := False\<rparr>)"

definition add_mixed52_neg_inplace :: "Point \<Rightarrow> FieldElement52 \<Rightarrow> FieldElement52 \<Rightarrow> Point" where
  "add_mixed52_neg_inplace this ax ay =
     (let this = this\<lparr>z_one := False\<rparr>
      in if is_infinity this then
           this\<lparr>X52 := ax, Y52 := fe52_negate 1 ay, Z52 := fe52_one, is_infinity := False, is_gen := False\<rparr>
         else
           let zz = fe52_square (Z52 this);
               u2 = fe52_mul ax zz;
               s2 = fe52_mul ay zz;
               s2 = fe52_mul s2 (Z52 this);
               negX1 = fe52_negate 8 (X52 this);
               h = fe52_add u2 negX1
           in if fe52_normalizes_to_zero_var h then
                let sum = fe52_add (Y52 this) s2
                in if fe52_normalizes_to_zero_var sum then
                     case jac52_double_coords (X52 this) (Y52 this) (Z52 this) of (x, y, z) \<Rightarrow>
                       this\<lparr>X52 := x, Y52 := y, Z52 := z, is_infinity := False, is_gen := False\<rparr>
                   else this\<lparr>X52 := fe52_zero, Y52 := fe52_one, Z52 := fe52_zero, is_infinity := True, is_gen := False\<rparr>
              else
                let z3 = fe52_mul (Z52 this) h;
                    i_val = fe52_add (Y52 this) s2;
                    h2 = fe52_square h;
                    i2 = fe52_square i_val;
                    h2 = fe52_negate 1 h2;
                    h3 = fe52_mul h2 h;
                    t = fe52_mul (X52 this) h2;
                    x3 = fe52_add i2 h3;
                    x3 = fe52_add x3 t;
                    x3 = fe52_add x3 t;
                    t = fe52_add t x3;
                    h3 = fe52_mul h3 (Y52 this);
                    y3 = fe52_mul t i_val;
                    y3 = fe52_add y3 h3
                in this\<lparr>X52 := x3, Y52 := y3, Z52 := z3, is_infinity := False, is_gen := False\<rparr>)"

subsection \<open>Serialization\<close>

definition fe52_low :: "FieldElement52 \<Rightarrow> u64" where
  "fe52_low a = (case a of FE52 n0 n1 n2 n3 n4 \<Rightarrow> n0)"

definition to_compressed :: "field_impl \<Rightarrow> Point \<Rightarrow> bytes" where
  "to_compressed F p =
     (if is_infinity p then replicate 33 0
      else if z_one p then
        (if fe52_low (Y52 p) AND 1 \<noteq> 0 then 0x03 else 0x02) # fe52_store_b32_prenorm (X52 p)
      else
        let z_inv = inverse52 F (Z52 p)
        in if fe52_normalizes_to_zero_var z_inv then replicate 33 0
           else
             let z_inv2 = fe52_square z_inv;
                 x_aff = fe52_mul (X52 p) z_inv2;
                 y_aff = fe52_mul (Y52 p) (fe52_mul z_inv2 z_inv);
                 x_aff = fe52_normalize x_aff;
                 y_aff = fe52_normalize y_aff
             in (if fe52_low y_aff AND 1 \<noteq> 0 then 0x03 else 0x02) # fe52_store_b32_prenorm x_aff)"

definition to_uncompressed :: "field_impl \<Rightarrow> Point \<Rightarrow> bytes" where
  "to_uncompressed F p =
     (if is_infinity p then replicate 65 0
      else if z_one p then 0x04 # fe52_store_b32_prenorm (X52 p) @ fe52_store_b32_prenorm (Y52 p)
      else
        let z_inv = inverse52 F (Z52 p)
        in if fe52_normalizes_to_zero_var z_inv then replicate 65 0
           else
             let z_inv2 = fe52_square z_inv;
                 x_aff = fe52_mul (X52 p) z_inv2;
                 y_aff = fe52_mul (Y52 p) (fe52_mul z_inv2 z_inv);
                 x_aff = fe52_normalize x_aff;
                 y_aff = fe52_normalize y_aff
             in 0x04 # fe52_store_b32_prenorm x_aff @ fe52_store_b32_prenorm y_aff)"

definition has_even_y :: "field_impl \<Rightarrow> Point \<Rightarrow> bool" where
  "has_even_y F p =
     (if is_infinity p then False
      else if z_one p then fe52_low (Y52 p) AND 1 = 0
      else
        let z_inv = inverse52 F (Z52 p)
        in if fe52_normalizes_to_zero_var z_inv then False
           else
             let z_inv2 = fe52_square z_inv;
                 y_aff = fe52_mul (Y52 p) (fe52_mul z_inv2 z_inv);
                 y_aff = fe52_normalize y_aff
             in fe52_low y_aff AND 1 = 0)"

definition x_bytes_and_parity :: "field_impl \<Rightarrow> Point \<Rightarrow> bytes \<times> bool" where
  "x_bytes_and_parity F p =
     (if is_infinity p then (replicate 32 0, False)
      else if z_one p then (fe52_store_b32_prenorm (X52 p), fe52_low (Y52 p) AND 1 \<noteq> 0)
      else
        let z_inv = inverse52 F (Z52 p)
        in if fe52_normalizes_to_zero_var z_inv then (replicate 32 0, False)
           else
             let z_inv2 = fe52_square z_inv;
                 x_aff = fe52_mul (X52 p) z_inv2;
                 y_aff = fe52_mul (Y52 p) (fe52_mul z_inv2 z_inv);
                 x_aff = fe52_normalize x_aff;
                 y_aff = fe52_normalize y_aff
             in (fe52_store_b32_prenorm x_aff, fe52_low y_aff AND 1 \<noteq> 0))"

definition point_normalize :: "field_impl \<Rightarrow> Point \<Rightarrow> Point" where
  "point_normalize F p =
     (if z_one p \<or> is_infinity p then p
      else
        let z_inv = inverse52 F (Z52 p)
        in if fe52_normalizes_to_zero_var z_inv then p
           else
             let z_inv2 = fe52_square z_inv;
                 z_inv3 = fe52_mul z_inv2 z_inv;
                 x = fe52_mul (X52 p) z_inv2;
                 y = fe52_mul (Y52 p) z_inv3;
                 x = fe52_normalize x;
                 y = fe52_normalize y
             in p\<lparr>X52 := x, Y52 := y, Z52 := fe52_one, z_one := True\<rparr>)"

definition x_only_bytes :: "field_impl \<Rightarrow> Point \<Rightarrow> bytes" where
  "x_only_bytes F p =
     (if is_infinity p then replicate 32 0
      else if z_one p then fe52_store_b32_prenorm (X52 p)
      else
        let z_inv = inverse52 F (Z52 p)
        in if fe52_normalizes_to_zero_var z_inv then replicate 32 0
           else
             let x_aff = fe52_mul (X52 p) (fe52_square z_inv);
                 x_aff = fe52_normalize x_aff
             in fe52_store_b32_prenorm x_aff)"

subsection \<open>Batches\<close>

text \<open>The forward pass: the partial products before each point and the whole product. The backward
  pass works from the last point; \<open>None\<close> stands for an element of the output that is left as it is.\<close>

fun forward_pass :: "field_impl \<Rightarrow> Point list \<Rightarrow> FieldElement \<Rightarrow> FieldElement list \<times> FieldElement" where
  "forward_pass F [] running = ([], running)"
| "forward_pass F (p # ps) running =
     (let running' = (if is_infinity p then running else times4 F running (fe52_to_fe (Z52 p)));
          (partials, total) = forward_pass F ps running'
      in (running # partials, total))"

fun backward_pass :: "field_impl \<Rightarrow> (Point \<times> FieldElement) list \<Rightarrow> FieldElement \<Rightarrow> FieldElement option list" where
  "backward_pass F [] inv_all = []"
| "backward_pass F ((p, partial) # rest) inv_all =
     (if is_infinity p then None # backward_pass F rest inv_all
      else Some (times4 F partial inv_all) # backward_pass F rest (times4 F inv_all (fe52_to_fe (Z52 p))))"

definition batch_z_inv :: "field_impl \<Rightarrow> Point list \<Rightarrow> FieldElement option list" where
  "batch_z_inv F points =
     (let (partials, running) = forward_pass F points fe_one;
          inv_all = inverse4 F running
      in rev (backward_pass F (rev (zip points partials)) inv_all))"

definition all_affine :: "Point list \<Rightarrow> bool" where
  "all_affine points = list_all (\<lambda>p. is_infinity p \<or> z_one p) points"

definition batch_normalize :: "field_impl \<Rightarrow> Point list \<Rightarrow> (FieldElement \<times> FieldElement) list" where
  "batch_normalize F points =
     (if all_affine points then
        map (\<lambda>p. if is_infinity p then (fe_zero, fe_zero) else (fe52_to_fe (X52 p), fe52_to_fe (Y52 p))) points
      else
        map (\<lambda>(p, z_inv). case z_inv of None \<Rightarrow> (fe_zero, fe_zero) | Some z_inv \<Rightarrow>
          let z_inv2 = times4 F z_inv z_inv
          in (times4 F (fe52_to_fe (X52 p)) z_inv2,
              times4 F (times4 F (fe52_to_fe (Y52 p)) z_inv2) z_inv)) (zip points (batch_z_inv F points)))"

definition batch_to_compressed :: "field_impl \<Rightarrow> Point list \<Rightarrow> bytes list" where
  "batch_to_compressed F points =
     (if all_affine points then
        map (\<lambda>p. if is_infinity p then replicate 33 0
                 else (if fe52_low (Y52 p) AND 1 \<noteq> 0 then 0x03 else 0x02) # fe52_store_b32_prenorm (X52 p)) points
      else
        map (\<lambda>(p, aff_x, aff_y). if is_infinity p then replicate 33 0
                 else (if limb_at (fe_limbs aff_y) 0 AND 1 \<noteq> 0 then 0x03 else 0x02) # fe_to_bytes aff_x)
          (zip points (batch_normalize F points)))"

definition batch_x_only_bytes :: "field_impl \<Rightarrow> Point list \<Rightarrow> bytes list" where
  "batch_x_only_bytes F points =
     (if all_affine points then
        map (\<lambda>p. if is_infinity p then replicate 32 0 else fe52_store_b32_prenorm (X52 p)) points
      else
        map (\<lambda>(p, z_inv). case z_inv of None \<Rightarrow> replicate 32 0 | Some z_inv \<Rightarrow>
          let z_inv2 = times4 F z_inv z_inv;
              x_aff = times4 F (fe52_to_fe (X52 p)) z_inv2
          in fe_to_bytes x_aff) (zip points (batch_z_inv F points)))"

section \<open>What is relied on, and the invariant\<close>

definition field_impl_laws :: "field_impl \<Rightarrow> bool" where
  "field_impl_laws F \<longleftrightarrow>
     (\<forall>a b. fe_ok a \<and> fe_ok b \<longrightarrow> fe_ok (times4 F a b) \<and> eq_p (fval (times4 F a b)) (fval a * fval b))
   \<and> (\<forall>a. fe_ok a \<and> coprime (fval a) field_prime \<longrightarrow> fe_ok (inverse4 F a) \<and> eq_p (fval (inverse4 F a) * fval a) 1)
   \<and> (\<forall>a. fe52_mag 1 a \<and> coprime (fe52_val a) field_prime \<longrightarrow>
         fe52_mag 1 (inverse52 F a) \<and> eq_p (fe52_val (inverse52 F a) * fe52_val a) 1)"

definition generator_point :: point where
  "generator_point = Some (fval kGeneratorX, fval kGeneratorY)"

text \<open>\<open>point_is p A\<close>: the object stands for the point \<open>A\<close>, a set \<open>z_one\<close> says that \<open>z\<close> is one and the
  coordinates are reduced enough for the shortcuts, and a set \<open>is_gen\<close> that \<open>A\<close> is the generator.\<close>

definition point_is :: "Point \<Rightarrow> point \<Rightarrow> bool" where
  "point_is p A \<longleftrightarrow> jac (point_jac p) A
     \<and> (z_one p \<and> \<not> is_infinity p \<longrightarrow> eq_p (fe52_val (Z52 p)) 1 \<and> fe52_mag 1 (X52 p) \<and> fe52_mag 1 (Y52 p))
     \<and> (is_gen p \<longrightarrow> \<not> is_infinity p \<and> point_eq A generator_point)"

text \<open>The coordinates of an affine point are the canonical ones.\<close>

definition canonical52 :: "FieldElement52 \<Rightarrow> bool" where
  "canonical52 a \<longleftrightarrow> fe52_carried a \<and> fe52_val a < field_prime"

definition point_canonical :: "Point \<Rightarrow> bool" where
  "point_canonical p \<longleftrightarrow> (z_one p \<and> \<not> is_infinity p \<longrightarrow> canonical52 (X52 p) \<and> canonical52 (Y52 p))"

lemma jac_cong:
  assumes "jac P (Some (x, y))" "eq_p x x'" "eq_p y y'"
  shows "jac P (Some (x', y'))"
proof -
  note D = jac_isD [OF conjunct2 [OF assms(1) [unfolded jac_Some]]]
  have "eq_p (x * (fe52_val (pz P))\<^sup>2) (x' * (fe52_val (pz P))\<^sup>2)"
    "eq_p (y * fe52_val (pz P) ^ 3) (y' * fe52_val (pz P) ^ 3)"
    by (intro eq_p_mult eq_p_refl assms)+
  then show ?thesis using assms(1) D by (auto simp: jac_Some jac_is_def intro: fe_is_cong)
qed

lemma point_eq_Some [simp]: "point_eq (Some (x, y)) (Some (u, v)) \<longleftrightarrow> eq_p x u \<and> eq_p y v"
  by (simp add: point_eq_def)

lemma jac_point_of_jac [simp]: "point_jac (point_of_jac r) = r"
  by (simp add: point_jac_def point_of_jac_def)

lemma point_is_of_jac: "jac r A \<Longrightarrow> point_is (point_of_jac r) A"
  by (simp add: point_is_def) (simp add: point_of_jac_def)

lemma canonical_mag: "canonical52 a \<Longrightarrow> fe52_mag 1 a"
proof (cases a)
  case (FE52 n0 n1 n2 n3 n4)
  assume c: "canonical52 a"
  have "0 \<le> uint n0" "0 \<le> uint n1" "0 \<le> uint n2" "0 \<le> uint n3" by (rule uint_ge_0)+
  moreover have "uint n0 + 4503599627370496 * uint n1 + 20282409603651670423947251286016 * uint n2
      + 91343852333181432387730302044767688728495783936 * uint n3
      + 411376139330301510538742295639337626245683966408394965837152256 * uint n4 < field_prime"
    using c by (simp add: canonical52_def FE52)
  ultimately have "uint n4 \<le> 290271069732864" by linarith
  then show ?thesis using c by (auto simp: canonical52_def FE52)
qed

lemma canonical_normalize:
  assumes "fe52_mag m a" "m \<le> 4000"
  shows "canonical52 (fe52_normalize a)" "fe52_val (fe52_normalize a) = fe52_val a mod field_prime"
    "fe52_mag 1 (fe52_normalize a)"
proof -
  show v: "fe52_val (fe52_normalize a) = fe52_val a mod field_prime" using fe52_normalize_value [OF assms] by blast
  show c: "canonical52 (fe52_normalize a)"
    using fe52_normalize_value [OF assms] by (simp add: canonical52_def)
  show "fe52_mag 1 (fe52_normalize a)" by (rule canonical_mag [OF c])
qed

lemma from_fe_is: "fe_is 1 (fe52_from_fe a) (fval a)"
  using fe52_from_fe_value [of a] by (simp add: fe_is_def)

lemma one_fe: "fval (fe_from_u64 1) = 1"
  by (simp add: fe_from_u64_def fe_new_def fe_normalize_value)

lemma jac_affine_is:
  assumes "fe_is 7 X x" "fe_is 4 Y y" "fe_is 1 Z 1"
  shows "jac_is X Y Z (x, y)"
  by (rule jac_isI [OF _ _ assms(3) _ eq_p_refl eq_p_refl]) (use assms in simp_all)

lemma point_is_infinity [simp]: "point_is point_infinity None"
  by (simp add: point_is_def point_jac_def point_infinity_def point_new_def)

lemma point_is_None: "point_is p None \<Longrightarrow> is_infinity p"
  by (simp add: point_is_def point_jac_def)

lemma from_affine_is: "point_is (from_affine x y) (Some (fval x, fval y))" "point_canonical (from_affine x y)"
proof -
  have n: "fe_is 1 (fe52_normalize (fe52_from_fe a)) (fval a)" "canonical52 (fe52_normalize (fe52_from_fe a))" for a
    using canonical_normalize [OF fe_is_mag [OF from_fe_is [of a]]] fe_is_val [OF from_fe_is [of a]]
    by (simp_all add: fe_is_def eq_p_def)
  have z: "fe_is 1 (fe52_from_fe (fe_from_u64 1)) 1" using from_fe_is [of "fe_from_u64 1"] by (simp add: one_fe)
  have "jac_is (fe52_normalize (fe52_from_fe x)) (fe52_normalize (fe52_from_fe y)) (fe52_from_fe (fe_from_u64 1)) (fval x, fval y)"
    by (rule jac_affine_is [OF fe_is_mono [OF n(1)] fe_is_mono [OF n(1)] z]) simp_all
  then show "point_is (from_affine x y) (Some (fval x, fval y))"
    using n z by (auto simp: point_is_def point_jac_def from_affine_def point_new_def jac_Some Let_def dest: fe_is_val fe_is_mag)
  show "point_canonical (from_affine x y)"
    using n by (simp add: point_canonical_def from_affine_def point_new_def Let_def)
qed

lemma double_outputs_jac:
  assumes "jac p A" "ec_sum A A B" "\<not> infinity p"
  shows "jac (case jac52_double_to (px p) (py p) (pz p) of (x, y, z) \<Rightarrow> \<lparr>px = x, py = y, pz = z, infinity = False\<rparr>) B"
    "jac (case jac52_double_coords (px p) (py p) (pz p) of (x, y, z) \<Rightarrow> \<lparr>px = x, py = y, pz = z, infinity = False\<rparr>) B"
    "eq_p (fe52_val (pz p)) 1 \<Longrightarrow> fe52_mag 1 (py p) \<Longrightarrow>
     jac (case jac52_double_z1_to (px p) (py p) of (x, y, z) \<Rightarrow> \<lparr>px = x, py = y, pz = z, infinity = False\<rparr>) B"
proof -
  obtain x y where A: "A = Some (x, y)" "jac_is (px p) (py p) (pz p) (x, y)"
    using assms(1,3) by (cases rule: jac_cases) auto
  have z: "\<not> coprime (0 :: int) field_prime" by simp
  show "jac (case jac52_double_to (px p) (py p) (pz p) of (x, y, z) \<Rightarrow> \<lparr>px = x, py = y, pz = z, infinity = False\<rparr>) B"
    "jac (case jac52_double_coords (px p) (py p) (pz p) of (x, y, z) \<Rightarrow> \<lparr>px = x, py = y, pz = z, infinity = False\<rparr>) B"
    "eq_p (fe52_val (pz p)) 1 \<Longrightarrow> fe52_mag 1 (py p) \<Longrightarrow>
     jac (case jac52_double_z1_to (px p) (py p) of (x, y, z) \<Rightarrow> \<lparr>px = x, py = y, pz = z, infinity = False\<rparr>) B"
    using assms(2) unfolding A(1)
    by (cases, use z double_jac [OF A(2)] in \<open>auto simp: jac_Some split: prod.splits\<close>)+
qed

lemma point_isD:
  assumes "point_is p A"
  shows "jac (point_jac p) A" "z_one p \<Longrightarrow> \<not> is_infinity p \<Longrightarrow> eq_p (fe52_val (Z52 p)) 1"
    "z_one p \<Longrightarrow> \<not> is_infinity p \<Longrightarrow> fe52_mag 1 (X52 p)" "z_one p \<Longrightarrow> \<not> is_infinity p \<Longrightarrow> fe52_mag 1 (Y52 p)"
  using assms by (simp_all add: point_is_def)

lemma point_jac_simps [simp]:
  "px (point_jac p) = X52 p" "py (point_jac p) = Y52 p" "pz (point_jac p) = Z52 p" "infinity (point_jac p) = is_infinity p"
  by (simp_all add: point_jac_def)

lemma point_dbl_is:
  assumes "point_is p A" "ec_sum A A B"
  shows "point_is (point_dbl p) B"
proof (cases "is_infinity p")
  case True
  have "A = None" using point_isD(1) [OF assms(1)] by (cases rule: jac_cases) (use True in auto)
  then show ?thesis using assms(2) True
    by (simp add: point_dbl_def point_is_def point_new52_def)
next
  case False
  note d = double_outputs_jac [OF point_isD(1) [OF assms(1)] assms(2)]
  have e: "(case c of (x, y, z) \<Rightarrow> \<lparr>X52 = x, Y52 = y, Z52 = z, is_infinity = False, is_gen = False, z_one = False\<rparr>)
      = point_of_jac (case c of (x, y, z) \<Rightarrow> \<lparr>px = x, py = y, pz = z, infinity = False\<rparr>)" for c
    by (cases c) (simp add: point_of_jac_def)
  show ?thesis
    using False d point_isD(2,4) [OF assms(1)] unfolding point_dbl_def e by (auto intro!: point_is_of_jac)
qed

lemma aff_of_one:
  assumes "point_is p A" "\<not> is_infinity p" "z_one p \<or> fe52_is_one_raw (Z52 p)"
  obtains x y where "A = Some (x, y)" "aff \<lparr>qx = X52 p, qy = Y52 p\<rparr> (x, y)"
proof -
  obtain x y where A: "A = Some (x, y)" and J: "jac_is (X52 p) (Y52 p) (Z52 p) (x, y)"
    using point_isD(1) [OF assms(1)] assms(2) by (cases rule: jac_cases) auto
  have z: "eq_p (fe52_val (Z52 p)) 1"
  proof (cases "z_one p")
    case True then show ?thesis using point_isD(2) [OF assms(1)] assms(2) by simp
  next
    case False
    then have "fe52_is_one_raw (Z52 p)" using assms(3) by simp
    then show ?thesis by (cases "Z52 p") (simp add: fe52_is_one_raw_def)
  qed
  have "eq_p (x * (fe52_val (Z52 p))\<^sup>2) (x * 1\<^sup>2)" "eq_p (y * fe52_val (Z52 p) ^ 3) (y * 1 ^ 3)"
    by (intro eq_p_mult eq_p_power eq_p_refl z)+
  then have "aff \<lparr>qx = X52 p, qy = Y52 p\<rparr> (x, y)"
    using jac_isD(1,2) [OF J] by (simp add: aff_def) (blast intro: fe_is_cong)
  then show thesis using that A by blast
qed

definition fe4_is :: "FieldElement \<Rightarrow> int \<Rightarrow> bool" where
  "fe4_is a v \<longleftrightarrow> fe_ok a \<and> eq_p (fval a) v"

lemma fe4_is_to_fe:
  assumes "fe_is m a v" "m \<le> 4000"
  shows "fe4_is (fe52_to_fe a) v"
proof -
  have f: "fval (fe52_to_fe a) = fe52_val a mod field_prime" by (rule fe52_to_fe_value [OF fe_is_mag [OF assms(1)] assms(2)])
  then have "eq_p (fval (fe52_to_fe a)) (fe52_val a)" by (simp add: eq_p_def)
  then show ?thesis using fe_is_val [OF assms(1)] f by (auto simp: fe4_is_def fe_ok_def intro: eq_p_trans)
qed

lemma fe4_is_sub:
  assumes "fe4_is a u" "fe4_is b v"
  shows "fe4_is (fe_sub a b) (u - v)"
proof -
  have f: "fval (fe_sub a b) = (fval a - fval b) mod field_prime"
    by (rule fe_sub_value) (use assms in \<open>simp_all add: fe4_is_def\<close>)
  then have "eq_p (fval (fe_sub a b)) (fval a - fval b)" by (simp add: eq_p_def)
  moreover have "eq_p (fval a - fval b) (u - v)" by (rule eq_p_diff) (use assms in \<open>simp_all add: fe4_is_def\<close>)
  ultimately show ?thesis using f by (auto simp: fe4_is_def fe_ok_def intro: eq_p_trans)
qed

lemma fe4_is_times:
  assumes "field_impl_laws F" "fe4_is a u" "fe4_is b v"
  shows "fe4_is (times4 F a b) (u * v)"
proof -
  have "fe_ok a \<and> fe_ok b" using assms(2,3) by (simp add: fe4_is_def)
  note t = assms(1) [unfolded field_impl_laws_def, THEN conjunct1, rule_format, OF this]
  note conjunct1 [OF t] conjunct2 [OF t]
  moreover have "eq_p (fval a * fval b) (u * v)" by (rule eq_p_mult) (use assms in \<open>simp_all add: fe4_is_def\<close>)
  ultimately show ?thesis by (auto simp: fe4_is_def intro: eq_p_trans)
qed

lemma fe4_is_cong: "fe4_is a u \<Longrightarrow> eq_p u v \<Longrightarrow> fe4_is a v"
  by (auto simp: fe4_is_def intro: eq_p_trans)

lemma fe4_is_inverse:
  assumes "field_impl_laws F" "fe4_is a u" "coprime u field_prime"
  obtains v where "fe4_is (inverse4 F a) v" "eq_p (v * u) 1"
proof -
  have c: "coprime (fval a) field_prime" by (rule eq_p_coprime [OF eq_p_sym assms(3)]) (use assms(2) in \<open>simp add: fe4_is_def\<close>)
  then have "fe_ok a \<and> coprime (fval a) field_prime" using assms(2) by (simp add: fe4_is_def)
  note i0 = assms(1) [unfolded field_impl_laws_def, THEN conjunct2, THEN conjunct1, rule_format, OF this]
  note i = conjunct1 [OF i0] conjunct2 [OF i0]
  have "eq_p (fval (inverse4 F a) * u) (fval (inverse4 F a) * fval a)"
    by (rule eq_p_mult [OF eq_p_refl eq_p_sym]) (use assms(2) in \<open>simp add: fe4_is_def\<close>)
  then have "eq_p (fval (inverse4 F a) * u) 1" using i(2) by (rule eq_p_trans)
  then show thesis using that [of "fval (inverse4 F a)"] i(1) by (simp add: fe4_is_def)
qed

text \<open>The affine addition: the slope is the difference of the ordinates times the inverse.\<close>

lemma affine_sum:
  assumes F: "field_impl_laws F" and x1: "fe_is 1 X1 x1" and y1: "fe_is 1 Y1 y1" and x2: "fe_is 1 X2 x2" and y2: "fe_is 1 Y2 y2"
    and c: "coprime (x2 - x1) field_prime" "eq_p (s * (x2 - x1)) (y2 - y1)"
  defines "dx \<equiv> fe52_to_fe (fe52_add X2 (fe52_negate 1 X1))"
  defines "lam \<equiv> times4 F (fe_sub (fe52_to_fe Y2) (fe52_to_fe Y1)) (inverse4 F dx)"
  defines "x3 \<equiv> fe_sub (fe_sub (times4 F lam lam) (fe52_to_fe X1)) (fe52_to_fe X2)"
  shows "eq_p (fval x3) (s\<^sup>2 - x1 - x2)"
    "eq_p (fval (fe_sub (times4 F lam (fe_sub (fe52_to_fe X1) x3)) (fe52_to_fe Y1))) (s * (x1 - (s\<^sup>2 - x1 - x2)) - y1)"
proof -
  have "fe_is 3 (fe52_add X2 (fe52_negate 1 X1)) (x2 + - x1)"
    by (rule fe_is_sum [OF x2 fe_is_negate_num(1) [OF x1]]) simp_all
  then have "fe4_is dx (x2 - x1)" unfolding dx_def using fe4_is_to_fe [of 3] by simp
  from fe4_is_inverse [OF F this c(1)] obtain v where v: "fe4_is (inverse4 F dx) v" "eq_p (v * (x2 - x1)) 1" .
  have t: "fe4_is (fe52_to_fe X1) x1" "fe4_is (fe52_to_fe Y1) y1" "fe4_is (fe52_to_fe X2) x2" "fe4_is (fe52_to_fe Y2) y2"
    by (rule fe4_is_to_fe [OF x1], simp, rule fe4_is_to_fe [OF y1], simp, rule fe4_is_to_fe [OF x2], simp,
        rule fe4_is_to_fe [OF y2], simp)
  have "fe4_is lam ((y2 - y1) * v)" unfolding lam_def by (rule fe4_is_times [OF F fe4_is_sub [OF t(4,2)] v(1)])
  moreover have "eq_p ((y2 - y1) * v) s"
  proof -
    have "eq_p ((y2 - y1) * v) (s * (x2 - x1) * v)" by (intro eq_p_mult eq_p_refl eq_p_sym [OF c(2)])
    moreover have "s * (x2 - x1) * v = s * (v * (x2 - x1))" by simp
    moreover have "eq_p (s * (v * (x2 - x1))) (s * 1)" by (intro eq_p_mult eq_p_refl v(2))
    ultimately show ?thesis by (simp only: mult_1_right) (rule eq_p_trans)
  qed
  ultimately have l: "fe4_is lam s" by (rule fe4_is_cong)
  have x3: "fe4_is x3 (s\<^sup>2 - x1 - x2)"
    unfolding x3_def power2_eq_square by (rule fe4_is_sub [OF fe4_is_sub [OF fe4_is_times [OF F l l] t(1)] t(3)])
  then show "eq_p (fval x3) (s\<^sup>2 - x1 - x2)" by (simp add: fe4_is_def)
  have "fe4_is (fe_sub (times4 F lam (fe_sub (fe52_to_fe X1) x3)) (fe52_to_fe Y1)) (s * (x1 - (s\<^sup>2 - x1 - x2)) - y1)"
    by (rule fe4_is_sub [OF fe4_is_times [OF F l fe4_is_sub [OF t(1) x3]] t(2)])
  then show "eq_p (fval (fe_sub (times4 F lam (fe_sub (fe52_to_fe X1) x3)) (fe52_to_fe Y1))) (s * (x1 - (s\<^sup>2 - x1 - x2)) - y1)"
    by (simp add: fe4_is_def)
qed

lemma affine_coordinates:
  assumes "point_is p A" "z_one p" "\<not> is_infinity p"
  obtains x y where "A = Some (x, y)" "fe_is 1 (X52 p) x" "fe_is 1 (Y52 p) y"
proof -
  obtain x y where A: "A = Some (x, y)" and a: "aff \<lparr>qx = X52 p, qy = Y52 p\<rparr> (x, y)"
    using aff_of_one [OF assms(1,3)] assms(2) by blast
  then have "fe_is 1 (X52 p) x" "fe_is 1 (Y52 p) y"
    using point_isD(3,4) [OF assms(1)] assms(2,3) by (simp_all add: aff_def fe_is_def)
  then show thesis using that A by blast
qed

lemma point_add_affine_is:
  assumes F: "field_impl_laws F" and P: "point_is p A" "z_one p" "\<not> is_infinity p" and Q: "point_is q B" "z_one q" "\<not> is_infinity q"
    and S: "ec_sum A B C"
  shows "point_is (point_add F p q) C"
proof -
  obtain x1 y1 where A: "A = Some (x1, y1)" "fe_is 1 (X52 p) x1" "fe_is 1 (Y52 p) y1" by (rule affine_coordinates [OF P])
  obtain x2 y2 where B: "B = Some (x2, y2)" "fe_is 1 (X52 q) x2" "fe_is 1 (Y52 q) y2" by (rule affine_coordinates [OF Q])
  have h: "fe_is 3 (fe52_add (X52 q) (fe52_negate 1 (X52 p))) ((x2 - x1) * 1\<^sup>2)"
    using fe_is_sum [OF B(2) fe_is_negate_num(1) [OF A(2)], of 3] by simp
  have t: "fe_is 3 (fe52_add (Y52 q) (fe52_negate 1 (Y52 p))) ((y2 - y1) * 1 ^ 3)"
    using fe_is_sum [OF B(3) fe_is_negate_num(1) [OF A(3)], of 3] by simp
  note S = S [unfolded A(1) B(1)]
  from _ S h _ disjI1 [OF t] _ show ?thesis
  proof (rule addition_tests)
    fix s x3 y3
    assume C: "C = Some (x3, y3)" "\<not> fe52_normalizes_to_zero_var (fe52_add (X52 q) (fe52_negate 1 (X52 p)))"
      and c: "coprime (x2 - x1) field_prime" "eq_p (s * (x2 - x1)) (y2 - y1)" "eq_p x3 (s\<^sup>2 - x1 - x2)" "eq_p y3 (s * (x1 - x3) - y1)"
    note V = affine_sum [OF F A(2,3) B(2,3) c(1,2)]
    have "eq_p y3 (s * (x1 - (s\<^sup>2 - x1 - x2)) - y1)"
      by (rule eq_p_trans [OF c(4)]) (intro eq_p_arith eq_p_refl c(3))
    then have "point_is (from_affine a b) (Some (x3, y3))"
      if "eq_p (fval a) (s\<^sup>2 - x1 - x2)" "eq_p (fval b) (s * (x1 - (s\<^sup>2 - x1 - x2)) - y1)" for a b
      using from_affine_is(1) [of a b] jac_cong [of "point_jac (from_affine a b)" "fval a" "fval b" x3 y3] that c(3)
      by (auto simp: point_is_def from_affine_def point_new_def Let_def intro: eq_p_trans eq_p_sym)
    from this [OF V] show ?thesis using P(2,3) Q(2,3) C by (simp add: point_add_def Let_def)
  next
    fix s x3 y3
    assume C: "fe52_normalizes_to_zero_var (fe52_add (X52 q) (fe52_negate 1 (X52 p)))"
      "fe52_normalizes_to_zero_var (fe52_add (Y52 q) (fe52_negate 1 (Y52 p)))"
      "C = Some (x3, y3)" "coprime (2 * y1) field_prime" "eq_p (s * (2 * y1)) (3 * x1\<^sup>2)" "eq_p x3 (s\<^sup>2 - 2 * x1)" "eq_p y3 (s * (x1 - x3) - y1)"
    have "ec_sum A A C" unfolding A(1) C(3) by (rule tangent [OF eq_p_refl eq_p_refl C(4-7)])
    from point_dbl_is [OF P(1) this] show ?thesis using C(1,2) P(2,3) Q(2,3) by (simp add: point_add_def Let_def)
  next
    assume "C = None" "fe52_normalizes_to_zero_var (fe52_add (X52 q) (fe52_negate 1 (X52 p)))"
      "\<not> fe52_normalizes_to_zero_var (fe52_add (Y52 q) (fe52_negate 1 (Y52 p)))"
    then show ?thesis using P(2,3) Q(2,3) by (simp add: point_add_def Let_def)
  qed simp_all
qed

lemma point_add_is:
  assumes F: "field_impl_laws F" and P: "point_is p A" and Q: "point_is q B" and S: "ec_sum A B C"
  shows "point_is (point_add F p q) C"
proof -
  note jP = point_isD(1) [OF P] note jQ = point_isD(1) [OF Q]
  have none: "is_infinity p \<longleftrightarrow> A = None" "is_infinity q \<longleftrightarrow> B = None"
    using jP jQ by (auto simp: jac_def split: option.splits)
  consider (inf) "z_one p" "z_one q" "is_infinity p \<or> is_infinity q"
    | (affine) "z_one p" "z_one q" "\<not> is_infinity p" "\<not> is_infinity q"
    | (right) "\<not> (z_one p \<and> z_one q)" "\<not> is_infinity q" "z_one q \<or> fe52_is_one_raw (Z52 q)"
    | (left) "\<not> (z_one p \<and> z_one q)" "\<not> (\<not> is_infinity q \<and> (z_one q \<or> fe52_is_one_raw (Z52 q)))"
        "\<not> is_infinity p" "z_one p \<or> fe52_is_one_raw (Z52 p)"
    | (full) "\<not> (z_one p \<and> z_one q)" "\<not> (\<not> is_infinity q \<and> (z_one q \<or> fe52_is_one_raw (Z52 q)))"
        "\<not> (\<not> is_infinity p \<and> (z_one p \<or> fe52_is_one_raw (Z52 p)))" by blast
  then show ?thesis
  proof cases
    case inf
    have "C = B" if "A = None" using S that by (auto elim: ec_sum.cases)
    moreover have "C = A" if "B = None" using S that by (auto elim: ec_sum.cases)
    ultimately show ?thesis using inf none P Q by (auto simp: point_add_def)
  next
    case affine
    then show ?thesis using point_add_affine_is [OF F P _ _ Q _ _ S] by simp
  next
    case right
    obtain x y where B: "B = Some (x, y)" "aff \<lparr>qx = X52 q, qy = Y52 q\<rparr> (x, y)" by (rule aff_of_one [OF Q right(2,3)])
    from add_mixed_to_jac [OF jP B(2)] S B(1)
    have "jac (jac52_add_mixed_to (X52 p) (Y52 p) (Z52 p) (is_infinity p) (X52 q) (Y52 q)) C" by simp
    then show ?thesis using right unfolding point_add_def by (simp only: if_False simp_thms point_is_of_jac if_True)
  next
    case left
    obtain x y where A: "A = Some (x, y)" "aff \<lparr>qx = X52 p, qy = Y52 p\<rparr> (x, y)" by (rule aff_of_one [OF P left(3,4)])
    from add_mixed_to_jac [OF jQ A(2)] ec_sum_commute [OF S] A(1)
    have "jac (jac52_add_mixed_to (X52 q) (Y52 q) (Z52 q) (is_infinity q) (X52 p) (Y52 p)) C" by simp
    then show ?thesis using left unfolding point_add_def by (simp only: if_False simp_thms point_is_of_jac if_True)
  next
    case full
    have e: "point_new52 (px r) (py r) (pz r) (infinity r) False = point_of_jac r" for r
      by (simp add: point_new52_def point_of_jac_def)
    have "jac (jac52_add (point_jac p) (point_jac q)) C" using add_jac [OF jP jQ S] by (simp add: jac52_add_def)
    then show ?thesis using full unfolding point_add_def Let_def
      by (simp only: if_False simp_thms e point_is_of_jac)
  qed
qed

lemma point_negate_is:
  assumes "point_is p A"
  shows "point_is (point_negate p) (ec_neg A)" "point_is (negate_inplace p) (ec_neg A)"
proof -
  define y where "y = fe52_normalize_weak (fe52_negate 1 (fe52_normalize_weak (Y52 p)))"
  have j: "jac \<lparr>px = X52 p, py = y, pz = Z52 p, infinity = is_infinity p\<rparr> (ec_neg A)"
    using negate_jac [OF point_isD(1) [OF assms]] by (simp add: jac52_negate_def point_jac_def y_def Let_def)
  have m: "fe52_mag 1 y" if ni: "\<not> is_infinity p"
  proof -
    obtain u v where "jac_is (X52 p) (Y52 p) (Z52 p) (u, v)"
      using point_isD(1) [OF assms] by (cases rule: jac_cases) (use ni in auto)
    from fe_is_weak [OF fe_is_negate_num(1) [OF fe_is_weak [OF jac_isD(2) [OF this]]]] show ?thesis
      unfolding y_def by (auto dest: fe_is_mag)
  qed
  show "point_is (negate_inplace p) (ec_neg A)"
    using j m assms by (simp add: point_is_def point_jac_def negate_inplace_def Let_def y_def)
  show "point_is (point_negate p) (ec_neg A)"
  proof (cases "is_infinity p")
    case True
    then have "A = None" using point_isD(1) [OF assms] by (auto simp: jac_def split: option.splits)
    then show ?thesis using True assms by (simp add: point_negate_def ec_neg_def)
  next
    case False
    then show ?thesis
      using j m assms by (simp add: point_is_def point_jac_def point_negate_def point_new52_def Let_def y_def)
  qed
qed

text \<open>The in-place functions store the result of a Jacobian function.\<close>

lemma point_is_jacI: "jac (point_jac p) A \<Longrightarrow> \<not> z_one p \<Longrightarrow> \<not> is_gen p \<Longrightarrow> point_is p A"
  by (simp add: point_is_def)

lemma store_jac_is: "jac r A \<Longrightarrow> \<not> z_one p \<Longrightarrow> point_is (store_jac p r) A"
  by (rule point_is_jacI; cases r) (simp_all add: store_jac_def point_jac_def)

lemma one_raw_value: "fe52_is_one_raw z \<Longrightarrow> fe52_val z = 1"
  by (cases z) (simp add: fe52_is_one_raw_def)

lemma add_sub_inplace_is:
  assumes P: "point_is p A" and Q: "point_is q B"
  shows "ec_sum A B C \<Longrightarrow> point_is (add_inplace p q) C" "ec_sum A (ec_neg B) C \<Longrightarrow> point_is (sub_inplace p q) C"
proof -
  have jP: "jac (point_jac (p\<lparr>z_one := False\<rparr>)) A" using point_isD(1) [OF P] by (simp add: point_jac_def)
  show "point_is (add_inplace p q) C" if S: "ec_sum A B C"
  proof (cases "\<not> is_infinity q \<and> fe52_is_one_raw (Z52 q)")
    case True
    obtain x y where B: "B = Some (x, y)" "aff \<lparr>qx = X52 q, qy = Y52 q\<rparr> (x, y)"
      using aff_of_one [OF Q] True by blast
    from add_mixed_jac(1) [OF jP B(2) S [unfolded B(1)]] True show ?thesis
      unfolding add_inplace_def Let_def by (simp add: store_jac_is)
  next
    case False
    then show ?thesis unfolding add_inplace_def Let_def
      using add_jac [OF jP point_isD(1) [OF Q] S] by (simp only: if_False) (rule store_jac_is; simp)
  qed
  show "point_is (sub_inplace p q) C" if S: "ec_sum A (ec_neg B) C"
  proof -
    have e: "sub_inplace p q = store_jac (p\<lparr>z_one := False\<rparr>) (jac52_add_inplace (point_jac (p\<lparr>z_one := False\<rparr>)) (jac52_negate (point_jac q)))"
      by (simp add: sub_inplace_def jac52_negate_def Let_def)
    show ?thesis unfolding e
      by (rule store_jac_is [OF add_jac [OF jP negate_jac [OF point_isD(1) [OF Q]] S]]) simp
  qed
qed

lemma dbl_inplace_is:
  assumes P: "point_is p A" and S: "ec_sum A A B"
  shows "point_is (dbl_inplace p) B"
proof (cases "is_infinity p")
  case True
  then have "A = None" using point_isD(1) [OF P] by (auto simp: jac_def split: option.splits)
  then show ?thesis using S True P by (simp add: dbl_inplace_def point_is_def point_jac_def)
next
  case False
  from double_outputs_jac(2) [OF point_isD(1) [OF P] S] False show ?thesis
    by (auto simp: dbl_inplace_def Let_def point_jac_def split: prod.splits intro!: point_is_jacI)
qed

lemma aff_of_fe: "aff \<lparr>qx = fe52_from_fe x, qy = fe52_from_fe y\<rparr> (fval x, fval y)"
  using fe_is_mono [OF from_fe_is [of x], of 7] fe_is_mono [OF from_fe_is [of y], of 4] by (simp add: aff_def)

lemma add_mixed_inplace_is:
  assumes P: "point_is p A" and S: "ec_sum A (Some (fval ax, fval ay)) B"
  shows "point_is (add_mixed_inplace p ax ay) B"
proof (cases "is_infinity p")
  case True
  then have "A = None" using point_isD(1) [OF P] by (auto simp: jac_def split: option.splits)
  then show ?thesis using S True aff_of_fe [of ax ay]
    by (auto simp: add_mixed_inplace_def Let_def point_jac_def jac_Some aff_def intro!: point_is_jacI jac_affine)
next
  case False
  have "jac (point_jac (p\<lparr>z_one := False\<rparr>)) A" using point_isD(1) [OF P] by (simp add: point_jac_def)
  from add_mixed_jac(1) [OF this aff_of_fe S] False show ?thesis
    by (simp add: add_mixed_inplace_def Let_def store_jac_is)
qed

lemma add_mixed52_is:
  assumes P: "point_is p A" and q: "aff \<lparr>qx = ax, qy = ay\<rparr> (x, y)"
  shows "ec_sum A (Some (x, y)) B \<Longrightarrow> point_is (add_mixed52_inplace p ax ay) B"
    "fe52_mag 1 ay \<Longrightarrow> ec_sum A (Some (x, - y)) B \<Longrightarrow> point_is (add_mixed52_neg_inplace p ax ay) B"
proof -
  let ?q = "\<lparr>qx = ax, qy = ay\<rparr>"
  have "point_jac (add_mixed52_inplace p ax ay) = jac52_add_mixed_inplace (point_jac p) ?q"
    "point_jac (add_mixed52_neg_inplace p ax ay) = jac52_add_mixed_neg_inplace (point_jac p) ?q"
    by (simp_all add: add_mixed52_inplace_def add_mixed52_neg_inplace_def jac52_add_mixed_inplace_def
        jac52_add_mixed_neg_inplace_def jac52_double_inplace_def Let_def point_jac_def split: prod.splits)
  moreover have "\<not> z_one (add_mixed52_inplace p ax ay)" "\<not> is_gen (add_mixed52_inplace p ax ay)"
    "\<not> z_one (add_mixed52_neg_inplace p ax ay)" "\<not> is_gen (add_mixed52_neg_inplace p ax ay)"
    by (simp_all add: add_mixed52_inplace_def add_mixed52_neg_inplace_def Let_def split: prod.splits)
  ultimately show "ec_sum A (Some (x, y)) B \<Longrightarrow> point_is (add_mixed52_inplace p ax ay) B"
    "fe52_mag 1 ay \<Longrightarrow> ec_sum A (Some (x, - y)) B \<Longrightarrow> point_is (add_mixed52_neg_inplace p ax ay) B"
    using add_mixed_jac [OF point_isD(1) [OF P] q] by (auto intro: point_is_jacI)
qed

lemma generator_values:
  "fval kGeneratorX = 0x79BE667EF9DCBBAC55A06295CE870B07029BFCDB2DCE28D959F2815B16F81798"
  "fval kGeneratorY = 0x483ADA7726A3C4655DA4FBFC0E1108A8FD17B448A68554199C47D08FFB10D4B8"
  "eq_p (fval kNegGeneratorY) (- fval kGeneratorY)" "fe_ok kGeneratorX" "fe_ok kGeneratorY" "fe_ok kNegGeneratorY"
proof -
  show x: "fval kGeneratorX = 0x79BE667EF9DCBBAC55A06295CE870B07029BFCDB2DCE28D959F2815B16F81798"
    by (simp add: kGeneratorX_def fe_from_bytes_value be_val_def)
  show y: "fval kGeneratorY = 0x483ADA7726A3C4655DA4FBFC0E1108A8FD17B448A68554199C47D08FFB10D4B8"
    by (simp add: kGeneratorY_def fe_from_bytes_value be_val_def)
  have n: "fval kNegGeneratorY = 0xB7C52588D95C3B9AA25B0403F1EEF75702E84BB7597AABE663B82F6F04EF2777"
    by (simp add: kNegGeneratorY_def fe_from_bytes_value be_val_def)
  show "eq_p (fval kNegGeneratorY) (- fval kGeneratorY)" by (simp add: n y eq_p_dvd)
  show "fe_ok kGeneratorX" "fe_ok kGeneratorY" "fe_ok kNegGeneratorY" by (simp_all add: fe_ok_def x y n)
qed

lemma point_eq_refl [simp]: "point_eq A A"
  by (cases A) (auto simp: point_eq_def)

lemma point_is_cong:
  assumes "point_is p A" "point_eq A B"
  shows "point_is p B"
proof (cases A)
  case None then show ?thesis using assms by (simp add: point_eq_def)
next
  case (Some a)
  obtain x y u v where A: "A = Some (x, y)" and B: "B = Some (u, v)" and e: "eq_p x u" "eq_p y v"
    using assms(2) Some by (cases a; cases B) (auto simp: point_eq_def)
  have "jac (point_jac p) B" using jac_cong [OF _ e] point_isD(1) [OF assms(1)] A B by simp
  moreover have "point_eq A generator_point \<longrightarrow> point_eq B generator_point"
    using e by (auto simp: A B generator_point_def intro: eq_p_trans eq_p_sym)
  ultimately show ?thesis using assms(1) by (auto simp: point_is_def)
qed

lemma ec_sum_cong:
  assumes "ec_sum A B C" "point_eq B B'"
  shows "\<exists>C'. ec_sum A B' C' \<and> point_eq C C'"
  using assms(1)
proof cases
  case left_infinity
  then show ?thesis using assms(2) by auto
next
  case right_infinity
  then have "B' = None" using assms(2) by (simp add: point_eq_def)
  then show ?thesis using right_infinity ec_sum.right_infinity [of A] point_eq_refl by blast
next
  case (chord x2 x1 s y2 y1 x3 y3)
  obtain u v where B': "B' = Some (u, v)" and e: "eq_p x2 u" "eq_p y2 v"
    using assms(2) chord(2) by (cases B') (auto simp: point_eq_def)
  have c: "coprime (u - x1) field_prime" by (rule eq_p_coprime [OF eq_p_diff [OF e(1) eq_p_refl] chord(4)])
  have "eq_p (s * (u - x1)) (s * (x2 - x1))" by (intro eq_p_mult eq_p_diff eq_p_refl eq_p_sym [OF e(1)])
  moreover have "eq_p (y2 - y1) (v - y1)" by (intro eq_p_diff eq_p_refl e(2))
  ultimately have s: "eq_p (s * (u - x1)) (v - y1)" using chord(5) by (blast intro: eq_p_trans)
  have "eq_p x3 (s\<^sup>2 - x1 - u)" by (rule eq_p_trans [OF chord(6)]) (intro eq_p_diff eq_p_refl e(1))
  then have "ec_sum A B' C" unfolding chord(1,3) B' using ec_sum.chord [OF c s _ chord(7)] by simp
  then show ?thesis using point_eq_refl by blast
next
  case (tangent x1 x2 y1 y2 s x3 y3)
  obtain u v where B': "B' = Some (u, v)" and e: "eq_p x2 u" "eq_p y2 v"
    using assms(2) tangent(2) by (cases B') (auto simp: point_eq_def)
  have "ec_sum A B' C" unfolding tangent(1,3) B'
    by (rule ec_sum.tangent [OF eq_p_trans [OF tangent(4) e(1)] eq_p_trans [OF tangent(5) e(2)] tangent(6-9)])
  then show ?thesis using point_eq_refl by blast
next
  case (opposite x1 x2 y1 y2)
  obtain u v where B': "B' = Some (u, v)" and e: "eq_p x2 u" "eq_p y2 v"
    using assms(2) opposite(2) by (cases B') (auto simp: point_eq_def)
  have "eq_p (y1 + v) (y1 + y2)" by (intro eq_p_add eq_p_refl eq_p_sym [OF e(2)])
  then have "eq_p (y1 + v) 0" using opposite(5) by (rule eq_p_trans)
  moreover have "\<not> eq_p y1 v" using opposite(6) e(2) by (blast intro: eq_p_trans eq_p_sym)
  ultimately have "ec_sum A B' C" unfolding opposite(1,3) B' using ec_sum.opposite [OF eq_p_trans [OF opposite(4) e(1)]] by blast
  then show ?thesis using point_eq_refl by blast
qed

lemma from_jacobian52_is: "jac r A \<Longrightarrow> point_is (from_jacobian52 (px r) (py r) (pz r) (infinity r)) A"
proof (cases "infinity r")
  case True
  assume "jac r A"
  then have "A = None" using True by (auto simp: jac_def split: option.splits)
  then show ?thesis using True by (simp add: from_jacobian52_def)
next
  case False
  assume j: "jac r A"
  have "point_jac (point_new52 (px r) (py r) (pz r) False False) = r"
    using False by (cases r) (simp add: point_jac_def point_new52_def)
  then show ?thesis using j False by (auto simp: from_jacobian52_def intro!: point_is_jacI) (simp_all add: point_new52_def)
qed

lemma add_gen_mixed_is:
  assumes "point_is p A" "ec_sum A (Some (fval kGeneratorX, fval y)) B"
  shows "point_is (add_gen_mixed p y) B"
  unfolding add_gen_mixed_def Let_def
  by (rule from_jacobian52_is [OF add_mixed_jac(1) [OF point_isD(1) [OF assms(1)] aff_of_fe assms(2)]])

lemma add_gen_mixed_unset:
  "point_is p A \<Longrightarrow> point_is (p\<lparr>z_one := False\<rparr>) A"
  by (simp add: point_is_def point_jac_def)

lemma point_generator_is: "point_is point_generator generator_point" "point_canonical point_generator"
proof -
  have z: "fe_is 1 (fe52_from_fe (fe_from_u64 1)) 1" using from_fe_is [of "fe_from_u64 1"] by (simp add: one_fe)
  have c: "canonical52 (fe52_from_fe kGeneratorX)" "canonical52 (fe52_from_fe kGeneratorY)"
    using fe52_from_fe_value [of kGeneratorX] fe52_from_fe_value [of kGeneratorY] generator_values(4,5)
    by (simp_all add: canonical52_def fe_ok_def)
  have "jac_is (fe52_from_fe kGeneratorX) (fe52_from_fe kGeneratorY) (fe52_from_fe (fe_from_u64 1)) (fval kGeneratorX, fval kGeneratorY)"
    by (rule jac_affine_is [OF fe_is_mono [OF from_fe_is] fe_is_mono [OF from_fe_is] z]) simp_all
  then show "point_is point_generator generator_point"
    using fe_is_val [OF z] fe_is_mag [OF from_fe_is [of kGeneratorX]] fe_is_mag [OF from_fe_is [of kGeneratorY]]
    by (simp add: point_is_def point_jac_def point_generator_def point_new_def jac_Some generator_point_def Let_def)
  show "point_canonical point_generator"
    using c by (simp add: point_canonical_def point_generator_def point_new_def Let_def)
qed

lemma next_prev_is:
  assumes "point_is p A"
  shows "ec_sum A generator_point B \<Longrightarrow> point_is (point_next p) B"
    "ec_sum A generator_point B \<Longrightarrow> point_is (next_inplace p) B"
    "ec_sum A (ec_neg generator_point) B \<Longrightarrow> point_is (point_prev p) B"
    "ec_sum A (ec_neg generator_point) B \<Longrightarrow> point_is (prev_inplace p) B"
proof -
  have none: "A = None" if "is_infinity p"
    using point_isD(1) [OF assms] that by (auto simp: jac_def split: option.splits)
  note unset = add_gen_mixed_unset [OF assms]
  have neg: "point_eq (ec_neg generator_point) (Some (fval kGeneratorX, fval kNegGeneratorY))"
    using generator_values(3) by (simp add: ec_neg_def generator_point_def eq_p_sym)
  show "point_is (point_next p) B" if "ec_sum A generator_point B"
    using add_gen_mixed_is [OF assms] that by (simp add: point_next_def generator_point_def)
  show "point_is (next_inplace p) B" if "ec_sum A generator_point B"
    using add_gen_mixed_is [OF unset] that none point_generator_is(1) by (auto simp: next_inplace_def Let_def generator_point_def)
  have prev: "point_is (add_gen_mixed q kNegGeneratorY) B" if q: "point_is q A" and S: "ec_sum A (ec_neg generator_point) B" for q
  proof -
    obtain C where C: "ec_sum A (Some (fval kGeneratorX, fval kNegGeneratorY)) C" "point_eq B C"
      using ec_sum_cong [OF S neg] by blast
    have "point_eq C B" using C(2) by (cases B; cases C) (auto simp: point_eq_def eq_p_sym)
    then show ?thesis using point_is_cong [OF add_gen_mixed_is [OF q C(1)]] by simp
  qed
  show "point_is (point_prev p) B" if "ec_sum A (ec_neg generator_point) B"
    using prev [OF assms that] by (simp add: point_prev_def)
  show "point_is (prev_inplace p) B" if "ec_sum A (ec_neg generator_point) B"
    using prev [OF unset that] that none point_negate_is(1) [OF point_generator_is(1)]
    by (auto simp: prev_inplace_def Let_def)
qed

lemma sub_mixed_inplace_is:
  assumes "point_is p A" "ec_sum A (Some (fval ax, - fval ay)) B" "fe_ok ay"
  shows "point_is (sub_mixed_inplace p ax ay) B"
proof -
  have "fe4_is (fe_sub fe_zero ay) (0 - fval ay)"
    by (rule fe4_is_sub) (use assms(3) fe_zero_value in \<open>simp_all add: fe4_is_def\<close>)
  then have "point_eq (Some (fval ax, - fval ay)) (Some (fval ax, fval (fe_sub fe_zero ay)))"
    by (simp add: fe4_is_def eq_p_sym)
  from ec_sum_cong [OF assms(2) this] obtain C
    where C: "ec_sum A (Some (fval ax, fval (fe_sub fe_zero ay))) C" "point_eq B C" by blast
  have "point_eq C B" using C(2) by (cases B; cases C) (auto simp: point_eq_def eq_p_sym)
  then show ?thesis using point_is_cong [OF add_mixed_inplace_is [OF assms(1) C(1)]] by (simp add: sub_mixed_inplace_def)
qed

end
