(* ===== verification/Point_Serial.thy ===== *)
theory Point_Serial
  imports Point_Class Field_Gcd Ct_Field
begin

text \<open>
  What the operations of the class \<open>Point\<close> return: the serialization of a point in every format, alone
  and in a batch that shares one inversion, an implementation of the 4x64 product and the inversions for
  which the laws of \<open>Point_Class\<close> hold, and the theorems on the class.
\<close>

section \<open>Serialization\<close>

lemma fe_is_inverse52:
  assumes "field_impl_laws F" "fe_is 1 a w" "coprime w field_prime"
  obtains v where "fe_is 1 (inverse52 F a) v" "eq_p (v * w) 1" "\<not> fe52_normalizes_to_zero_var (inverse52 F a)"
proof -
  have c: "coprime (fe52_val a) field_prime" by (rule eq_p_coprime [OF eq_p_sym [OF fe_is_val [OF assms(2)]] assms(3)])
  have "fe52_mag 1 a \<and> coprime (fe52_val a) field_prime" using fe_is_mag [OF assms(2)] c by simp
  note i = assms(1) [unfolded field_impl_laws_def, THEN conjunct2, THEN conjunct2, rule_format, OF this]
  define v where "v = fe52_val (inverse52 F a)"
  have v: "fe_is 1 (inverse52 F a) v" unfolding v_def by (rule fe_is_self [OF conjunct1 [OF i]])
  have "eq_p (v * w) (v * fe52_val a)" by (rule eq_p_mult [OF eq_p_refl eq_p_sym [OF fe_is_val [OF assms(2)]]])
  then have vw: "eq_p (v * w) 1" using conjunct2 [OF i] unfolding v_def by (rule eq_p_trans)
  have "\<not> eq_p v 0"
  proof
    assume "eq_p v 0"
    then have "eq_p (v * w) (0 * w)" by (rule eq_p_mult [OF _ eq_p_refl])
    then have "eq_p 1 0" using vw by (auto intro: eq_p_trans eq_p_sym)
    then show False by (simp add: eq_p_def)
  qed
  then show thesis using that [OF v vw] fe_is_zero_test [OF v] by simp
qed

lemma affine_values:
  assumes F: "field_impl_laws F" and J: "jac_is X Y Z (x, y)"
  defines "zi \<equiv> inverse52 F Z"
  shows "\<not> fe52_normalizes_to_zero_var zi" "fe_is 1 (fe52_mul X (fe52_square zi)) x"
    "fe_is 1 (fe52_mul Y (fe52_mul (fe52_square zi) zi)) y"
proof -
  note D = jac_isD [OF J]
  define w where "w = fe52_val Z"
  obtain v where v: "fe_is 1 zi v" "eq_p (v * w) 1" and nz: "\<not> fe52_normalizes_to_zero_var zi"
    unfolding zi_def w_def by (rule fe_is_inverse52 [OF F D(3,4)])
  show "\<not> fe52_normalizes_to_zero_var zi" by (rule nz)
  have z2: "fe_is 1 (fe52_square zi) (v\<^sup>2)" by (rule fe_is_square [OF v(1)]) simp
  have z3: "fe_is 1 (fe52_mul (fe52_square zi) zi) (v\<^sup>2 * v)" by (rule fe_is_mul [OF z2 v(1)]) simp
  have "fe_is 1 (fe52_mul X (fe52_square zi)) (x * w\<^sup>2 * v\<^sup>2)" unfolding w_def by (rule fe_is_mul [OF D(1) z2]) simp
  moreover have "x * w\<^sup>2 * v\<^sup>2 = x * (v * w)\<^sup>2" by algebra
  moreover have "eq_p (x * (v * w)\<^sup>2) (x * 1\<^sup>2)" by (intro eq_p_mult eq_p_power eq_p_refl v(2))
  ultimately show "fe_is 1 (fe52_mul X (fe52_square zi)) x" by (simp add: fe_is_cong)
  have "fe_is 1 (fe52_mul Y (fe52_mul (fe52_square zi) zi)) (y * w ^ 3 * (v\<^sup>2 * v))"
    unfolding w_def by (rule fe_is_mul [OF D(2) z3]) simp
  moreover have e: "y * w ^ 3 * (v\<^sup>2 * v) = y * (v * w) ^ 3" by algebra
  moreover have "eq_p (y * (v * w) ^ 3) (y * 1 ^ 3)" by (intro eq_p_mult eq_p_power eq_p_refl v(2))
  ultimately show "fe_is 1 (fe52_mul Y (fe52_mul (fe52_square zi) zi)) y" unfolding e by (simp add: fe_is_cong)
qed

lemma fe52_low_odd: "fe52_low a AND 1 = 0 \<longleftrightarrow> even (fe52_val a)"
proof (cases a)
  case (FE52 n0 n1 n2 n3 n4)
  have "fe52_val a = uint n0 + 2 * (2 ^ 51 * uint n1 + 2 ^ 103 * uint n2 + 2 ^ 155 * uint n3 + 2 ^ 207 * uint n4)"
    by (simp add: FE52)
  then have e: "even (fe52_val a) \<longleftrightarrow> even (uint n0)" by simp
  have "uint (n0 AND 1) = uint n0 mod 2" using uint_and_mask [of n0 1] by simp
  moreover have "uint (n0 AND 1) = 0 \<longleftrightarrow> n0 AND 1 = 0" by (rule unsigned_eq_0_iff)
  ultimately have "n0 AND 1 = 0 \<longleftrightarrow> even (uint n0)" by (simp only: even_iff_mod_2_eq_zero)
  then show ?thesis using e by (simp add: FE52 fe52_low_def)
qed

text \<open>The bytes and the parity that a canonical element is printed with.\<close>

lemma canonical_bytes:
  assumes "canonical52 a" "eq_p (fe52_val a) v"
  shows "fe52_store_b32_prenorm a = be_bytes 32 (v mod field_prime)" "fe52_low a AND 1 = 0 \<longleftrightarrow> even (v mod field_prime)"
proof -
  have v: "fe52_val a = v mod field_prime"
    using assms fe52_val_nonneg [of a] by (simp add: eq_p_def canonical52_def)
  have "fe52_val a < two256" using assms(1) by (simp add: canonical52_def)
  then show "fe52_store_b32_prenorm a = be_bytes 32 (v mod field_prime)"
    using fe52_store_b32_prenorm_value [of a] assms(1) by (simp add: canonical52_def v)
  show "fe52_low a AND 1 = 0 \<longleftrightarrow> even (v mod field_prime)" by (simp only: fe52_low_odd v)
qed






lemma point_xy_values:
  assumes F: "field_impl_laws F" and P: "point_is p (Some (x, y))"
  shows "fval (point_x F p) = x mod field_prime" "fval (point_y F p) = y mod field_prime"
proof -
  have J: "\<not> is_infinity p" "jac_is (X52 p) (Y52 p) (Z52 p) (x, y)"
    using point_isD(1) [OF P] by (simp_all add: jac_Some)
  have t: "fval (fe52_to_fe a) = v mod field_prime" if "fe_is 1 a v" for a v
    using fe52_to_fe_value [OF fe_is_mag [OF that]] fe_is_val [OF that] by (simp add: eq_p_def)
  show "fval (point_x F p) = x mod field_prime" "fval (point_y F p) = y mod field_prime"
  proof (atomize (full), cases "z_one p")
    case True
    obtain x' y' where "Some (x, y) = Some (x', y')" "fe_is 1 (X52 p) x'" "fe_is 1 (Y52 p) y'"
      by (rule affine_coordinates [OF P True J(1)])
    then show "fval (point_x F p) = x mod field_prime \<and> fval (point_y F p) = y mod field_prime"
      using True J(1) t by (simp add: point_x_def point_y_def)
  next
    case False
    note V = affine_values [OF F J(2)]
    show "fval (point_x F p) = x mod field_prime \<and> fval (point_y F p) = y mod field_prime"
      using False J(1) V(1) t [OF V(2)] t [OF V(3)] by (simp add: point_x_def point_y_def Let_def)
  qed
qed

section \<open>Batches\<close>












lemma finite_point:
  assumes "point_is p A" "\<not> is_infinity p"
  obtains x y where "A = Some (x, y)" "jac_is (X52 p) (Y52 p) (Z52 p) (x, y)"
  using point_isD(1) [OF assms(1)] by (cases rule: jac_cases) (use assms(2) in auto)



lemma affine_point_values:
  assumes F: "field_impl_laws F" and P: "point_is p A" "\<not> is_infinity p"
  obtains x y where "A = Some (x, y)" "fval (point_x F p) = x mod field_prime" "fval (point_y F p) = y mod field_prime"
  using finite_point [OF P] point_xy_values [OF F] P(1) by metis







section \<open>An implementation that satisfies the laws\<close>






section \<open>The class refines the group of points\<close>





text \<open>C22: Addition and subtraction of an affine point given by 4x64 or by 5x52 coordinates.\<close>
theorem point_mixed_spec:
  assumes "point_is p A" "ec_sum A (Some (fval ax, fval ay)) B" "ec_sum A (Some (fval ax, - fval ay)) C" "fe_ok ay"
    and "aff \<lparr>qx = bx, qy = by\<rparr> (x, y)" "ec_sum A (Some (x, y)) D" "fe52_mag 1 by" "ec_sum A (Some (x, - y)) E"
  shows "point_is (add_mixed_inplace p ax ay) B \<and> point_is (add_affine_constant_inplace p ax ay) B
    \<and> point_is (sub_mixed_inplace p ax ay) C
    \<and> point_is (add_mixed52_inplace p bx by) D \<and> point_is (add_mixed52_neg_inplace p bx by) E"
  using add_mixed_inplace_is [OF assms(1,2)] add_mixed_inplace_is [OF add_gen_mixed_unset [OF assms(1)] assms(2)]
    sub_mixed_inplace_is [OF assms(1,3,4)] add_mixed52_is [OF assms(1,5)] assms(6-8)
  by (simp add: add_affine_constant_inplace_def)

theorem point_mixed_spec_witness:
  "point_is (sub_mixed_inplace point_infinity kGeneratorX kGeneratorY) (ec_neg generator_point)"
  using point_mixed_spec [OF point_is_infinity, of kGeneratorX kGeneratorY "Some (fval kGeneratorX, fval kGeneratorY)"
      "Some (fval kGeneratorX, - fval kGeneratorY)" fe52_one fe52_one 1 1 "Some (1, 1)" "Some (1, - 1)"]
    generator_values(5) fe_is_mono [OF one_is(1), of 7] fe_is_mono [OF one_is(1), of 4] fe_is_mag [OF one_is(1)]
  by (simp add: ec_neg_def generator_point_def aff_def)





text \<open>C38: Negation breaks the invariant that the shortcuts for \<open>z = 1\<close> rely on: it reduces the ordinate only
  weakly. The point with ordinate \<open>p - 1\<close> is on the curve; its negation, with ordinate 1, is stored with
  ordinate \<open>p + 1\<close>, so its compressed form has the prefix of an even ordinate and its uncompressed form
  is not canonical.\<close>
theorem point_negate_wrong_parity:
  fixes F :: field_impl
  defines "x \<equiv> FE (Limbs4 0xb24bcbcfaaaff507 0xe80d68167653f6b2 0x35ab7741333ce5a6 0x1fe1e5ef3fceb5c1)"
    and "y \<equiv> FE (Limbs4 0xfffffffefffffc2e 0xffffffffffffffff 0xffffffffffffffff 0xffffffffffffffff)"
  shows "on_curve (Some (fval x, fval y))
    \<and> point_is (point_negate (from_affine x y)) (Some (fval x, 1))
    \<and> to_compressed F (point_negate (from_affine x y)) = 0x02 # fe_to_bytes x
    \<and> has_even_y F (point_negate (from_affine x y))
    \<and> to_uncompressed F (point_negate (from_affine x y)) = 0x04 # fe_to_bytes x @ be_bytes 32 (field_prime + 1)
    \<and> \<not> point_canonical (point_negate (from_affine x y))"
proof -
  have fx: "fval x = 0x1fe1e5ef3fceb5c135ab7741333ce5a6e80d68167653f6b2b24bcbcfaaaff507" by (simp add: x_def)
  have fy: "fval y = field_prime - 1" by (simp add: y_def)
  have yn: "fe52_normalize (fe52_from_fe y) = FE52 0xFFFFEFFFFFC2E M52 M52 M52 M48"
    unfolding y_def by code_simp
  have y1: "fe52_normalize_weak (fe52_negate 1 (fe52_normalize_weak (FE52 0xFFFFEFFFFFC2E M52 M52 M52 M48)))
      = FE52 0xFFFFEFFFFFC30 M52 M52 M52 M48" by code_simp
  have X: "canonical52 (fe52_normalize (fe52_from_fe x))" "fe52_val (fe52_normalize (fe52_from_fe x)) = fval x"
    using canonical_normalize [of 1 "fe52_from_fe x"] fe52_from_fe_value [of x] by (simp_all add: fx)
  have xb: "fe52_store_b32_prenorm (fe52_normalize (fe52_from_fe x)) = fe_to_bytes x"
    using canonical_bytes(1) [OF X(1), of "fval x"] X(2) by (simp add: fe_to_bytes_value fx)
  have yb: "fe52_store_b32_prenorm (FE52 0xFFFFEFFFFFC30 M52 M52 M52 M48) = be_bytes 32 (field_prime + 1)"
    by (subst fe52_store_b32_prenorm_value) (simp_all add: M52_def M48_def)
  define n where "n = point_negate (from_affine x y)"
  have n: "X52 n = fe52_normalize (fe52_from_fe x)" "Y52 n = FE52 0xFFFFEFFFFFC30 M52 M52 M52 M48" "z_one n" "\<not> is_infinity n"
    by (simp_all add: n_def point_negate_def from_affine_def point_new_def point_new52_def Let_def yn y1)
  have "fval x ^ 3 + 6 = field_prime * 25899507534701520581795134778160311015495504093523267263232233975490419224647606583316828070306725531077228335006842549734466553100443339289797036604723"
    by (simp add: fx power3_eq_cube)
  then have "field_prime dvd fval x ^ 3 + 6" by (rule dvdI)
  then have "eq_p 1 (fval x ^ 3 + 7)" by (simp only: eq_p_dvd dvd_diff_commute [of field_prime 1]) (simp add: add.commute)
  moreover have "eq_p ((fval y)\<^sup>2) ((- 1)\<^sup>2)" by (rule eq_p_power) (simp add: fy eq_p_dvd)
  ultimately have "on_curve (Some (fval x, fval y))" by (auto intro: eq_p_trans)
  moreover have "point_eq (ec_neg (Some (fval x, fval y))) (Some (fval x, 1))" by (simp add: ec_neg_def fy eq_p_dvd)
  then have "point_is n (Some (fval x, 1))"
    unfolding n_def by (rule point_is_cong [OF point_negate_is(1) [OF from_affine_is(1)]])
  moreover have "\<not> point_canonical n" using n by (simp add: point_canonical_def canonical52_def M52_def M48_def)
  ultimately show ?thesis
    unfolding n_def [symmetric] using n xb yb
    by (simp add: to_compressed_def to_uncompressed_def has_even_y_def fe52_low_def)
qed

end
