(* ===== verification/Scalar_Naf.thy ===== *)
theory Scalar_Naf
  imports Scalar
begin

text \<open>
  The signed-digit recodings of \<open>scalar.cpp\<close> (\<open>to_naf_into\<close>,
  \<open>to_wnaf_into\<close> and their allocating wrappers). The loops run until the scalar
  is zero; termination is proved for every limb pattern, and the digit strings are
  shown to represent the scalar exactly, to be non-adjacent, and to fit the
  257-entry buffers of the callers.
\<close>

section \<open>The loops\<close>

text \<open>The halving loop over the limbs, most significant first.\<close>

fun limbs_shr1 :: "limbs4 \<Rightarrow> limbs4" where
  "limbs_shr1 (Limbs4 l0 l1 l2 l3) =
     (let carry = 0;
          r3 = drop_bit 1 l3 OR push_bit 63 carry; carry = l3 AND 1;
          r2 = drop_bit 1 l2 OR push_bit 63 carry; carry = l2 AND 1;
          r1 = drop_bit 1 l1 OR push_bit 63 carry; carry = l1 AND 1;
          r0 = drop_bit 1 l0 OR push_bit 63 carry
      in Limbs4 r0 r1 r2 r3)"

definition to_i8 :: "int \<Rightarrow> int" where
  "to_i8 d = (d + 128) mod 256 - 128"

definition naf_step :: "scalar \<Rightarrow> int \<times> scalar" where
  "naf_step k =
     (let limb0 = limb_at (scalar_limbs k) 0;
          (digit, k) =
            (if limb0 AND 1 \<noteq> 0
             then let low_bits = (ucast (limb0 AND 3) :: u8)
                  in if low_bits = 1 \<or> low_bits = 2 then (1, scalar_sub k scalar_one)
                     else (- 1, scalar_add k scalar_one)
             else (0, k))
      in (digit, Scalar (limbs_shr1 (scalar_limbs k))))"

definition wnaf_step :: "nat \<Rightarrow> scalar \<Rightarrow> int \<times> scalar" where
  "wnaf_step width k =
     (let window_size = (2 :: int) ^ width;
          window_mask = (word_of_int (window_size - 1) :: u64);
          window_half = window_size div 2;
          limb0 = limb_at (scalar_limbs k) 0;
          (digit, k) =
            (if limb0 AND 1 \<noteq> 0
             then let digit = uint (limb0 AND window_mask)
                  in if window_half \<le> digit
                     then let digit = digit - window_size
                          in (digit, scalar_add k (from_uint64 (word_of_int (- digit))))
                     else (digit, scalar_sub k (from_uint64 (word_of_int digit)))
             else (0, k))
      in (to_i8 digit, Scalar (limbs_shr1 (scalar_limbs k))))"

lemma shr1_limb: "uint (drop_bit 1 l OR push_bit 63 (c :: u64)) =
    uint l div 2 + 9223372036854775808 * (uint c mod 2)"
proof -
  have "drop_bit 1 l AND push_bit 63 c = 0"
    by (rule bit_word_eqI) (auto simp: bit_simps dest: bit_imp_le_length)
  then have "drop_bit 1 l OR push_bit 63 c = drop_bit 1 l + push_bit 63 c"
    by (rule disjunctive_add_eq_or [symmetric])
  moreover have "uint (push_bit 63 c) = 9223372036854775808 * (uint c mod 2)"
  proof -
    have "uint (push_bit 63 c) = (9223372036854775808 * uint c) mod (9223372036854775808 * 2)"
      by (simp add: push_bit_eq_mult uint_word_ariths mult.commute)
    then show ?thesis by (simp only: mult_mod_right)
  qed
  moreover have "uint (drop_bit 1 l) = uint l div 2" by (simp add: uint_drop_bit_div)
  moreover have "uint l div 2 < 9223372036854775808" using uint_u64 [of l] by simp
  ultimately show ?thesis
    by (simp add: uint_plus_if')
qed

lemma limbs_shr1_value: "limbs_val (limbs_shr1 l) = limbs_val l div 2"
proof -
  obtain l0 l1 l2 l3 where l: "l = Limbs4 l0 l1 l2 l3" by (meson limbs4.exhaust)
  let ?h = "9223372036854775808 :: int"
  define q0 q1 q2 q3 where "q0 = uint l0 div 2" and "q1 = uint l1 div 2"
    and "q2 = uint l2 div 2" and "q3 = uint l3 div 2"
  define r0 r1 r2 r3 where "r0 = uint l0 mod 2" and "r1 = uint l1 mod 2"
    and "r2 = uint l2 mod 2" and "r3 = uint l3 mod 2"
  note qr = q0_def q1_def q2_def q3_def r0_def r1_def r2_def r3_def
  have e: "uint l0 = 2 * q0 + r0" "uint l1 = 2 * q1 + r1" "uint l2 = 2 * q2 + r2"
    "uint l3 = 2 * q3 + r3"
    by (simp_all add: qr)
  have "limbs_val (limbs_shr1 l) = (q0 + ?h * r1) + 18446744073709551616 * (q1 + ?h * r2)
    + 340282366920938463463374607431768211456 * (q2 + ?h * r3)
    + 6277101735386680763835789423207666416102355444464034512896 * q3"
    unfolding qr
    by (simp only: l limbs_shr1.simps Let_def limbs_val.simps shr1_limb uint_and_1) simp
  then have v: "limbs_val l = 2 * limbs_val (limbs_shr1 l) + r0"
    unfolding l limbs_val.simps e by simp
  show ?thesis unfolding v by (simp add: r0_def)
qed

lemma limb0_value: "uint (limb_at l 0) = limbs_val l mod 18446744073709551616"
  using limb_at_div [of 0 l] by simp

lemma limb0_odd: "(limb_at l 0 AND 1 \<noteq> 0) \<longleftrightarrow> odd (limbs_val l)"
proof -
  have "uint (limb_at l 0 AND 1) = limbs_val l mod 2"
    by (simp only: uint_and_1 limb0_value) (simp add: mod_mod_cancel)
  then show ?thesis by (simp add: word_uint_eq_iff odd_iff_mod_2_eq_one)
qed

lemma limbs_shr1_sval: "sval (Scalar (limbs_shr1 (scalar_limbs k))) = sval k div 2"
  by (simp add: limbs_shr1_value)

lemma from_uint64_value: "sval (from_uint64 v) = uint v"
  by (simp add: from_uint64_def)

lemma from_uint64_small: "0 \<le> d \<Longrightarrow> d < 1000 \<Longrightarrow> sval (from_uint64 (word_of_int d)) = d"
  by (simp add: from_uint64_value uint_word_of_int)

lemma width_cases: "2 \<le> w \<Longrightarrow> w \<le> 8 \<Longrightarrow> w \<in> {2, 3, 4, 5, 6, 7, 8 :: nat}"
  by auto

lemma limb0_window:
  "w \<le> 8 \<Longrightarrow> uint (limb_at l 0 AND word_of_int (2 ^ w - 1)) = limbs_val l mod 2 ^ w"
proof -
  assume w: "w \<le> 8"
  have "(word_of_int (2 ^ w - 1) :: u64) = mask w"
    by (simp add: mask_eq_exp_minus_1)
  then have "uint (limb_at l 0 AND word_of_int (2 ^ w - 1)) = limbs_val l mod 2 ^ 64 mod 2 ^ w"
    by (simp add: uint_and_mask limb0_value)
  also have "\<dots> = limbs_val l mod 2 ^ w"
    using w by (intro mod_mod_cancel le_imp_power_dvd) simp
  finally show ?thesis .
qed

text \<open>
  Rounding an odd scalar up to the next multiple of the window does not reach the
  group order, so the modular addition in the loop is the integer addition.
\<close>

lemma round_up_below_order:
  assumes w: "2 \<le> w" "w \<le> 8" and k: "0 \<le> k" "k < group_order" "odd k"
    and half: "2 ^ w div 2 \<le> k mod 2 ^ w"
  shows "k + (2 ^ w - k mod 2 ^ w) < (group_order :: int)"
proof -
  define q r where "q = k div 2 ^ w" and "r = k mod 2 ^ w"
  have kqr: "k = 2 ^ w * q + r" by (simp add: q_def r_def)
  have odd_r: "odd r"
  proof -
    have "even ((2 :: int) ^ w * q)" using w(1) by simp
    then show ?thesis using k(3) kqr by simp
  qed
  have r64: "r \<noteq> 64" using odd_r by auto
  have rb: "0 \<le> r" "r < 2 ^ w" by (simp_all add: r_def)
  have "(group_order :: int) mod 2 ^ w \<le> r \<and> 1 \<le> (group_order :: int) mod 2 ^ w"
    using width_cases [OF w] half [folded r_def] r64 by auto
  moreover have "2 ^ w * q + r < 2 ^ w * (group_order div 2 ^ w) + (group_order :: int) mod 2 ^ w"
    using k(2) kqr by simp
  ultimately have "2 ^ w * q < 2 ^ w * ((group_order :: int) div 2 ^ w)"
    "1 \<le> (group_order :: int) mod 2 ^ w"
    by linarith+
  then have "2 ^ w * (q + 1) \<le> 2 ^ w * ((group_order :: int) div 2 ^ w)"
    by simp
  also have "\<dots> < group_order"
    using mult_div_mod_eq [of "2 ^ w" "group_order :: int"] \<open>1 \<le> group_order mod 2 ^ w\<close> by linarith
  finally show ?thesis using kqr by (simp add: r_def algebra_simps)
qed

lemma wnaf_step_even:
  assumes "even (sval k)"
  shows "wnaf_step w k = (0, Scalar (limbs_shr1 (scalar_limbs k)))"
  using assms limb0_odd [of "scalar_limbs k"]
  by (simp add: wnaf_step_def Let_def to_i8_def)

lemma wnaf_step_odd:
  assumes w: "2 \<le> w" "w \<le> 8" and ok: "scalar_ok k" and o: "odd (sval k)"
    and st: "wnaf_step w k = (d, k')"
  shows "sval k = d + 2 * sval k'" "odd d" "\<bar>d\<bar> < 2 ^ w div 2" "2 ^ w div 2 dvd sval k'"
    "scalar_ok k'"
    "d = (if 2 ^ w div 2 \<le> sval k mod 2 ^ w then sval k mod 2 ^ w - 2 ^ w else sval k mod 2 ^ w)"
proof -
  let ?W = "(2 :: int) ^ w" and ?r = "sval k mod 2 ^ w"
  have W: "?W \<in> {4, 8, 16, 32, 64, 128, 256}" using width_cases [OF w] by auto
  have kb: "0 \<le> sval k" "sval k < group_order"
    using ok limbs_val_bounds [of "scalar_limbs k"] by (auto simp: scalar_ok_def)
  have rb: "0 \<le> ?r" "?r < ?W" by simp_all
  have dvdW: "even ?W" using w(1) by simp
  have odd_r: "odd ?r" using o dvdW by (simp add: odd_iff_mod_2_eq_one mod_mod_cancel)
  have halfE: "even (?W div 2)" "?W = 2 * (?W div 2)" using W by auto
  define j where "j = (if ?W div 2 \<le> ?r then scalar_add k (from_uint64 (word_of_int (?W - ?r)))
                       else scalar_sub k (from_uint64 (word_of_int ?r)))"
  define d0 where "d0 = (if ?W div 2 \<le> ?r then ?r - ?W else ?r)"
  have d0b: "- 128 \<le> d0" "d0 < 128" "\<bar>d0\<bar> \<le> ?W div 2"
    using W rb by (auto simp: d0_def)
  have r_half: "?r \<noteq> ?W div 2" using odd_r halfE(1) by auto
  have d0s: "\<bar>d0\<bar> < ?W div 2"
    using W rb r_half by (auto simp: d0_def)
  have "(d0 + 128) mod 256 = d0 + 128"
    using d0b by (intro mod_pos_pos_trivial) auto
  then have i8: "to_i8 d0 = d0" by (simp add: to_i8_def)
  have step: "wnaf_step w k = (d0, Scalar (limbs_shr1 (scalar_limbs j)))"
    unfolding wnaf_step_def Let_def limb0_window [OF w(2)]
    using o i8 by (simp add: limb0_odd j_def d0_def split: if_splits)
  have sj: "sval j = sval k - d0"
  proof (cases "?W div 2 \<le> ?r")
    case True
    have lt: "sval k + (?W - ?r) < group_order"
      by (rule round_up_below_order [OF w kb o True])
    have s: "sval (from_uint64 (word_of_int (?W - ?r))) = ?W - ?r"
      using W rb by (intro from_uint64_small) auto
    then show ?thesis
      using True lt kb rb by (simp add: j_def d0_def scalar_add_def add_impl_value)
  next
    case False
    have s: "sval (from_uint64 (word_of_int ?r)) = ?r"
      using W rb by (intro from_uint64_small) auto
    have "?r \<le> sval k" using kb(1) by (simp add: zmod_le_nonneg_dividend)
    then show ?thesis
      using False s by (simp add: j_def d0_def scalar_sub_def sub_impl_value)
  qed
  have Wdvd: "?W dvd sval j"
    using sj by (auto simp: d0_def mod_eq_dvd_iff [symmetric] intro: dvd_minus_mod)
  have k': "d = d0" "sval k' = sval j div 2"
    using st step limbs_shr1_sval [of j] by auto
  have ev: "even (sval j)" using Wdvd dvdW by (rule dvd_trans [rotated])
  show "sval k = d + 2 * sval k'" using sj ev by (simp add: k')
  show "odd d" using odd_r dvdW by (simp add: k' d0_def)
  show "\<bar>d\<bar> < ?W div 2" using d0s by (simp add: k')
  show "?W div 2 dvd sval k'"
  proof -
    have "2 * (?W div 2) dvd 2 * sval k'" using Wdvd ev halfE(2) by (simp add: k')
    then show ?thesis by simp
  qed
  show "scalar_ok k'"
    using sj kb d0b(1) by (simp add: k' scalar_ok_def)
  show "d = (if ?W div 2 \<le> ?r then ?r - ?W else ?r)" by (simp add: k' d0_def)
qed

lemma low_bits_value: "uint (ucast (limb_at l 0 AND 3) :: u8) = limbs_val l mod 4"
proof -
  have "(3 :: u64) = mask 2" by (simp add: mask_eq_exp_minus_1)
  then have "uint (limb_at l 0 AND 3) = limbs_val l mod 18446744073709551616 mod 2 ^ 2"
    by (simp only: uint_and_mask limb0_value)
  then have "uint (limb_at l 0 AND 3) = limbs_val l mod 4"
    by (simp add: mod_mod_cancel)
  then have "uint (ucast (limb_at l 0 AND 3) :: u8) = limbs_val l mod 4 mod 256"
    by (simp only: uint_ucast_mod) simp
  then show ?thesis by (simp add: mod_mod_cancel)
qed

lemma odd_mod4: "odd (x :: int) \<Longrightarrow> x mod 4 = 1 \<or> x mod 4 = 3"
  by presburger

text \<open>A NAF step is a width-2 window step.\<close>

lemma naf_step_wnaf: "naf_step k = wnaf_step 2 k"
proof (cases "odd (sval k)")
  case False
  then show ?thesis
    using wnaf_step_even [of k 2] limb0_odd [of "scalar_limbs k"] by (simp add: naf_step_def Let_def)
next
  case True
  let ?l = "scalar_limbs k"
  have lb: "((ucast (limb_at ?l 0 AND 3) :: u8) = 1 \<or> (ucast (limb_at ?l 0 AND 3) :: u8) = 2)
      \<longleftrightarrow> sval k mod 4 = 1"
    using odd_mod4 [OF True] by (auto simp only: word_uint_eq_iff low_bits_value) simp_all
  have one: "from_uint64 1 = scalar_one"
    by (simp add: from_uint64_def scalar_one_def ONE_def)
  have w: "uint (limb_at ?l 0 AND word_of_int (2 ^ 2 - 1)) = sval k mod 4"
    using limb0_window [of 2 ?l] by simp
  show ?thesis
    unfolding naf_step_def wnaf_step_def Let_def lb w
    using True odd_mod4 [OF True] by (auto simp: limb0_odd to_i8_def one)
qed

text \<open>Every step decreases the integer, whether or not the limbs are reduced.\<close>

lemma wnaf_step_less:
  assumes w: "2 \<le> w" "w \<le> 8" and nz: "\<not> is_zero k"
  shows "sval (snd (wnaf_step w k)) < sval k"
proof (cases "even (sval k)")
  case True
  have "0 < sval k"
    using nz limbs_val_bounds [of "scalar_limbs k"] unfolding is_zero_iff by linarith
  then show ?thesis
    using True by (simp add: wnaf_step_even limbs_shr1_value int_div_less_self)
next
  case False
  let ?W = "(2 :: int) ^ w" and ?r = "sval k mod 2 ^ w"
  have W: "?W \<in> {4, 8, 16, 32, 64, 128, 256}" using width_cases [OF w] by auto
  have rb: "0 \<le> ?r" "?r < ?W" by simp_all
  have odd_r: "odd ?r" using False w(1) by (simp add: odd_iff_mod_2_eq_one mod_mod_cancel)
  have rk: "?r \<le> sval k"
    using limbs_val_bounds [of "scalar_limbs k"] by (simp add: zmod_le_nonneg_dividend)
  define j where "j = (if ?W div 2 \<le> ?r then scalar_add k (from_uint64 (word_of_int (?W - ?r)))
                       else scalar_sub k (from_uint64 (word_of_int ?r)))"
  have "snd (wnaf_step w k) = Scalar (limbs_shr1 (scalar_limbs j))"
    unfolding wnaf_step_def Let_def limb0_window [OF w(2)]
    using False by (simp add: limb0_odd j_def split: if_splits)
  then have k': "sval (snd (wnaf_step w k)) = sval j div 2"
    using limbs_shr1_sval [of j] by simp
  have "sval j < 2 * sval k"
  proof (cases "?W div 2 \<le> ?r")
    case True
    have s: "sval (from_uint64 (word_of_int (?W - ?r))) = ?W - ?r"
      using W rb by (intro from_uint64_small) auto
    have half: "?W - ?r < ?r"
    proof -
      have "?W = 2 * (?W div 2)" "even (?W div 2)" using W by auto
      then have "?r \<noteq> ?W div 2" using odd_r by auto
      then show ?thesis using True \<open>?W = 2 * (?W div 2)\<close> by linarith
    qed
    have "sval j \<le> sval k + (?W - ?r)"
      using True s rb limbs_val_bounds [of "scalar_limbs k"]
      by (simp add: j_def scalar_add_def add_impl_value)
        (smt (verit) zmod_le_nonneg_dividend)
    then show ?thesis using half rk by linarith
  next
    case lo: False
    have s: "sval (from_uint64 (word_of_int ?r)) = ?r"
      using W rb by (intro from_uint64_small) auto
    have "?r \<noteq> 0" using odd_r by auto
    then have "0 < ?r" using rb(1) by linarith
    then show ?thesis
      using lo s rk by (simp add: j_def scalar_sub_def sub_impl_value)
  qed
  then show ?thesis using k' by simp
qed

function naf_loop :: "scalar \<Rightarrow> int list" where
  "naf_loop k =
     (if is_zero k then []
      else let (digit, k') = naf_step k in digit # naf_loop k')"
  by pat_completeness auto
termination
proof (relation "measure (\<lambda>k. nat (sval k))")
  fix k p d k'
  assume nz: "\<not> is_zero k" and p: "p = naf_step k" "(d, k') = p"
  then have "sval k' < sval k"
    using wnaf_step_less [of 2 k] by (simp add: naf_step_wnaf) (metis snd_conv)
  then show "(k', k) \<in> measure (\<lambda>k. nat (sval k))"
    using limbs_val_bounds [of "scalar_limbs k'"] by simp
qed simp

function wnaf_loop :: "nat \<Rightarrow> scalar \<Rightarrow> int list" where
  "wnaf_loop width k =
     (if width < 2 \<or> 8 < width \<or> is_zero k then []
      else let (digit, k') = wnaf_step width k in digit # wnaf_loop width k')"
  by pat_completeness auto
termination
proof (relation "measure (\<lambda>(w, k). nat (sval k))")
  fix w k p d k'
  assume a: "\<not> (w < 2 \<or> 8 < w \<or> is_zero k)" and p: "p = wnaf_step w k" "(d, k') = p"
  then have "sval k' < sval k"
    using wnaf_step_less [of w k] by simp (metis snd_conv)
  then show "((w, k'), w, k) \<in> measure (\<lambda>(w, k). nat (sval k))"
    using limbs_val_bounds [of "scalar_limbs k'"] by simp
qed simp

declare naf_loop.simps [simp del] wnaf_loop.simps [simp del]

definition to_naf_into :: "scalar \<Rightarrow> int list" where
  "to_naf_into k = naf_loop k"

definition to_wnaf_into :: "scalar \<Rightarrow> nat \<Rightarrow> int list" where
  "to_wnaf_into k width = (if width < 2 \<or> 8 < width then [] else wnaf_loop width k)"

definition to_wnaf :: "scalar \<Rightarrow> nat \<Rightarrow> exn + int list" where
  "to_wnaf k width =
     (if width < 2 \<or> 8 < width
      then Inl (Invalid_argument ''wNAF width must be between 2 and 8'')
      else Inr (to_wnaf_into k width))"

section \<open>What the digit strings represent\<close>

primrec digits_val :: "int list \<Rightarrow> int" where
  "digits_val [] = 0"
| "digits_val (d # ds) = d + 2 * digits_val ds"

primrec non_adjacent :: "nat \<Rightarrow> int list \<Rightarrow> bool" where
  "non_adjacent w [] = True"
| "non_adjacent w (d # ds) \<longleftrightarrow>
     (d \<noteq> 0 \<longrightarrow> (\<forall>x \<in> set (take (w - 1) ds). x = 0)) \<and> non_adjacent w ds"

definition window_digit :: "nat \<Rightarrow> int \<Rightarrow> bool" where
  "window_digit w d \<longleftrightarrow> d = 0 \<or> odd d \<and> \<bar>d\<bar> < 2 ^ w div 2"

lemma naf_loop_wnaf: "naf_loop k = wnaf_loop 2 k"
proof (induction k rule: naf_loop.induct)
  case (1 k)
  show ?case
    using 1 by (subst naf_loop.simps, subst wnaf_loop.simps)
      (auto simp: naf_step_wnaf split: prod.split)
qed

lemma scalar_ok_half: "scalar_ok k \<Longrightarrow> scalar_ok (Scalar (limbs_shr1 (scalar_limbs k)))"
  using limbs_val_bounds [of "scalar_limbs k"] by (simp add: scalar_ok_def limbs_shr1_value)

lemma wnaf_step_props:
  assumes w: "2 \<le> w" "w \<le> 8" and ok: "scalar_ok k" and st: "wnaf_step w k = (d, k')"
  shows "sval k = d + 2 * sval k'" "scalar_ok k'" "window_digit w d"
    "d \<noteq> 0 \<Longrightarrow> 2 ^ (w - 1) dvd sval k'"
proof -
  have pw: "(2 :: int) ^ w div 2 = 2 ^ (w - 1)"
    using w(1) by (cases w) auto
  have "sval k = d + 2 * sval k' \<and> scalar_ok k' \<and> window_digit w d
      \<and> (d \<noteq> 0 \<longrightarrow> 2 ^ (w - 1) dvd sval k')"
  proof (cases "even (sval k)")
    case True
    then have "d = 0" "k' = Scalar (limbs_shr1 (scalar_limbs k))"
      using st by (simp_all add: wnaf_step_even)
    then show ?thesis
      using True ok scalar_ok_half [OF ok]
      by (simp add: limbs_shr1_value window_digit_def)
  next
    case False
    note p = wnaf_step_odd [OF w ok False st]
    show ?thesis using p(1-5) by (simp add: window_digit_def pw)
  qed
  then show "sval k = d + 2 * sval k'" "scalar_ok k'" "window_digit w d"
    "d \<noteq> 0 \<Longrightarrow> 2 ^ (w - 1) dvd sval k'" by auto
qed

lemma wnaf_loop_digits:
  "2 \<le> w \<Longrightarrow> w \<le> 8 \<Longrightarrow> scalar_ok k \<Longrightarrow>
     digits_val (wnaf_loop w k) = sval k \<and> (\<forall>d \<in> set (wnaf_loop w k). window_digit w d)"
proof (induction w k rule: wnaf_loop.induct)
  case (1 w k)
  show ?case
  proof (cases "is_zero k")
    case True
    then show ?thesis using "1.prems" by (subst (1 2) wnaf_loop.simps) (simp add: is_zero_iff)
  next
    case False
    obtain d k' where st: "wnaf_step w k = (d, k')" by (rule prod.exhaust)
    note p = wnaf_step_props [OF "1.prems" st]
    have "digits_val (wnaf_loop w k') = sval k' \<and> (\<forall>d \<in> set (wnaf_loop w k'). window_digit w d)"
      using "1.IH" [OF _ st [symmetric]] False "1.prems" p(2) by simp
    moreover have "wnaf_loop w k = d # wnaf_loop w k'"
      using False "1.prems" st by (subst wnaf_loop.simps) simp
    ultimately show ?thesis using p by simp
  qed
qed

lemma wnaf_loop_zeros:
  assumes "2 \<le> w" "w \<le> 8"
  shows "2 ^ m dvd sval k \<Longrightarrow> \<forall>x \<in> set (take m (wnaf_loop w k)). x = 0"
proof (induction m arbitrary: k)
  case 0
  then show ?case by simp
next
  case (Suc m)
  show ?case
  proof (cases "is_zero k")
    case True
    then show ?thesis by (subst wnaf_loop.simps) simp
  next
    case False
    have e: "even (sval k)" using Suc.prems by (rule dvd_trans [rotated]) simp
    let ?k = "Scalar (limbs_shr1 (scalar_limbs k))"
    have "wnaf_loop w k = 0 # wnaf_loop w ?k"
      using False assms e by (subst wnaf_loop.simps) (simp add: wnaf_step_even)
    moreover have "2 ^ m dvd sval ?k"
      using Suc.prems by (auto simp: limbs_shr1_value dvd_def)
    ultimately show ?thesis using Suc.IH [of ?k] by simp
  qed
qed

lemma wnaf_loop_non_adjacent:
  "2 \<le> w \<Longrightarrow> w \<le> 8 \<Longrightarrow> scalar_ok k \<Longrightarrow> non_adjacent w (wnaf_loop w k)"
proof (induction w k rule: wnaf_loop.induct)
  case (1 w k)
  show ?case
  proof (cases "is_zero k")
    case True
    then show ?thesis by (subst wnaf_loop.simps) simp
  next
    case False
    obtain d k' where st: "wnaf_step w k = (d, k')" by (rule prod.exhaust)
    note p = wnaf_step_props [OF "1.prems" st]
    have "non_adjacent w (wnaf_loop w k')"
      using "1.IH" [OF _ st [symmetric]] False "1.prems" p(2) by simp
    moreover have "wnaf_loop w k = d # wnaf_loop w k'"
      using False "1.prems" st by (subst wnaf_loop.simps) simp
    ultimately show ?thesis
      using p(4) wnaf_loop_zeros [OF "1.prems"(1,2), of "w - 1" k'] by simp
  qed
qed

lemma wnaf_loop_length:
  "2 \<le> w \<Longrightarrow> w \<le> 8 \<Longrightarrow> scalar_ok k \<Longrightarrow> sval k \<le> 2 ^ m \<Longrightarrow> length (wnaf_loop w k) \<le> Suc m"
proof (induction m arbitrary: k)
  case 0
  obtain d k' where st: "wnaf_step w k = (d, k')" by (rule prod.exhaust)
  show ?case
  proof (cases "is_zero k")
    case True
    then show ?thesis by (subst wnaf_loop.simps) simp
  next
    case False
    then have one: "sval k = 1"
      using "0.prems" limbs_val_bounds [of "scalar_limbs k"] by (simp add: is_zero_iff)
    have W: "(2 :: int) ^ w \<in> {4, 8, 16, 32, 64, 128, 256}" using width_cases [OF "0.prems"(1,2)] by auto
    have "d = 1" using wnaf_step_odd(6) [OF "0.prems"(1,2,3) _ st] one W "0.prems"(1) by auto
    then have "is_zero k'"
      using wnaf_step_props(1) [OF "0.prems"(1,2,3) st] one by (simp add: is_zero_iff)
    then have "wnaf_loop w k' = []" by (subst wnaf_loop.simps) simp
    then show ?thesis using False st by (subst wnaf_loop.simps) simp
  qed
next
  case (Suc m)
  obtain d k' where st: "wnaf_step w k = (d, k')" by (rule prod.exhaust)
  note p = wnaf_step_props [OF Suc.prems(1,2,3) st]
  have len: "length (wnaf_loop w k) \<le> Suc (length (wnaf_loop w k'))"
    using st by (subst wnaf_loop.simps) simp
  show ?case
  proof (cases "sval k' \<le> 2 ^ m")
    case True
    then show ?thesis using Suc.IH [OF Suc.prems(1,2) p(2)] len by simp
  next
    case False
    have o: "odd (sval k)"
    proof
      assume "even (sval k)"
      then have "d = 0" using st by (simp add: wnaf_step_even)
      then show False using False Suc.prems(4) p(1) by simp
    qed
    note q = wnaf_step_odd [OF Suc.prems(1,2,3) o st]
    have "2 ^ w div 2 \<le> sval k mod 2 ^ w"
    proof (rule ccontr)
      assume "\<not> 2 ^ w div 2 \<le> sval k mod 2 ^ w"
      then have "d = sval k mod 2 ^ w" using q(6) by simp
      then have "0 \<le> d" by simp
      then show False using q(1) False Suc.prems(4) by simp
    qed
    then have "d = sval k mod 2 ^ w - 2 ^ w" using q(6) by (simp only: if_True)
    then have d: "sval k + (2 ^ w - sval k mod 2 ^ w) = 2 * sval k'"
      using q(1) by linarith
    have "w \<le> Suc m"
    proof (rule ccontr)
      assume "\<not> w \<le> Suc m"
      then have "(2 :: int) ^ Suc m \<le> 2 ^ (w - 1)"
        by (intro power_increasing) auto
      moreover have pw: "(2 :: int) ^ w div 2 = 2 ^ (w - 1)"
        using Suc.prems(1) by (cases w) auto
      ultimately have "sval k = 2 ^ Suc m"
        using \<open>2 ^ w div 2 \<le> sval k mod 2 ^ w\<close> Suc.prems(4)
          limbs_val_bounds [of "scalar_limbs k"] zmod_le_nonneg_dividend [of "sval k" "2 ^ w"] by linarith
      then show False using o by simp
    qed
    then have dv: "(2 :: int) ^ w dvd 2 ^ Suc m" by (rule le_imp_power_dvd)
    have "(2 :: int) ^ w dvd (sval k - sval k mod 2 ^ w) + 2 ^ w"
      by (intro dvd_add dvd_minus_mod dvd_refl)
    then have "(2 :: int) ^ w dvd 2 * sval k'"
      unfolding d [symmetric] by (simp only: algebra_simps)
    with dv obtain a b where ab: "(2 :: int) ^ Suc m = 2 ^ w * a" "2 * sval k' = 2 ^ w * b"
      by (auto simp: dvd_def)
    have "sval k < 2 ^ Suc m" using Suc.prems(4) o by (cases "sval k = 2 ^ Suc m") auto
    moreover have "sval k mod 2 ^ w > 0"
      using \<open>2 ^ w div 2 \<le> sval k mod 2 ^ w\<close> Suc.prems(1) width_cases [OF Suc.prems(1,2)] by auto
    ultimately have "2 ^ w * b < 2 ^ w * a + 2 ^ w" using d ab by linarith
    then have "2 ^ w * b < 2 ^ w * (a + 1)" by (simp add: algebra_simps)
    then have "b \<le> a" by simp
    then have "2 ^ w * b \<le> (2 :: int) ^ w * a" by (rule mult_left_mono) simp
    then have "2 * sval k' \<le> 2 ^ Suc m" unfolding ab .
    then show ?thesis using False by simp
  qed
qed

section \<open>Properties\<close>

text \<open>C35: for every width the code accepts, the window recoding of a canonical scalar
  represents it exactly (no wrap-around modulo the group order), each digit is zero or odd and below
  half the window in magnitude, and after a non-zero digit the next width - 1 digits are zero.\<close>
theorem wnaf_recoding_correct:
  assumes "2 \<le> w" "w \<le> 8" "scalar_ok k"
  shows "digits_val (to_wnaf_into k w) = sval k
       \<and> (\<forall>d \<in> set (to_wnaf_into k w). window_digit w d)
       \<and> non_adjacent w (to_wnaf_into k w)"
  using assms wnaf_loop_digits [OF assms] wnaf_loop_non_adjacent [OF assms]
  by (simp add: to_wnaf_into_def)

theorem wnaf_recoding_correct_witness:
  "digits_val (to_wnaf_into scalar_one 5) = 1 \<and> non_adjacent 5 (to_wnaf_into scalar_one 5)"
  using wnaf_recoding_correct [of 5 scalar_one] by (simp add: scalar_ok_one)

text \<open>the recoding of a canonical scalar never writes more than the 257 digits of the
  caller's buffer, whatever the width; an unsupported width is refused with the exception and writes
  nothing.\<close>
theorem wnaf_fits_buffer:
  assumes "scalar_ok k"
  shows "length (to_wnaf_into k w) \<le> 257
       \<and> (w < 2 \<or> 8 < w \<longleftrightarrow> to_wnaf k w = Inl (Invalid_argument ''wNAF width must be between 2 and 8''))"
proof -
  have "sval k \<le> 2 ^ 256" using assms by (simp add: scalar_ok_def)
  then have "2 \<le> w \<Longrightarrow> w \<le> 8 \<Longrightarrow> length (wnaf_loop w k) \<le> Suc 256"
    using wnaf_loop_length [of w k 256] assms by blast
  then show ?thesis by (auto simp: to_wnaf_into_def to_wnaf_def)
qed

theorem wnaf_fits_buffer_witness: "length (to_wnaf_into scalar_one 4) \<le> 257"
  using wnaf_fits_buffer [OF scalar_ok_one(1), of 4] by simp

text \<open>the dedicated NAF loop computes the same digit string as the width-2 window
  recoding, for every limb pattern.\<close>
theorem naf_equals_wnaf_2: "to_naf_into k = to_wnaf_into k 2"
  by (simp add: to_naf_into_def to_wnaf_into_def naf_loop_wnaf)

end
