(* ===== verification/Ecdsa_Sig.thy ===== *)
theory Ecdsa_Sig
  imports Ct_Scalar Hash_Stream
begin

text \<open>
  ECDSA signatures as byte strings: \<open>ecdsa.cpp\<close> writes the compact and the DER forms, compares \<open>s\<close> with
  half the order in two ways and normalises it; \<open>ufsecp_ecdsa_sig_from_der\<close> and
  \<open>ufsecp_ecdsa_sig_to_der\<close> (\<open>impl/ufsecp_ecdsa.cpp\<close>) convert between the two forms. The strict parser
  accepts exactly what the writer produces. An error of the C interface is its message on the left.
\<close>

section \<open>The compact form\<close>

definition sig_to_compact :: "ECDSASignature \<Rightarrow> bytes" where
  "sig_to_compact sig =
     (let out = replicate 64 0;
          out = memcpy_at out 0 (to_bytes (sig_r sig))
      in memcpy_at out 32 (to_bytes (sig_s sig)))"

definition sig_from_compact :: "bytes \<Rightarrow> ECDSASignature" where
  "sig_from_compact data64 =
     \<lparr>sig_r = from_bytes (take 32 data64), sig_s = from_bytes (drop 32 data64)\<rparr>"

definition sig_parse_compact_strict :: "bytes \<Rightarrow> ECDSASignature option" where
  "sig_parse_compact_strict data64 =
     (case parse_bytes_strict_nonzero (take 32 data64) of
        None \<Rightarrow> None
      | Some r_val \<Rightarrow>
          (case parse_bytes_strict_nonzero (drop 32 data64) of
             None \<Rightarrow> None
           | Some s_val \<Rightarrow> Some \<lparr>sig_r = r_val, sig_s = s_val\<rparr>))"

section \<open>Low \<open>s\<close>\<close>

definition sig_normalize :: "ECDSASignature \<Rightarrow> ECDSASignature" where
  "sig_normalize sig = ct_normalize_low_s sig"

text \<open>The loop of \<open>is_low_s\<close> from the top limb; \<open>rest\<close> is its result for the limbs below.\<close>

definition low_s_limb :: "u64 \<Rightarrow> u64 \<Rightarrow> bool \<Rightarrow> bool" where
  "low_s_limb s h rest = (if s < h then True else if h < s then False else rest)"

fun sig_is_low_s :: "ECDSASignature \<Rightarrow> bool" where
  "sig_is_low_s sig =
     (case scalar_limbs (sig_s sig) of Limbs4 s0 s1 s2 s3 \<Rightarrow>
      case HALF_N of Limbs4 h0 h1 h2 h3 \<Rightarrow>
        low_s_limb s3 h3 (low_s_limb s2 h2 (low_s_limb s1 h1 (low_s_limb s0 h0 True))))"

definition low_s_ct_step :: "u64 \<Rightarrow> u64 \<Rightarrow> u64 \<times> u64 \<Rightarrow> u64 \<times> u64" where
  "low_s_ct_step s h st =
     (case st of (lo, hi) \<Rightarrow>
        let undecided = NOT (hi OR lo)
        in (lo OR (undecided AND bool_to_mask (s < h)), hi OR (undecided AND bool_to_mask (h < s))))"

definition sig_is_low_s_ct :: "ECDSASignature \<Rightarrow> bool" where
  "sig_is_low_s_ct sig =
     (case scalar_limbs (sig_s sig) of Limbs4 s0 s1 s2 s3 \<Rightarrow>
      case HALF_N of Limbs4 h0 h1 h2 h3 \<Rightarrow>
        let undecided = - 1;
            lo = undecided AND bool_to_mask (s3 < h3);
            hi = undecided AND bool_to_mask (h3 < s3);
            (lo, hi) = low_s_ct_step s2 h2 (lo, hi);
            (lo, hi) = low_s_ct_step s1 h1 (lo, hi);
            (lo, hi) = low_s_ct_step s0 h0 (lo, hi)
        in lo \<noteq> 0 \<or> hi = 0)"

section \<open>The DER form\<close>

text \<open>\<open>while (start < 31 && val[start] == 0)\<close>.\<close>

function der_start :: "bytes \<Rightarrow> nat \<Rightarrow> nat" where
  "der_start val start = (if start < 31 \<and> val ! start = 0 then der_start val (start + 1) else start)"
  by pat_completeness auto
termination by (relation "measure (\<lambda>(val, start). 31 - start)") auto

declare der_start.simps [simp del]

definition der_encode_int :: "bytes \<Rightarrow> bytes" where
  "der_encode_int val =
     (let start = der_start val 0;
          need_pad = (val ! start AND 0x80 \<noteq> 0);
          len = 32 - start + (if need_pad then 1 else 0)
      in [0x02, of_nat len] @ (if need_pad then [0x00] else []) @ drop start val)"

definition sig_to_der :: "ECDSASignature \<Rightarrow> bytes \<times> nat" where
  "sig_to_der sig =
     (let r_enc = der_encode_int (to_bytes (sig_r sig));
          s_enc = der_encode_int (to_bytes (sig_s sig));
          r_len = length r_enc;
          s_len = length s_enc;
          buf = replicate 72 0;
          buf = buf[0 := 0x30];
          buf = buf[1 := of_nat (r_len + s_len)];
          buf = memcpy_at buf 2 r_enc;
          buf = memcpy_at buf (2 + r_len) s_enc
      in (buf, 2 + r_len + s_len))"

definition der_parse_int :: "bytes \<Rightarrow> nat \<Rightarrow> string + bytes \<times> nat" where
  "der_parse_int der pos =
     (if length der \<le> pos \<or> der ! pos \<noteq> 0x02 then Inl ''bad DER: missing INTEGER''
      else
        let pos = pos + 1
        in if length der \<le> pos then Inl ''bad DER: truncated''
        else if der ! pos AND 0x80 \<noteq> 0 then Inl ''bad DER: long-form int length''
        else
          let int_len = unat (der ! pos); pos = pos + 1
          in if int_len = 0 \<or> length der < pos + int_len then Inl ''bad DER: int length out of bounds''
          else if der ! pos AND 0x80 \<noteq> 0 then Inl ''bad DER: negative integer''
          else if 1 < int_len \<and> der ! pos = 0x00 \<and> der ! (pos + 1) AND 0x80 = 0
          then Inl ''bad DER: unnecessary leading zero''
          else
            let out = take int_len (drop pos der);
                out = (if 0 < length out \<and> out ! 0 = 0x00 then drop 1 out else out)
            in Inr (out, pos + int_len))"

definition ufsecp_ecdsa_sig_from_der :: "bytes \<Rightarrow> string + bytes" where
  "ufsecp_ecdsa_sig_from_der der =
     (if length der < 8 \<or> 72 < length der \<or> der ! 0 \<noteq> 0x30 then Inl ''bad DER: missing/oversized SEQUENCE''
      else if der ! 1 AND 0x80 \<noteq> 0 then Inl ''bad DER: long-form length''
      else if unat (der ! 1) + 2 \<noteq> length der then Inl ''bad DER: length mismatch''
      else case der_parse_int der 2 of
        Inl e \<Rightarrow> Inl e
      | Inr (r_data, pos) \<Rightarrow>
          (case der_parse_int der pos of
             Inl e \<Rightarrow> Inl e
           | Inr (s_data, pos) \<Rightarrow>
               if pos \<noteq> length der then Inl ''bad DER: trailing bytes''
               else if 32 < length r_data \<or> 32 < length s_data then Inl ''bad DER: component > 32 bytes''
               else
                 let sig64 = replicate 64 0;
                     sig64 = memcpy_at sig64 (32 - length r_data) r_data;
                     sig64 = memcpy_at sig64 (32 + (32 - length s_data)) s_data
                 in if parse_bytes_strict_nonzero (take 32 sig64) = None
                      \<or> parse_bytes_strict_nonzero (drop 32 sig64) = None
                    then Inl ''bad DER: r or s out of range [1,n-1]''
                    else Inr sig64))"

text \<open>\<open>cap\<close> is the size of the caller's buffer.\<close>

definition ufsecp_ecdsa_sig_to_der :: "bytes \<Rightarrow> nat \<Rightarrow> string + bytes" where
  "ufsecp_ecdsa_sig_to_der sig64 cap =
     (case sig_parse_compact_strict sig64 of
        None \<Rightarrow> Inl ''non-canonical compact sig''
      | Some ecdsasig \<Rightarrow>
          let (der, actual_len) = sig_to_der ecdsasig
          in if cap < actual_len then Inl ''DER buffer too small'' else Inr (take actual_len der))"


section \<open>Facts\<close>

lemma low_s_limb_iff:
  assumes "X < 2 ^ k" "H < 2 ^ k" "rest \<longleftrightarrow> X \<le> (H :: int)" "0 \<le> X" "0 \<le> H"
  shows "low_s_limb s h rest \<longleftrightarrow> X + 2 ^ k * uint s \<le> H + 2 ^ k * uint h"
proof -
  have lt: "x + 2 ^ k * a < y + 2 ^ k * b" if "a < b" "x < 2 ^ k" "0 \<le> y" for a b x y :: int
  proof -
    have "2 ^ k * a + 2 ^ k \<le> 2 ^ k * b" using that(1) mult_left_mono [of "a + 1" b "2 ^ k"] by (simp add: algebra_simps)
    then show ?thesis using that by linarith
  qed
  consider "s < h" | "h < s" | "s = h" by (rule linorder_cases)
  then show ?thesis
  proof cases
    case 1 then show ?thesis using lt [of "uint s" "uint h" X H] assms by (simp add: low_s_limb_def word_less_def)
  next
    case 2 then show ?thesis using lt [of "uint h" "uint s" H X] assms by (simp add: low_s_limb_def word_less_def)
  qed (simp add: low_s_limb_def assms(3))
qed

lemma sig_is_low_s_iff: "sig_is_low_s sig \<longleftrightarrow> sval (sig_s sig) \<le> (group_order - 1) div 2"
proof (cases "scalar_limbs (sig_s sig)")
  case (Limbs4 s0 s1 s2 s3)
  obtain h0 h1 h2 h3 where h: "HALF_N = Limbs4 h0 h1 h2 h3" by (rule limbs4.exhaust)
  have b: "uint (x :: u64) < 2 ^ 64" "0 \<le> uint x" for x using uint_bounds [of x] by simp_all
  have n: "0 \<le> uint (x :: u64) + 2 ^ 64 * uint (y :: u64)" "uint x + 2 ^ 64 * uint y < 2 ^ 128" for x y
    using uint_bounds [of x] uint_bounds [of y] by simp_all
  have n3: "0 \<le> uint (x :: u64) + 2 ^ 64 * uint (y :: u64) + 2 ^ 128 * uint (z :: u64)" 
     "uint x + 2 ^ 64 * uint y + 2 ^ 128 * uint z < 2 ^ 192" for x y z
    using uint_bounds [of x] uint_bounds [of y] uint_bounds [of z] by simp_all
  have "sig_is_low_s sig \<longleftrightarrow> uint s0 + 2 ^ 64 * uint s1 + 2 ^ 128 * uint s2 + 2 ^ 192 * uint s3
      \<le> uint h0 + 2 ^ 64 * uint h1 + 2 ^ 128 * uint h2 + 2 ^ 192 * uint h3"
    unfolding sig_is_low_s.simps Limbs4 h limbs4.case
    by (intro low_s_limb_iff n3 n b) (simp add: low_s_limb_def word_le_def word_less_def not_less, linarith?)
  also have "\<dots> \<longleftrightarrow> limbs_val (scalar_limbs (sig_s sig)) \<le> limbs_val HALF_N"
    by (simp add: Limbs4 h)
  finally show ?thesis by (simp only: HALF_N_val)
qed

lemma low_s_ct_step_of:
  "low_s_ct_step s h (mask_of lo, mask_of hi)
     = (mask_of (lo \<or> \<not> lo \<and> \<not> hi \<and> s < h), mask_of (hi \<or> \<not> lo \<and> \<not> hi \<and> h < s))"
  unfolding low_s_ct_step_def Let_def prod.case masks by (simp add: mask_of_inj) blast

lemma sig_is_low_s_ct_eq: "sig_is_low_s_ct sig = sig_is_low_s sig"
proof (cases "scalar_limbs (sig_s sig)")
  case (Limbs4 s0 s1 s2 s3)
  obtain h0 h1 h2 h3 where h: "HALF_N = Limbs4 h0 h1 h2 h3" by (rule limbs4.exhaust)
  have all: "- 1 = mask_of True" by (simp add: mask_of_def)
  show ?thesis
    unfolding sig_is_low_s_ct_def sig_is_low_s.simps Limbs4 h limbs4.case Let_def all masks prod.case low_s_ct_step_of
      low_s_limb_def
    by (auto split: if_splits)
qed

lemma sig_to_compact_append: "sig_to_compact sig = to_bytes (sig_r sig) @ to_bytes (sig_s sig)"
  by (simp add: sig_to_compact_def memcpy_at_def)

lemma sig_parse_compact_strict_iff:
  assumes "length data64 = 64"
  shows "sig_parse_compact_strict data64 = Some sig \<longleftrightarrow>
    scalar_ok (sig_r sig) \<and> scalar_ok (sig_s sig) \<and> sval (sig_r sig) \<noteq> 0 \<and> sval (sig_s sig) \<noteq> 0
    \<and> sig_to_compact sig = data64"
proof -
  have l: "length (take 32 data64) = 32" "length (drop 32 data64) = 32" using assms by simp_all
  have p: "parse_bytes_strict_nonzero q = Some s \<longleftrightarrow> scalar_ok s \<and> to_bytes s = q \<and> sval s \<noteq> 0" if "length q = 32" for q s
    using parse_strict_facts [OF that] by blast
  have "sig_parse_compact_strict data64 = Some sig \<longleftrightarrow>
      parse_bytes_strict_nonzero (take 32 data64) = Some (sig_r sig)
      \<and> parse_bytes_strict_nonzero (drop 32 data64) = Some (sig_s sig)"
    by (auto simp: sig_parse_compact_strict_def split: option.splits)
  also have "to_bytes (sig_r sig) = take 32 data64 \<and> to_bytes (sig_s sig) = drop 32 data64 \<longleftrightarrow> sig_to_compact sig = data64"
    using append_eq_conv_conj [of "to_bytes (sig_r sig)" "to_bytes (sig_s sig)" data64]
    by (auto simp: sig_to_compact_append)
  then have "parse_bytes_strict_nonzero (take 32 data64) = Some (sig_r sig)
      \<and> parse_bytes_strict_nonzero (drop 32 data64) = Some (sig_s sig) \<longleftrightarrow>
    scalar_ok (sig_r sig) \<and> scalar_ok (sig_s sig) \<and> sval (sig_r sig) \<noteq> 0 \<and> sval (sig_s sig) \<noteq> 0
    \<and> sig_to_compact sig = data64"
    unfolding p [OF l(1)] p [OF l(2)] by blast
  finally show ?thesis .
qed

text \<open>The encoding of a magnitude without leading zero bytes, and its one or two reading directions.\<close>

definition der_body :: "bytes \<Rightarrow> bytes" where
  "der_body d = (if d = [] \<or> 128 \<le> unat (hd d) then 0 # d else d)"

definition der_int :: "bytes \<Rightarrow> bytes" where
  "der_int d = 0x02 # of_nat (length (der_body d)) # der_body d"

definition minimal :: "bytes \<Rightarrow> bool" where
  "minimal d \<longleftrightarrow> d = [] \<or> hd d \<noteq> 0"

lemma high_bit_iff: "(b :: u8) AND 0x80 = 0 \<longleftrightarrow> unat b < 128"
proof -
  have "b AND 0x80 = 0 \<longleftrightarrow> \<not> bit b 7" using and_exp_eq_0_iff_not_bit [of b 7] by simp
  also have "bit b 7 \<longleftrightarrow> bit (unat b) 7" by (simp add: bit_unsigned_iff)
  also have "bit (unat b) 7 \<longleftrightarrow> odd (unat b div 128)" by (simp add: bit_iff_odd)
  also have "(\<not> odd (unat b div 128)) \<longleftrightarrow> unat b < 128"
  proof -
    have "unat b div 128 < 2" using unsigned_less [of b, where 'a = nat] by (simp add: less_mult_imp_div_less)
    then have "unat b div 128 = 0 \<or> unat b div 128 = 1" by linarith
    then show ?thesis by (auto simp: div_eq_0_iff)
  qed
  finally show ?thesis .
qed

lemma drop_Cons_nth:
  assumes "drop n xs = y # ys"
  shows "n < length xs" "xs ! n = y" "drop (n + 1) xs = ys"
  using assms by (auto simp: nth_via_drop) (metis drop_all list.distinct(1) not_le, metis drop_Suc tl_drop list.sel(3))

lemma der_body_iff:
  "out \<noteq> [] \<and> unat (out ! 0) < 128 \<and> \<not> (1 < length out \<and> out ! 0 = 0 \<and> unat (out ! 1) < 128)
     \<and> d = (if 0 < length out \<and> out ! 0 = 0 then drop 1 out else out)
   \<longleftrightarrow> minimal d \<and> out = der_body d"
proof (cases out)
  case (Cons x xs)
  then show ?thesis
    by (cases xs; cases d) (auto simp: minimal_def der_body_def not_less split: if_splits)
qed (cases d; simp add: der_body_def)

lemma der_parse_int_Inr:
  "der_parse_int der pos = Inr (d, q) \<longleftrightarrow>
     minimal d \<and> length (der_body d) < 128
     \<and> (\<exists>post. drop pos der = der_int d @ post) \<and> q = pos + length (der_int d)"
proof -
  consider "drop pos der = []" | x where "drop pos der = [x]" | x l body where "drop pos der = x # l # body"
    by (metis list.exhaust)
  then show ?thesis
  proof cases
    case 1 then show ?thesis by (simp add: der_parse_int_def der_int_def)
  next
    case 2
    note f = drop_Cons_nth [OF 2]
    then show ?thesis using 2 by (auto simp: der_parse_int_def der_int_def der_body_def)
  next
    case 3
    note f = drop_Cons_nth [OF 3]
    note g = drop_Cons_nth [OF f(3)]
    define n where "n = unat l"
    have len: "length der = pos + 2 + length body" using arg_cong [OF 3, of length] f(1) by simp
    have b: "drop (pos + 2) der = body" using g(3) by (simp add: numeral_2_eq_2)
    have nth: "der ! (pos + 2) = body ! 0" if "body \<noteq> []" using that b len nth_drop [of "pos + 2" der 0] by auto
    have nth1: "der ! (pos + 2 + 1) = body ! 1" if "1 < length body" using that b len nth_drop [of "pos + 2" der 1] by auto
    define out where "out = take n body"
    have "der_parse_int der pos = Inr (d, q) \<longleftrightarrow>
        x = 2 \<and> n < 128 \<and> n \<le> length body
        \<and> (out \<noteq> [] \<and> unat (out ! 0) < 128 \<and> \<not> (1 < length out \<and> out ! 0 = 0 \<and> unat (out ! 1) < 128)
           \<and> d = (if 0 < length out \<and> out ! 0 = 0 then drop 1 out else out))
        \<and> q = pos + 2 + n"
      unfolding der_parse_int_def Let_def
      using f(1,2) g(1,2) len b nth nth1
      by (auto simp: high_bit_iff n_def [symmetric] out_def numeral_2_eq_2 min_def)
    also have "\<dots> \<longleftrightarrow> x = 2 \<and> n < 128 \<and> n \<le> length body \<and> (minimal d \<and> out = der_body d) \<and> q = pos + 2 + n"
      unfolding der_body_iff by (rule refl)
    also have "\<dots> \<longleftrightarrow> minimal d \<and> length (der_body d) < 128
     \<and> (\<exists>post. drop pos der = der_int d @ post) \<and> q = pos + length (der_int d)"
    proof -
      have "l = of_nat (length (der_body d)) \<longleftrightarrow> n = length (der_body d)" if "length (der_body d) < 128"
        using that by (simp add: n_def word_unat_eq_iff unat_of_nat)
      moreover have "n = length (der_body d) \<and> (\<exists>post. body = der_body d @ post)"
        if "n \<le> length body" "take n body = der_body d"
        using that append_take_drop_id [of n body] arg_cong [OF that(2), of length] by (metis length_take min.absorb2)
      ultimately show ?thesis
        unfolding 3 der_int_def out_def by auto
    qed
    finally show ?thesis .
  qed
qed

lemma der_start_value:
  assumes "length d \<le> 32" "d \<noteq> []" "hd d \<noteq> 0" "i + length d \<le> 32"
  shows "der_start (replicate (32 - length d) 0 @ d) i = 32 - length d"
  using assms(4)
proof (induction "32 - length d - i" arbitrary: i)
  case 0
  then have i: "i = 32 - length d" by simp
  have "d ! 0 \<noteq> 0" using assms(2,3) by (simp add: hd_conv_nth)
  then show ?case using i assms(1,2) by (subst der_start.simps) (simp add: nth_append)
next
  case (Suc k)
  then have i: "i < 32 - length d" by simp
  then have "i < 31" using assms(2) by (cases d) auto
  then show ?case using Suc(1) [of "i + 1"] Suc(2) i by (subst der_start.simps) (simp add: nth_append)
qed

lemma der_encode_int_value:
  assumes "length d \<le> 32" "d \<noteq> []" "minimal d"
  shows "der_encode_int (replicate (32 - length d) 0 @ d) = der_int d"
proof -
  have h: "hd d \<noteq> 0" using assms by (simp add: minimal_def)
  have "(replicate (32 - length d) 0 @ d) ! (32 - length d) = hd d"
    using assms(2) by (simp add: nth_append hd_conv_nth)
  moreover have "der_start (replicate (32 - length d) 0 @ d) 0 = 32 - length d"
    using der_start_value [OF assms(1,2) h, of 0] assms(1) by simp
  moreover have "\<not> unat (hd d) < 128 \<longleftrightarrow> 128 \<le> unat (hd d)" by linarith
  ultimately show ?thesis
    using assms(1,2) by (simp add: der_encode_int_def Let_def high_bit_iff der_int_def der_body_def)
qed

text \<open>A 32-byte string that is not zero is its magnitude, padded.\<close>

lemma magnitude:
  assumes "length bs = 32" "be_val bs \<noteq> 0"
  obtains d where "length d \<le> 32" "d \<noteq> []" "minimal d" "bs = replicate (32 - length d) 0 @ d"
proof (rule that [of "dropWhile (\<lambda>b. b = 0) bs"])
  let ?d = "dropWhile (\<lambda>b. b = 0) bs" and ?z = "takeWhile (\<lambda>b. b = 0) bs"
  have z: "?z = replicate (length ?z) 0" by (rule replicate_eqI) (auto dest: set_takeWhileD)
  have s: "bs = ?z @ ?d" by simp
  have l: "length ?z + length ?d = 32" using assms(1) s by (metis length_append)
  show "length ?d \<le> 32" using l by simp
  have zero: "be_val (replicate k 0) = 0" for k by (induction k) (simp_all add: be_val_Cons)
  show ne: "?d \<noteq> []"
  proof
    assume "?d = []"
    then have "bs = ?z" using s by (metis append_Nil2)
    then have "be_val bs = be_val (replicate (length ?z) 0)" using z by metis
    then show False using assms(2) zero by simp
  qed
  show "minimal ?d" using hd_dropWhile [OF ne] by (simp add: minimal_def)
  show "bs = replicate (32 - length ?d) 0 @ ?d" using s z l by (metis add_diff_cancel_right')
qed

lemma sig_to_der_value:
  "take (snd (sig_to_der sig)) (fst (sig_to_der sig))
     = 0x30 # of_nat (length (der_encode_int (to_bytes (sig_r sig)) @ der_encode_int (to_bytes (sig_s sig))))
        # der_encode_int (to_bytes (sig_r sig)) @ der_encode_int (to_bytes (sig_s sig))"
proof -
  have "(replicate 72 0 :: bytes) = 0 # 0 # replicate 70 0" by (simp add: eval_nat_numeral)
  then show ?thesis by (simp add: sig_to_der_def Let_def memcpy_at_def)
qed

definition sig_ok :: "ECDSASignature \<Rightarrow> bool" where
  "sig_ok sig \<longleftrightarrow> scalar_ok (sig_r sig) \<and> scalar_ok (sig_s sig) \<and> sval (sig_r sig) \<noteq> 0 \<and> sval (sig_s sig) \<noteq> 0"

definition sig_der :: "ECDSASignature \<Rightarrow> bytes" where
  "sig_der sig = take (snd (sig_to_der sig)) (fst (sig_to_der sig))"

abbreviation padded :: "bytes \<Rightarrow> bytes" where
  "padded d \<equiv> replicate (32 - length d) 0 @ d"

lemma length_der_int: "length d \<le> 32 \<Longrightarrow> 3 \<le> length (der_int d) \<and> length (der_int d) \<le> 35"
  by (cases d) (simp_all add: der_int_def der_body_def)

lemma compact_of_parts:
  assumes "length d \<le> 32" "length e \<le> 32"
  shows "memcpy_at (memcpy_at (replicate 64 0) (32 - length d) d) (64 - length e) e = padded d @ padded e"
  using assms by (simp add: memcpy_at_def)

lemma from_der_Inr:
  "ufsecp_ecdsa_sig_from_der der = Inr c \<longleftrightarrow>
     (\<exists>d e. minimal d \<and> minimal e \<and> length d \<le> 32 \<and> length e \<le> 32
        \<and> der = 0x30 # of_nat (length (der_int d @ der_int e)) # der_int d @ der_int e
        \<and> parse_bytes_strict_nonzero (padded d) \<noteq> None \<and> parse_bytes_strict_nonzero (padded e) \<noteq> None
        \<and> c = padded d @ padded e)" (is "_ \<longleftrightarrow> (\<exists>d e. ?P d e)")
proof
  assume a: "ufsecp_ecdsa_sig_from_der der = Inr c"
  from a have h: "8 \<le> length der" "length der \<le> 72" "der ! 0 = 0x30" "unat (der ! 1) + 2 = length der"
    unfolding ufsecp_ecdsa_sig_from_der_def by (auto split: if_splits)
  from a obtain d p where d: "der_parse_int der 2 = Inr (d, p)"
    unfolding ufsecp_ecdsa_sig_from_der_def by (auto split: if_splits sum.splits)
  from a d obtain e where e: "der_parse_int der p = Inr (e, length der)"
    unfolding ufsecp_ecdsa_sig_from_der_def by (auto split: if_splits sum.splits)
  from a d e have l: "length d \<le> 32" "length e \<le> 32"
    unfolding ufsecp_ecdsa_sig_from_der_def by (auto split: if_splits)
  from a d e have r: "parse_bytes_strict_nonzero (padded d) \<noteq> None" "parse_bytes_strict_nonzero (padded e) \<noteq> None"
      "c = padded d @ padded e"
    unfolding ufsecp_ecdsa_sig_from_der_def by (auto simp: compact_of_parts l Let_def split: if_splits)
  note D = d [unfolded der_parse_int_Inr] and E = e [unfolded der_parse_int_Inr]
  obtain post where p: "drop 2 der = der_int d @ post" using D by blast
  have d': "drop p der = post" using p D by (metis add.commute append_eq_conv_conj drop_drop)
  obtain post2 where q: "drop p der = der_int e @ post2" using E by blast
  have "length (drop p der) = length (der_int e)" using E by simp
  then have t: "drop 2 der = der_int d @ der_int e" using p q d' by simp
  obtain x y rest where der: "der = x # y # rest" using h(1) by (cases der; cases "tl der") auto
  then have "rest = der_int d @ der_int e" using t by (simp add: numeral_2_eq_2)
  moreover have "y = of_nat (length (der_int d @ der_int e))"
    using h(2,4) der calculation by (simp add: word_unat_eq_iff unat_of_nat flip: of_nat_add)
  ultimately have "der = 0x30 # of_nat (length (der_int d @ der_int e)) # der_int d @ der_int e"
    using der h(3) by simp
  then have "?P d e" using D E l r by blast
  then show "\<exists>d e. ?P d e" by blast
next
  assume "\<exists>d e. ?P d e"
  then obtain d e where P: "?P d e" by blast
  then have m: "minimal d" "minimal e" and l: "length d \<le> 32" "length e \<le> 32"
    and der: "der = 0x30 # of_nat (length (der_int d @ der_int e)) # der_int d @ der_int e" by blast+
  note ld = length_der_int [OF l(1)] and le = length_der_int [OF l(2)]
  have b: "length (der_body d) < 128" "length (der_body e) < 128" using l by (simp_all add: der_body_def)
  have "drop 2 der = der_int d @ der_int e" by (simp add: der numeral_2_eq_2)
  then have d: "der_parse_int der 2 = Inr (d, 2 + length (der_int d))"
    unfolding der_parse_int_Inr using m b by blast
  have "drop (2 + length (der_int d)) der = der_int e @ []" by (simp add: der numeral_2_eq_2)
  moreover have len: "2 + length (der_int d) + length (der_int e) = length der" by (simp add: der)
  ultimately have e: "der_parse_int der (2 + length (der_int d)) = Inr (e, length der)"
    unfolding der_parse_int_Inr using m b by metis
  have "unat (der ! 1) = length (der_int d) + length (der_int e)"
    using ld le by (simp add: der unat_of_nat flip: of_nat_add)
  then show "ufsecp_ecdsa_sig_from_der der = Inr c"
    unfolding ufsecp_ecdsa_sig_from_der_def d sum.case prod.case e using P ld le len
    by (simp add: compact_of_parts l high_bit_iff) (use P l in \<open>auto simp: der\<close>)
qed

text \<open>The magnitudes of a signature, and the values of its three encodings by them.\<close>

lemma sig_magnitudes:
  assumes "sig_ok sig"
  obtains d e where "minimal d" "minimal e" "length d \<le> 32" "length e \<le> 32"
    "to_bytes (sig_r sig) = padded d" "to_bytes (sig_s sig) = padded e"
    "sig_der sig = 0x30 # of_nat (length (der_int d @ der_int e)) # der_int d @ der_int e"
proof -
  have z: "be_val (to_bytes (sig_r sig)) \<noteq> 0" "be_val (to_bytes (sig_s sig)) \<noteq> 0"
    using assms by (simp_all add: sig_ok_def be_val_to_bytes)
  obtain d where d: "length d \<le> 32" "d \<noteq> []" "minimal d" "to_bytes (sig_r sig) = padded d"
    using magnitude [OF length_to_bytes z(1)] by metis
  obtain e where e: "length e \<le> 32" "e \<noteq> []" "minimal e" "to_bytes (sig_s sig) = padded e"
    using magnitude [OF length_to_bytes z(2)] by metis
  show ?thesis
    using that [OF d(3) e(3) d(1) e(1) d(4) e(4)]
    by (simp only: sig_der_def sig_to_der_value d(4) e(4) der_encode_int_value [OF d(1-3)] der_encode_int_value [OF e(1-3)])
qed

lemma der_int_inj: "minimal d \<Longrightarrow> minimal e \<Longrightarrow> der_body d = der_body e \<Longrightarrow> d = e"
  by (auto simp: der_body_def minimal_def split: if_splits)

lemma strict_nonzero_iff:
  "length p = 32 \<Longrightarrow> parse_bytes_strict_nonzero p = Some s \<longleftrightarrow> scalar_ok s \<and> to_bytes s = p \<and> sval s \<noteq> 0"
  using parse_strict_facts by blast

lemma from_der_iff:
  "ufsecp_ecdsa_sig_from_der der = Inr c \<longleftrightarrow> (\<exists>sig. sig_ok sig \<and> der = sig_der sig \<and> c = sig_to_compact sig)"
proof
  assume "ufsecp_ecdsa_sig_from_der der = Inr c"
  then obtain d e where P: "minimal d" "minimal e" and l: "length d \<le> 32" "length e \<le> 32"
    and der: "der = 0x30 # of_nat (length (der_int d @ der_int e)) # der_int d @ der_int e"
    and p: "parse_bytes_strict_nonzero (padded d) \<noteq> None" "parse_bytes_strict_nonzero (padded e) \<noteq> None"
    and c: "c = padded d @ padded e"
    unfolding from_der_Inr by blast
  have l32: "length (padded d) = 32" "length (padded e) = 32" using l by simp_all
  obtain r s where rs: "scalar_ok r" "to_bytes r = padded d" "sval r \<noteq> 0" "scalar_ok s" "to_bytes s = padded e" "sval s \<noteq> 0"
    using p strict_nonzero_iff [OF l32(1)] strict_nonzero_iff [OF l32(2)] by (metis option.exhaust)
  have zero: "be_val (replicate k 0) = 0" for k by (induction k) (simp_all add: be_val_Cons)
  have ne: "d \<noteq> []" "e \<noteq> []" using rs be_val_to_bytes [of r] be_val_to_bytes [of s] zero [of 32] by auto
  have "sig_der \<lparr>sig_r = r, sig_s = s\<rparr> = der"
    by (simp only: sig_der_def sig_to_der_value ECDSASignature.simps rs(2,5) der
        der_encode_int_value [OF l(1) ne(1) P(1)] der_encode_int_value [OF l(2) ne(2) P(2)])
  moreover have "sig_to_compact \<lparr>sig_r = r, sig_s = s\<rparr> = c" by (simp add: sig_to_compact_append rs c)
  moreover have "sig_ok \<lparr>sig_r = r, sig_s = s\<rparr>" using rs by (simp add: sig_ok_def)
  ultimately show "\<exists>sig. sig_ok sig \<and> der = sig_der sig \<and> c = sig_to_compact sig" by metis
next
  assume "\<exists>sig. sig_ok sig \<and> der = sig_der sig \<and> c = sig_to_compact sig"
  then obtain sig where s: "sig_ok sig" "der = sig_der sig" "c = sig_to_compact sig" by blast
  from sig_magnitudes [OF s(1)] obtain d e where m: "minimal d" "minimal e" "length d \<le> 32" "length e \<le> 32"
    "to_bytes (sig_r sig) = padded d" "to_bytes (sig_s sig) = padded e"
    "sig_der sig = 0x30 # of_nat (length (der_int d @ der_int e)) # der_int d @ der_int e" by blast
  have "parse_bytes_strict_nonzero (padded d) = Some (sig_r sig)" "parse_bytes_strict_nonzero (padded e) = Some (sig_s sig)"
    using m s(1) by (simp_all add: strict_nonzero_iff sig_ok_def)
  then show "ufsecp_ecdsa_sig_from_der der = Inr c"
    unfolding from_der_Inr using m s(2,3) by (metis option.distinct(1) sig_to_compact_append)
qed

lemma length_sig_der:
  assumes "sig_ok sig"
  shows "length (sig_der sig) \<le> 72" "snd (sig_to_der sig) = length (sig_der sig)"
proof -
  show "length (sig_der sig) \<le> 72"
  proof (rule sig_magnitudes [OF assms])
    fix d e
    assume "length d \<le> 32" "length e \<le> 32"
      "sig_der sig = 0x30 # of_nat (length (der_int d @ der_int e)) # der_int d @ der_int e"
    then show ?thesis using length_der_int [of d] length_der_int [of e] by simp
  qed
  show "snd (sig_to_der sig) = length (sig_der sig)"
    by (simp add: sig_der_def sig_to_der_value) (simp add: sig_to_der_def Let_def)
qed

lemma to_der_iff:
  assumes "length c = 64"
  shows "ufsecp_ecdsa_sig_to_der c cap = Inr der \<longleftrightarrow>
    (\<exists>sig. sig_ok sig \<and> der = sig_der sig \<and> c = sig_to_compact sig) \<and> length der \<le> cap"
proof -
  have p: "sig_parse_compact_strict c = Some sig \<longleftrightarrow> sig_ok sig \<and> sig_to_compact sig = c" for sig
    using sig_parse_compact_strict_iff [OF assms] by (simp add: sig_ok_def)
  show ?thesis
  proof (cases "sig_parse_compact_strict c")
    case None
    then have "\<not> (sig_ok sig \<and> c = sig_to_compact sig)" for sig using p by (metis option.distinct(1))
    then show ?thesis using None by (auto simp: ufsecp_ecdsa_sig_to_der_def)
  next
    case (Some sig)
    then have s: "sig_ok sig" "c = sig_to_compact sig" using p [of sig] by simp_all
    have u: "sig_ok t \<and> c = sig_to_compact t \<longleftrightarrow> t = sig" for t using p [of t] Some by auto
    have "ufsecp_ecdsa_sig_to_der c cap = (if cap < length (sig_der sig) then Inl ''DER buffer too small'' else Inr (sig_der sig))"
      using length_sig_der(2) [OF s(1)] Some by (simp add: ufsecp_ecdsa_sig_to_der_def split_beta sig_der_def)
    moreover have "(\<exists>t. sig_ok t \<and> der = sig_der t \<and> c = sig_to_compact t) \<longleftrightarrow> der = sig_der sig"
    proof -
      have "(\<exists>t. sig_ok t \<and> der = sig_der t \<and> c = sig_to_compact t)
          \<longleftrightarrow> (\<exists>t. der = sig_der t \<and> (sig_ok t \<and> c = sig_to_compact t))" by (rule ex_cong1) (rule conj_left_commute)
      then show ?thesis by (simp only: u) simp
    qed
    ultimately show ?thesis by (auto simp: not_less)
  qed
qed

section \<open>Properties\<close>

text \<open>C33: The strict parser of the compact form accepts exactly the outputs of the writer on signatures whose
  two scalars are canonical and not zero; the lenient one reduces.\<close>
theorem compact_signatures_canonical:
  assumes "length data64 = 64"
  shows "(sig_parse_compact_strict data64 = Some sig \<longleftrightarrow>
      scalar_ok (sig_r sig) \<and> scalar_ok (sig_s sig) \<and> sval (sig_r sig) \<noteq> 0 \<and> sval (sig_s sig) \<noteq> 0
      \<and> sig_to_compact sig = data64)
    \<and> sval (sig_r (sig_from_compact data64)) = be_val (take 32 data64) mod group_order
    \<and> sval (sig_s (sig_from_compact data64)) = be_val (drop 32 data64) mod group_order"
  using sig_parse_compact_strict_iff [OF assms] assms by (simp add: sig_from_compact_def from_bytes_value)

theorem compact_signatures_canonical_witness:
  "sig_parse_compact_strict (sig_to_compact \<lparr>sig_r = scalar_one, sig_s = scalar_one\<rparr>)
     = Some \<lparr>sig_r = scalar_one, sig_s = scalar_one\<rparr>"
  using compact_signatures_canonical [of "sig_to_compact \<lparr>sig_r = scalar_one, sig_s = scalar_one\<rparr>" "\<lparr>sig_r = scalar_one, sig_s = scalar_one\<rparr>"]
    scalar_ok_one by (simp add: sig_to_compact_append)

text \<open>C16: The strict DER parser and the DER writer are inverse to each other: a byte string is accepted with the
  compact signature \<open>c\<close> exactly when it is what the writer makes of \<open>c\<close>, so that every signature has one
  accepted encoding. The writer fails exactly for a compact signature that is not canonical or a buffer
  that is too small, and 72 bytes are always enough.\<close>
theorem der_signatures_unique:
  assumes "length c = 64"
  shows "(ufsecp_ecdsa_sig_from_der der = Inr c \<longleftrightarrow> ufsecp_ecdsa_sig_to_der c 72 = Inr der)
    \<and> (ufsecp_ecdsa_sig_to_der c cap = Inr der \<longleftrightarrow> ufsecp_ecdsa_sig_to_der c 72 = Inr der \<and> length der \<le> cap)
    \<and> ((\<exists>der. ufsecp_ecdsa_sig_to_der c 72 = Inr der) \<longleftrightarrow> sig_parse_compact_strict c \<noteq> None)"
proof -
  have l: "length (sig_der sig) \<le> 72" if "sig_ok sig" for sig using length_sig_der [OF that] by simp
  have "sig_parse_compact_strict c \<noteq> None \<longleftrightarrow> (\<exists>sig. sig_ok sig \<and> sig_to_compact sig = c)"
    using sig_parse_compact_strict_iff [OF assms] by (auto simp: sig_ok_def)
  then show ?thesis unfolding from_der_iff to_der_iff [OF assms] using l by blast
qed

theorem der_signatures_unique_witness:
  "ufsecp_ecdsa_sig_from_der [0x30, 6, 2, 1, 1, 2, 1, 1] = Inr (replicate 31 0 @ [1] @ replicate 31 0 @ [1])"
proof -
  have "ufsecp_ecdsa_sig_to_der (replicate 31 0 @ [1] @ replicate 31 0 @ [1]) 72 = Inr [0x30, 6, 2, 1, 1, 2, 1, 1]"
    by code_simp
  then show ?thesis using der_signatures_unique [of "replicate 31 0 @ [1] @ replicate 31 0 @ [1]" "[0x30, 6, 2, 1, 1, 2, 1, 1]"]
    by simp
qed

text \<open>C32: Both tests for a low \<open>s\<close>, the branching and the constant-time one, decide whether \<open>s\<close> is at most
  half the order, and normalisation makes both true without changing \<open>r\<close>.\<close>
theorem low_s_tests_agree:
  assumes "scalar_ok (sig_s sig)"
  shows "(sig_is_low_s sig \<longleftrightarrow> sval (sig_s sig) \<le> (group_order - 1) div 2)
    \<and> sig_is_low_s_ct sig = sig_is_low_s sig
    \<and> sig_is_low_s (sig_normalize sig) \<and> sig_r (sig_normalize sig) = sig_r sig
    \<and> (sig_normalize sig = sig \<longleftrightarrow> sig_is_low_s sig)"
proof -
  note v = normalize_value [OF assms]
  have n: "sval (negate (sig_s sig)) = (- sval (sig_s sig)) mod group_order" by (rule negate_value [OF assms])
  have ok: "0 \<le> sval (sig_s sig)" "sval (sig_s sig) < group_order"
    using assms limbs_val_bounds [of "scalar_limbs (sig_s sig)"] by (simp_all add: scalar_ok_def)
  have c: "sval (negate (sig_s sig)) \<le> (group_order - 1) div 2" if "(group_order - 1) div 2 < sval (sig_s sig)"
  proof -
    have "(- sval (sig_s sig)) mod group_order = group_order - sval (sig_s sig)"
      using ok that by (simp add: zmod_zminus1_eq_if mod_pos_pos_trivial)
    then show ?thesis using n that by simp
  qed
  have "sig_is_low_s (sig_normalize sig)"
    using c by (simp add: sig_is_low_s_iff sig_normalize_def v del: sig_is_low_s.simps)
  moreover have "sig_normalize sig = sig \<longleftrightarrow> sig_is_low_s sig"
  proof
    assume "sig_normalize sig = sig"
    then show "sig_is_low_s sig" using calculation by metis
  qed (simp add: sig_is_low_s_iff sig_normalize_def v del: sig_is_low_s.simps)
  ultimately show ?thesis by (simp add: sig_is_low_s_iff sig_is_low_s_ct_eq sig_normalize_def v del: sig_is_low_s.simps)
qed

theorem low_s_tests_agree_witness:
  "\<not> sig_is_low_s \<lparr>sig_r = scalar_one, sig_s = negate scalar_one\<rparr>
   \<and> sig_is_low_s (sig_normalize \<lparr>sig_r = scalar_one, sig_s = negate scalar_one\<rparr>)"
proof -
  have "scalar_ok (negate scalar_one)" "sval (negate scalar_one) = group_order - 1" by (code_simp, code_simp)
  then show ?thesis using low_s_tests_agree [of "\<lparr>sig_r = scalar_one, sig_s = negate scalar_one\<rparr>"] by simp
qed

end
