(* ===== verification/Sha512.thy ===== *)
theory Sha512
  imports Sha256
begin

text \<open>
  \<open>SHA512\<close> of \<open>sha512.hpp\<close>: compression, the streaming context, and its interpretation as a
  \<open>block_digest\<close> with 128-byte blocks and a 16-byte length field of which only the low 8 bytes
  are ever non-zero.
\<close>

section \<open>Compression\<close>

definition SHA512_K :: "u64 list" where
  "SHA512_K =
    [0x428A2F98D728AE22, 0x7137449123EF65CD, 0xB5C0FBCFEC4D3B2F,
     0xE9B5DBA58189DBBC, 0x3956C25BF348B538, 0x59F111F1B605D019,
     0x923F82A4AF194F9B, 0xAB1C5ED5DA6D8118, 0xD807AA98A3030242,
     0x12835B0145706FBE, 0x243185BE4EE4B28C, 0x550C7DC3D5FFB4E2,
     0x72BE5D74F27B896F, 0x80DEB1FE3B1696B1, 0x9BDC06A725C71235,
     0xC19BF174CF692694, 0xE49B69C19EF14AD2, 0xEFBE4786384F25E3,
     0x0FC19DC68B8CD5B5, 0x240CA1CC77AC9C65, 0x2DE92C6F592B0275,
     0x4A7484AA6EA6E483, 0x5CB0A9DCBD41FBD4, 0x76F988DA831153B5,
     0x983E5152EE66DFAB, 0xA831C66D2DB43210, 0xB00327C898FB213F,
     0xBF597FC7BEEF0EE4, 0xC6E00BF33DA88FC2, 0xD5A79147930AA725,
     0x06CA6351E003826F, 0x142929670A0E6E70, 0x27B70A8546D22FFC,
     0x2E1B21385C26C926, 0x4D2C6DFC5AC42AED, 0x53380D139D95B3DF,
     0x650A73548BAF63DE, 0x766A0ABB3C77B2A8, 0x81C2C92E47EDAEE6,
     0x92722C851482353B, 0xA2BFE8A14CF10364, 0xA81A664BBC423001,
     0xC24B8B70D0F89791, 0xC76C51A30654BE30, 0xD192E819D6EF5218,
     0xD69906245565A910, 0xF40E35855771202A, 0x106AA07032BBD1B8,
     0x19A4C116B8D2D0C8, 0x1E376C085141AB53, 0x2748774CDF8EEB99,
     0x34B0BCB5E19B48A8, 0x391C0CB3C5C95A63, 0x4ED8AA4AE3418ACB,
     0x5B9CCA4F7763E373, 0x682E6FF3D6B2B8A3, 0x748F82EE5DEFB2FC,
     0x78A5636F43172F60, 0x84C87814A1F0AB72, 0x8CC702081A6439EC,
     0x90BEFFFA23631E28, 0xA4506CEBDE82BDE9, 0xBEF9A3F7B2C67915,
     0xC67178F2E372532B, 0xCA273ECEEA26619C, 0xD186B8C721C0C207,
     0xEADA7DD6CDE0EB1E, 0xF57D4F7FEE6ED178, 0x06F067AA72176FBA,
     0x0A637DC5A2C898A6, 0x113F9804BEF90DAE, 0x1B710B35131C471B,
     0x28DB77F523047D84, 0x32CAAB7B40C72493, 0x3C9EBE0A15C9BEBC,
     0x431D67C49C100D4C, 0x4CC5D4BECB3E42B6, 0x597F299CFC657E2A,
     0x5FCB6FAB3AD6FAEC, 0x6C44198C4A475817]"

definition rotr64 :: "u64 \<Rightarrow> nat \<Rightarrow> u64" where
  "rotr64 x n = drop_bit n x OR push_bit (64 - n) x"

definition ch64 :: "u64 \<Rightarrow> u64 \<Rightarrow> u64 \<Rightarrow> u64" where
  "ch64 x y z = (x AND y) XOR (NOT x AND z)"

definition maj64 :: "u64 \<Rightarrow> u64 \<Rightarrow> u64 \<Rightarrow> u64" where
  "maj64 x y z = (x AND y) XOR (x AND z) XOR (y AND z)"

definition Sigma0 :: "u64 \<Rightarrow> u64" where
  "Sigma0 x = rotr64 x 28 XOR rotr64 x 34 XOR rotr64 x 39"

definition Sigma1 :: "u64 \<Rightarrow> u64" where
  "Sigma1 x = rotr64 x 14 XOR rotr64 x 18 XOR rotr64 x 41"

definition sigma0 :: "u64 \<Rightarrow> u64" where
  "sigma0 x = rotr64 x 1 XOR rotr64 x 8 XOR drop_bit 7 x"

definition sigma1 :: "u64 \<Rightarrow> u64" where
  "sigma1 x = rotr64 x 19 XOR rotr64 x 61 XOR drop_bit 6 x"

definition sha512_load :: "bytes \<Rightarrow> u64" where
  "sha512_load p = push_bit 56 (ucast (p ! 0)) OR push_bit 48 (ucast (p ! 1))
     OR push_bit 40 (ucast (p ! 2)) OR push_bit 32 (ucast (p ! 3))
     OR push_bit 24 (ucast (p ! 4)) OR push_bit 16 (ucast (p ! 5))
     OR push_bit 8 (ucast (p ! 6)) OR ucast (p ! 7)"

definition sha512_expand :: "nat \<Rightarrow> u64 list \<Rightarrow> u64 list" where
  "sha512_expand i W =
     W @ [sigma1 (W ! (i - 2)) + W ! (i - 7) + sigma0 (W ! (i - 15)) + W ! (i - 16)]"

type_synonym regs64 = "u64 \<times> u64 \<times> u64 \<times> u64 \<times> u64 \<times> u64 \<times> u64 \<times> u64"

fun sha512_round :: "u64 \<Rightarrow> u64 \<Rightarrow> regs64 \<Rightarrow> regs64" where
  "sha512_round k w (a, b, c, d, e, f, g, h) =
     (let t1 = h + Sigma1 e + ch64 e f g + k + w;
          t2 = Sigma0 a + maj64 a b c
      in (t1 + t2, a, b, c, d + t1, e, f, g))"

definition sha512_compress :: "bytes \<Rightarrow> u64 list \<Rightarrow> u64 list" where
  "sha512_compress block st =
     (let W = fold sha512_expand [16..<80] (map (\<lambda>i. sha512_load (drop (i * 8) block)) [0..<16]);
          (a, b, c, d, e, f, g, h) =
            fold (\<lambda>i. sha512_round (SHA512_K ! i) (W ! i)) [0..<80]
              (st ! 0, st ! 1, st ! 2, st ! 3, st ! 4, st ! 5, st ! 6, st ! 7)
      in [st ! 0 + a, st ! 1 + b, st ! 2 + c, st ! 3 + d,
          st ! 4 + e, st ! 5 + f, st ! 6 + g, st ! 7 + h])"

section \<open>The streaming context\<close>

record sha512 =
  state512 :: "u64 list"
  total512 :: u64
  buf512 :: bytes
  buf_len512 :: nat

definition SHA512_IV :: "u64 list" where
  "SHA512_IV = [0x6a09e667f3bcc908, 0xbb67ae8584caa73b, 0x3c6ef372fe94f82b, 0xa54ff53a5f1d36f1,
     0x510e527fade682d1, 0x9b05688c2b3e6c1f, 0x1f83d9abfb41bd6b, 0x5be0cd19137e2179]"

definition sha512_reset :: "sha512 \<Rightarrow> sha512" where
  "sha512_reset ctx = ctx\<lparr>state512 := SHA512_IV, total512 := 0, buf_len512 := 0\<rparr>"

definition sha512_new :: sha512 where
  "sha512_new = sha512_reset
     \<lparr>state512 = replicate 8 0, total512 = 0, buf512 = replicate 128 0, buf_len512 = 0\<rparr>"

definition sha512_update :: "sha512 \<Rightarrow> bytes \<Rightarrow> sha512" where
  "sha512_update ctx ptr =
     (let ctx = ctx\<lparr>total512 := total512 ctx + of_nat (length ptr)\<rparr>;
          tail = (\<lambda>ctx ptr.
            let (st, rest) = absorb sha512_compress 128 (state512 ctx) ptr;
                ctx = ctx\<lparr>state512 := st\<rparr>
            in if length rest > 0
               then ctx\<lparr>buf512 := memcpy_at (buf512 ctx) 0 rest, buf_len512 := length rest\<rparr>
               else ctx)
      in if buf_len512 ctx > 0 then
           let fill = 128 - buf_len512 ctx in
           if length ptr < fill then
             ctx\<lparr>buf512 := memcpy_at (buf512 ctx) (buf_len512 ctx) ptr,
                 buf_len512 := buf_len512 ctx + length ptr\<rparr>
           else
             let ctx = ctx\<lparr>buf512 := memcpy_at (buf512 ctx) (buf_len512 ctx) (take fill ptr)\<rparr>;
                 ctx = ctx\<lparr>state512 := sha512_compress (buf512 ctx) (state512 ctx), buf_len512 := 0\<rparr>
             in tail ctx (drop fill ptr)
         else tail ctx ptr)"

text \<open>\<open>for i < 8: buf[base + 7 - i] = bit_len >> (8 * i)\<close>.\<close>

definition put_be64 :: "u64 \<Rightarrow> nat \<Rightarrow> bytes \<Rightarrow> bytes" where
  "put_be64 v base buf =
     fold (\<lambda>i buf. buf[base + 7 - i := ucast (drop_bit (i * 8) v)]) [0..<8] buf"

definition store_be64_bytes :: "u64 \<Rightarrow> bytes" where
  "store_be64_bytes v = [ucast (drop_bit 56 v), ucast (drop_bit 48 v), ucast (drop_bit 40 v),
     ucast (drop_bit 32 v), ucast (drop_bit 24 v), ucast (drop_bit 16 v),
     ucast (drop_bit 8 v), ucast v]"

definition sha512_finalize :: "sha512 \<Rightarrow> bytes \<times> sha512" where
  "sha512_finalize ctx =
     (let bit_len = total512 ctx * 8;
          ctx = (if buf_len512 ctx \<ge> 128 then ctx\<lparr>buf_len512 := 0\<rparr> else ctx);
          pos = buf_len512 ctx;
          ctx = ctx\<lparr>buf_len512 := pos + 1, buf512 := (buf512 ctx)[pos := 0x80]\<rparr>;
          ctx = (if buf_len512 ctx > 112 then
                   let ctx = (if buf_len512 ctx < 128
                              then ctx\<lparr>buf512 := memcpy_at (buf512 ctx) (buf_len512 ctx)
                                                 (replicate (128 - buf_len512 ctx) 0)\<rparr>
                              else ctx)
                   in ctx\<lparr>state512 := sha512_compress (buf512 ctx) (state512 ctx), buf_len512 := 0\<rparr>
                 else ctx);
          ctx = ctx\<lparr>buf512 := memcpy_at (buf512 ctx) (buf_len512 ctx)
                             (replicate (112 - buf_len512 ctx) 0)\<rparr>;
          ctx = ctx\<lparr>buf512 := memcpy_at (buf512 ctx) 112 (replicate 8 0)\<rparr>;
          ctx = ctx\<lparr>buf512 := put_be64 bit_len 120 (buf512 ctx)\<rparr>;
          ctx = ctx\<lparr>state512 := sha512_compress (buf512 ctx) (state512 ctx)\<rparr>
      in (concat (map (\<lambda>i. store_be64_bytes (state512 ctx ! i)) [0..<8]), ctx))"

definition sha512_hash :: "bytes \<Rightarrow> bytes" where
  "sha512_hash data = fst (sha512_finalize (sha512_update sha512_new data))"

section \<open>The context implements the streaming interface\<close>

definition sha512_ok :: "sha512 \<Rightarrow> bool" where
  "sha512_ok ctx \<longleftrightarrow> length (buf512 ctx) = 128 \<and> buf_len512 ctx < 128"

definition sha512_pending :: "sha512 \<Rightarrow> bytes" where
  "sha512_pending ctx = take (buf_len512 ctx) (buf512 ctx)"

definition sha512_view :: "sha512 \<Rightarrow> u64 list \<times> bytes \<times> nat" where
  "sha512_view ctx = (state512 ctx, buf512 ctx, buf_len512 ctx)"

definition sha512_pad :: "nat \<Rightarrow> bytes" where
  "sha512_pad n = md_pad 128 16 n (replicate 8 0 @ be64_bytes (of_nat n * 8))"

definition sha512_out :: "u64 list \<Rightarrow> bytes" where
  "sha512_out st = concat (map (\<lambda>i. store_be64_bytes (st ! i)) [0..<8])"

lemma sha512_update_view:
  "sha512_view (sha512_update ctx ptr) = buffered_update sha512_compress 128 (sha512_view ctx) ptr"
  by (simp add: sha512_update_def sha512_view_def buffered_update_def buffered_tail_def Let_def
      split: prod.splits)

lemma sha512_update_total: "total512 (sha512_update ctx ptr) = total512 ctx + of_nat (length ptr)"
  by (simp add: sha512_update_def Let_def split: prod.splits)

lemma sha512_update_absorb:
  assumes "sha512_ok c"
  shows "sha512_ok (sha512_update c d)"
    and "(state512 (sha512_update c d), sha512_pending (sha512_update c d))
      = absorb sha512_compress 128 (state512 c) (sha512_pending c @ d)"
proof -
  let ?c = "sha512_update c d"
  have "buffered_update sha512_compress 128 (state512 c, buf512 c, buf_len512 c) d
      = (state512 ?c, buf512 ?c, buf_len512 ?c)"
    using sha512_update_view [of c d] by (simp add: sha512_view_def)
  then have "absorb sha512_compress 128 (state512 c) (take (buf_len512 c) (buf512 c) @ d)
      = (state512 ?c, take (buf_len512 ?c) (buf512 ?c)) \<and> length (buf512 ?c) = 128 \<and> buf_len512 ?c < 128"
    using assms by (intro buffered_update_absorb) (auto simp: sha512_ok_def)
  then show "sha512_ok ?c"
    and "(state512 ?c, sha512_pending ?c)
      = absorb sha512_compress 128 (state512 c) (sha512_pending c @ d)"
    by (simp_all add: sha512_ok_def sha512_pending_def)
qed

lemma put_be64_end:
  assumes "length p = 120" "length q = 8"
  shows "put_be64 v 120 (p @ q) = p @ be64_bytes v"
proof -
  obtain a b c d e f g h where "q = [a, b, c, d, e, f, g, h]" using assms(2) by (rule length_8E)
  then show ?thesis
    using assms(1) by (simp add: put_be64_def be64_bytes_def upt_rec [of _ 8] list_update_append)
qed

lemma put_length_field:
  assumes "length b = 128"
  shows "put_be64 v 120 (memcpy_at b 112 (replicate 8 0))
    = memcpy_at b 112 (replicate 8 0 @ be64_bytes v)"
proof -
  have "memcpy_at b 112 (replicate 8 0) = (take 112 b @ replicate 8 0) @ drop 120 b"
    by (simp add: memcpy_at_def)
  then show ?thesis
    using assms put_be64_end [of "take 112 b @ replicate 8 0" "drop 120 b" v]
    by (simp add: memcpy_at_def)
qed

lemma sha512_finalize_view:
  assumes "sha512_ok ctx"
  shows "fst (sha512_finalize ctx) = sha512_out (fst (buffered_final sha512_compress 128 16
     (replicate 8 0 @ be64_bytes (total512 ctx * 8)) (sha512_view ctx)))"
proof (cases "buf_len512 ctx + 1 > 112")
  case True
  then show ?thesis
    using assms
    by (cases "buf_len512 ctx + 1 < 128")
      (simp_all add: sha512_finalize_def sha512_view_def buffered_final_def sha512_out_def
        Let_def sha512_ok_def put_length_field)
next
  case False
  then show ?thesis
    using assms
    by (simp add: sha512_finalize_def sha512_view_def buffered_final_def sha512_out_def
        Let_def sha512_ok_def put_length_field)
qed

lemma sha512_finalize_absorb:
  assumes "sha512_ok c" "total512 c = of_nat n" "length (sha512_pending c) = n mod 128"
  shows "fst (sha512_finalize c)
    = sha512_out (fst (absorb sha512_compress 128 (state512 c) (sha512_pending c @ sha512_pad n)))"
proof -
  let ?l = "replicate 8 0 @ be64_bytes (total512 c * 8)"
  have "buf_len512 c = n mod 128"
    using assms by (simp add: sha512_ok_def sha512_pending_def)
  then have "fst (buffered_final sha512_compress 128 16 ?l (state512 c, buf512 c, buf_len512 c))
      = fst (absorb sha512_compress 128 (state512 c)
          (take (buf_len512 c) (buf512 c) @ md_pad 128 16 n ?l))"
    using assms(1) by (intro buffered_final_absorb) (auto simp: sha512_ok_def)
  then show ?thesis
    by (simp add: sha512_finalize_view [OF assms(1)] sha512_view_def sha512_pad_def
        sha512_pending_def assms(2))
qed

interpretation sha5: block_digest sha512_update state512 sha512_pending total512 sha512_ok
  sha512_compress 128 sha512_new SHA512_IV "\<lambda>c. fst (sha512_finalize c)" sha512_pad sha512_out
proof
  fix c d n
  show "sha512_ok c \<Longrightarrow> sha512_ok (sha512_update c d)"
    and "sha512_ok c \<Longrightarrow> (state512 (sha512_update c d), sha512_pending (sha512_update c d))
      = absorb sha512_compress 128 (state512 c) (sha512_pending c @ d)"
    by (rule sha512_update_absorb; assumption)+
  show "sha512_ok c \<Longrightarrow> total512 c = of_nat n \<Longrightarrow> length (sha512_pending c) = n mod 128 \<Longrightarrow>
      fst (sha512_finalize c) =
        sha512_out (fst (absorb sha512_compress 128 (state512 c) (sha512_pending c @ sha512_pad n)))"
    by (rule sha512_finalize_absorb)
qed (simp_all add: sha512_update_total sha512_ok_def sha512_new_def sha512_reset_def
    sha512_pending_def SHA512_IV_def)

lemma sha512_hash_digest: "sha512_hash msg = sha5.digest msg"
  by (simp add: sha512_hash_def sha5.fin_one)

lemma length_sha512_hash [simp]: "length (sha512_hash msg) = 64"
  by (simp add: sha512_hash_digest sha5.digest_def sha512_out_def store_be64_bytes_def length_concat
      comp_def sum_list_triv)

section \<open>Properties\<close>

text \<open>a SHA-512 digest is the chain of the compression function over the 128-byte blocks of
  the padded message, whatever pieces \<open>update\<close> received.\<close>
theorem sha512_stream_spec:
  "fst (sha512_finalize (fold (\<lambda>d c. sha512_update c d) chunks sha512_new))
     = sha512_out (fst (absorb sha512_compress 128 SHA512_IV
         (concat chunks @ sha512_pad (length (concat chunks)))))
   \<and> snd (absorb sha512_compress 128 SHA512_IV
         (concat chunks @ sha512_pad (length (concat chunks)))) = []
   \<and> sha512_hash (concat chunks)
     = fst (sha512_finalize (fold (\<lambda>d c. sha512_update c d) chunks sha512_new))"
proof -
  have "length (snd (absorb sha512_compress 128 SHA512_IV
         (concat chunks @ sha512_pad (length (concat chunks))))) = 0"
    using length_md_pad [of 16 128 "replicate 8 0 @ be64_bytes (of_nat (length (concat chunks)) * 8)"
        "length (concat chunks)"]
    by (simp add: absorb_snd_length sha512_pad_def)
  then show ?thesis
    using sha5.fin_chunks [of chunks] by (simp add: sha512_hash_digest sha5.digest_def)
qed

end
