(* ===== verification/Hmac.thy ===== *)
theory Hmac
  imports Sha512
begin

text \<open>
  HMAC-SHA256 and HKDF-SHA256 of \<open>hkdf.cpp\<close>, HMAC-SHA512 of \<open>bip32.cpp\<close>. The locale \<open>hmac_of\<close> is
  RFC 2104 over any hash with a fixed digest length; both implementations are shown to compute it,
  and \<open>hkdf_sha256_expand\<close>, which clones pre-hashed pad contexts and counts blocks in a byte, to
  compute RFC 5869. Erasing the key buffers has no effect on the results and is left out.
\<close>

section \<open>HMAC-SHA256 and HKDF (hkdf.cpp)\<close>

definition hmac_sha256 :: "bytes \<Rightarrow> bytes \<Rightarrow> bytes" where
  "hmac_sha256 key data =
     (let k_buf = replicate 64 0;
          k_buf = (if length key > 64 then memcpy_at k_buf 0 (sha256_hash key)
                   else if length key > 0 then memcpy_at k_buf 0 key else k_buf);
          ipad = map (\<lambda>i. k_buf ! i XOR 0x36) [0..<64];
          opad = map (\<lambda>i. k_buf ! i XOR 0x5C) [0..<64];
          inner = sha256_update sha256_new ipad;
          inner = (if length data > 0 then sha256_update inner data else inner);
          inner_hash = fst (sha256_finalize inner);
          outer = sha256_update sha256_new opad;
          outer = sha256_update outer inner_hash
      in fst (sha256_finalize outer))"

text \<open>A null salt is the empty list.\<close>

definition hkdf_sha256_extract :: "bytes \<Rightarrow> bytes \<Rightarrow> bytes" where
  "hkdf_sha256_extract salt ikm =
     (if length salt = 0 then hmac_sha256 (replicate 32 0) ikm else hmac_sha256 salt ikm)"

function hkdf_expand_loop ::
  "sha256 \<Rightarrow> sha256 \<Rightarrow> bytes \<Rightarrow> nat \<Rightarrow> u8 \<Rightarrow> bytes \<Rightarrow> nat \<Rightarrow> nat \<Rightarrow> bytes \<Rightarrow> bytes" where
  "hkdf_expand_loop ipad_base opad_base info out_len i t t_len offset out =
     (if offset < out_len then
        let inner = ipad_base;
            inner = (if t_len > 0 then sha256_update inner (take t_len t) else inner);
            inner = (if length info > 0 then sha256_update inner info else inner);
            inner = sha256_update inner [i];
            inner_hash = fst (sha256_finalize inner);
            outer = sha256_update opad_base inner_hash;
            ti = fst (sha256_finalize outer);
            t = ti;
            copy = min 32 (out_len - offset);
            out = memcpy_at out offset (take copy t)
        in hkdf_expand_loop ipad_base opad_base info out_len (i + 1) t 32 (offset + copy) out
      else out)"
  by pat_completeness auto
termination
  by (relation "measure (\<lambda>(_, _, _, out_len, _, _, _, offset, _). out_len - offset)") auto

declare hkdf_expand_loop.simps [simp del]

text \<open>The caller's buffer \<open>out\<close> (its length is \<open>out_len\<close>) is returned with the success flag.\<close>

definition hkdf_sha256_expand :: "bytes \<Rightarrow> bytes \<Rightarrow> bytes \<Rightarrow> bool \<times> bytes" where
  "hkdf_sha256_expand prk info out =
     (if length out > 255 * 32 then (False, out)
      else
        let ipad = map (\<lambda>j. prk ! j XOR 0x36) [0..<32] @ replicate 32 0x36;
            opad = map (\<lambda>j. prk ! j XOR 0x5C) [0..<32] @ replicate 32 0x5C;
            ipad_base = sha256_update sha256_new ipad;
            opad_base = sha256_update sha256_new opad
        in (True, hkdf_expand_loop ipad_base opad_base info (length out) 1
                    (replicate 32 0) 0 0 out))"

section \<open>HMAC-SHA512 (bip32.cpp)\<close>

definition hmac_sha512 :: "bytes \<Rightarrow> bytes \<Rightarrow> bytes" where
  "hmac_sha512 key data =
     (let k_buf = replicate 128 0;
          k_buf = (if length key > 128 then memcpy_at k_buf 0 (sha512_hash key)
                   else memcpy_at k_buf 0 key);
          ipad = map (\<lambda>i. k_buf ! i XOR 0x36) [0..<128];
          opad = map (\<lambda>i. k_buf ! i XOR 0x5c) [0..<128];
          inner = sha512_update sha512_new ipad;
          inner = sha512_update inner data;
          inner_hash = fst (sha512_finalize inner);
          outer = sha512_update sha512_new opad;
          outer = sha512_update outer inner_hash
      in fst (sha512_finalize outer))"

section \<open>RFC 2104 over an abstract hash\<close>

locale hmac_of =
  fixes H :: "bytes \<Rightarrow> bytes" and B :: nat and N :: nat
  assumes H_length: "length (H m) = N" and N_le: "N \<le> B"
begin

definition block_key :: "bytes \<Rightarrow> bytes" where
  "block_key key = (let k = (if length key > B then H key else key) in k @ replicate (B - length k) 0)"

definition mac_of :: "bytes \<Rightarrow> bytes \<Rightarrow> bytes" where
  "mac_of key msg = H (map (\<lambda>b. b XOR 0x5C) (block_key key) @
     H (map (\<lambda>b. b XOR 0x36) (block_key key) @ msg))"

lemma length_block_key: "length (block_key key) = B"
  using H_length N_le by (simp add: block_key_def Let_def)

lemma length_mac_of: "length (mac_of key msg) = N"
  by (simp add: mac_of_def H_length)

lemma mac_of_zero_extend:
  assumes "length key + n \<le> B"
  shows "mac_of (key @ replicate n 0) msg = mac_of key msg"
proof -
  have "block_key (key @ replicate n 0) = block_key key"
    using assms by (simp add: block_key_def Let_def replicate_add [symmetric])
  then show ?thesis by (simp add: mac_of_def)
qed

lemma mac_of_long_key:
  assumes "length key > B"
  shows "mac_of key msg = mac_of (H key) msg"
proof -
  have "block_key key = block_key (H key)"
    using assms N_le by (simp add: block_key_def Let_def H_length)
  then show ?thesis by (simp add: mac_of_def)
qed

end

interpretation hm256: hmac_of sha256_hash 64 32
  by unfold_locales simp_all

interpretation hm512: hmac_of sha512_hash 128 64
  by unfold_locales simp_all

lemma map_index_nth: "length xs = n \<Longrightarrow> map (\<lambda>i. f (xs ! i)) [0..<n] = map f xs"
  by (auto intro: nth_equalityI)

lemma map_index_nth_XOR:
  "length xs = n \<Longrightarrow> map (\<lambda>i. xs ! i XOR (c :: u8)) [0..<n] = map (\<lambda>b. b XOR c) xs"
  by (rule map_index_nth)

lemma sha256_fin_two: "fst (sha256_finalize (sha256_update (sha256_update sha256_new x) y))
    = sha256_hash (x @ y)"
  by (simp add: sha.fin_two sha256_hash_digest)

lemma sha512_fin_two: "fst (sha512_finalize (sha512_update (sha512_update sha512_new x) y))
    = sha512_hash (x @ y)"
  by (simp add: sha5.fin_two sha512_hash_digest)

lemma hmac_sha256_mac_of: "hmac_sha256 key msg = hm256.mac_of key msg"
proof -
  have k: "(if length key > 64 then memcpy_at (replicate 64 0) 0 (sha256_hash key)
      else if length key > 0 then memcpy_at (replicate 64 0) 0 key else replicate 64 0)
      = hm256.block_key key"
    by (simp add: hm256.block_key_def memcpy_at_def Let_def)
  have e: "fst (sha256_finalize (sha256_update sha256_new x)) = sha256_hash x" for x
    by (simp add: sha256_hash_def)
  have i: "fst (sha256_finalize (if length msg > 0 then sha256_update (sha256_update sha256_new p) msg
      else sha256_update sha256_new p)) = sha256_hash (p @ msg)" for p
    by (simp add: sha256_fin_two e)
  show ?thesis
    unfolding hmac_sha256_def Let_def k
    by (simp only: i sha256_fin_two map_index_nth_XOR hm256.length_block_key hm256.mac_of_def)
qed

lemma hmac_sha512_mac_of: "hmac_sha512 key msg = hm512.mac_of key msg"
proof -
  have k: "(if length key > 128 then memcpy_at (replicate 128 0) 0 (sha512_hash key)
      else memcpy_at (replicate 128 0) 0 key) = hm512.block_key key"
    by (simp add: hm512.block_key_def memcpy_at_def Let_def)
  show ?thesis
    unfolding hmac_sha512_def Let_def k
    by (simp only: sha512_fin_two map_index_nth_XOR hm512.length_block_key hm512.mac_of_def)
qed

lemma length_hmac_sha512 [simp]: "length (hmac_sha512 key msg) = 64"
  by (simp add: hmac_sha512_mac_of hm512.length_mac_of)

lemma length_hmac_sha256 [simp]: "length (hmac_sha256 key msg) = 32"
  by (simp add: hmac_sha256_mac_of hm256.length_mac_of)

section \<open>RFC 5869\<close>

primrec hkdf_T :: "bytes \<Rightarrow> bytes \<Rightarrow> nat \<Rightarrow> bytes" where
  "hkdf_T prk info 0 = []"
| "hkdf_T prk info (Suc n) = hmac_sha256 prk (hkdf_T prk info n @ info @ [of_nat (Suc n)])"

lemma length_hkdf_T [simp]: "length (hkdf_T prk info (Suc n)) = 32"
  by simp

lemma hkdf_block:
  assumes "length prk = 32"
    and "ipad_base = sha256_update sha256_new (map (\<lambda>j. prk ! j XOR 0x36) [0..<32] @ replicate 32 0x36)"
    and "opad_base = sha256_update sha256_new (map (\<lambda>j. prk ! j XOR 0x5C) [0..<32] @ replicate 32 0x5C)"
  shows "fst (sha256_finalize (sha256_update opad_base (fst (sha256_finalize
      (fold (\<lambda>d c. sha256_update c d) chunks ipad_base))))) = hmac_sha256 prk (concat chunks)"
proof -
  let ?k = "prk @ replicate 32 0"
  have k: "hm256.block_key prk = ?k" using assms(1) by (simp add: hm256.block_key_def)
  have p: "map (\<lambda>j. prk ! j XOR c) [0..<32] @ replicate 32 c = map (\<lambda>b. b XOR c) ?k" for c :: u8
    using assms(1) by (simp add: map_index_nth_XOR)
  have "fst (sha256_finalize (fold (\<lambda>d c. sha256_update c d) chunks ipad_base))
      = sha256_hash (map (\<lambda>b. b XOR 0x36) ?k @ concat chunks)"
    using sha.fin_chunks [of "map (\<lambda>b. b XOR 0x36) ?k # chunks"]
    unfolding assms(2) p by (simp add: sha256_hash_digest)
  then show ?thesis
    unfolding assms(3) p hmac_sha256_mac_of hm256.mac_of_def k by (simp only: sha256_fin_two)
qed

lemma hkdf_inner_chunks:
  "sha256_update (if 0 < length info
      then sha256_update (if 0 < t_len then sha256_update c (take t_len t) else c) info
      else (if 0 < t_len then sha256_update c (take t_len t) else c)) [i]
   = fold (\<lambda>d c. sha256_update c d)
       ((if 0 < t_len then [take t_len t] else []) @ (if 0 < length info then [info] else []) @ [[i]]) c"
  by simp

lemma hkdf_expand_loop_spec:
  assumes prk: "length prk = 32"
    "ipad_base = sha256_update sha256_new (map (\<lambda>j. prk ! j XOR 0x36) [0..<32] @ replicate 32 0x36)"
    "opad_base = sha256_update sha256_new (map (\<lambda>j. prk ! j XOR 0x5C) [0..<32] @ replicate 32 0x5C)"
    and "length out = out_len" "offset \<le> out_len" "out_len - offset \<le> 32 * k"
    and "take t_len t = hkdf_T prk info n" "i = of_nat (Suc n)"
  shows "hkdf_expand_loop ipad_base opad_base info out_len i t t_len offset out
    = take offset out @ take (out_len - offset) (concat (map (hkdf_T prk info) [Suc n..<Suc n + k]))"
  using assms(4-)
proof (induction k arbitrary: n i t t_len offset out)
  case 0
  then show ?case by (subst hkdf_expand_loop.simps) simp
next
  case (Suc k)
  show ?case
  proof (cases "offset < out_len")
    case False
    then show ?thesis using Suc.prems by (subst hkdf_expand_loop.simps) simp
  next
    case True
    define ti where "ti = hkdf_T prk info (Suc n)"
    define copy where "copy = min 32 (out_len - offset)"
    let ?chunks = "(if 0 < t_len then [take t_len t] else []) @
      (if 0 < length info then [info] else []) @ [[i]]"
    have "concat ?chunks = hkdf_T prk info n @ info @ [i]"
      using Suc.prems(4) by (cases "0 < t_len") auto
    then have ti: "fst (sha256_finalize (sha256_update opad_base (fst (sha256_finalize
        (fold (\<lambda>d c. sha256_update c d) ?chunks ipad_base))))) = ti"
      using hkdf_block [OF prk, of ?chunks] Suc.prems(5) by (simp only: ti_def hkdf_T.simps)
    have len: "length ti = 32" unfolding ti_def by (rule length_hkdf_T)
    define out' where "out' = memcpy_at out offset (take copy ti)"
    have step: "hkdf_expand_loop ipad_base opad_base info out_len i t t_len offset out
        = hkdf_expand_loop ipad_base opad_base info out_len (i + 1) ti 32 (offset + copy) out'"
      by (subst hkdf_expand_loop.simps)
        (simp only: True if_True Let_def hkdf_inner_chunks ti copy_def out'_def)
    have c: "copy \<le> 32" "copy \<le> out_len - offset" "length (take copy ti) = copy"
      using len by (simp_all add: copy_def)
    have "hkdf_expand_loop ipad_base opad_base info out_len (i + 1) ti 32 (offset + copy) out'
        = take (offset + copy) out' @ take (out_len - (offset + copy))
            (concat (map (hkdf_T prk info) [Suc (Suc n)..<Suc (Suc n) + k]))"
    proof (rule Suc.IH)
      show "length out' = out_len" using Suc.prems c True by (simp add: out'_def)
      show "offset + copy \<le> out_len" using c True by simp
      show "out_len - (offset + copy) \<le> 32 * k" using Suc.prems by (simp add: copy_def)
      show "take 32 ti = hkdf_T prk info (Suc n)" using len by (simp add: ti_def)
      show "i + 1 = of_nat (Suc (Suc n))" using Suc.prems by simp
    qed
    moreover have "take (offset + copy) out' = take offset out @ take copy ti"
      using c True Suc.prems(1) take_memcpy_at [of offset "take copy ti" out]
      by (simp add: out'_def)
    moreover have "concat (map (hkdf_T prk info) [Suc n..<Suc n + Suc k])
        = ti @ concat (map (hkdf_T prk info) [Suc (Suc n)..<Suc (Suc n) + k])"
      by (simp add: upt_conv_Cons ti_def del: hkdf_T.simps upt_Suc)
    moreover have "take (out_len - offset) ti = take copy ti"
      using len by (simp add: copy_def min_def)
    moreover have "out_len - (offset + copy) = out_len - offset - length ti"
      using len by (simp add: copy_def)
    ultimately show ?thesis by (simp add: step)
  qed
qed

section \<open>Properties\<close>

text \<open>both HMAC implementations compute RFC 2104: a key longer than the block is hashed
  first, a shorter one is zero-extended, and the result is
  H((K xor opad) || H((K xor ipad) || message)).\<close>
theorem hmac_spec:
  "hmac_sha256 key msg =
     (let k = (if length key > 64 then sha256_hash key else key); k = k @ replicate (64 - length k) 0
      in sha256_hash (map (\<lambda>b. b XOR 0x5C) k @ sha256_hash (map (\<lambda>b. b XOR 0x36) k @ msg)))
   \<and> hmac_sha512 key msg =
     (let k = (if length key > 128 then sha512_hash key else key); k = k @ replicate (128 - length k) 0
      in sha512_hash (map (\<lambda>b. b XOR 0x5C) k @ sha512_hash (map (\<lambda>b. b XOR 0x36) k @ msg)))"
  by (simp add: hmac_sha256_mac_of hmac_sha512_mac_of hm256.mac_of_def hm512.mac_of_def
      hm256.block_key_def hm512.block_key_def Let_def)

text \<open>with a 32-byte key, \<open>hkdf_sha256_expand\<close> fills the whole buffer with the first bytes of
  T(1) || T(2) || ... of RFC 5869 for every length up to 255 blocks (the byte counter never
  wraps before the buffer is full), and refuses longer outputs leaving the buffer untouched;
  a missing salt in \<open>hkdf_sha256_extract\<close> is the all-zero (equivalently the empty) key.\<close>
theorem hkdf_spec:
  assumes "length prk = 32" "length out \<le> 255 * 32" "length big > 255 * 32"
  shows "hkdf_sha256_expand prk info out =
      (True, take (length out) (concat (map (hkdf_T prk info) [1..<256])))
    \<and> hkdf_sha256_expand prk info big = (False, big)
    \<and> hkdf_sha256_extract [] ikm = hmac_sha256 [] ikm"
proof -
  have "hkdf_expand_loop
      (sha256_update sha256_new (map (\<lambda>j. prk ! j XOR 0x36) [0..<32] @ replicate 32 0x36))
      (sha256_update sha256_new (map (\<lambda>j. prk ! j XOR 0x5C) [0..<32] @ replicate 32 0x5C))
      info (length out) 1 (replicate 32 0) 0 0 out
    = take 0 out @ take (length out - 0) (concat (map (hkdf_T prk info) [Suc 0..<Suc 0 + 255]))"
    using assms(1,2) by (intro hkdf_expand_loop_spec) simp_all
  moreover have "hmac_sha256 ([] @ replicate 32 0) ikm = hmac_sha256 [] ikm"
    unfolding hmac_sha256_mac_of by (rule hm256.mac_of_zero_extend) simp
  ultimately show ?thesis
    using assms(2,3) by (simp add: hkdf_sha256_expand_def hkdf_sha256_extract_def Let_def not_le)
qed

theorem hkdf_spec_witness:
  "fst (hkdf_sha256_expand (replicate 32 1) [] (replicate 42 0))
    \<and> length (snd (hkdf_sha256_expand (replicate 32 1) [] (replicate 8160 0))) = 8160
    \<and> \<not> fst (hkdf_sha256_expand (replicate 32 1) [] (replicate 8161 0))"
proof -
  have "length (concat (map (hkdf_T (replicate 32 1) []) (map Suc [0..<255]))) = 8160"
    by (simp add: length_concat comp_def sum_list_triv del: map_Suc_upt hkdf_T.simps)
  then have "length (concat (map (hkdf_T (replicate 32 1) []) [1..<256])) = 8160"
    by (simp add: map_Suc_upt del: upt_Suc hkdf_T.simps)
  then show ?thesis
    using hkdf_spec [of "replicate 32 1" "replicate 42 0" "replicate 8161 0" "[]"]
      hkdf_spec [of "replicate 32 1" "replicate 8160 0" "replicate 8161 0" "[]"]
    by (simp del: upt_Suc hkdf_T.simps)
qed

end
