(* ===== verification/Rfc6979.thy ===== *)
theory Rfc6979
  imports Ct_Scalar Hmac
begin

text \<open>
  The deterministic nonces of \<open>ecdsa.cpp\<close>. \<open>HMAC_Ctx\<close> keeps the SHA-256 states after the two padded key
  blocks and computes an HMAC with one compression per remaining block; \<open>rfc6979_nonce\<close>, its hedged
  variant and the variant that is byte-compatible with libsecp256k1 run HMAC-DRBG on it and select,
  without branching, the first of two candidates that is a scalar. The theorem compares them with
  the generator of RFC 6979. Erasing the buffers has no effect on the results and is left out.
\<close>

section \<open>HMAC on precomputed midstates\<close>

definition state_to_bytes :: "u32 list \<Rightarrow> bytes" where
  "state_to_bytes st = concat (map (\<lambda>i. [ucast (drop_bit 24 (st ! i)), ucast (drop_bit 16 (st ! i)),
     ucast (drop_bit 8 (st ! i)), ucast (st ! i)]) [0..<8])"

definition write_be_len :: "bytes \<Rightarrow> u64 \<Rightarrow> bytes" where
  "write_be_len block bits =
     memcpy_at block 56
       [ucast (drop_bit 56 bits), ucast (drop_bit 48 bits), ucast (drop_bit 40 bits), ucast (drop_bit 32 bits),
        ucast (drop_bit 24 bits), ucast (drop_bit 16 bits), ucast (drop_bit 8 bits), ucast bits]"

record HMAC_Ctx =
  inner_mid :: "u32 list"
  outer_mid :: "u32 list"

definition init_key32 :: "bytes \<Rightarrow> HMAC_Ctx" where
  "init_key32 key =
     (let pad = memcpy_at (map (\<lambda>i. key ! i XOR 0x36) [0..<32] @ replicate 32 0) 32 (replicate 32 0x36);
          inner = sha256_compress pad SHA256_IV;
          pad = memcpy_at (map (\<lambda>i. key ! i XOR 0x5c) [0..<32] @ drop 32 pad) 32 (replicate 32 0x5c);
          outer = sha256_compress pad SHA256_IV
      in \<lparr>inner_mid = inner, outer_mid = outer\<rparr>)"

text \<open>The last inner block (the remaining bytes, the padding and the length) and the outer block, as
  each of the three functions computes them; \<open>out\<close> is the buffer of the caller, unchanged when a
  guard refuses the length. Local blocks are written in full before they are read.\<close>

definition last_block :: "bytes \<Rightarrow> bytes \<Rightarrow> nat \<Rightarrow> bytes" where
  "last_block block rest msg_len =
     (let block = memcpy_at block 0 rest;
          block = block[length rest := 0x80];
          block = memcpy_at block (length rest + 1) (replicate (55 - length rest) 0)
      in write_be_len block (of_nat (64 + msg_len) * 8))"

definition outer_hash :: "HMAC_Ctx \<Rightarrow> bytes \<Rightarrow> u32 list \<Rightarrow> bytes" where
  "outer_hash ctx block st =
     (let ihash = state_to_bytes st;
          block = memcpy_at block 0 ihash;
          block = block[32 := 0x80];
          block = memcpy_at block 33 (replicate 23 0);
          block = memcpy_at block 56 [0, 0, 0, 0, 0, 0, 0x03, 0x00]
      in state_to_bytes (sha256_compress block (outer_mid ctx)))"

definition compute_short :: "HMAC_Ctx \<Rightarrow> bytes \<Rightarrow> bytes \<Rightarrow> bytes" where
  "compute_short ctx msg out =
     (if length msg > 55 then out
      else
        let block = last_block (replicate 64 0) msg (length msg)
        in outer_hash ctx block (sha256_compress block (inner_mid ctx)))"

definition compute_two_block :: "HMAC_Ctx \<Rightarrow> bytes \<Rightarrow> bytes \<Rightarrow> bytes" where
  "compute_two_block ctx msg out =
     (if length msg \<le> 64 \<or> length msg > 119 then out
      else
        let st = sha256_compress (take 64 msg) (inner_mid ctx);
            block = last_block (replicate 64 0) (drop 64 msg) (length msg)
        in outer_hash ctx block (sha256_compress block st))"

definition compute_three_block :: "HMAC_Ctx \<Rightarrow> bytes \<Rightarrow> bytes \<Rightarrow> bytes" where
  "compute_three_block ctx msg out =
     (if length msg < 128 \<or> length msg > 183 then out
      else
        let st = sha256_compress (take 64 msg) (inner_mid ctx);
            st = sha256_compress (take 64 (drop 64 msg)) st;
            block = last_block (replicate 64 0) (drop 128 msg) (length msg)
        in outer_hash ctx block (sha256_compress block st))"

section \<open>The nonces\<close>

text \<open>\<open>buf97\<close>, \<open>buf129\<close> and \<open>buf\<close>: the state, a separator, the key, the message hash and the data that
  follows them.\<close>

definition seed_buffer :: "bytes \<Rightarrow> u8 \<Rightarrow> bytes \<Rightarrow> bytes \<Rightarrow> bytes \<Rightarrow> bytes" where
  "seed_buffer V sep x_bytes msg_hash extra =
     (let buf = replicate (97 + length extra) 0;
          buf = memcpy_at buf 0 V;
          buf = buf[32 := sep];
          buf = memcpy_at buf 33 x_bytes;
          buf = memcpy_at buf 65 msg_hash
      in memcpy_at buf 97 extra)"

text \<open>The two candidates and the selection by mask, which the three functions share.\<close>

definition strict_candidate :: "bytes \<Rightarrow> bool \<times> scalar" where
  "strict_candidate t =
     (case parse_bytes_strict_nonzero t of None \<Rightarrow> (False, scalar_zero) | Some cand \<Rightarrow> (True, cand))"

definition select_candidate :: "HMAC_Ctx \<Rightarrow> bytes \<Rightarrow> bytes \<Rightarrow> scalar" where
  "select_candidate hmac K V =
     (let V = compute_short hmac V V;
          (ok1, cand1) = strict_candidate V;
          buf33 = memcpy_at (replicate 33 0) 0 V;
          buf33 = buf33[32 := 0x00];
          K = compute_short hmac buf33 K;
          hmac = init_key32 K;
          V = compute_short hmac V V;
          V = compute_short hmac V V;
          (ok2, cand2) = strict_candidate V;
          mask1 = - (if ok1 then 1 else 0)
      in ct_scalar_select cand1 cand2 mask1)"

definition rfc6979_nonce :: "scalar \<Rightarrow> bytes \<Rightarrow> scalar" where
  "rfc6979_nonce private_key msg_hash =
     (let x_bytes = to_bytes private_key;
          V = replicate 32 0x01;
          K = replicate 32 0x00;
          hmac = init_key32 K;
          K = compute_two_block hmac (seed_buffer V 0x00 x_bytes msg_hash []) K;
          hmac = init_key32 K;
          V = compute_short hmac V V;
          K = compute_two_block hmac (seed_buffer V 0x01 x_bytes msg_hash []) K;
          hmac = init_key32 K;
          V = compute_short hmac V V
      in select_candidate hmac K V)"

definition rfc6979_nonce_hedged :: "scalar \<Rightarrow> bytes \<Rightarrow> bytes \<Rightarrow> scalar" where
  "rfc6979_nonce_hedged private_key msg_hash aux_rand =
     (let x_bytes = to_bytes private_key;
          V = replicate 32 0x01;
          K = replicate 32 0x00;
          hmac = init_key32 K;
          K = compute_three_block hmac (seed_buffer V 0x00 x_bytes msg_hash aux_rand) K;
          hmac = init_key32 K;
          V = compute_short hmac V V;
          K = compute_three_block hmac (seed_buffer V 0x01 x_bytes msg_hash aux_rand) K;
          hmac = init_key32 K;
          V = compute_short hmac V V
      in select_candidate hmac K V)"

definition kAlgo16 :: bytes where
  "kAlgo16 = [0x45, 0x43, 0x44, 0x53, 0x41] @ replicate 11 0"

text \<open>A null \<open>ndata32\<close> is \<open>None\<close>.\<close>

definition rfc6979_nonce_libsecp_compat :: "scalar \<Rightarrow> bytes \<Rightarrow> bytes option \<Rightarrow> scalar" where
  "rfc6979_nonce_libsecp_compat private_key msg_hash ndata32 =
     (let x_bytes = to_bytes private_key;
          V = replicate 32 0x01;
          K = replicate 32 0x00;
          extra = (case ndata32 of None \<Rightarrow> [] | Some d \<Rightarrow> d) @ kAlgo16;
          hmac = init_key32 K;
          buf = seed_buffer V 0x00 x_bytes msg_hash extra;
          K = (if ndata32 \<noteq> None then compute_three_block hmac buf K else compute_two_block hmac buf K);
          hmac = init_key32 K;
          V = compute_short hmac V V;
          buf = seed_buffer V 0x01 x_bytes msg_hash extra;
          K = (if ndata32 \<noteq> None then compute_three_block hmac buf K else compute_two_block hmac buf K);
          hmac = init_key32 K;
          V = compute_short hmac V V
      in select_candidate hmac K V)"

section \<open>The midstates compute HMAC\<close>

lemma state_to_bytes_out: "state_to_bytes st = sha256_out st"
  by (simp add: state_to_bytes_def sha256_out_def store_be32_def)

lemma length_state_to_bytes [simp]: "length (state_to_bytes st) = 32"
  by (simp add: state_to_bytes_def length_concat comp_def sum_list_triv)

text \<open>A block that is overwritten from the front, in four pieces.\<close>

lemma block_pieces:
  assumes "length block = n + 1 + m + 8"
  obtains a x b c where "block = a @ [x] @ b @ c" "length a = n" "length b = m" "length c = 8"
proof (rule that [of "take n block" "block ! n" "take m (drop (n + 1) block)" "drop (n + 1 + m) block"])
  have "drop n block = block ! n # drop (n + 1) block" using assms by (simp add: Cons_nth_drop_Suc)
  moreover have "drop (n + 1) block = take m (drop (n + 1) block) @ drop (n + 1 + m) block"
    by (metis append_take_drop_id drop_drop add.commute)
  ultimately show "block = take n block @ [block ! n] @ take m (drop (n + 1) block) @ drop (n + 1 + m) block"
    by (metis append_Cons append_Nil append_take_drop_id)
qed (use assms in simp_all)

lemma fill_block:
  assumes "length block = 64" "length rest \<le> 55" "length lenb = 8"
  shows "memcpy_at (memcpy_at ((memcpy_at block 0 rest)[length rest := 0x80]) (length rest + 1)
      (replicate (55 - length rest) 0)) 56 lenb
    = rest @ [0x80] @ replicate (55 - length rest) 0 @ lenb"
proof -
  have "length block = length rest + 1 + (55 - length rest) + 8" using assms by simp
  then obtain a x b c where b: "block = a @ [x] @ b @ c" "length a = length rest" "length b = 55 - length rest" "length c = 8"
    by (rule block_pieces)
  have "memcpy_at block 0 rest = rest @ [x] @ b @ c" using b(1,2) by (simp add: memcpy_at_def)
  moreover have "(rest @ [x] @ b @ c)[length rest := 0x80] = (rest @ [0x80]) @ b @ c" by simp
  moreover have "memcpy_at ((rest @ [0x80]) @ b @ c) (length rest + 1) (replicate (55 - length rest) 0)
      = (rest @ [0x80]) @ replicate (55 - length rest) 0 @ c"
    using b(3) by (intro memcpy_at_segment) simp_all
  moreover have "memcpy_at ((rest @ [0x80] @ replicate (55 - length rest) 0) @ c @ []) 56 lenb
      = (rest @ [0x80] @ replicate (55 - length rest) 0) @ lenb @ []"
    using assms b(4) by (intro memcpy_at_segment) simp_all
  ultimately show ?thesis by simp
qed

lemma last_block_value:
  assumes "length rest \<le> 55" "length block = 64" "msg_len mod 64 = length rest"
  shows "last_block block rest msg_len = rest @ sha256_pad (64 + msg_len)"
proof -
  have z: "(2 * 64 - 8 - 1 - (64 + msg_len) mod 64) mod 64 = 55 - length rest"
  proof -
    have m: "(64 + msg_len) mod 64 = length rest" using assms(3) by simp
    have n: "2 * 64 - 8 - 1 - length rest = (55 - length rest) + 64" using assms(1) by simp
    show ?thesis unfolding m n using assms(1) by (simp only: mod_add_self2) simp
  qed
  show ?thesis
    unfolding last_block_def Let_def sha256_pad_def md_pad_def z write_be_len_def
    using fill_block [OF assms(2,1), of "be64_bytes (of_nat (64 + msg_len) * 8)"]
    by (simp add: be64_bytes_def)
qed

lemma length_last_block: "length rest \<le> 55 \<Longrightarrow> length block = 64 \<Longrightarrow> length (last_block block rest n) = 64"
  by (simp add: last_block_def Let_def write_be_len_def memcpy_at_def)

lemma absorb_last: "length blk = 64 \<Longrightarrow> absorb sha256_compress 64 st blk = (sha256_compress blk st, [])"
  using absorb_block [of 64 blk sha256_compress st "[]"] by (simp add: absorb_short)

lemma length_sha256_out [simp]: "length (sha256_out st) = 32"
  using length_state_to_bytes [of st] by (simp only: state_to_bytes_out)

lemma outer_hash_value:
  assumes "length block = 64" "outer_mid ctx = sha256_compress opad SHA256_IV" "length opad = 64"
  shows "outer_hash ctx block st = sha256_hash (opad @ sha256_out st)"
proof -
  let ?h = "state_to_bytes st"
  have pad: "sha256_pad 96 = 0x80 # replicate 23 0 @ [0, 0, 0, 0, 0, 0, 3, 0]"
    by (simp add: sha256_pad_def md_pad_def be64_bytes_def)
  have "outer_hash ctx block st = sha256_out (sha256_compress (?h @ sha256_pad 96) (outer_mid ctx))"
    using fill_block [OF assms(1), of ?h "[0, 0, 0, 0, 0, 0, 3, 0]"] pad
    by (simp add: outer_hash_def Let_def state_to_bytes_out)
  also have "\<dots> = sha256_hash (opad @ ?h)"
  proof -
    have l: "length (?h @ sha256_pad 96) = 64" by (simp add: pad)
    have "sha256_hash (opad @ ?h) = sha256_out (fst (absorb sha256_compress 64 SHA256_IV (opad @ ?h @ sha256_pad 96)))"
      using assms(3) by (simp add: sha256_hash_digest sha.digest_def)
    then show ?thesis
      using assms(3) by (simp only: absorb_block absorb_last [OF l] assms(2)) simp
  qed
  finally show ?thesis by (simp add: state_to_bytes_out)
qed


text \<open>The common step: the blocks before the last have brought the inner state to \<open>st\<close>.\<close>

lemma inner_outer:
  assumes "length key = 32" "length rest \<le> 55" "length msg mod 64 = length rest"
    and "absorb sha256_compress 64 (inner_mid (init_key32 key)) (msg @ tail) = absorb sha256_compress 64 st (rest @ tail)"
    and "tail = sha256_pad (64 + length msg)"
  shows "outer_hash (init_key32 key) (last_block (replicate 64 0) rest (length msg))
      (sha256_compress (last_block (replicate 64 0) rest (length msg)) st) = hmac_sha256 key msg"
proof -
  let ?k = "key @ replicate 32 0"
  have k: "hm256.block_key key = ?k" using assms(1) by (simp add: hm256.block_key_def)
  have p: "map (\<lambda>j. key ! j XOR c) [0..<32] @ replicate 32 c = map (\<lambda>b. b XOR c) ?k" for c :: u8
    using assms(1) by (simp add: map_index_nth_XOR)
  have mids: "inner_mid (init_key32 key) = sha256_compress (map (\<lambda>b. b XOR 0x36) ?k) SHA256_IV"
    "outer_mid (init_key32 key) = sha256_compress (map (\<lambda>b. b XOR 0x5C) ?k) SHA256_IV"
    using p [of "0x36"] p [of "0x5C"] assms(1) by (simp_all add: init_key32_def Let_def memcpy_at_def)
  have l: "length (map (\<lambda>b. b XOR c) ?k) = 64" for c :: u8 using assms(1) by simp
  have b: "last_block (replicate 64 0) rest (length msg) = rest @ tail"
    using last_block_value [OF assms(2) _ assms(3)] assms(5) by simp
  have lb: "length (rest @ tail) = 64" using length_last_block [OF assms(2)] b by (metis length_replicate)
  have "sha256_hash (map (\<lambda>b. b XOR 0x36) ?k @ msg)
      = sha256_out (fst (absorb sha256_compress 64 SHA256_IV (map (\<lambda>b. b XOR 0x36) ?k @ msg @ tail)))"
    using assms(1,5) by (simp add: sha256_hash_digest sha.digest_def)
  also have "\<dots> = sha256_out (fst (absorb sha256_compress 64 st (rest @ tail)))"
    using absorb_block [OF _ l [of "0x36"], where compress = sha256_compress and st = SHA256_IV and rest = "msg @ tail"]
      assms(4) mids(1) by simp
  also have "\<dots> = sha256_out (sha256_compress (rest @ tail) st)" by (simp only: absorb_last [OF lb] fst_conv)
  finally show ?thesis
    unfolding b using outer_hash_value [OF lb mids(2) l] by (simp only: hmac_sha256_mac_of hm256.mac_of_def k)
qed

lemma compute_short_value:
  assumes "length key = 32" "length msg \<le> 55"
  shows "compute_short (init_key32 key) msg out = hmac_sha256 key msg"
  using inner_outer [OF assms(1,2) _ refl refl] assms(2) by (simp add: compute_short_def Let_def)

lemma absorb_take:
  "64 \<le> length m \<Longrightarrow> absorb sha256_compress 64 st (m @ tail)
    = absorb sha256_compress 64 (sha256_compress (take 64 m) st) (drop 64 m @ tail)"
  by (subst absorb.simps) simp

lemma compute_two_block_value:
  assumes "length key = 32" "64 < length msg" "length msg \<le> 119"
  shows "compute_two_block (init_key32 key) msg out = hmac_sha256 key msg"
proof -
  have "length msg mod 64 = length (drop 64 msg)" using assms by (simp add: mod_if)
  then show ?thesis
    using inner_outer [OF assms(1) _ _ _ refl, of "drop 64 msg" msg] absorb_take [of msg] assms
    by (simp add: compute_two_block_def Let_def)
qed

lemma compute_three_block_value:
  assumes "length key = 32" "128 \<le> length msg" "length msg \<le> 183"
  shows "compute_three_block (init_key32 key) msg out = hmac_sha256 key msg"
proof -
  have "length msg mod 64 = length (drop 128 msg)" using assms by (simp add: mod_if)
  moreover have "absorb sha256_compress 64 st (msg @ tail)
      = absorb sha256_compress 64 (sha256_compress (take 64 (drop 64 msg)) (sha256_compress (take 64 msg) st)) (drop 128 msg @ tail)" for st tail
    using absorb_take [of msg st tail] absorb_take [of "drop 64 msg" "sha256_compress (take 64 msg) st" tail] assms(2) by simp
  ultimately show ?thesis
    using inner_outer [OF assms(1) _ _ _ refl, of "drop 128 msg" msg] assms by (simp add: compute_three_block_def Let_def)
qed

text \<open>Between the ranges of the three functions the buffer of the caller stays as it was.\<close>

lemma compute_guards:
  "55 < length msg \<Longrightarrow> length msg \<le> 64 \<Longrightarrow> compute_short ctx msg out = out \<and> compute_two_block ctx msg out = out"
  "119 < length msg \<Longrightarrow> length msg < 128 \<Longrightarrow> compute_two_block ctx msg out = out \<and> compute_three_block ctx msg out = out"
  by (simp_all add: compute_short_def compute_two_block_def compute_three_block_def)

section \<open>HMAC-DRBG\<close>

text \<open>The generator of RFC 6979: the state is the pair of \<open>K\<close> and \<open>V\<close>; \<open>drbg_update\<close> absorbs data (steps
  d to g, or only the first two when there are none, as between candidates).\<close>

fun drbg_update :: "bytes \<Rightarrow> bytes \<times> bytes \<Rightarrow> bytes \<times> bytes" where
  "drbg_update data (K, V) =
     (let K = hmac_sha256 K (V @ [0x00] @ data);
          V = hmac_sha256 K V
      in if data = [] then (K, V)
         else let K = hmac_sha256 K (V @ [0x01] @ data) in (K, hmac_sha256 K V))"

fun drbg_candidate :: "nat \<Rightarrow> bytes \<times> bytes \<Rightarrow> bytes" where
  "drbg_candidate 0 (K, V) = hmac_sha256 K V"
| "drbg_candidate (Suc n) (K, V) = drbg_candidate n (drbg_update [] (K, hmac_sha256 K V))"

definition drbg_init :: "bytes \<Rightarrow> bytes \<times> bytes" where
  "drbg_init data = drbg_update data (replicate 32 0x00, replicate 32 0x01)"

text \<open>The nonce that the code takes of the generator: the first of two candidates in range, else zero.\<close>

definition in_range :: "bytes \<Rightarrow> bool" where
  "in_range t \<longleftrightarrow> 0 < be_val t \<and> be_val t < group_order"

definition drbg_nonce :: "bytes \<Rightarrow> scalar" where
  "drbg_nonce data =
     (let t1 = drbg_candidate 0 (drbg_init data); t2 = drbg_candidate 1 (drbg_init data)
      in if in_range t1 then from_bytes t1 else if in_range t2 then from_bytes t2 else scalar_zero)"

lemma strict_candidate_value:
  assumes "length t = 32"
  shows "strict_candidate t = (in_range t, if in_range t then from_bytes t else scalar_zero)"
proof (cases "in_range t")
  case True
  then have "scalar_ok (from_bytes t)" "to_bytes (from_bytes t) = t" "sval (from_bytes t) \<noteq> 0"
    using assms by (auto simp: in_range_def from_bytes_ok from_bytes_value to_bytes_value be_bytes_be_val [of t, unfolded assms])
  then have "parse_bytes_strict_nonzero t = Some (from_bytes t)" using parse_strict_facts [OF assms] by blast
  then show ?thesis using True by (simp add: strict_candidate_def)
next
  case False
  have "parse_bytes_strict_nonzero t \<noteq> Some s" for s
  proof
    assume "parse_bytes_strict_nonzero t = Some s"
    then have s: "scalar_ok s" "to_bytes s = t" "sval s \<noteq> 0" using parse_strict_facts [OF assms] by blast+
    moreover have "0 < sval s" using s(3) limbs_val_bounds(1) [of "scalar_limbs s"] by linarith
    ultimately show False using False be_val_to_bytes [of s] by (simp add: in_range_def scalar_ok_def)
  qed
  then show ?thesis using False by (auto simp: strict_candidate_def split: option.split)
qed

lemma scalar_ok_zero: "scalar_ok scalar_zero"
  by (simp add: scalar_zero_def scalar_ok_def)

lemma select_candidate_value:
  assumes "length K = 32" "length V = 32"
  shows "select_candidate (init_key32 K) K' V =
    (let t1 = drbg_candidate 0 (K, V); t2 = drbg_candidate 1 (K, V)
     in if in_range t1 then from_bytes t1 else if in_range t2 then from_bytes t2 else scalar_zero)"
proof -
  define t1 where "t1 = hmac_sha256 K V"
  define K3 where "K3 = hmac_sha256 K (t1 @ [0])"
  define t2 where "t2 = hmac_sha256 K3 (hmac_sha256 K3 t1)"
  have l: "length t1 = 32" "length K3 = 32" "length t2 = 32" by (simp_all add: t1_def K3_def t2_def)
  have b: "(memcpy_at (replicate 33 0) 0 t1)[32 := 0] = t1 @ [0]" using l by (simp add: memcpy_at_def list_update_append)
  have m: "- (if c then 1 else 0) = mask_of c" for c by (simp add: mask_of_def)
  have ok: "scalar_ok (if c then from_bytes t else scalar_zero)" for c t by (simp add: from_bytes_ok scalar_ok_zero)
  have "select_candidate (init_key32 K) K' V = ct_scalar_select (if in_range t1 then from_bytes t1 else scalar_zero)
      (if in_range t2 then from_bytes t2 else scalar_zero) (mask_of (in_range t1))"
    unfolding select_candidate_def Let_def
    using assms l b
    by (simp add: compute_short_value m strict_candidate_value flip: t1_def K3_def t2_def)
  also have "\<dots> = (if in_range t1 then from_bytes t1 else if in_range t2 then from_bytes t2 else scalar_zero)"
    by (simp add: ct_scalar_select_eq [OF ok ok])
  finally show ?thesis
    by (simp add: Let_def drbg_candidate.simps flip: t1_def K3_def t2_def)
qed

lemma seed_buffer_value:
  assumes "length V = 32" "length x = 32" "length h = 32"
  shows "seed_buffer V sep x h extra = V @ [sep] @ x @ h @ extra"
proof -
  have "(replicate (97 + length extra) 0 :: bytes)
      = replicate 32 0 @ 0 # replicate 32 0 @ replicate 32 0 @ replicate (length extra) 0"
    using replicate_add [of 32 "1 + 32 + 32 + length extra" "0 :: u8"] replicate_add [of 1 "32 + 32 + length extra" "0 :: u8"]
      replicate_add [of 32 "32 + length extra" "0 :: u8"] replicate_add [of 32 "length extra" "0 :: u8"] by simp
  then show ?thesis using assms by (simp add: seed_buffer_def Let_def memcpy_at_def list_update_append)
qed

lemma drbg_init_value:
  assumes "data \<noteq> []"
  shows "drbg_init data =
    (let K = hmac_sha256 (replicate 32 0x00) (replicate 32 0x01 @ [0x00] @ data);
         V = hmac_sha256 K (replicate 32 0x01);
         K = hmac_sha256 K (V @ [0x01] @ data)
     in (K, hmac_sha256 K V))"
  using assms by (simp add: drbg_init_def Let_def)

lemma drbg_nonce_ok: "scalar_ok (drbg_nonce data)"
  by (simp add: drbg_nonce_def Let_def from_bytes_ok scalar_ok_zero)

lemma drbg_nonce_select:
  assumes "drbg_init data = (K, V)" "length K = 32" "length V = 32"
  shows "select_candidate (init_key32 K) K' V = drbg_nonce data"
  using select_candidate_value [OF assms(2,3)] by (simp add: drbg_nonce_def assms(1))

lemma nonce_values:
  assumes "length h = 32" "length aux = 32"
  shows "rfc6979_nonce d h = drbg_nonce (to_bytes d @ h)"
    and "rfc6979_nonce_hedged d h aux = drbg_nonce (to_bytes d @ h @ aux)"
    and "rfc6979_nonce_libsecp_compat d h None = drbg_nonce (to_bytes d @ h @ kAlgo16)"
    and "rfc6979_nonce_libsecp_compat d h (Some aux) = drbg_nonce (to_bytes d @ h @ aux @ kAlgo16)"
proof -
  have l: "length kAlgo16 = 16" by (simp add: kAlgo16_def)
  have ne: "to_bytes d @ xs \<noteq> []" for xs by (metis append_is_Nil_conv length_0_conv length_to_bytes zero_neq_numeral)
  have s: "seed_buffer V sep (to_bytes d) h extra = V @ [sep] @ to_bytes d @ h @ extra" if "length V = 32" for V sep extra
    using that assms by (intro seed_buffer_value) simp_all
  note c = compute_short_value compute_two_block_value compute_three_block_value s assms l
  show "rfc6979_nonce d h = drbg_nonce (to_bytes d @ h)"
    unfolding rfc6979_nonce_def Let_def
    by (rule drbg_nonce_select) (simp_all add: c drbg_init_value [OF ne] Let_def)
  show "rfc6979_nonce_hedged d h aux = drbg_nonce (to_bytes d @ h @ aux)"
    unfolding rfc6979_nonce_hedged_def Let_def
    by (rule drbg_nonce_select) (simp_all add: c drbg_init_value [OF ne] Let_def)
  show "rfc6979_nonce_libsecp_compat d h None = drbg_nonce (to_bytes d @ h @ kAlgo16)"
    unfolding rfc6979_nonce_libsecp_compat_def Let_def
    by (rule drbg_nonce_select) (simp_all add: c drbg_init_value [OF ne] Let_def)
  show "rfc6979_nonce_libsecp_compat d h (Some aux) = drbg_nonce (to_bytes d @ h @ aux @ kAlgo16)"
    unfolding rfc6979_nonce_libsecp_compat_def Let_def
    by (rule drbg_nonce_select) (simp_all add: c drbg_init_value [OF ne] Let_def)
qed

section \<open>Properties\<close>

text \<open>C12: The three nonce functions compute the deterministic generator of RFC 6979, seeded with the key, the
  message hash and the data that follows it, and take the first of its two first candidates in the
  range from 1 to the order, or zero when both are outside; the result is canonical. The midstates
  compute HMAC for every length their guards admit.\<close>
theorem rfc6979_nonces_spec:
  assumes "length h = 32" "length aux = 32"
  shows "rfc6979_nonce d h = drbg_nonce (to_bytes d @ h)
    \<and> rfc6979_nonce_hedged d h aux = drbg_nonce (to_bytes d @ h @ aux)
    \<and> rfc6979_nonce_libsecp_compat d h None = drbg_nonce (to_bytes d @ h @ kAlgo16)
    \<and> rfc6979_nonce_libsecp_compat d h (Some aux) = drbg_nonce (to_bytes d @ h @ aux @ kAlgo16)
    \<and> scalar_ok (rfc6979_nonce d h)
    \<and> (in_range (drbg_candidate 0 (drbg_init (to_bytes d @ h))) \<longrightarrow> sval (rfc6979_nonce d h) \<noteq> 0)"
proof -
  have "sval (drbg_nonce data) \<noteq> 0" if "in_range (drbg_candidate 0 (drbg_init data))" for data
  proof -
    obtain K V where kv: "drbg_init data = (K, V)" by (rule prod.exhaust)
    have "length (drbg_candidate 0 (drbg_init data)) = 32" by (simp add: kv)
    then show ?thesis using that by (simp add: drbg_nonce_def Let_def from_bytes_value in_range_def)
  qed
  then show ?thesis using nonce_values [OF assms] drbg_nonce_ok by simp
qed

theorem rfc6979_nonces_spec_witness:
  "rfc6979_nonce scalar_one (replicate 32 0) = drbg_nonce (to_bytes scalar_one @ replicate 32 0)"
  using rfc6979_nonces_spec [of "replicate 32 0" "replicate 32 0"] by simp

end
