(* ===== verification/Transactions.thy ===== *)
theory Transactions
  imports Wire_Format Sha256
begin

text \<open>
  \<open>bip144.cpp\<close>: the legacy and the witness serialization of a transaction, the two
  identifiers and the weight. The serializers push onto a growing buffer, as the code
  does; the lemmas show what each of them appends, and the interpretations of
  \<open>self_delimiting\<close> that nothing is lost.
\<close>

section \<open>Transactions (bip144.hpp)\<close>

type_synonym witness_stack = "bytes list"

record TxInput =
  prev_txid :: bytes
  prev_vout :: u32
  script_sig :: bytes
  in_sequence :: u32

record TxOut =
  out_value :: u64
  script_pubkey :: bytes

record WitnessTx =
  tx_version :: u32
  tx_inputs :: "TxInput list"
  tx_outputs :: "TxOut list"
  tx_witness :: "witness_stack list"
  tx_locktime :: u32

section \<open>The serializers (bip144.cpp)\<close>

definition ser_le32 :: "bytes \<Rightarrow> u32 \<Rightarrow> bytes" where
  "ser_le32 buf v = buf @ [ucast v, ucast (drop_bit 8 v), ucast (drop_bit 16 v), ucast (drop_bit 24 v)]"

definition ser_le64 :: "bytes \<Rightarrow> u64 \<Rightarrow> bytes" where
  "ser_le64 buf v = buf @ [ucast v, ucast (drop_bit 8 v), ucast (drop_bit 16 v), ucast (drop_bit 24 v),
     ucast (drop_bit 32 v), ucast (drop_bit 40 v), ucast (drop_bit 48 v), ucast (drop_bit 56 v)]"

definition ser_compact_size :: "bytes \<Rightarrow> u64 \<Rightarrow> bytes" where
  "ser_compact_size buf n =
     (if n < 253 then buf @ [ucast n]
      else if n \<le> 0xFFFF then buf @ [0xFD] @ [ucast (n AND 0xFF)] @ [ucast (drop_bit 8 n AND 0xFF)]
      else if n \<le> 0xFFFFFFFF then ser_le32 (buf @ [0xFE]) (ucast n)
      else ser_le64 (buf @ [0xFF]) n)"

definition ser_bytes :: "bytes \<Rightarrow> bytes \<Rightarrow> bytes" where
  "ser_bytes buf data = ser_compact_size buf (of_nat (length data)) @ data"

definition ser_inputs :: "bytes \<Rightarrow> TxInput list \<Rightarrow> bytes" where
  "ser_inputs buf inputs =
     fold (\<lambda>i buf.
        let buf = buf @ prev_txid i;
            buf = ser_le32 buf (prev_vout i);
            buf = ser_bytes buf (script_sig i)
        in ser_le32 buf (in_sequence i))
      inputs (ser_compact_size buf (of_nat (length inputs)))"

definition ser_outputs :: "bytes \<Rightarrow> TxOut list \<Rightarrow> bytes" where
  "ser_outputs buf outputs =
     fold (\<lambda>out buf. ser_bytes (ser_le64 buf (out_value out)) (script_pubkey out))
      outputs (ser_compact_size buf (of_nat (length outputs)))"

definition ser_witnesses :: "bytes \<Rightarrow> WitnessTx \<Rightarrow> bytes" where
  "ser_witnesses buf tx =
     fold (\<lambda>i buf.
        if i < length (tx_witness tx)
        then let stack = tx_witness tx ! i
             in fold (\<lambda>item buf. ser_bytes buf item) stack
                  (ser_compact_size buf (of_nat (length stack)))
        else buf @ [0])
      [0..<length (tx_inputs tx)] buf"

definition witness_serialize :: "WitnessTx \<Rightarrow> bytes" where
  "witness_serialize tx =
     (let buf = ser_le32 [] (tx_version tx);
          buf = buf @ [0x00];
          buf = buf @ [0x01];
          buf = ser_inputs buf (tx_inputs tx);
          buf = ser_outputs buf (tx_outputs tx);
          buf = ser_witnesses buf tx
      in ser_le32 buf (tx_locktime tx))"

definition legacy_serialize :: "WitnessTx \<Rightarrow> bytes" where
  "legacy_serialize tx =
     (let buf = ser_le32 [] (tx_version tx);
          buf = ser_inputs buf (tx_inputs tx);
          buf = ser_outputs buf (tx_outputs tx)
      in ser_le32 buf (tx_locktime tx))"

definition compute_txid :: "WitnessTx \<Rightarrow> bytes" where
  "compute_txid tx = (let data = legacy_serialize tx in hash256 data)"

fun any_nonempty :: "witness_stack list \<Rightarrow> bool" where
  "any_nonempty [] = False"
| "any_nonempty (stack # rest) = (if stack \<noteq> [] then True else any_nonempty rest)"

definition has_witness :: "WitnessTx \<Rightarrow> bool" where
  "has_witness tx = any_nonempty (tx_witness tx)"

definition compute_wtxid :: "WitnessTx \<Rightarrow> bytes" where
  "compute_wtxid tx =
     (if \<not> has_witness tx then compute_txid tx
      else let data = witness_serialize tx in hash256 data)"

definition witness_commitment :: "bytes \<Rightarrow> bytes \<Rightarrow> bytes" where
  "witness_commitment witness_root witness_nonce =
     (let buf = replicate 64 0;
          buf = memcpy_at buf 0 (take 32 witness_root);
          buf = memcpy_at buf 32 (take 32 witness_nonce)
      in hash256 buf)"

definition tx_weight :: "WitnessTx \<Rightarrow> u64" where
  "tx_weight tx =
     (let legacy_data = legacy_serialize tx;
          witness_data = witness_serialize tx
      in of_nat (length legacy_data) * 3 + of_nat (length witness_data))"

definition tx_vsize :: "WitnessTx \<Rightarrow> u64" where
  "tx_vsize tx = (let w = tx_weight tx in (w + 3) div 4)"

section \<open>What each serializer appends\<close>

definition compact :: "u64 \<Rightarrow> bytes" where
  "compact n =
     (if n < 253 then le_bytes 1 (uint n)
      else if n \<le> 0xFFFF then 0xFD # le_bytes 2 (uint n)
      else if n \<le> 0xFFFFFFFF then 0xFE # le_bytes 4 (uint n)
      else 0xFF # le_bytes 8 (uint n))"

definition var_bytes :: "bytes \<Rightarrow> bytes" where
  "var_bytes data = compact (of_nat (length data)) @ data"

definition input_bytes :: "TxInput \<Rightarrow> bytes" where
  "input_bytes i = prev_txid i @ le_bytes 4 (uint (prev_vout i)) @ var_bytes (script_sig i)
     @ le_bytes 4 (uint (in_sequence i))"

definition output_bytes :: "TxOut \<Rightarrow> bytes" where
  "output_bytes out = le_bytes 8 (uint (out_value out)) @ var_bytes (script_pubkey out)"

definition stack_bytes :: "witness_stack \<Rightarrow> bytes" where
  "stack_bytes = counted compact var_bytes"

definition input_stacks :: "WitnessTx \<Rightarrow> witness_stack list" where
  "input_stacks tx = map (\<lambda>i. if i < length (tx_witness tx) then tx_witness tx ! i else [])
     [0..<length (tx_inputs tx)]"

named_theorems appended \<open>what a serializer appends to its buffer\<close>

lemma fold_append: "fold (\<lambda>x buf. buf @ f x) xs buf = buf @ concat (map f xs)"
  by (induction xs arbitrary: buf) simp_all

lemma ser_le32_app [appended]: "ser_le32 buf v = buf @ le_bytes 4 (uint v)"
  by (simp only: ser_le32_def le32_bytes)

lemma ser_le64_app [appended]: "ser_le64 buf v = buf @ le_bytes 8 (uint v)"
  by (simp only: ser_le64_def le64_bytes)

lemma le2_bytes: "[ucast ((n :: u64) AND 0xFF), ucast (drop_bit 8 n AND 0xFF)] = le_bytes 2 (uint n)"
proof -
  have b: "(ucast (w AND 0xFF) :: u8) = ucast w" for w :: u64
  proof -
    have m: "w AND 0xFF = w AND mask 8" by (simp add: mask_eq_exp_minus_1)
    show ?thesis by (simp only: m word_uint_eq_iff uint_ucast_mod uint_and_mask) simp
  qed
  show ?thesis
    unfolding b using byte_of_drop [of 0 n] by (simp add: eval_nat_numeral byte_of_drop)
qed

lemma ucast_u32_uint: "n \<le> (0xFFFFFFFF :: u64) \<Longrightarrow> uint (ucast n :: u32) = uint n"
  by (simp add: uint_ucast_mod word_le_def)

lemma ser_compact_size_app [appended]: "ser_compact_size buf n = buf @ compact n"
  using le2_bytes [of n] byte_of_drop [of 0 n]
  by (simp add: ser_compact_size_def compact_def appended ucast_u32_uint)

lemma ser_bytes_app [appended]: "ser_bytes buf data = buf @ var_bytes data"
  by (simp add: ser_bytes_def var_bytes_def appended)

lemma ser_inputs_app [appended]: "ser_inputs buf inputs = buf @ counted compact input_bytes inputs"
proof -
  have step: "(\<lambda>i buf. let buf = buf @ prev_txid i; buf = ser_le32 buf (prev_vout i);
      buf = ser_bytes buf (script_sig i) in ser_le32 buf (in_sequence i))
    = (\<lambda>i buf. buf @ input_bytes i)"
    by (simp add: fun_eq_iff Let_def appended input_bytes_def)
  show ?thesis
    by (simp only: ser_inputs_def step fold_append ser_compact_size_app counted_def append.assoc)
qed

lemma ser_outputs_app [appended]: "ser_outputs buf outputs = buf @ counted compact output_bytes outputs"
proof -
  have step: "(\<lambda>out buf. ser_bytes (ser_le64 buf (out_value out)) (script_pubkey out))
    = (\<lambda>out buf. buf @ output_bytes out)"
    by (simp add: fun_eq_iff appended output_bytes_def)
  show ?thesis
    by (simp only: ser_outputs_def step fold_append ser_compact_size_app counted_def append.assoc)
qed

lemma stack_bytes_Nil: "stack_bytes [] = [0]"
  by (simp add: stack_bytes_def counted_def compact_def)

lemma ser_stack_app: "fold (\<lambda>item buf. ser_bytes buf item) stack
    (ser_compact_size buf (of_nat (length stack))) = buf @ stack_bytes stack"
  by (simp add: ser_bytes_app fold_append ser_compact_size_app stack_bytes_def counted_def)

lemma ser_witnesses_app [appended]:
  "ser_witnesses buf tx = buf @ concat (map stack_bytes (input_stacks tx))"
proof -
  have step: "(\<lambda>i buf. if i < length (tx_witness tx)
        then let stack = tx_witness tx ! i
             in fold (\<lambda>item buf. ser_bytes buf item) stack
                  (ser_compact_size buf (of_nat (length stack)))
        else buf @ [0])
    = (\<lambda>i buf. buf @ stack_bytes (if i < length (tx_witness tx) then tx_witness tx ! i else []))"
    by (simp add: fun_eq_iff Let_def ser_stack_app stack_bytes_Nil)
  show ?thesis
    by (simp only: ser_witnesses_def step fold_append input_stacks_def list.map_comp comp_def)
qed

lemma legacy_bytes: "legacy_serialize tx =
    le_bytes 4 (uint (tx_version tx)) @ counted compact input_bytes (tx_inputs tx)
    @ counted compact output_bytes (tx_outputs tx) @ le_bytes 4 (uint (tx_locktime tx))"
  by (simp add: legacy_serialize_def appended)

lemma witness_bytes: "witness_serialize tx =
    le_bytes 4 (uint (tx_version tx)) @ [0, 1] @ counted compact input_bytes (tx_inputs tx)
    @ counted compact output_bytes (tx_outputs tx) @ concat (map stack_bytes (input_stacks tx))
    @ le_bytes 4 (uint (tx_locktime tx))"
  by (simp add: witness_serialize_def appended)

section \<open>Every field is self-delimiting\<close>

definition compact_get :: "bytes \<Rightarrow> int \<times> bytes" where
  "compact_get bs = (case bs of [] \<Rightarrow> (0, []) | b # r \<Rightarrow>
     if uint b < 253 then (uint b, r)
     else let k = (if b = 0xFD then 2 else if b = 0xFE then 4 else 8)
          in (le_val (take k r), drop k r))"

lemma compact_get_compact: "compact_get (compact n @ r) = (uint n, r)"
proof -
  consider "n < 253" | "\<not> n < 253" "n \<le> 0xFFFF" | "\<not> n < 253" "\<not> n \<le> 0xFFFF" "n \<le> 0xFFFFFFFF"
    | "\<not> n < 253" "\<not> n \<le> 0xFFFF" "\<not> n \<le> 0xFFFFFFFF"
    by (meson linorder_not_less)
  then show ?thesis
  proof cases
    case 1
    then have "uint n < 253" by (simp add: word_less_def)
    then have "uint (word_of_int (uint n) :: u8) = uint n" by (simp add: uint_ucast_mod)
    with 1 \<open>uint n < 253\<close> show ?thesis
      by (simp add: compact_def compact_get_def del: word_of_int_uint)
  next
    case 2
    then have "uint n < 65536" by (simp add: word_le_def)
    with 2 show ?thesis
      by (simp add: compact_def compact_get_def le_val_le_bytes)
  next
    case 3
    then have "uint n < 4294967296" by (simp add: word_le_def)
    with 3 show ?thesis
      by (simp add: compact_def compact_get_def le_val_le_bytes)
  next
    case 4
    with uint_u64 [of n] show ?thesis
      by (simp add: compact_def compact_get_def le_val_le_bytes)
  qed
qed

interpretation cs: self_delimiting compact "\<lambda>_. True"
proof
  fix n m r s
  assume "compact n @ r = compact m @ s"
  then have "(uint n, r) = (uint m, s)"
    using compact_get_compact by metis
  then show "n = m \<and> r = s" by (simp add: word_uint_eq_iff)
qed

lemmas field_inj = le32.enc_inj [OF TrueI TrueI] le64.enc_inj [OF TrueI TrueI] cs.enc_inj [OF TrueI TrueI]

interpretation raw_byte: self_delimiting "\<lambda>b :: u8. [b]" "\<lambda>_. True"
  by unfold_locales simp

interpretation vbytes: counted_items "\<lambda>b :: u8. [b]" "\<lambda>_. True" compact
  by unfold_locales

definition input_ok :: "TxInput \<Rightarrow> bool" where
  "input_ok i \<longleftrightarrow> length (prev_txid i) = 32 \<and> length (script_sig i) < 2 ^ 64"

definition output_ok :: "TxOut \<Rightarrow> bool" where
  "output_ok out \<longleftrightarrow> length (script_pubkey out) < 2 ^ 64"

definition stack_ok :: "witness_stack \<Rightarrow> bool" where
  "stack_ok = counted_ok (\<lambda>item. length item < 2 ^ 64)"

lemma var_bytes_counted: "var_bytes data = counted compact (\<lambda>b. [b]) data"
  by (simp add: var_bytes_def counted_def)

lemma var_bytes_delimited [field_split]:
  "length a < 2 ^ 64 \<Longrightarrow> length b < 2 ^ 64 \<Longrightarrow> var_bytes a @ r = var_bytes b @ s \<longleftrightarrow> a = b \<and> r = s"
  using vbytes.items.field_iff [of a b r s] by (simp add: var_bytes_counted counted_ok_def)

interpretation inputs: counted_items input_bytes input_ok compact
proof
  fix x y :: TxInput and r s :: bytes
  assume "input_ok x" "input_ok y" "input_bytes x @ r = input_bytes y @ s"
  then have "prev_txid x = prev_txid y \<and> prev_vout x = prev_vout y \<and> script_sig x = script_sig y
      \<and> in_sequence x = in_sequence y \<and> r = s"
    by (simp add: input_ok_def input_bytes_def field_split field_inj)
  then show "x = y \<and> r = s" by simp
qed

interpretation outputs: counted_items output_bytes output_ok compact
proof
  fix x y :: TxOut and r s :: bytes
  assume "output_ok x" "output_ok y" "output_bytes x @ r = output_bytes y @ s"
  then have "out_value x = out_value y \<and> script_pubkey x = script_pubkey y \<and> r = s"
    by (simp add: output_ok_def output_bytes_def field_split field_inj)
  then show "x = y \<and> r = s" by simp
qed

interpretation stack: counted_items var_bytes "\<lambda>item. length item < 2 ^ 64" compact
  by unfold_locales (simp add: var_bytes_delimited)

interpretation stacks: self_delimiting stack_bytes stack_ok
  using stack.items.self_delimiting_axioms by (simp add: stack_bytes_def stack_ok_def)

section \<open>What the serializations determine\<close>

definition tx_ok :: "WitnessTx \<Rightarrow> bool" where
  "tx_ok tx \<longleftrightarrow> counted_ok input_ok (tx_inputs tx) \<and> counted_ok output_ok (tx_outputs tx)
     \<and> (\<forall>stack\<in>set (tx_witness tx). stack_ok stack)"

lemma stacks_ok: "tx_ok tx \<Longrightarrow> stack \<in> set (input_stacks tx) \<Longrightarrow> stack_ok stack"
  by (auto simp: tx_ok_def input_stacks_def stack_ok_def counted_ok_def split: if_splits)

lemma legacy_determines:
  assumes "tx_ok a" "tx_ok b"
  shows "legacy_serialize a = legacy_serialize b \<longleftrightarrow>
    tx_version a = tx_version b \<and> tx_inputs a = tx_inputs b \<and> tx_outputs a = tx_outputs b
    \<and> tx_locktime a = tx_locktime b"
  using assms
  by (auto simp: legacy_bytes tx_ok_def field_inj inputs.items.field_iff outputs.items.field_iff
      outputs.items.enc_inj)

lemma witness_determines:
  assumes "tx_ok a" "tx_ok b"
  shows "witness_serialize a = witness_serialize b \<longleftrightarrow>
    tx_version a = tx_version b \<and> tx_inputs a = tx_inputs b \<and> tx_outputs a = tx_outputs b
    \<and> input_stacks a = input_stacks b \<and> tx_locktime a = tx_locktime b"
proof -
  let ?W = "\<lambda>x. concat (map stack_bytes (input_stacks x)) @ le_bytes 4 (uint (tx_locktime x))"
  have "witness_serialize a = witness_serialize b \<longleftrightarrow>
    tx_version a = tx_version b \<and> tx_inputs a = tx_inputs b \<and> tx_outputs a = tx_outputs b \<and> ?W a = ?W b"
    using assms inputs.items.field_iff [of "tx_inputs a" "tx_inputs b"]
      outputs.items.field_iff [of "tx_outputs a" "tx_outputs b"]
    unfolding witness_bytes tx_ok_def by (simp add: field_inj)
  moreover have "?W a = ?W b \<longleftrightarrow> input_stacks a = input_stacks b \<and> tx_locktime a = tx_locktime b"
    if "tx_inputs a = tx_inputs b"
  proof -
    have "length (input_stacks a) = length (input_stacks b)" using that by (simp add: input_stacks_def)
    then show ?thesis
      using stacks.items_delimited stacks_ok assms field_inj(1) by metis
  qed
  ultimately show ?thesis by blast
qed

lemma legacy_witness_distinct:
  assumes "tx_inputs a \<noteq> []" "tx_ok a"
  shows "legacy_serialize a \<noteq> witness_serialize b"
proof
  assume "legacy_serialize a = witness_serialize b"
  then have "counted compact input_bytes (tx_inputs a)
      @ counted compact output_bytes (tx_outputs a) @ le_bytes 4 (uint (tx_locktime a))
    = [0, 1] @ counted compact input_bytes (tx_inputs b)
      @ counted compact output_bytes (tx_outputs b) @ concat (map stack_bytes (input_stacks b))
      @ le_bytes 4 (uint (tx_locktime b))"
    unfolding legacy_bytes witness_bytes by (rule le32.delimited [OF TrueI TrueI, THEN conjunct2])
  then have "compact (of_nat (length (tx_inputs a))) @ concat (map input_bytes (tx_inputs a))
      @ counted compact output_bytes (tx_outputs a) @ le_bytes 4 (uint (tx_locktime a))
    = compact 0 @ [1] @ counted compact input_bytes (tx_inputs b)
      @ counted compact output_bytes (tx_outputs b) @ concat (map stack_bytes (input_stacks b))
      @ le_bytes 4 (uint (tx_locktime b))"
    by (simp add: counted_def [of _ _ "tx_inputs a"] compact_def [of 0])
  then have "(of_nat (length (tx_inputs a)) :: u64) = of_nat 0"
    using cs.delimited [OF TrueI TrueI] by (auto dest!: cs.delimited [OF TrueI TrueI])
  moreover have "length (tx_inputs a) < 2 ^ 64"
    using assms(2) unfolding tx_ok_def counted_ok_def by blast
  ultimately have "length (tx_inputs a) = 0"
    using of_nat_u64_inj [of _ 0] zero_less_power [of "2 :: nat" 64] by (metis zero_less_numeral)
  then show False using assms(1) by simp
qed

lemma any_nonempty_iff: "any_nonempty stacks \<longleftrightarrow> (\<exists>stack\<in>set stacks. stack \<noteq> [])"
  by (induction stacks) auto

lemma has_witness_iff: "has_witness tx \<longleftrightarrow> (\<exists>stack\<in>set (tx_witness tx). stack \<noteq> [])"
  by (simp add: has_witness_def any_nonempty_iff)

lemma legacy_ignores_witness: "legacy_serialize (tx\<lparr>tx_witness := w\<rparr>) = legacy_serialize tx"
  by (simp add: legacy_serialize_def)

section \<open>Properties\<close>

text \<open>C15: both serializations of a transaction are injective: the legacy one fixes version, inputs,
  outputs and lock time, the witness one also the witness stack of every input (a missing stack
  being the empty one); and the marker byte keeps the two formats apart, as no transaction with
  inputs has a legacy serialization that is also a witness serialization.\<close>
theorem serialization_injective:
  assumes "tx_ok a" "tx_ok b"
  shows "(legacy_serialize a = legacy_serialize b \<longleftrightarrow>
      tx_version a = tx_version b \<and> tx_inputs a = tx_inputs b \<and> tx_outputs a = tx_outputs b
      \<and> tx_locktime a = tx_locktime b)
    \<and> (witness_serialize a = witness_serialize b \<longleftrightarrow>
      tx_version a = tx_version b \<and> tx_inputs a = tx_inputs b \<and> tx_outputs a = tx_outputs b
      \<and> input_stacks a = input_stacks b \<and> tx_locktime a = tx_locktime b)
    \<and> (tx_inputs a \<noteq> [] \<longrightarrow> legacy_serialize a \<noteq> witness_serialize b)"
  using legacy_determines [OF assms] witness_determines [OF assms] legacy_witness_distinct assms(1)
  by blast

theorem serialization_injective_witness:
  "legacy_serialize \<lparr>tx_version = 2,
      tx_inputs = [\<lparr>prev_txid = replicate 32 7, prev_vout = 1, script_sig = [], in_sequence = 5\<rparr>],
      tx_outputs = [], tx_witness = [[[1]]], tx_locktime = 0\<rparr>
    \<noteq> legacy_serialize \<lparr>tx_version = 2,
      tx_inputs = [\<lparr>prev_txid = replicate 32 7, prev_vout = 1, script_sig = [3], in_sequence = 5\<rparr>],
      tx_outputs = [], tx_witness = [], tx_locktime = 0\<rparr>"
  using serialization_injective [of
      "\<lparr>tx_version = 2,
        tx_inputs = [\<lparr>prev_txid = replicate 32 7, prev_vout = 1, script_sig = [], in_sequence = 5\<rparr>],
        tx_outputs = [], tx_witness = [[[1]]], tx_locktime = 0\<rparr>"
      "\<lparr>tx_version = 2,
        tx_inputs = [\<lparr>prev_txid = replicate 32 7, prev_vout = 1, script_sig = [3], in_sequence = 5\<rparr>],
        tx_outputs = [], tx_witness = [], tx_locktime = 0\<rparr>"]
  by (simp add: tx_ok_def counted_ok_def input_ok_def stack_ok_def)

text \<open>the transaction identifier does not depend on the witness data, while the witness
  identifier of a transaction with a non-empty witness stack is the double SHA-256 of the witness
  serialization; without one the two identifiers coincide.\<close>
theorem transaction_ids:
  "compute_txid (tx\<lparr>tx_witness := w\<rparr>) = compute_txid tx
   \<and> compute_txid tx = hash256 (legacy_serialize tx)
   \<and> compute_wtxid tx = (if list_all (\<lambda>stack. stack = []) (tx_witness tx) then compute_txid tx
       else hash256 (witness_serialize tx))"
  by (auto simp: compute_txid_def compute_wtxid_def legacy_ignores_witness has_witness_iff list_all_iff Let_def)

end
