(* ===== verification/Ripemd160.thy ===== *)
theory Ripemd160
  imports Sha256
begin

text \<open>
  The three RIPEMD-160 implementations of the code base, which share their tables: the one-block
  \<open>scalar::ripemd160_32\<close> of \<open>hash_accel.cpp\<close>, and the streaming classes of \<open>address.cpp\<close> and
  \<open>bip32.cpp\<close> (private copies, whose \<open>finalize\<close> pads byte by byte), with the \<open>hash160\<close> each
  file builds from it. They are shown to agree.
\<close>

section \<open>Tables and compression\<close>

definition rmd_rl :: "nat list" where
  "rmd_rl =
    [0, 1, 2, 3, 4, 5, 6, 7, 8, 9, 10, 11, 12, 13, 14, 15,
     7, 4, 13, 1, 10, 6, 15, 3, 12, 0, 9, 5, 2, 14, 11, 8,
     3, 10, 14, 4, 9, 15, 8, 1, 2, 7, 0, 6, 13, 11, 5, 12,
     1, 9, 11, 10, 0, 8, 12, 4, 13, 3, 7, 15, 14, 5, 6, 2,
     4, 0, 5, 9, 7, 12, 2, 10, 14, 1, 3, 8, 11, 6, 15, 13]"

definition rmd_rr :: "nat list" where
  "rmd_rr =
    [5, 14, 7, 0, 9, 2, 11, 4, 13, 6, 15, 8, 1, 10, 3, 12,
     6, 11, 3, 7, 0, 13, 5, 10, 14, 15, 8, 12, 4, 9, 1, 2,
     15, 5, 1, 3, 7, 14, 6, 9, 11, 8, 12, 2, 10, 0, 4, 13,
     8, 6, 4, 1, 3, 11, 15, 0, 5, 12, 2, 13, 9, 7, 10, 14,
     12, 15, 10, 4, 1, 5, 8, 7, 6, 2, 13, 14, 0, 3, 9, 11]"

definition rmd_sl :: "nat list" where
  "rmd_sl =
    [11, 14, 15, 12, 5, 8, 7, 9, 11, 13, 14, 15, 6, 7, 9, 8,
     7, 6, 8, 13, 11, 9, 7, 15, 7, 12, 15, 9, 11, 7, 13, 12,
     11, 13, 6, 7, 14, 9, 13, 15, 14, 8, 13, 6, 5, 12, 7, 5,
     11, 12, 14, 15, 14, 15, 9, 8, 9, 14, 5, 6, 8, 6, 5, 12,
     9, 15, 5, 11, 6, 8, 13, 12, 5, 12, 13, 14, 11, 8, 5, 6]"

definition rmd_sr :: "nat list" where
  "rmd_sr =
    [8, 9, 9, 11, 13, 15, 15, 5, 7, 7, 8, 11, 14, 14, 12, 6,
     9, 13, 15, 7, 12, 8, 9, 11, 7, 7, 12, 7, 6, 15, 13, 11,
     9, 7, 15, 11, 8, 6, 6, 14, 12, 13, 5, 14, 13, 13, 7, 5,
     15, 5, 8, 11, 14, 14, 6, 14, 6, 9, 12, 9, 12, 5, 15, 8,
     8, 5, 12, 9, 12, 5, 14, 6, 8, 13, 6, 5, 15, 13, 11, 11]"

definition rmd_KL :: "u32 list" where
  "rmd_KL = [0, 0x5A827999, 0x6ED9EBA1, 0x8F1BBCDC, 0xA953FD4E]"

definition rmd_KR :: "u32 list" where
  "rmd_KR = [0x50A28BE6, 0x5C4DD124, 0x6D703EF3, 0x7A6D76E9, 0]"

definition RIPEMD160_IV :: "u32 list" where
  "RIPEMD160_IV = [0x67452301, 0xEFCDAB89, 0x98BADCFE, 0x10325476, 0xC3D2E1F0]"

definition rmd_f :: "nat \<Rightarrow> u32 \<Rightarrow> u32 \<Rightarrow> u32 \<Rightarrow> u32" where
  "rmd_f j x y z =
     (if j < 16 then x XOR y XOR z
      else if j < 32 then (x AND y) OR (NOT x AND z)
      else if j < 48 then (x OR NOT y) XOR z
      else if j < 64 then (x AND z) OR (y AND NOT z)
      else x XOR (y OR NOT z))"

type_synonym rmd_line = "u32 \<times> u32 \<times> u32 \<times> u32 \<times> u32"

fun rmd_loop_body :: "u32 list \<Rightarrow> nat \<Rightarrow> rmd_line \<times> rmd_line \<Rightarrow> rmd_line \<times> rmd_line" where
  "rmd_loop_body X j ((al, bl, cl, dl, el), (ar, br, cr, dr, er)) =
     (let tl = al + rmd_f j bl cl dl + X ! (rmd_rl ! j) + rmd_KL ! (j div 16);
          tl = rotl32 tl (rmd_sl ! j) + el;
          tr = ar + rmd_f (79 - j) br cr dr + X ! (rmd_rr ! j) + rmd_KR ! (j div 16);
          tr = rotl32 tr (rmd_sr ! j) + er
      in ((el, tl, bl, rotl32 cl 10, dl), (er, tr, br, rotl32 cr 10, dr)))"

text \<open>The words of the block are read little-endian. \<open>address.cpp\<close> has the same function.\<close>

definition ripemd160_compress :: "bytes \<Rightarrow> u32 list \<Rightarrow> u32 list" where
  "ripemd160_compress block st =
     (let X = map (\<lambda>i. load_le32 (drop (i * 4) block)) [0..<16];
          regs = (st ! 0, st ! 1, st ! 2, st ! 3, st ! 4);
          ((al, bl, cl, dl, el), (ar, br, cr, dr, er)) =
            fold (rmd_loop_body X) [0..<80] (regs, regs);
          t = st ! 1 + cl + dr
      in [t, st ! 2 + dl + er, st ! 3 + el + ar, st ! 4 + al + br, st ! 0 + bl + cr])"

definition address_ripemd160_compress :: "bytes \<Rightarrow> u32 list \<Rightarrow> u32 list" where
  "address_ripemd160_compress block h = ripemd160_compress block h"

text \<open>\<open>bip32.cpp\<close> selects the round constants with conditionals and folds the two assignments to
  \<open>tl\<close> and \<open>tr\<close> into one.\<close>

definition K_left :: "nat \<Rightarrow> u32" where
  "K_left j = (if j < 16 then 0x00000000 else if j < 32 then 0x5A827999
     else if j < 48 then 0x6ED9EBA1 else if j < 64 then 0x8F1BBCDC else 0xA953FD4E)"

definition K_right :: "nat \<Rightarrow> u32" where
  "K_right j = (if j < 16 then 0x50A28BE6 else if j < 32 then 0x5C4DD124
     else if j < 48 then 0x6D703EF3 else if j < 64 then 0x7A6D76E9 else 0x00000000)"

fun bip32_loop_body :: "u32 list \<Rightarrow> nat \<Rightarrow> rmd_line \<times> rmd_line \<Rightarrow> rmd_line \<times> rmd_line" where
  "bip32_loop_body X j ((al, bl, cl, dl, el), (ar, br, cr, dr, er)) =
     (let tl = rotl32 (al + rmd_f j bl cl dl + X ! (rmd_rl ! j) + K_left j) (rmd_sl ! j) + el;
          tr = rotl32 (ar + rmd_f (79 - j) br cr dr + X ! (rmd_rr ! j) + K_right j) (rmd_sr ! j) + er
      in ((el, tl, bl, rotl32 cl 10, dl), (er, tr, br, rotl32 cr 10, dr)))"

definition bip32_ripemd160_compress :: "bytes \<Rightarrow> u32 list \<Rightarrow> u32 list" where
  "bip32_ripemd160_compress block h =
     (let X = map (\<lambda>i. load_le32 (drop (i * 4) block)) [0..<16];
          regs = (h ! 0, h ! 1, h ! 2, h ! 3, h ! 4);
          ((al, bl, cl, dl, el), (ar, br, cr, dr, er)) =
            fold (bip32_loop_body X) [0..<80] (regs, regs);
          t = h ! 1 + cl + dr
      in [t, h ! 2 + dl + er, h ! 3 + el + ar, h ! 4 + al + br, h ! 0 + bl + cr])"

definition ripemd160_32 :: "bytes \<Rightarrow> bytes" where
  "ripemd160_32 in32 =
     (let block = take 32 in32 @ [0x80] @ replicate 23 0 @ [0x00, 0x01, 0, 0, 0, 0, 0, 0];
          st = ripemd160_compress block RIPEMD160_IV
      in concat (map (\<lambda>i. store_le32 (st ! i)) [0..<5]))"

definition hash160_33 :: "bytes \<Rightarrow> bytes" where
  "hash160_33 pubkey33 = (let sha_out = sha256_33 pubkey33 in ripemd160_32 sha_out)"

section \<open>The streaming classes\<close>

text \<open>Both classes have the same members and the same code, over their own \<open>compress\<close>.\<close>

record ripemd160 =
  h160 :: "u32 list"
  buf160 :: bytes
  buf_len160 :: nat
  total160 :: u64

definition rmd_new :: ripemd160 where
  "rmd_new = \<lparr>h160 = [0x67452301, 0xEFCDAB89, 0x98BADCFE, 0x10325476, 0xC3D2E1F0],
     buf160 = replicate 64 0, buf_len160 = 0, total160 = 0\<rparr>"

definition rmd_update :: "(bytes \<Rightarrow> u32 list \<Rightarrow> u32 list) \<Rightarrow> ripemd160 \<Rightarrow> bytes \<Rightarrow> ripemd160" where
  "rmd_update compress ctx data =
     (let ctx = ctx\<lparr>total160 := total160 ctx + of_nat (length data)\<rparr>;
          tail = (\<lambda>ctx data.
            let (st, rest) = absorb compress 64 (h160 ctx) data;
                ctx = ctx\<lparr>h160 := st\<rparr>
            in if length rest > 0
               then ctx\<lparr>buf160 := memcpy_at (buf160 ctx) 0 rest, buf_len160 := length rest\<rparr>
               else ctx)
      in if buf_len160 ctx > 0 then
           let fill = 64 - buf_len160 ctx in
           if length data < fill then
             ctx\<lparr>buf160 := memcpy_at (buf160 ctx) (buf_len160 ctx) data,
                 buf_len160 := buf_len160 ctx + length data\<rparr>
           else
             let ctx = ctx\<lparr>buf160 := memcpy_at (buf160 ctx) (buf_len160 ctx) (take fill data)\<rparr>;
                 ctx = ctx\<lparr>h160 := compress (buf160 ctx) (h160 ctx), buf_len160 := 0\<rparr>
             in tail ctx (drop fill data)
         else tail ctx data)"

lemma rmd_update_zero_buf_len:
  "buf_len160 (rmd_update compress ctx [z]) =
     (if buf_len160 ctx < 63 then Suc (buf_len160 ctx) else if buf_len160 ctx = 63 then 0 else 1)"
  by (auto simp: rmd_update_def Let_def absorb_short)

text \<open>\<open>while (buf_len_ != 56) update(&pad, 1)\<close>: the buffer length climbs to 64, wraps to 0 and
  climbs to 56.\<close>

function rmd_pad_loop :: "(bytes \<Rightarrow> u32 list \<Rightarrow> u32 list) \<Rightarrow> ripemd160 \<Rightarrow> ripemd160" where
  "rmd_pad_loop compress ctx =
     (if buf_len160 ctx \<noteq> 56 then rmd_pad_loop compress (rmd_update compress ctx [0]) else ctx)"
  by pat_completeness auto
termination
proof (relation "measure (\<lambda>(_, ctx). let n = buf_len160 ctx in
    if n \<le> 56 then 56 - n else if n < 64 then 120 - n else 64)", goal_cases)
  case 1
  then show ?case by simp
next
  case (2 compress ctx)
  then show ?case
    by (simp add: rmd_update_zero_buf_len Let_def) linarith
qed

declare rmd_pad_loop.simps [simp del]

definition rmd_finalize :: "(bytes \<Rightarrow> u32 list \<Rightarrow> u32 list) \<Rightarrow> ripemd160 \<Rightarrow> bytes \<times> ripemd160" where
  "rmd_finalize compress ctx =
     (let bits = total160 ctx * 8;
          ctx = rmd_update compress ctx [0x80];
          ctx = rmd_pad_loop compress ctx;
          len_le = map (\<lambda>i. ucast (drop_bit (i * 8) bits)) [0..<8];
          ctx = rmd_update compress ctx len_le
      in (concat (map (\<lambda>i. [ucast (h160 ctx ! i), ucast (drop_bit 8 (h160 ctx ! i)),
             ucast (drop_bit 16 (h160 ctx ! i)), ucast (drop_bit 24 (h160 ctx ! i))]) [0..<5]), ctx))"

definition address_ripemd160_hash :: "bytes \<Rightarrow> bytes" where
  "address_ripemd160_hash data =
     fst (rmd_finalize address_ripemd160_compress (rmd_update address_ripemd160_compress rmd_new data))"

definition bip32_ripemd160_update :: "ripemd160 \<Rightarrow> bytes \<Rightarrow> ripemd160" where
  "bip32_ripemd160_update = rmd_update bip32_ripemd160_compress"

definition bip32_ripemd160_finalize :: "ripemd160 \<Rightarrow> bytes \<times> ripemd160" where
  "bip32_ripemd160_finalize = rmd_finalize bip32_ripemd160_compress"

definition bip32_ripemd160_hash :: "bytes \<Rightarrow> bytes" where
  "bip32_ripemd160_hash data = fst (bip32_ripemd160_finalize (bip32_ripemd160_update rmd_new data))"

text \<open>HASH160 of \<open>address.cpp\<close> and of \<open>bip32.cpp\<close>.\<close>

definition hash160 :: "bytes \<Rightarrow> bytes" where
  "hash160 data = (let sha = sha256_hash data in address_ripemd160_hash sha)"

definition bip32_hash160 :: "bytes \<Rightarrow> bytes" where
  "bip32_hash160 data = (let sha = sha256_hash data in bip32_ripemd160_hash sha)"

section \<open>The streaming interface, for any compression function\<close>

definition rmd_ok :: "ripemd160 \<Rightarrow> bool" where
  "rmd_ok ctx \<longleftrightarrow> length (buf160 ctx) = 64 \<and> buf_len160 ctx < 64"

definition rmd_pending :: "ripemd160 \<Rightarrow> bytes" where
  "rmd_pending ctx = take (buf_len160 ctx) (buf160 ctx)"

definition rmd_len_le :: "nat \<Rightarrow> bytes" where
  "rmd_len_le n = map (\<lambda>i. ucast (drop_bit (i * 8) (of_nat n * 8 :: u64))) [0..<8]"

definition rmd_pad :: "nat \<Rightarrow> bytes" where
  "rmd_pad n = md_pad 64 8 n (rmd_len_le n)"

definition rmd_out :: "u32 list \<Rightarrow> bytes" where
  "rmd_out h = concat (map (\<lambda>i. store_le32 (h ! i)) [0..<5])"

lemma rmd_update_absorb:
  assumes "rmd_ok c"
  shows "rmd_ok (rmd_update f c d)"
    and "(h160 (rmd_update f c d), rmd_pending (rmd_update f c d))
      = absorb f 64 (h160 c) (rmd_pending c @ d)"
proof -
  let ?c = "rmd_update f c d"
  have "buffered_update f 64 (h160 c, buf160 c, buf_len160 c) d = (h160 ?c, buf160 ?c, buf_len160 ?c)"
    by (simp add: rmd_update_def buffered_update_def buffered_tail_def Let_def split: prod.splits)
  then have "absorb f 64 (h160 c) (take (buf_len160 c) (buf160 c) @ d)
      = (h160 ?c, take (buf_len160 ?c) (buf160 ?c)) \<and> length (buf160 ?c) = 64 \<and> buf_len160 ?c < 64"
    using assms by (intro buffered_update_absorb) (auto simp: rmd_ok_def)
  then show "rmd_ok ?c" and "(h160 ?c, rmd_pending ?c) = absorb f 64 (h160 c) (rmd_pending c @ d)"
    by (simp_all add: rmd_ok_def rmd_pending_def)
qed

lemma rmd_update_total: "total160 (rmd_update f c d) = total160 c + of_nat (length d)"
  by (simp add: rmd_update_def Let_def split: prod.splits)

interpretation rmdh: block_hasher "rmd_update f" h160 rmd_pending total160 rmd_ok f 64 for f
  by unfold_locales (simp_all add: rmd_update_absorb rmd_update_total)

lemma rmd_buf_len:
  assumes "rmdh.represents f iv c msg"
  shows "buf_len160 c = length msg mod 64"
  using rmdh.pending_length [OF assms] assms
  by (simp add: rmdh.represents_def rmd_pending_def rmd_ok_def)

lemma rmd_pad_loop_represents:
  assumes "rmdh.represents f iv c msg" "(k + length msg) mod 64 = 56" "k < 64"
  shows "rmdh.represents f iv (rmd_pad_loop f c) (msg @ replicate k 0)"
  using assms
proof (induction k arbitrary: c msg)
  case 0
  then show ?case
    by (subst rmd_pad_loop.simps) (simp add: rmd_buf_len [OF 0(1)])
next
  case (Suc k)
  have ne: "length msg mod 64 \<noteq> 56"
  proof
    assume "length msg mod 64 = 56"
    then have "(Suc k + 56) mod 64 = 56" using Suc.prems(2) by (metis mod_add_right_eq)
    with Suc.prems(3) show False by (simp add: mod_if split: if_splits)
  qed
  have "rmdh.represents f iv (rmd_pad_loop f (rmd_update f c [0])) ((msg @ [0]) @ replicate k 0)"
    using Suc.prems by (intro Suc.IH rmdh.represents_upd) simp_all
  then show ?case
    using ne by (subst rmd_pad_loop.simps) (simp add: rmd_buf_len [OF Suc.prems(1)])
qed

lemma rmd_zero_count: "Suc ((119 - n mod 64) mod 64 + n) mod 64 = (56 :: nat)"
proof -
  define r q where "r = n mod 64" and "q = n div 64"
  have n: "n = 64 * q + r" "r < 64" by (simp_all add: r_def q_def)
  have "Suc ((119 - r) mod 64 + (64 * q + r)) mod 64 = 56"
  proof (cases "r \<le> 55")
    case True
    have "119 - r = (55 - r) + 64" using True by linarith
    then have "(119 - r) mod 64 = (55 - r) mod 64" by (simp only: mod_add_self2)
    also have "\<dots> = 55 - r" by (rule mod_less) simp
    finally have "(119 - r) mod 64 = 55 - r" .
    then have "Suc ((119 - r) mod 64 + (64 * q + r)) = 56 + 64 * q" using True by simp
    then show ?thesis by (simp only: mod_mult_self2) simp
  next
    case False
    then have "(119 - r) mod 64 = 119 - r" by (intro mod_less) simp
    then have "Suc ((119 - r) mod 64 + (64 * q + r)) = 56 + 64 * (q + 1)" using n(2) by simp
    then show ?thesis by (simp only: mod_mult_self2) simp
  qed
  then show ?thesis unfolding n(1) [symmetric] unfolding r_def .
qed

lemma rmd_finalize_absorb:
  assumes r: "rmdh.represents f iv c msg"
  shows "fst (rmd_finalize f c) = rmd_out (fst (absorb f 64 iv (msg @ rmd_pad (length msg))))"
proof -
  define k where "k = (119 - length msg mod 64) mod 64"
  define c1 where "c1 = rmd_update f c [0x80]"
  have 1: "rmdh.represents f iv c1 (msg @ [0x80])"
    unfolding c1_def by (rule rmdh.represents_upd [OF r])
  have k: "(k + length (msg @ [0x80 :: u8])) mod 64 = 56" "k < 64"
    unfolding k_def by (simp_all add: rmd_zero_count)
  have "rmdh.represents f iv (rmd_update f (rmd_pad_loop f c1) (rmd_len_le (length msg)))
      (((msg @ [0x80]) @ replicate k 0) @ rmd_len_le (length msg))"
    by (rule rmdh.represents_upd [OF rmd_pad_loop_represents [OF 1 k]])
  moreover have "((msg @ [0x80]) @ replicate k 0) @ rmd_len_le (length msg) = msg @ rmd_pad (length msg)"
    by (simp add: rmd_pad_def md_pad_def k_def)
  ultimately have "h160 (rmd_update f (rmd_pad_loop f c1) (rmd_len_le (length msg)))
      = fst (absorb f 64 iv (msg @ rmd_pad (length msg)))"
    by (simp add: rmdh.represents_def) (metis fst_conv)
  moreover have "total160 c = of_nat (length msg)"
    using r by (simp add: rmdh.represents_def)
  ultimately show ?thesis
    by (simp add: rmd_finalize_def c1_def rmd_out_def store_le32_def rmd_len_le_def Let_def)
qed

lemma rmd_new_represents: "rmdh.represents f RIPEMD160_IV rmd_new []"
  by (simp add: rmdh.represents_def rmd_ok_def rmd_pending_def rmd_new_def RIPEMD160_IV_def absorb_short)

definition rmd_digest :: "(bytes \<Rightarrow> u32 list \<Rightarrow> u32 list) \<Rightarrow> bytes \<Rightarrow> bytes" where
  "rmd_digest f msg = rmd_out (fst (absorb f 64 RIPEMD160_IV (msg @ rmd_pad (length msg))))"

lemma rmd_hash_digest: "fst (rmd_finalize f (rmd_update f rmd_new msg)) = rmd_digest f msg"
  using rmd_finalize_absorb [OF rmdh.represents_upd [OF rmd_new_represents, of f msg]]
  by (simp add: rmd_digest_def)

lemma bip32_loop_body_eq: "j < 80 \<Longrightarrow> bip32_loop_body X j lr = rmd_loop_body X j lr"
proof -
  assume "j < 80"
  then have "j div 16 = 0 \<and> j < 16 \<or> j div 16 = 1 \<and> 16 \<le> j \<and> j < 32 \<or> j div 16 = 2 \<and> 32 \<le> j \<and> j < 48
      \<or> j div 16 = 3 \<and> 48 \<le> j \<and> j < 64 \<or> j div 16 = 4 \<and> 64 \<le> j"
    by linarith
  then have "K_left j = rmd_KL ! (j div 16)" "K_right j = rmd_KR ! (j div 16)"
    by (auto simp: K_left_def K_right_def rmd_KL_def rmd_KR_def)
  then show ?thesis
    by (cases "(X, j, lr)" rule: rmd_loop_body.cases) simp
qed

lemma bip32_ripemd160_compress_eq: "bip32_ripemd160_compress = ripemd160_compress"
proof -
  have "fold (bip32_loop_body X) [0..<80] s = fold (rmd_loop_body X) [0..<80] s" for X s
    by (rule fold_cong) (auto intro!: ext bip32_loop_body_eq)
  then show ?thesis
    by (intro ext) (simp add: bip32_ripemd160_compress_def ripemd160_compress_def)
qed

lemma ripemd160_32_eq: "length d = 32 \<Longrightarrow> ripemd160_32 d = rmd_digest ripemd160_compress d"
proof -
  assume l: "length d = 32"
  have p: "rmd_pad 32 = 0x80 # replicate 23 0 @ [0, 1, 0, 0, 0, 0, 0, 0]"
    by (simp add: rmd_pad_def md_pad_def rmd_len_le_def upt_rec [of _ 8])
  have "absorb ripemd160_compress 64 RIPEMD160_IV ((d @ rmd_pad 32) @ [])
      = (ripemd160_compress (d @ rmd_pad 32) RIPEMD160_IV, [])"
    using l by (subst absorb_block) (simp_all add: p absorb_short)
  then show ?thesis
    using l by (simp add: rmd_digest_def ripemd160_32_def rmd_out_def p)
qed

lemma length_rmd_digest [simp]: "length (rmd_digest f msg) = 20"
  by (simp add: rmd_digest_def rmd_out_def store_le32_def length_concat comp_def sum_list_triv)

lemma address_ripemd160_hash_digest: "address_ripemd160_hash msg = rmd_digest ripemd160_compress msg"
proof -
  have "address_ripemd160_compress = ripemd160_compress"
    by (intro ext) (simp add: address_ripemd160_compress_def)
  then show ?thesis by (simp add: address_ripemd160_hash_def rmd_hash_digest)
qed

lemma bip32_ripemd160_hash_eq: "bip32_ripemd160_hash msg = address_ripemd160_hash msg"
  by (simp add: bip32_ripemd160_hash_def bip32_ripemd160_finalize_def bip32_ripemd160_update_def
      rmd_hash_digest address_ripemd160_hash_digest bip32_ripemd160_compress_eq)

lemma length_hash160 [simp]: "length (hash160 data) = 20"
  by (simp add: hash160_def address_ripemd160_hash_digest)

lemma bip32_hash160_eq: "bip32_hash160 data = hash160 data"
  by (simp add: bip32_hash160_def hash160_def bip32_ripemd160_hash_eq)

section \<open>Properties\<close>

text \<open>the byte-at-a-time padding of the two streaming RIPEMD-160 classes terminates and gives
  the Merkle-Damgard digest with a little-endian bit length; the class of \<open>bip32.cpp\<close>, with its
  own round constants, is the same function as the one of \<open>address.cpp\<close>.\<close>
theorem ripemd160_stream_spec:
  "address_ripemd160_hash msg
     = rmd_out (fst (absorb ripemd160_compress 64 RIPEMD160_IV (msg @ rmd_pad (length msg))))
   \<and> bip32_ripemd160_hash msg = address_ripemd160_hash msg
   \<and> length (address_ripemd160_hash msg) = 20"
  by (simp add: bip32_ripemd160_hash_eq address_ripemd160_hash_digest rmd_digest_def [symmetric])

text \<open>the accelerated one-block HASH160 of a 33-byte public key, the HASH160 of
  \<open>address.cpp\<close> and that of \<open>bip32.cpp\<close> agree.\<close>
theorem hash160_implementations_agree:
  assumes "length pubkey = 33"
  shows "hash160_33 pubkey = hash160 pubkey \<and> bip32_hash160 pubkey = hash160 pubkey"
  using assms by (simp add: hash160_33_def sha256_33_eq ripemd160_32_eq hash160_def
      address_ripemd160_hash_digest bip32_hash160_eq)

theorem hash160_implementations_agree_witness:
  "hash160_33 (replicate 33 2) = hash160 (replicate 33 2)
    \<and> bip32_hash160 (replicate 33 2) = hash160 (replicate 33 2)"
  by (rule hash160_implementations_agree) simp

section \<open>The arbitrary-length and batch functions of hash_accel.cpp\<close>

definition accel_sha256 :: "bytes \<Rightarrow> bytes" where
  "accel_sha256 data = fst (sha256_finalize (sha256_update sha256_new data))"

definition sha256d :: "bytes \<Rightarrow> bytes" where
  "sha256d data = (let h1 = accel_sha256 data in sha256_32 h1)"

definition accel_ripemd160 :: "bytes \<Rightarrow> bytes" where
  "accel_ripemd160 data =
     (let len = length data;
          bits = (of_nat len * 8 :: u64);
          len_bytes = map (\<lambda>i. ucast (drop_bit (i * 8) bits)) [0..<8];
          store = (\<lambda>st. concat (map (\<lambda>i. store_le32 (st ! i)) [0..<5]))
      in if len \<le> 55 then
           let block = data @ [0x80] @ replicate (55 - len) 0 @ len_bytes
           in store (ripemd160_compress block RIPEMD160_IV)
         else
           let (st, ptr) = absorb ripemd160_compress 64 RIPEMD160_IV data;
               remaining = length ptr;
               pad_len = (if remaining < 56 then 64 else 128);
               block = ptr @ [0x80] @ replicate (pad_len - remaining - 1 - 8) 0 @ len_bytes;
               st = ripemd160_compress (take 64 block) st;
               st = (if pad_len = 128 then ripemd160_compress (drop 64 block) st else st)
           in store st)"

definition accel_hash160 :: "bytes \<Rightarrow> bytes" where
  "accel_hash160 data = (let sha_out = accel_sha256 data in ripemd160_32 sha_out)"

text \<open>The batch functions walk concatenated inputs and outputs.\<close>

fun hash160_33_batch :: "nat \<Rightarrow> bytes \<Rightarrow> bytes" where
  "hash160_33_batch 0 pubkeys = []"
| "hash160_33_batch (Suc count) pubkeys =
     hash160_33 (take 33 pubkeys) @ hash160_33_batch count (drop 33 pubkeys)"

lemma accel_ripemd160_digest: "accel_ripemd160 data = rmd_digest ripemd160_compress data"
proof (cases "length data \<le> 55")
  case True
  let ?b = "data @ rmd_pad (length data)"
  have "(2 * 64 - 8 - 1 - length data mod 64) mod 64 = 55 - length data"
  proof -
    have "119 - length data = (55 - length data) + 64" using True by linarith
    then have "(119 - length data) mod 64 = (55 - length data) mod 64" by (simp only: mod_add_self2)
    also have "\<dots> = 55 - length data" by (rule mod_less) simp
    finally show ?thesis using True by simp
  qed
  then have b: "?b = data @ [0x80] @ replicate (55 - length data) 0 @ rmd_len_le (length data)"
    by (simp add: rmd_pad_def md_pad_def)
  have "absorb ripemd160_compress 64 RIPEMD160_IV (?b @ []) = (ripemd160_compress ?b RIPEMD160_IV, [])"
    using True by (subst absorb_block) (simp_all add: b rmd_len_le_def absorb_short)
  then show ?thesis
    using True by (simp add: accel_ripemd160_def rmd_digest_def rmd_out_def b rmd_len_le_def Let_def)
next
  case False
  obtain st r where a: "absorb ripemd160_compress 64 RIPEMD160_IV data = (st, r)" by (rule prod.exhaust)
  have r: "length r = length data mod 64" "length r < 64"
    using absorb_snd_length [of 64 ripemd160_compress RIPEMD160_IV data] a by simp_all
  let ?l = "rmd_len_le (length data)"
  have l: "length ?l = 8" by (simp add: rmd_len_le_def)
  define blk where "blk = r @ rmd_pad (length data)"
  have e: "absorb ripemd160_compress 64 RIPEMD160_IV (data @ rmd_pad (length data))
      = absorb ripemd160_compress 64 st blk"
    using absorb_append [of 64 ripemd160_compress RIPEMD160_IV data "rmd_pad (length data)"] a
    by (simp add: blk_def)
  show ?thesis
  proof (cases "length r < 56")
    case True
    have "2 * 64 - 8 - 1 - length r = (55 - length r) + 64" using True by linarith
    then have z: "(2 * 64 - 8 - 1 - length data mod 64) mod 64 = 55 - length r"
      unfolding r(1) [symmetric] using True by (simp only: mod_add_self2) simp
    have b: "blk = r @ [0x80] @ replicate (55 - length r) 0 @ ?l"
      unfolding blk_def rmd_pad_def md_pad_def z by simp
    have len: "length blk = 64" using True by (simp add: b l)
    have "absorb ripemd160_compress 64 st (blk @ []) = (ripemd160_compress blk st, [])"
      using len by (subst absorb_block) (simp_all add: absorb_short)
    then show ?thesis
      using False True len a e b [unfolded rmd_len_le_def]
      by (simp add: accel_ripemd160_def rmd_digest_def rmd_out_def Let_def)
  next
    case ge: False
    have "119 - length r < 64" using ge by linarith
    then have z: "(2 * 64 - 8 - 1 - length data mod 64) mod 64 = 119 - length r"
      unfolding r(1) [symmetric] by simp
    have b: "blk = r @ [0x80] @ replicate (119 - length r) 0 @ ?l"
      unfolding blk_def rmd_pad_def md_pad_def z by simp
    have len: "length blk = 128" using ge r(2) by (simp add: b l)
    have tl: "length (take 64 blk) = 64" "length (drop 64 blk) = 64" using len by simp_all
    have "absorb ripemd160_compress 64 st (take 64 blk @ drop 64 blk @ [])
        = (ripemd160_compress (drop 64 blk) (ripemd160_compress (take 64 blk) st), [])"
      unfolding absorb_block [OF zero_less_numeral tl(1)] absorb_block [OF zero_less_numeral tl(2)]
      by (simp add: absorb_short)
    then have "rmd_digest ripemd160_compress data
        = rmd_out (ripemd160_compress (drop 64 blk) (ripemd160_compress (take 64 blk) st))"
      unfolding rmd_digest_def e by (simp only: append_Nil2 append_take_drop_id fst_conv)
    moreover have "accel_ripemd160 data
        = rmd_out (ripemd160_compress (drop 64 blk) (ripemd160_compress (take 64 blk) st))"
      unfolding accel_ripemd160_def Let_def a prod.case rmd_out_def b rmd_len_le_def
      using False ge by simp
    ultimately show ?thesis by simp
  qed
qed

lemma accel_hash160_eq: "accel_hash160 data = hash160 data"
  by (simp add: accel_hash160_def accel_sha256_def sha256_hash_def [symmetric] hash160_def
      ripemd160_32_eq address_ripemd160_hash_digest)

lemma hash160_33_batch_eq:
  "length pubkeys = 33 * count \<Longrightarrow>
   hash160_33_batch count pubkeys = concat (map (\<lambda>i. hash160 (take 33 (drop (33 * i) pubkeys))) [0..<count])"
proof (induction count arbitrary: pubkeys)
  case 0
  then show ?case by simp
next
  case (Suc count)
  have "hash160_33 (take 33 pubkeys) = hash160 (take 33 pubkeys)"
    using Suc.prems by (simp add: hash160_33_def sha256_33_eq ripemd160_32_eq hash160_def
        address_ripemd160_hash_digest)
  moreover have "map (\<lambda>i. hash160 (take 33 (drop (33 * i) (drop 33 pubkeys)))) [0..<count]
      = map (\<lambda>i. hash160 (take 33 (drop (33 * i) pubkeys))) (map Suc [0..<count])"
    by (simp add: add.commute)
  moreover have "[0..<Suc count] = 0 # map Suc [0..<count]"
    by (simp add: map_Suc_upt upt_conv_Cons del: upt_Suc)
  ultimately show ?case
    using Suc.IH [of "drop 33 pubkeys"] Suc.prems by (simp only: hash160_33_batch.simps list.map concat.simps) simp
qed

text \<open>the one-shot RIPEMD-160, HASH160 and double SHA-256 of \<open>hash_accel.cpp\<close>, which pad a
  local block or two directly, agree with the streaming ones on inputs of every length, and the
  batch HASH160 of concatenated 33-byte keys is the concatenation of the single ones.\<close>
theorem hash_accel_agrees:
  assumes "length pubkeys = 33 * count"
  shows "accel_ripemd160 msg = address_ripemd160_hash msg \<and> accel_hash160 msg = hash160 msg
    \<and> sha256d msg = hash256 msg
    \<and> hash160_33_batch count pubkeys = concat (map (\<lambda>i. hash160 (take 33 (drop (33 * i) pubkeys))) [0..<count])"
  using assms
  by (simp add: accel_ripemd160_digest address_ripemd160_hash_digest accel_hash160_eq sha256d_def
      accel_sha256_def sha256_hash_def [symmetric] sha256_32_eq hash256_def hash160_33_batch_eq)

theorem hash_accel_agrees_witness:
  "accel_ripemd160 [1, 2] = address_ripemd160_hash [1, 2]
    \<and> hash160_33_batch 2 (replicate 66 2) = hash160 (replicate 33 2) @ hash160 (replicate 33 2)"
  using hash_accel_agrees [of "replicate 66 2" 2 "[1, 2]"] by (simp add: upt_rec)

end
