(* ===== verification/Positional.thy ===== *)
theory Positional
  imports Prelude
begin

text \<open>
  Positional notation and characters, shared by the text encodings (Base58Check, Bech32,
  CashAddr): the value \<open>horner b\<close> of a big-endian digit list, uniqueness of digits with given
  value and length or without leading zero, and \<open>schar\<close>, the value of a C++ \<open>char\<close> as a signed
  byte (a C++ \<open>char\<close> is a HOL \<open>char\<close>).
\<close>

section \<open>Characters and positional values\<close>

definition schar :: "char \<Rightarrow> int" where
  "schar c = (let n = of_char c in if n < 128 then n else n - 256)"

definition horner :: "int \<Rightarrow> int list \<Rightarrow> int" where
  "horner b ds = foldl (\<lambda>a d. a * b + d) 0 ds"

definition canonical_digits :: "int \<Rightarrow> int list \<Rightarrow> bool" where
  "canonical_digits b ds \<longleftrightarrow> (\<forall>d\<in>set ds. 0 \<le> d \<and> d < b) \<and> (ds \<noteq> [] \<longrightarrow> hd ds \<noteq> 0)"

lemma horner_Nil [simp]: "horner b [] = 0"
  by (simp add: horner_def)

lemma horner_snoc [simp]: "horner b (ds @ [d]) = horner b ds * b + d"
  by (simp add: horner_def)

lemma horner_single [simp]: "horner b [d] = d"
  by (simp add: horner_def)

lemma horner_append: "horner b (xs @ ys) = horner b xs * b ^ length ys + horner b ys"
proof (induction ys rule: rev_induct)
  case Nil
  then show ?case by simp
next
  case (snoc y ys)
  then show ?case
    by (simp add: append_assoc [symmetric] algebra_simps del: append_assoc)
qed

lemma horner_zeros [simp]: "horner b (replicate n 0 @ ds) = horner b ds"
proof -
  have "horner b (replicate n 0) = 0"
  proof (induction n)
    case 0
    then show ?case by simp
  next
    case (Suc n)
    have "replicate (Suc n) 0 = replicate n (0 :: int) @ [0]" by (simp add: replicate_append_same)
    then show ?case using Suc by (simp only: horner_snoc)
  qed
  then show ?thesis by (simp add: horner_append)
qed

lemma horner_nonneg: "0 < b \<Longrightarrow> \<forall>d\<in>set ds. 0 \<le> d \<Longrightarrow> 0 \<le> horner b ds"
  by (induction ds rule: rev_induct) auto

lemma canonical_digits_snoc:
  "canonical_digits b (ds @ [d]) \<longleftrightarrow>
     canonical_digits b ds \<and> 0 \<le> d \<and> d < b \<and> (ds = [] \<longrightarrow> d \<noteq> 0)"
  by (cases ds) (auto simp: canonical_digits_def)

lemma canonical_digits_pos:
  assumes "1 < b" "canonical_digits b ds" "ds \<noteq> []"
  shows "0 < horner b ds"
  using assms(2,3)
proof (induction ds rule: rev_induct)
  case Nil
  then show ?case by simp
next
  case (snoc d ds)
  show ?case
  proof (cases "ds = []")
    case True
    then show ?thesis using snoc by (auto simp: canonical_digits_def)
  next
    case False
    then have "0 < horner b ds" using snoc by (simp add: canonical_digits_snoc)
    then have "0 < horner b ds * b" using assms(1) by simp
    moreover have "0 \<le> d" using snoc by (simp add: canonical_digits_snoc)
    ultimately show ?thesis by simp
  qed
qed

lemma canonical_digits_unique:
  assumes "1 < b" "canonical_digits b ds" "canonical_digits b es" "horner b ds = horner b es"
  shows "ds = es"
  using assms(2-)
proof (induction ds arbitrary: es rule: rev_induct)
  case Nil
  then show ?case using canonical_digits_pos [OF assms(1), of es] by fastforce
next
  case (snoc d ds)
  have "es \<noteq> []"
    using canonical_digits_pos [OF assms(1) snoc.prems(1)] snoc.prems(3) by auto
  then obtain es' e where es: "es = es' @ [e]" by (metis rev_exhaust)
  have r: "0 \<le> d" "d < b" "0 \<le> e" "e < b"
    using snoc.prems by (auto simp: es canonical_digits_snoc)
  have eq: "horner b ds * b + d = horner b es' * b + e" using snoc.prems(3) by (simp add: es)
  have "(horner b ds * b + d) div b = horner b ds" "(horner b es' * b + e) div b = horner b es'"
    "(horner b ds * b + d) mod b = d" "(horner b es' * b + e) mod b = e"
    using r assms(1) by simp_all
  then have "horner b ds = horner b es'" "d = e" using eq by metis+
  then show ?case using snoc.IH [of es'] snoc.prems by (simp add: es canonical_digits_snoc)
qed

lemma canonical_digits_Nil [simp]: "canonical_digits b []"
  by (simp add: canonical_digits_def)

abbreviation digits_of :: "bytes \<Rightarrow> int list" where
  "digits_of bs \<equiv> map uint bs"

lemma horner_Cons: "horner b (d # ds) = d * b ^ length ds + horner b ds"
  using horner_append [of b "[d]" ds] by simp

lemma horner_less:
  assumes "0 < b" "\<forall>d\<in>set ds. 0 \<le> d \<and> d < b"
  shows "horner b ds < b ^ length ds"
  using assms(2)
proof (induction ds rule: rev_induct)
  case Nil
  then show ?case by simp
next
  case (snoc d ds)
  then have "horner b ds + 1 \<le> b ^ length ds" "d < b" by auto
  then have "(horner b ds + 1) * b \<le> b ^ length ds * b" using assms(1) by (intro mult_right_mono) auto
  then have "horner b ds * b + d < b ^ length ds * b" using \<open>d < b\<close> by (simp add: algebra_simps)
  then show ?case by (simp add: mult.commute)
qed

lemma horner_inj_length:
  assumes "0 < b" "\<forall>d\<in>set ds. 0 \<le> d \<and> d < b" "\<forall>d\<in>set es. 0 \<le> d \<and> d < b"
    and "length ds = length es" "horner b ds = horner b es"
  shows "ds = es"
  using assms(2-)
proof (induction ds arbitrary: es rule: rev_induct)
  case Nil
  then show ?case by simp
next
  case (snoc d ds)
  then obtain es' e where es: "es = es' @ [e]" by (metis length_0_conv rev_exhaust snoc_eq_iff_butlast)
  have r: "0 \<le> d" "d < b" "0 \<le> e" "e < b" using snoc.prems by (auto simp: es)
  have eq: "horner b ds * b + d = horner b es' * b + e" using snoc.prems by (simp add: es)
  have "(horner b ds * b + d) div b = horner b ds" "(horner b es' * b + e) div b = horner b es'"
    "(horner b ds * b + d) mod b = d" "(horner b es' * b + e) mod b = e"
    using r assms(1) by simp_all
  then have "horner b ds = horner b es'" "d = e" using eq by metis+
  then show ?case using snoc.IH [of es'] snoc.prems by (simp add: es)
qed

lemma schar_inj: "schar c = schar d \<Longrightarrow> c = d"
proof -
  assume eq: "schar c = schar d"
  have "of_char c < (256 :: int)" "of_char d < (256 :: int)" "0 \<le> (of_char c :: int)" "0 \<le> (of_char d :: int)"
    by (simp_all add: of_char_def)
  then have "(of_char c :: int) = of_char d"
    using eq by (auto simp: schar_def Let_def split: if_splits)
  then show "c = d" by (simp only: of_char_eq_iff)
qed


end
