(* ===== verification/Base58.thy ===== *)
theory Base58
  imports Ripemd160 Positional
begin

text \<open>
  Base58Check of \<open>address.cpp\<close>: long division by 58 over a byte vector, long multiplication by 58
  over a digit vector, the double-SHA256 checksum. Both loops are shown to convert between the canonical
  digit strings of the same number, so encoding and decoding are inverse to each other on
  everything the decoder accepts.
\<close>

section \<open>Encoding (address.cpp)\<close>

definition BASE58_ALPHABET :: string where
  "BASE58_ALPHABET = ''123456789ABCDEFGHJKLMNPQRSTUVWXYZabcdefghijkmnopqrstuvwxyz''"

definition base58_char_value :: "char \<Rightarrow> int" where
  "base58_char_value c =
     (if schar c \<ge> schar CHR ''1'' \<and> schar c \<le> schar CHR ''9'' then schar c - schar CHR ''1''
      else if schar c \<ge> schar CHR ''A'' \<and> schar c \<le> schar CHR ''H'' then schar c - schar CHR ''A'' + 9
      else if schar c \<ge> schar CHR ''J'' \<and> schar c \<le> schar CHR ''N'' then schar c - schar CHR ''J'' + 17
      else if schar c \<ge> schar CHR ''P'' \<and> schar c \<le> schar CHR ''Z'' then schar c - schar CHR ''P'' + 22
      else if schar c \<ge> schar CHR ''a'' \<and> schar c \<le> schar CHR ''k'' then schar c - schar CHR ''a'' + 33
      else if schar c \<ge> schar CHR ''m'' \<and> schar c \<le> schar CHR ''z'' then schar c - schar CHR ''m'' + 44
      else - 1)"

text \<open>One pass of the long division: the quotient drops its leading zeros.\<close>

fun b58_div_step :: "bytes \<times> int \<Rightarrow> u8 \<Rightarrow> bytes \<times> int" where
  "b58_div_step (quot, remainder) byte =
     (let acc = remainder * 256 + uint byte;
          digit = acc div 58;
          remainder = acc mod 58;
          quot = (if quot \<noteq> [] \<or> digit > 0 then quot @ [word_of_int digit] else quot)
      in (quot, remainder))"

lemma b58_div_steps:
  assumes "foldl b58_div_step ([], 0) num = (q, r)"
  shows "horner 256 (digits_of num) = horner 256 (digits_of q) * 58 + r \<and> 0 \<le> r \<and> r < 58
    \<and> canonical_digits 256 (digits_of q) \<and> length q \<le> length num"
  using assms
proof (induction num arbitrary: q r rule: rev_induct)
  case Nil
  then show ?case by simp
next
  case (snoc x num)
  obtain q' r' where st: "foldl b58_div_step ([], 0) num = (q', r')" by (rule prod.exhaust)
  note IH = snoc.IH [OF st]
  define acc where "acc = r' * 256 + uint x"
  have acc: "0 \<le> acc div 58" "acc div 58 < 256" "acc = acc div 58 * 58 + acc mod 58"
    using IH uint_u8 [of x] by (auto simp: acc_def pos_imp_zdiv_nonneg_iff)
  have w: "uint (word_of_int (acc div 58) :: u8) = acc div 58"
    using acc by (simp add: uint_word_of_int)
  have q: "q = (if q' \<noteq> [] \<or> acc div 58 > 0 then q' @ [word_of_int (acc div 58)] else q')"
    and r: "r = acc mod 58"
    using snoc.prems st by (auto simp: acc_def Let_def split: if_splits)
  show ?case
  proof (cases "q' \<noteq> [] \<or> acc div 58 > 0")
    case True
    then have "q' = [] \<longrightarrow> acc div 58 \<noteq> 0" by auto
    moreover have "horner 256 (digits_of q) * 58 + r = (horner 256 (digits_of q') * 256) * 58 + acc"
      using True acc(3) by (simp add: q r w algebra_simps)
    ultimately show ?thesis
      using True IH acc(1,2) w
      by (simp add: q r canonical_digits_snoc) (simp add: acc_def algebra_simps)
  next
    case False
    then have "acc div 58 = 0" using acc by simp
    then show ?thesis using False IH acc q r by (simp add: acc_def)
  qed
qed

lemma digits_of_nonneg: "0 \<le> horner 256 (digits_of num)"
  by (rule horner_nonneg) auto

function b58_encode_loop :: "bytes \<Rightarrow> string \<Rightarrow> string" where
  "b58_encode_loop num result =
     (if num = [] then result
      else let (quot, remainder) = foldl b58_div_step ([], 0) num
           in b58_encode_loop quot (result @ [BASE58_ALPHABET ! nat remainder]))"
  by pat_completeness auto
termination
proof (relation "measure (\<lambda>(num, _). nat (horner 256 (digits_of num)) + length num)", goal_cases)
  case 1
  then show ?case by simp
next
  case (2 num result st q r)
  then have d: "horner 256 (digits_of num) = horner 256 (digits_of q) * 58 + r \<and> 0 \<le> r \<and> r < 58
    \<and> canonical_digits 256 (digits_of q) \<and> length q \<le> length num"
    by (intro b58_div_steps) simp
  show ?case
  proof (cases "q = []")
    case True
    then show ?thesis using d 2(1) digits_of_nonneg [of num] by simp
  next
    case False
    then have "0 < horner 256 (digits_of q)" using d by (intro canonical_digits_pos) auto
    then have "horner 256 (digits_of q) < horner 256 (digits_of num)" using d by linarith
    then have "nat (horner 256 (digits_of q)) < nat (horner 256 (digits_of num))"
      using \<open>0 < horner 256 (digits_of q)\<close> by simp
    moreover have "length q \<le> length num" using d by blast
    ultimately show ?thesis unfolding in_measure prod.case by (rule add_less_le_mono)
  qed
qed

declare b58_encode_loop.simps [simp del]

definition base58check_encode :: "bytes \<Rightarrow> string" where
  "base58check_encode data =
     (if length data = 0 \<or> length data > 0x7FFFFFFF then []
      else
        let checksum_hash1 = sha256_hash data;
            checksum_hash2 = sha256_hash checksum_hash1;
            payload = data @ take 4 checksum_hash2;
            leading_zeros = length (takeWhile (\<lambda>b. b = 0) payload);
            result = b58_encode_loop payload [];
            result = result @ replicate leading_zeros CHR ''1''
        in rev result)"

section \<open>Decoding (address.cpp)\<close>

text \<open>The inner loop runs from the last digit to the first; it returns the new digits and the
  carry out of the first.\<close>

fun b58_mul_digits :: "int list \<Rightarrow> int \<Rightarrow> int list \<times> int" where
  "b58_mul_digits [] carry = ([], carry)"
| "b58_mul_digits (d # ds) carry =
     (let (ds, carry) = b58_mul_digits ds carry;
          acc = d * 58 + carry
      in ((acc mod 256) # ds, acc div 256))"

function b58_push_carry :: "int \<Rightarrow> int list \<Rightarrow> int list" where
  "b58_push_carry carry digits =
     (if carry > 0 then b58_push_carry (carry div 256) (carry mod 256 # digits) else digits)"
  by pat_completeness auto
termination by (relation "measure (\<lambda>(carry, _). nat carry)") auto

declare b58_push_carry.simps [simp del]

fun b58_decode_chars :: "string \<Rightarrow> int list \<Rightarrow> int list option" where
  "b58_decode_chars [] digits = Some digits"
| "b58_decode_chars (c # cs) digits =
     (let val = base58_char_value c in
      if val < 0 then None
      else let (digits, carry) = b58_mul_digits digits val
           in b58_decode_chars cs (b58_push_carry carry digits))"

definition base58check_decode :: "string \<Rightarrow> bytes \<times> bool" where
  "base58check_decode encoded =
     (let leading_ones = length (takeWhile (\<lambda>c. c = CHR ''1'') encoded) in
      case b58_decode_chars encoded [] of
        None \<Rightarrow> ([], False)
      | Some digits \<Rightarrow>
          let digits = replicate leading_ones 0 @ digits in
          if length digits < 4 then ([], False)
          else
            let payload_len = length digits - 4;
                payload = map word_of_int (take payload_len digits);
                h1 = sha256_hash payload;
                h2 = sha256_hash h1
            in if \<exists>i \<in> set [0..<4]. digits ! (payload_len + i) \<noteq> uint (h2 ! i)
               then ([], False)
               else (payload, True))"

section \<open>The loops compute canonical digits\<close>

definition b58_char :: "int \<Rightarrow> char" where
  "b58_char d = BASE58_ALPHABET ! nat d"

lemma b58_char_value_all: "list_all (\<lambda>n. base58_char_value (b58_char (int n)) = int n) [0..<58]"
  by code_simp

lemma b58_char_value: "0 \<le> d \<Longrightarrow> d < 58 \<Longrightarrow> base58_char_value (b58_char d) = d"
  using b58_char_value_all [unfolded list_all_iff, rule_format, of "nat d"] by simp

lemma base58_bounds:
  "schar CHR ''1'' = 49" "schar CHR ''9'' = 57" "schar CHR ''A'' = 65" "schar CHR ''H'' = 72"
  "schar CHR ''J'' = 74" "schar CHR ''N'' = 78" "schar CHR ''P'' = 80" "schar CHR ''Z'' = 90"
  "schar CHR ''a'' = 97" "schar CHR ''k'' = 107" "schar CHR ''m'' = 109" "schar CHR ''z'' = 122"
  by (simp_all add: schar_def)

lemma base58_char_value_inj:
  "base58_char_value c = base58_char_value d \<Longrightarrow> 0 \<le> base58_char_value c \<Longrightarrow> c = d"
  by (rule schar_inj) (simp add: base58_char_value_def base58_bounds split: if_splits)

lemma b58_value_char:
  "base58_char_value c < 58" "0 \<le> base58_char_value c \<Longrightarrow> b58_char (base58_char_value c) = c"
proof -
  show lt: "base58_char_value c < 58"
    by (simp add: base58_char_value_def base58_bounds)
  assume "0 \<le> base58_char_value c"
  then show "b58_char (base58_char_value c) = c"
    using lt b58_char_value [of "base58_char_value c"] by (intro base58_char_value_inj) auto
qed

lemma b58_char_1: "b58_char 0 = CHR ''1''" "base58_char_value CHR ''1'' = 0"
  by code_simp+

lemma b58_encode_loop_digits:
  assumes "num = [] \<or> 0 < horner 256 (digits_of num)"
  shows "\<exists>ds. canonical_digits 58 ds \<and> horner 58 ds = horner 256 (digits_of num)
    \<and> b58_encode_loop num result = result @ rev (map b58_char ds)"
  using assms
proof (induction num result rule: b58_encode_loop.induct)
  case (1 num result)
  show ?case
  proof (cases "num = []")
    case True
    then show ?thesis by (intro exI [of _ "[]"]) (simp add: b58_encode_loop.simps)
  next
    case False
    obtain q r where st: "foldl b58_div_step ([], 0) num = (q, r)" by (rule prod.exhaust)
    note d = b58_div_steps [OF st]
    have pos: "0 < horner 256 (digits_of num)" using 1 False by simp
    have "q = [] \<or> 0 < horner 256 (digits_of q)"
      using d canonical_digits_pos [of 256 "digits_of q"] by auto
    then obtain ds where ds: "canonical_digits 58 ds" "horner 58 ds = horner 256 (digits_of q)"
      "b58_encode_loop q (result @ [BASE58_ALPHABET ! nat r])
        = (result @ [BASE58_ALPHABET ! nat r]) @ rev (map b58_char ds)"
      using "1.IH" [OF False st [symmetric] refl] by blast
    have "canonical_digits 58 (ds @ [r])"
      using ds(1,2) d pos by (auto simp: canonical_digits_snoc)
    moreover have "horner 58 (ds @ [r]) = horner 256 (digits_of num)" using ds(2) d by simp
    moreover have "b58_encode_loop num result = result @ rev (map b58_char (ds @ [r]))"
      using False st ds(3) by (subst b58_encode_loop.simps) (simp add: b58_char_def)
    ultimately show ?thesis by blast
  qed
qed

lemma b58_mul_digits_value:
  assumes "b58_mul_digits ds c = (ds', c')" "\<forall>d\<in>set ds. 0 \<le> d \<and> d < 256" "0 \<le> c" "c < 58"
  shows "horner 256 ds * 58 + c = c' * 256 ^ length ds + horner 256 ds' \<and> length ds' = length ds
    \<and> (\<forall>d\<in>set ds'. 0 \<le> d \<and> d < 256) \<and> 0 \<le> c' \<and> c' < 58
    \<and> (ds \<noteq> [] \<longrightarrow> hd ds \<noteq> 0 \<longrightarrow> c' = 0 \<longrightarrow> hd ds' \<noteq> 0)"
  using assms
proof (induction ds arbitrary: ds' c')
  case Nil
  then show ?case by simp
next
  case (Cons d ds)
  obtain es e where st: "b58_mul_digits ds c = (es, e)" by (rule prod.exhaust)
  have IH: "horner 256 ds * 58 + c = e * 256 ^ length ds + horner 256 es" "length es = length ds"
    "\<forall>d\<in>set es. 0 \<le> d \<and> d < 256" "0 \<le> e" "e < 58"
    using Cons.IH [OF st] Cons.prems by auto
  define acc where "acc = d * 58 + e"
  have r: "ds' = (acc mod 256) # es" "c' = acc div 256"
    using Cons.prems(1) st by (simp_all add: acc_def Let_def)
  have d: "0 \<le> d" "d < 256" using Cons.prems by auto
  have c': "0 \<le> c'" "c' < 58" using d IH(4,5) by (simp_all add: r acc_def pos_imp_zdiv_nonneg_iff)
  have acc: "acc = c' * 256 + acc mod 256" by (simp add: r)
  then have "acc * 256 ^ length ds = (c' * 256 + acc mod 256) * 256 ^ length ds" by simp
  moreover have "horner 256 (d # ds) * 58 + c = acc * 256 ^ length ds + horner 256 es"
    using IH(1) by (simp add: horner_Cons acc_def algebra_simps)
  ultimately have "horner 256 (d # ds) * 58 + c = c' * 256 ^ length (d # ds) + horner 256 ds'"
    using IH(2) by (simp add: horner_Cons r(1) algebra_simps)
  moreover have "hd ds' \<noteq> 0" if "d \<noteq> 0" "c' = 0"
  proof -
    have "0 < acc" using that(1) d IH(4) by (simp add: acc_def)
    moreover have "acc mod 256 = acc" using acc that(2) by simp
    ultimately show ?thesis by (simp add: r)
  qed
  ultimately show ?case using IH(2,3) c' r by simp
qed

lemma b58_push_carry_small: "0 \<le> c \<Longrightarrow> c < 256 \<Longrightarrow> b58_push_carry c ds = (if c = 0 then ds else c # ds)"
  by (subst b58_push_carry.simps) (simp add: b58_push_carry.simps [of 0])

lemma b58_push_mul:
  assumes "b58_mul_digits ds v = (ds', c')" "canonical_digits 256 ds" "0 \<le> v" "v < 58"
  shows "canonical_digits 256 (b58_push_carry c' ds')
    \<and> horner 256 (b58_push_carry c' ds') = horner 256 ds * 58 + v"
proof -
  note m = b58_mul_digits_value [OF assms(1) _ assms(3,4)]
  have r: "\<forall>d\<in>set ds. 0 \<le> d \<and> d < 256" using assms(2) by (simp add: canonical_digits_def)
  note m = m [OF r]
  have "b58_push_carry c' ds' = (if c' = 0 then ds' else c' # ds')"
    using m by (intro b58_push_carry_small) auto
  moreover have "ds = [] \<Longrightarrow> ds' = []" using m by simp
  ultimately show ?thesis
    using m assms(2) by (auto simp: canonical_digits_def horner_Cons)
qed

abbreviation b58_values :: "string \<Rightarrow> int list" where
  "b58_values s \<equiv> map base58_char_value s"

lemma b58_decode_chars_value:
  assumes "canonical_digits 256 digits"
  shows "case b58_decode_chars cs digits of
      None \<Rightarrow> (\<exists>c\<in>set cs. base58_char_value c < 0)
    | Some D \<Rightarrow> (\<forall>c\<in>set cs. 0 \<le> base58_char_value c) \<and> canonical_digits 256 D
        \<and> horner 256 D = foldl (\<lambda>a d. a * 58 + d) (horner 256 digits) (b58_values cs)"
  using assms
proof (induction cs arbitrary: digits)
  case Nil
  then show ?case by simp
next
  case (Cons c cs)
  show ?case
  proof (cases "base58_char_value c < 0")
    case True
    then show ?thesis by simp
  next
    case False
    obtain ds' c' where st: "b58_mul_digits digits (base58_char_value c) = (ds', c')"
      by (rule prod.exhaust)
    have p: "canonical_digits 256 (b58_push_carry c' ds')"
      "horner 256 (b58_push_carry c' ds') = horner 256 digits * 58 + base58_char_value c"
      using b58_push_mul [OF st Cons.prems] False b58_value_char(1) [of c] by auto
    show ?thesis
      using Cons.IH [OF p(1)] False by (auto simp: st p(2) split: option.splits)
  qed
qed

lemma b58_decode_chars_Some:
  "b58_decode_chars cs [] = Some D \<longleftrightarrow>
     (\<forall>c\<in>set cs. 0 \<le> base58_char_value c) \<and> canonical_digits 256 D
     \<and> horner 256 D = horner 58 (b58_values cs)" (is "?l \<longleftrightarrow> ?r")
proof
  assume ?l
  then show ?r using b58_decode_chars_value [of "[]" cs] by (simp add: horner_def)
next
  assume r: ?r
  have "b58_decode_chars cs [] \<noteq> None"
    using b58_decode_chars_value [of "[]" cs] r by (auto split: option.splits)
  then obtain E where E: "b58_decode_chars cs [] = Some E" by blast
  then have "E = D"
    using b58_decode_chars_value [of "[]" cs] r
    by (intro canonical_digits_unique [of 256]) (auto simp: horner_def)
  then show ?l using E by simp
qed

section \<open>Encoding and decoding are inverse\<close>

definition b58_checksum :: "bytes \<Rightarrow> bytes" where
  "b58_checksum data = take 4 (sha256_hash (sha256_hash data))"

lemma length_b58_checksum [simp]: "length (b58_checksum data) = 4"
  by (simp add: b58_checksum_def)

lemma takeWhile_eq_replicate:
  "takeWhile (\<lambda>x. x = a) xs = replicate (length (takeWhile (\<lambda>x. x = a) xs)) a"
  by (induction xs) auto

lemma leading_split:
  "xs = replicate (length (takeWhile (\<lambda>x. x = a) xs)) a @ dropWhile (\<lambda>x. x = a) xs"
  by (metis takeWhile_dropWhile_id takeWhile_eq_replicate)

lemma takeWhile_replicate_append:
  "ys = [] \<or> hd ys \<noteq> a \<Longrightarrow> takeWhile (\<lambda>x. x = a) (replicate n a @ ys) = replicate n a"
  by (induction n) (cases ys; simp)+

lemma canonical_dropWhile:
  "canonical_digits 256 (digits_of (dropWhile (\<lambda>b. b = 0) bs))"
proof (cases "dropWhile (\<lambda>b. b = 0) bs = []")
  case False
  then have "hd (dropWhile (\<lambda>b. b = 0) bs) \<noteq> 0"
    using hd_dropWhile [of "\<lambda>b. b = 0" bs] by blast
  then show ?thesis using False uint_u8 by (auto simp: canonical_digits_def hd_map uint_0_iff)
next
  case True
  then show ?thesis by (simp only: list.map canonical_digits_Nil)
qed

text \<open>The encoded form of a payload that is not all zero: one \<open>1\<close> per leading zero byte, then the
  base-58 digits of its value.\<close>

lemma encode_payload:
  assumes "0 < length data" "length data \<le> 0x7FFFFFFF"
    and "digits_of (data @ b58_checksum data) = replicate n 0 @ D"
    and "canonical_digits 256 D" "D \<noteq> []"
    and "canonical_digits 58 ds" "horner 58 ds = horner 256 D"
  shows "base58check_encode data = replicate n CHR ''1'' @ map b58_char ds"
proof -
  let ?P = "data @ b58_checksum data"
  have len: "length ?P = n + length D" using assms(3) by (metis length_append length_map length_replicate)
  have Pn: "map uint (take n ?P) = replicate n 0" "map uint (drop n ?P) = D"
    unfolding take_map [symmetric] drop_map [symmetric] assms(3) by simp_all
  have z: "take n ?P = replicate n 0"
  proof (rule map_injective [of uint])
    show "map uint (take n ?P) = map uint (replicate n (0 :: u8))" using Pn(1) by simp
    show "inj (uint :: u8 \<Rightarrow> int)" by (rule injI) (simp add: word_uint_eq_iff)
  qed
  have "length (drop n ?P) = length D" using Pn(2) by (metis length_map)
  then have "drop n ?P \<noteq> []" using assms(5) by (metis length_0_conv)
  moreover have "hd D \<noteq> 0" using assms(4,5) by (simp add: canonical_digits_def)
  ultimately have "hd (drop n ?P) \<noteq> 0" using Pn(2) by (metis hd_map unsigned_0)
  then have lz: "length (takeWhile (\<lambda>b. b = 0) ?P) = n"
    using takeWhile_replicate_append [of "drop n ?P" 0 n] z append_take_drop_id [of n ?P]
    by (metis length_replicate)
  have v: "horner 256 (digits_of ?P) = horner 256 D" by (simp add: assms(3) del: map_append)
  then have "0 < horner 256 (digits_of ?P)"
    using canonical_digits_pos [OF _ assms(4,5)] by simp
  then obtain es where es: "canonical_digits 58 es" "horner 58 es = horner 256 (digits_of ?P)"
    "b58_encode_loop ?P [] = [] @ rev (map b58_char es)"
    using b58_encode_loop_digits [of ?P "[]"] by blast
  have "es = ds"
    using es(1,2) assms(6,7) v by (intro canonical_digits_unique [of 58]) auto
  then show ?thesis
    using assms(1,2) es(3) lz by (simp add: base58check_encode_def b58_checksum_def Let_def rev_map)
qed

lemma decode_digits:
  assumes "b58_decode_chars s [] = Some D"
    and P: "digits_of (data @ b58_checksum data)
      = replicate (length (takeWhile (\<lambda>c. c = CHR ''1'') s)) 0 @ D"
  shows "base58check_decode s = (data, True)"
proof -
  let ?n = "length (takeWhile (\<lambda>c. c = CHR ''1'') s)"
  have len: "length (replicate ?n 0 @ D) = length data + 4"
    unfolding P [symmetric] by simp
  have "take (length data) (replicate ?n 0 @ D) = digits_of data"
    unfolding P [symmetric] by simp
  then have t: "map word_of_int (take (length data) (replicate ?n 0 @ D)) = data"
    by (simp add: comp_def)
  have c: "(replicate ?n 0 @ D) ! (length data + i) = uint (sha256_hash (sha256_hash data) ! i)"
    if "i < 4" for i
    unfolding P [symmetric] using that by (simp add: nth_append b58_checksum_def)
  show ?thesis
    unfolding base58check_decode_def Let_def assms(1) option.case len
    using t c by (simp del: take_append)
qed

lemma decode_accepts:
  assumes "base58check_decode s = (p, True)"
  obtains D where "b58_decode_chars s [] = Some D"
    "digits_of (p @ b58_checksum p) = replicate (length (takeWhile (\<lambda>c. c = CHR ''1'') s)) 0 @ D"
proof -
  let ?n = "length (takeWhile (\<lambda>c. c = CHR ''1'') s)"
  obtain D where D: "b58_decode_chars s [] = Some D"
    using assms by (cases "b58_decode_chars s []") (simp_all add: base58check_decode_def)
  define X where "X = replicate ?n 0 @ D"
  define L where "L = length X - 4"
  have a: "\<not> length X < 4" "p = map word_of_int (take L X)"
    "\<forall>i<4. X ! (L + i) = uint (sha256_hash (sha256_hash p) ! i)"
    using assms unfolding base58check_decode_def D option.case Let_def X_def [symmetric] L_def [symmetric]
    by (auto split: if_splits)
  have r: "\<forall>d\<in>set X. 0 \<le> d \<and> d < 256"
    using D unfolding b58_decode_chars_Some by (auto simp: X_def canonical_digits_def)
  have "digits_of p = map (\<lambda>d. uint (word_of_int d :: u8)) (take L X)"
    by (simp add: a(2) comp_def)
  also have "\<dots> = map (\<lambda>d. d) (take L X)"
    using r by (intro map_cong refl) (auto simp: uint_word_of_int dest: in_set_takeD)
  finally have p: "digits_of p = take L X" by simp
  have "digits_of (b58_checksum p) = drop L X"
    using a(1,3) by (intro nth_equalityI) (auto simp: b58_checksum_def L_def)
  then have "digits_of (p @ b58_checksum p) = X" using p by simp
  then show ?thesis using that D by (simp only: X_def)
qed

lemma b58_values_chars: "(\<forall>d\<in>set ds. 0 \<le> d \<and> d < 58) \<Longrightarrow> b58_values (map b58_char ds) = ds"
  by (induction ds) (auto simp: b58_char_value)

lemma b58_chars_values: "(\<forall>c\<in>set s. 0 \<le> base58_char_value c) \<Longrightarrow> map b58_char (b58_values s) = s"
  by (induction s) (auto simp: b58_value_char)

lemma base58_decode_iff:
  assumes "0 < length data" "length data \<le> 0x7FFFFFFF"
    and "\<exists>b\<in>set (data @ b58_checksum data). b \<noteq> 0"
  shows "base58check_decode s = (data, True) \<longleftrightarrow> s = base58check_encode data"
proof
  let ?P = "data @ b58_checksum data"
  assume s: "s = base58check_encode data"
  define n P' where "n = length (takeWhile (\<lambda>b. b = 0) ?P)" and "P' = dropWhile (\<lambda>b. b = 0) ?P"
  have P: "?P = replicate n 0 @ P'" unfolding n_def P'_def by (rule leading_split)
  have can: "canonical_digits 256 (digits_of P')" unfolding P'_def by (rule canonical_dropWhile)
  have ne: "P' \<noteq> []" using assms(3) unfolding P'_def dropWhile_eq_Nil_conv by blast
  then have pos: "0 < horner 256 (digits_of P')" using canonical_digits_pos [OF _ can] by simp
  then obtain ds where ds: "canonical_digits 58 ds" "horner 58 ds = horner 256 (digits_of P')"
    using b58_encode_loop_digits [of P' "[]"] by blast
  have enc: "s = replicate n CHR ''1'' @ map b58_char ds"
    unfolding s using assms(1,2) P can ne ds by (intro encode_payload [of _ _ "digits_of P'"]) (simp_all only: b58_checksum_def P [unfolded b58_checksum_def], simp_all)
  have r: "\<forall>d\<in>set ds. 0 \<le> d \<and> d < 58" using ds(1) by (simp add: canonical_digits_def)
  have vals: "b58_values s = replicate n 0 @ ds"
    using b58_values_chars [OF r] by (simp add: enc b58_char_1)
  have hd1: "map b58_char ds = [] \<or> hd (map b58_char ds) \<noteq> CHR ''1''"
  proof (cases ds)
    case (Cons d es)
    then have "d \<noteq> 0" "0 \<le> d" "d < 58" using ds(1) by (auto simp: canonical_digits_def)
    then have "base58_char_value (b58_char d) \<noteq> base58_char_value CHR ''1''"
      by (simp add: b58_char_value b58_char_1)
    then show ?thesis using Cons by auto
  qed simp
  have "\<forall>c\<in>set s. 0 \<le> base58_char_value c"
  proof -
    have "\<forall>v\<in>set (b58_values s). 0 \<le> v" unfolding vals using r by auto
    then show ?thesis by simp
  qed
  then have dec: "b58_decode_chars s [] = Some (digits_of P')"
    using can ds(2) by (simp add: b58_decode_chars_Some vals)
  have ones: "length (takeWhile (\<lambda>c. c = CHR ''1'') s) = n"
    unfolding enc takeWhile_replicate_append [OF hd1] by simp
  show "base58check_decode s = (data, True)"
    by (rule decode_digits [OF dec]) (simp only: ones P map_append map_replicate unsigned_0)
next
  assume "base58check_decode s = (data, True)"
  then obtain D where D: "b58_decode_chars s [] = Some D"
    "digits_of (data @ b58_checksum data) = replicate (length (takeWhile (\<lambda>c. c = CHR ''1'') s)) 0 @ D"
    by (rule decode_accepts)
  define n s' where "n = length (takeWhile (\<lambda>c. c = CHR ''1'') s)"
    and "s' = dropWhile (\<lambda>c. c = CHR ''1'') s"
  have s: "s = replicate n CHR ''1'' @ s'" unfolding n_def s'_def by (rule leading_split)
  have can: "canonical_digits 256 D" and v: "horner 256 D = horner 58 (b58_values s)"
    and ok: "\<forall>c\<in>set s. 0 \<le> base58_char_value c"
    using D(1) by (simp_all add: b58_decode_chars_Some)
  have "D \<noteq> []"
  proof
    assume "D = []"
    then have "\<forall>x\<in>set (digits_of (data @ b58_checksum data)). x = 0" using D(2) by simp
    then have "\<forall>b\<in>set (data @ b58_checksum data). b = 0" by (auto simp: word_uint_eq_iff)
    then show False using assms(3) by blast
  qed
  have ok': "\<forall>c\<in>set s'. 0 \<le> base58_char_value c" using ok s by auto
  have v': "horner 58 (b58_values s') = horner 256 D"
    unfolding v by (subst s) (simp add: b58_char_1)
  have can': "canonical_digits 58 (b58_values s')"
  proof (cases s')
    case (Cons c cs)
    then have "c \<noteq> CHR ''1''" using hd_dropWhile [of "\<lambda>c. c = CHR ''1''" s] by (auto simp: s'_def)
    then have "base58_char_value c \<noteq> 0"
      using base58_char_value_inj [of c "CHR ''1''"] b58_char_1 by auto
    then show ?thesis using Cons ok' b58_value_char(1) by (auto simp: canonical_digits_def)
  qed simp
  have "base58check_encode data = replicate n CHR ''1'' @ map b58_char (b58_values s')"
    using assms(1,2) D(2) can \<open>D \<noteq> []\<close> can' v' by (intro encode_payload [of _ _ D]) (simp_all add: n_def)
  then show "s = base58check_encode data"
    using b58_chars_values [OF ok'] s by simp
qed

lemma base58_decode_encode:
  "0 < length data \<Longrightarrow> length data \<le> 0x7FFFFFFF \<Longrightarrow> \<exists>b\<in>set data. b \<noteq> 0 \<Longrightarrow>
   base58check_decode (base58check_encode data) = (data, True)"
  by (rule iffD2 [OF base58_decode_iff]) auto

lemma base58_empty_payload:
  "base58check_encode [] = []" "base58check_decode [] = ([], False)"
  by (simp_all add: base58check_encode_def base58check_decode_def)

section \<open>Properties\<close>

text \<open>C20: for every payload that is not empty, no longer than the encoder's limit and not all zero
  together with its checksum, Base58Check decoding accepts a string with that payload exactly when
  the string is the encoding of the payload: nothing is lost, every accepted string is canonical,
  and no second string decodes to the same payload. The encoder answers the empty payload with
  the empty string, which the decoder refuses; a string of the four checksum bytes alone, which
  the decoder reads as the empty payload, is therefore outside the equivalence.\<close>
theorem base58check_decode_iff_encode:
  "(0 < length data \<longrightarrow> length data \<le> 0x7FFFFFFF \<longrightarrow>
      (\<exists>b\<in>set (data @ b58_checksum data). b \<noteq> 0) \<longrightarrow>
      (base58check_decode s = (data, True) \<longleftrightarrow> s = base58check_encode data))
   \<and> base58check_encode [] = [] \<and> base58check_decode [] = ([], False)"
  using base58_decode_iff [of data s] base58_empty_payload by blast

theorem base58check_decode_iff_encode_witness:
  "base58check_decode (base58check_encode [0x80, 1, 2]) = ([0x80, 1, 2], True)"
  using base58check_decode_iff_encode [of "[0x80, 1, 2]" "base58check_encode [0x80, 1, 2]"] by simp

end
