(* ===== verification/Bit_Groups.thy ===== *)
theory Bit_Groups
  imports Positional
begin

text \<open>
  \<open>convert_bits\<close> and \<open>convert_bits_fixed\<close> of \<open>address.cpp\<close>: regrouping a vector of \<open>frombits\<close>-bit
  values into \<open>tobits\<close>-bit values through a 32-bit \<open>int\<close> accumulator that overflows after a few
  elements (left shift wraps in C++20). The lemmas give the value of the output in terms of the
  value of the input, whatever its length, and that the two directions are inverse.
\<close>

section \<open>The code\<close>

type_synonym i32 = "32 word"

text \<open>\<open>while (bits >= tobits)\<close>. The callers pass 5 and 8; with \<open>tobits = 0\<close>, which the model
  stops at, the C++ loop would not end.\<close>

function emit_groups :: "i32 \<Rightarrow> nat \<Rightarrow> nat \<Rightarrow> bytes \<Rightarrow> nat \<times> bytes" where
  "emit_groups acc tobits bits out =
     (if bits \<ge> tobits \<and> tobits > 0 then
        let bits = bits - tobits;
            maxv = push_bit tobits 1 - 1
        in emit_groups acc tobits bits (out @ [ucast (signed_drop_bit bits acc AND maxv)])
      else (bits, out))"
  by pat_completeness auto
termination by (relation "measure (\<lambda>(_, _, bits, _). bits)") auto

fun convert_bits_loop ::
  "nat \<Rightarrow> nat \<Rightarrow> bytes \<Rightarrow> i32 \<Rightarrow> nat \<Rightarrow> bytes \<Rightarrow> (i32 \<times> nat) option \<times> bytes" where
  "convert_bits_loop frombits tobits [] acc bits out = (Some (acc, bits), out)"
| "convert_bits_loop frombits tobits (d # data) acc bits out =
     (let val = (ucast d :: i32) in
      if signed_drop_bit frombits val \<noteq> 0 then (None, out)
      else
        let acc = push_bit frombits acc OR val;
            bits = bits + frombits;
            (bits, out) = emit_groups acc tobits bits out
        in convert_bits_loop frombits tobits data acc bits out)"

text \<open>The result flag and the output vector.\<close>

definition convert_bits :: "bytes \<Rightarrow> nat \<Rightarrow> nat \<Rightarrow> bool \<Rightarrow> bool \<times> bytes" where
  "convert_bits data frombits tobits pad =
     (case convert_bits_loop frombits tobits data 0 0 [] of
        (None, out) \<Rightarrow> (False, out)
      | (Some (acc, bits), out) \<Rightarrow>
          let maxv = push_bit tobits 1 - 1 in
          if pad then
            (True, if bits > 0 then out @ [ucast (push_bit (tobits - bits) acc AND maxv)] else out)
          else if bits \<ge> frombits \<or> push_bit (tobits - bits) acc AND maxv \<noteq> 0 then (False, out)
          else (True, out))"

function emit_groups_fixed ::
  "nat \<Rightarrow> i32 \<Rightarrow> nat \<Rightarrow> nat \<Rightarrow> bytes \<Rightarrow> (nat \<times> bytes) option" where
  "emit_groups_fixed capacity acc tobits bits out =
     (if bits \<ge> tobits \<and> tobits > 0 then
        let bits = bits - tobits;
            maxv = push_bit tobits 1 - 1
        in if length out \<ge> capacity then None
           else emit_groups_fixed capacity acc tobits bits
                  (out @ [ucast (signed_drop_bit bits acc AND maxv)])
      else Some (bits, out))"
  by pat_completeness auto
termination by (relation "measure (\<lambda>(_, _, _, bits, _). bits)") auto

declare emit_groups.simps [simp del] emit_groups_fixed.simps [simp del]

fun convert_bits_fixed_loop ::
  "nat \<Rightarrow> nat \<Rightarrow> nat \<Rightarrow> bytes \<Rightarrow> i32 \<Rightarrow> nat \<Rightarrow> bytes \<Rightarrow> (i32 \<times> nat \<times> bytes) option" where
  "convert_bits_fixed_loop capacity frombits tobits [] acc bits out = Some (acc, bits, out)"
| "convert_bits_fixed_loop capacity frombits tobits (d # data) acc bits out =
     (let val = (ucast d :: i32) in
      if signed_drop_bit frombits val \<noteq> 0 then None
      else
        let acc = push_bit frombits acc OR val;
            bits = bits + frombits
        in case emit_groups_fixed capacity acc tobits bits out of
             None \<Rightarrow> None
           | Some (bits, out) \<Rightarrow>
               convert_bits_fixed_loop capacity frombits tobits data acc bits out)"

definition convert_bits_fixed :: "nat \<Rightarrow> bytes \<Rightarrow> nat \<Rightarrow> nat \<Rightarrow> bool \<Rightarrow> bytes option" where
  "convert_bits_fixed out_capacity data frombits tobits pad =
     (case convert_bits_fixed_loop out_capacity frombits tobits data 0 0 [] of
        None \<Rightarrow> None
      | Some (acc, bits, out) \<Rightarrow>
          let maxv = push_bit tobits 1 - 1 in
          if pad then
            if bits > 0 then
              if length out \<ge> out_capacity then None
              else Some (out @ [ucast (push_bit (tobits - bits) acc AND maxv)])
            else Some out
          else if bits \<ge> frombits \<or> push_bit (tobits - bits) acc AND maxv \<noteq> 0 then None
          else Some out)"

section \<open>The value of the output\<close>

text \<open>The accumulator holds the value read so far modulo 2^32, which is all the bits that are still
  needed.\<close>

lemma signed_drop_bit_mask:
  fixes acc :: i32
  assumes "n + t \<le> 31" 
  shows "uint (signed_drop_bit n acc AND (push_bit t 1 - 1)) = uint acc div 2 ^ n mod 2 ^ t"
proof -
  have m: "(push_bit t 1 - 1 :: i32) = mask t" by (simp add: mask_eq_exp_minus_1 push_bit_eq_mult)
  have "signed_drop_bit n acc AND mask t = drop_bit n acc AND mask t"
    using assms by (intro bit_eqI) (auto simp: bit_simps min_def)
  then show ?thesis
    unfolding m by (simp only: uint_and_mask uint_drop_bit_div)
qed

lemma group_of_wrapped:
  assumes "n + t \<le> 32"
  shows "(N mod 2 ^ 32) div 2 ^ n mod 2 ^ t = (N :: int) div 2 ^ n mod 2 ^ t"
proof -
  have "take_bit t (drop_bit n (take_bit 32 N)) = take_bit t (drop_bit n N)"
    using assms by (intro bit_eqI) (auto simp: bit_simps)
  then show ?thesis by (simp only: take_bit_eq_mod drop_bit_eq_div)
qed

lemma uint_emitted_group:
  fixes acc :: i32
  assumes "n + t \<le> 31" "t \<le> 8" "uint acc = N mod 2 ^ 32"
  shows "uint (ucast (signed_drop_bit n acc AND (push_bit t 1 - 1)) :: u8) = N div 2 ^ n mod 2 ^ t"
proof -
  have "N div 2 ^ n mod 2 ^ t < 2 ^ t" "0 \<le> N div 2 ^ n mod 2 ^ t" by simp_all
  moreover have "(2 :: int) ^ t \<le> 256" using power_increasing [of t 8 "2 :: int"] assms(2) by simp
  ultimately have "N div 2 ^ n mod 2 ^ t mod 256 = N div 2 ^ n mod 2 ^ t"
    by (intro mod_pos_pos_trivial) linarith+
  then show ?thesis
    unfolding uint_ucast_mod signed_drop_bit_mask [OF assms(1)] assms(3)
    using assms(1) by (subst group_of_wrapped) simp_all
qed

text \<open>What both loops maintain: the output so far is \<open>N\<close> without its low \<open>bits\<close> bits, in \<open>t\<close>-bit
  digits.\<close>

definition grouped :: "nat \<Rightarrow> int \<Rightarrow> nat \<Rightarrow> nat \<Rightarrow> bytes \<Rightarrow> bool" where
  "grouped t N K bits out \<longleftrightarrow> horner (2 ^ t) (digits_of out) = N div 2 ^ bits
     \<and> length out * t + bits = K \<and> (\<forall>x\<in>set out. uint x < 2 ^ t)"

lemma grouped_emit:
  assumes "grouped t N K bits out" "t \<le> bits" "uint x = N div 2 ^ (bits - t) mod 2 ^ t"
  shows "grouped t N K (bits - t) (out @ [x])"
proof -
  have "(2 :: int) ^ bits = 2 ^ (bits - t) * 2 ^ t"
    using assms(2) by (simp flip: power_add)
  then have "N div 2 ^ bits = N div 2 ^ (bits - t) div 2 ^ t"
    by (simp add: zdiv_zmult2_eq)
  then have "horner (2 ^ t) (digits_of (out @ [x])) = N div 2 ^ (bits - t)"
    using assms(1,3) by (simp only: grouped_def map_append list.map horner_snoc div_mult_mod_eq)
  then show ?thesis
    using assms by (auto simp: grouped_def)
qed

lemma emit_groups_grouped:
  fixes acc :: i32
  assumes "0 < t" "t \<le> 8" "uint acc = N mod 2 ^ 32"
    and "bits \<le> 31" "grouped t N K bits out"
  shows "grouped t N K (fst (emit_groups acc t bits out)) (snd (emit_groups acc t bits out))
    \<and> fst (emit_groups acc t bits out) < t"
  using assms(4,5)
proof (induction bits arbitrary: out rule: less_induct)
  case (less bits)
  show ?case
  proof (cases "t \<le> bits")
    case False
    then show ?thesis using less.prems by (subst (1 2 3) emit_groups.simps) simp
  next
    case True
    define x where "x = (ucast (signed_drop_bit (bits - t) acc AND (push_bit t 1 - 1)) :: u8)"
    have "uint x = N div 2 ^ (bits - t) mod 2 ^ t"
      using True less.prems(1) assms(2,3) unfolding x_def by (intro uint_emitted_group) simp_all
    then have "grouped t N K (bits - t) (out @ [x])"
      using less.prems(2) True by (intro grouped_emit)
    moreover have "emit_groups acc t bits out = emit_groups acc t (bits - t) (out @ [x])"
      using True assms(1) by (subst emit_groups.simps) (simp add: x_def Let_def)
    ultimately show ?thesis
      using less.IH [of "bits - t" "out @ [x]"] True assms(1) less.prems(1) by simp
  qed
qed

lemma emit_groups_fixed_eq:
  assumes "0 < t" "length out + bits div t \<le> capacity"
  shows "emit_groups_fixed capacity acc t bits out = Some (emit_groups acc t bits out)"
  using assms(2)
proof (induction bits arbitrary: out rule: less_induct)
  case (less bits)
  show ?case
  proof (cases "t \<le> bits")
    case True
    then have "bits div t = Suc ((bits - t) div t)" using assms(1) by (simp add: le_div_geq)
    then show ?thesis
      using True less assms(1)
      by (subst emit_groups_fixed.simps, subst emit_groups.simps) (simp add: Let_def)
  qed (subst emit_groups_fixed.simps, subst emit_groups.simps, simp)
qed

text \<open>One element: \<open>acc = (acc << f) | value\<close>.\<close>

lemma uint_shift_in:
  fixes acc :: i32 and d :: u8
  assumes "uint acc = N mod 2 ^ 32" "uint d < 2 ^ f" "f \<le> 8"
  shows "uint (push_bit f acc OR ucast d) = (N * 2 ^ f + uint d) mod 2 ^ 32"
proof -
  have "push_bit f acc AND (ucast d :: i32) = 0"
  proof (rule bit_eqI)
    fix n
    assume "possible_bit TYPE(i32) n"
    have t: "take_bit f (uint d) = uint d" by (rule take_bit_int_eq_self) (simp_all add: assms(2))
    have "\<not> bit d n" if "f \<le> n"
    proof
      assume "bit d n"
      then have "bit (take_bit f (uint d)) n" unfolding t by (simp only: bit_uint_iff) (auto dest: bit_imp_le_length)
      then show False using that by (simp add: bit_take_bit_iff)
    qed
    then show "bit (push_bit f acc AND (ucast d :: i32)) n = bit (0 :: i32) n"
      by (auto simp: bit_simps)
  qed
  then have "push_bit f acc OR ucast d = push_bit f acc + ucast d"
    by (simp add: disjunctive_add_eq_or)
  then have "uint (push_bit f acc OR ucast d) = (uint (push_bit f acc) + uint (ucast d :: i32)) mod 2 ^ 32"
    by (simp add: uint_word_ariths)
  also have "uint (push_bit f acc) = (uint acc * 2 ^ f) mod 2 ^ 32"
    by (simp only: unsigned_push_bit_eq take_bit_eq_mod) (simp add: push_bit_eq_mult)
  also have "uint (ucast d :: i32) = uint d" using uint_u8 [of d] by (simp add: uint_ucast_mod)
  finally show ?thesis unfolding assms(1) by (simp add: mod_simps)
qed

lemma value_fits:
  fixes d :: u8
  assumes "f \<le> 8"
  shows "signed_drop_bit f (ucast d :: i32) = 0 \<longleftrightarrow> uint d < 2 ^ f"
proof -
  have "signed_drop_bit f (ucast d :: i32) = drop_bit f (ucast d)"
    by (intro bit_eqI) (auto simp: bit_simps dest: bit_imp_le_length)
  also have "\<dots> = 0 \<longleftrightarrow> uint d div 2 ^ f = 0"
    using uint_u8 [of d] by (simp add: uint_0_iff [symmetric] uint_drop_bit_div uint_ucast_mod)
  also have "uint d div 2 ^ f = 0 \<longleftrightarrow> uint d < 2 ^ f" using uint_bounds(1) [of d] by (auto simp: zdiv_eq_0_iff not_less order_antisym)
  finally show ?thesis .
qed

section \<open>Whole conversions\<close>

lemma grouped_shift_in:
  assumes "grouped t N K bits out" "0 \<le> d" "d < 2 ^ f"
  shows "grouped t (N * 2 ^ f + d) (K + f) (bits + f) out"
proof -
  have "(N * 2 ^ f + d) div 2 ^ (bits + f) = (N * 2 ^ f + d) div 2 ^ f div 2 ^ bits"
    unfolding power_add mult.commute [of "2 ^ bits"] by (rule zdiv_zmult2_eq) simp
  also have "(N * 2 ^ f + d) div 2 ^ f = N" using assms(2,3) by simp
  finally show ?thesis using assms(1) by (simp add: grouped_def)
qed

lemma convert_bits_loop_value:
  assumes "0 < t" "t \<le> 8" "f \<le> 8"
    and "grouped t N K bits out" "bits < t" "uint acc = N mod 2 ^ 32"
  shows "case convert_bits_loop f t data acc bits out of
      (None, _) \<Rightarrow> \<exists>d\<in>set data. \<not> uint d < 2 ^ f
    | (Some (acc', bits'), out') \<Rightarrow> (\<forall>d\<in>set data. uint d < 2 ^ f) \<and> bits' < t
        \<and> (\<exists>N'. N' = foldl (\<lambda>a d. a * 2 ^ f + d) N (digits_of data)
            \<and> grouped t N' (K + f * length data) bits' out' \<and> uint acc' = N' mod 2 ^ 32)"
  using assms(4-)
proof (induction data arbitrary: N K acc bits out)
  case Nil
  then show ?case by simp
next
  case (Cons d data)
  show ?case
  proof (cases "uint d < 2 ^ f")
    case False
    then show ?thesis using assms(3) by (simp add: Let_def value_fits)
  next
    case True
    define acc' where "acc' = (push_bit f acc OR ucast d :: i32)"
    have a: "uint acc' = (N * 2 ^ f + uint d) mod 2 ^ 32"
      unfolding acc'_def by (rule uint_shift_in [OF Cons.prems(3) True assms(3)])
    obtain bits' out' where e: "emit_groups acc' t (bits + f) out = (bits', out')" by (rule prod.exhaust)
    have "grouped t (N * 2 ^ f + uint d) (K + f) bits' out' \<and> bits' < t"
      using emit_groups_grouped [OF assms(1,2) a _ grouped_shift_in [OF Cons.prems(1) _ True]]
        Cons.prems(2) assms(2,3) by (simp add: e)
    from Cons.IH [OF conjunct1 [OF this] conjunct2 [OF this] a]
    show ?thesis
      using True assms(3) e
      by (simp add: Let_def value_fits acc'_def [symmetric] split: prod.splits option.splits)
        (simp add: algebra_simps)
  qed
qed

lemma convert_bits_loop_start:
  assumes "0 < t" "t \<le> 8" "f \<le> 8"
  shows "case convert_bits_loop f t data 0 0 [] of
      (None, _) \<Rightarrow> \<exists>d\<in>set data. \<not> uint d < 2 ^ f
    | (Some (acc', bits'), out') \<Rightarrow> (\<forall>d\<in>set data. uint d < 2 ^ f) \<and> bits' < t
        \<and> grouped t (horner (2 ^ f) (digits_of data)) (f * length data) bits' out'
        \<and> uint acc' = horner (2 ^ f) (digits_of data) mod 2 ^ 32"
  using convert_bits_loop_value [OF assms, of 0 0 0 "[]" 0 data] assms(1)
  by (simp add: grouped_def horner_def split: prod.splits option.splits)

lemma last_group_value:
  fixes acc :: i32
  assumes "bits < t" "t \<le> 8" "uint acc = N mod 2 ^ 32"
  shows "uint (push_bit (t - bits) acc AND (push_bit t 1 - 1)) = N mod 2 ^ bits * 2 ^ (t - bits)"
proof -
  have m: "(push_bit t 1 - 1 :: i32) = mask t" by (simp add: mask_eq_exp_minus_1 push_bit_eq_mult)
  have "take_bit t (take_bit 32 (push_bit (t - bits) (take_bit 32 N))) = push_bit (t - bits) (take_bit bits N)"
    using assms(1,2) by (intro bit_eqI) (auto simp: bit_simps)
  then show ?thesis
    unfolding m uint_and_mask unsigned_push_bit_eq assms(3)
    by (simp add: take_bit_eq_mod push_bit_eq_mult)
qed

lemma grouped_last:
  assumes "grouped t N K bits out" "bits < t" "uint x = N mod 2 ^ bits * 2 ^ (t - bits)"
  shows "horner (2 ^ t) (digits_of (out @ [x])) = N * 2 ^ (t - bits)" "uint x < 2 ^ t"
proof -
  have e: "(2 :: int) ^ t = 2 ^ bits * 2 ^ (t - bits)" using assms(2) by (simp flip: power_add)
  have "horner (2 ^ t) (digits_of (out @ [x])) = N div 2 ^ bits * 2 ^ t + N mod 2 ^ bits * 2 ^ (t - bits)"
    using assms(1,3) by (simp add: grouped_def)
  also have "\<dots> = (N div 2 ^ bits * 2 ^ bits + N mod 2 ^ bits) * 2 ^ (t - bits)"
    unfolding e by (simp only: distrib_right mult.assoc)
  also have "\<dots> = N * 2 ^ (t - bits)" by (simp only: div_mult_mod_eq)
  finally show "horner (2 ^ t) (digits_of (out @ [x])) = N * 2 ^ (t - bits)" .
  have "N mod 2 ^ bits < 2 ^ bits" by simp
  then show "uint x < 2 ^ t" unfolding assms(3) e by (intro mult_strict_right_mono) simp_all
qed

lemma convert_bits_pad:
  assumes "0 < t" "t \<le> 8" "f \<le> 8" "\<forall>d\<in>set data. uint d < 2 ^ f"
  obtains out where "convert_bits data f t True = (True, out)"
    and "length out = (f * length data + (t - 1)) div t" "\<forall>x\<in>set out. uint x < 2 ^ t"
    and "horner (2 ^ t) (digits_of out)
      = horner (2 ^ f) (digits_of data) * 2 ^ (t * length out - f * length data)"
    and "f * length data \<le> t * length out"
proof -
  let ?N = "horner (2 ^ f) (digits_of data)"
  obtain acc bits out where l: "convert_bits_loop f t data 0 0 [] = (Some (acc, bits), out)"
    and b: "bits < t" and g: "grouped t ?N (f * length data) bits out" and a: "uint acc = ?N mod 2 ^ 32"
    using convert_bits_loop_start [OF assms(1-3), of data] assms(4)
    by (cases "convert_bits_loop f t data 0 0 []") (auto split: option.splits)
  have len: "length out * t + bits = f * length data" using g by (simp add: grouped_def)
  show ?thesis
  proof (cases "bits = 0")
    case True
    have "(f * length data + (t - 1)) div t = length out"
      using len True assms(1) by (metis add_0_right div_less div_mult_self3 diff_less less_numeral_extra(1) neq0_conv)
    then show ?thesis
      using that [of out] l True g len by (simp add: convert_bits_def grouped_def mult.commute)
  next
    case False
    define x where "x = (ucast (push_bit (t - bits) acc AND (push_bit t 1 - 1)) :: u8)"
    have lt: "uint (push_bit (t - bits) acc AND (push_bit t 1 - 1)) < 2 ^ t"
      unfolding last_group_value [OF b assms(2) a] using grouped_last(2) [OF g b, of "word_of_int 0"]
      by (metis b le_add_diff_inverse less_or_eq_imp_le mult_strict_right_mono pos_mod_bound power_add zero_less_numeral zero_less_power)
    moreover have "(2 :: int) ^ t \<le> 256" using power_increasing [of t 8 "2 :: int"] assms(2) by simp
    ultimately have x: "uint x = ?N mod 2 ^ bits * 2 ^ (t - bits)"
      unfolding x_def last_group_value [OF b assms(2) a, symmetric] uint_ucast_mod
      by (intro mod_pos_pos_trivial) simp_all
    note gl = grouped_last [OF g b x]
    have "f * length data + (t - 1) = (bits - 1) + (length out + 1) * t"
      using len False b by (simp add: algebra_simps)
    then have "(f * length data + (t - 1)) div t = (length out + 1) + (bits - 1) div t"
      using assms(1) by (simp only:) (intro div_mult_self1, simp)
    then have "(f * length data + (t - 1)) div t = length out + 1" using b by simp
    moreover have "t * length (out @ [x]) - f * length data = t - bits"
      using len b by (simp add: algebra_simps)
    moreover have "convert_bits data f t True = (True, out @ [x])"
      using l False by (simp add: convert_bits_def x_def)
    moreover have "f * length data \<le> t * length (out @ [x])" using len b by (simp add: algebra_simps)
    ultimately show ?thesis using that [of "out @ [x]"] g gl by (simp add: grouped_def)
  qed
qed

lemma convert_bits_nopad:
  assumes "0 < t" "t \<le> 8" "f \<le> 8"
  defines "N data \<equiv> horner (2 ^ f) (digits_of data)"
  shows "convert_bits data f t False = (True, out) \<longleftrightarrow>
    (\<forall>d\<in>set data. uint d < 2 ^ f) \<and> f * length data mod t < f
    \<and> N data mod 2 ^ (f * length data mod t) = 0
    \<and> length out = f * length data div t \<and> (\<forall>x\<in>set out. uint x < 2 ^ t)
    \<and> horner (2 ^ t) (digits_of out) = N data div 2 ^ (f * length data mod t)" (is "?l \<longleftrightarrow> ?r")
proof (cases "\<forall>d\<in>set data. uint d < 2 ^ f")
  case False
  then have "fst (convert_bits_loop f t data 0 0 []) = None"
    using convert_bits_loop_start [OF assms(1-3), of data]
    by (cases "convert_bits_loop f t data 0 0 []") (auto split: option.splits)
  then show ?thesis
    using False by (cases "convert_bits_loop f t data 0 0 []") (auto simp: convert_bits_def)
next
  case True
  then obtain acc bits out0 where l: "convert_bits_loop f t data 0 0 [] = (Some (acc, bits), out0)"
    and b: "bits < t" and g: "grouped t (N data) (f * length data) bits out0"
    and a: "uint acc = N data mod 2 ^ 32"
    using convert_bits_loop_start [OF assms(1-3), of data] unfolding N_def
    by (cases "convert_bits_loop f t data 0 0 []") (auto split: option.splits)
  have len: "length out0 * t + bits = f * length data" using g by (simp add: grouped_def)
  have bits: "bits = f * length data mod t" "length out0 = f * length data div t"
    using b by (simp_all flip: len)
  have z: "push_bit (t - bits) acc AND (push_bit t 1 - 1) = 0 \<longleftrightarrow> N data mod 2 ^ bits = 0"
    unfolding uint_0_iff [symmetric] last_group_value [OF b assms(2) a] by simp
  have c: "convert_bits data f t False
      = (if bits \<ge> f \<or> \<not> N data mod 2 ^ bits = 0 then (False, out0) else (True, out0))"
    unfolding convert_bits_def l by (simp add: Let_def flip: z)
  have uniq: "out = out0" if "length out = length out0" "\<forall>x\<in>set out. uint x < 2 ^ t"
    "horner (2 ^ t) (digits_of out) = N data div 2 ^ bits"
  proof -
    have "digits_of out = digits_of out0"
      using that g by (intro horner_inj_length [of "2 ^ t"]) (auto simp: grouped_def)
    then show ?thesis by (rule map_injective) (simp add: inj_on_def word_uint_eq_iff)
  qed
  show ?thesis
    unfolding c bits(1) [symmetric] bits(2) [symmetric] using True g uniq by (auto simp: grouped_def not_le)
qed

section \<open>The two directions of the address codecs\<close>

lemma uint_lt_pow8: "uint (x :: u8) < 2 ^ 8"
  using uint_u8 [of x] by simp

lemma convert_bits_8_5:
  obtains g where "convert_bits data 8 5 True = (True, g)"
    and "length g = (8 * length data + 4) div 5" "\<forall>x\<in>set g. uint x < 2 ^ 5"
    and "horner (2 ^ 5) (digits_of g) = horner (2 ^ 8) (digits_of data) * 2 ^ (5 * length g - 8 * length data)"
    and "8 * length data \<le> 5 * length g"
  by (rule convert_bits_pad [of 5 8 data]) (auto simp: uint_u8)

lemma convert_bits_pad_unpad:
  "convert_bits data 8 5 True = (True, g) \<Longrightarrow> convert_bits g 5 8 False = (True, data)"
proof -
  assume a: "convert_bits data 8 5 True = (True, g)"
  have g: "length g = (8 * length data + 4) div 5" "\<forall>x\<in>set g. uint x < 2 ^ 5"
    "horner (2 ^ 5) (digits_of g) = horner (2 ^ 8) (digits_of data) * 2 ^ (5 * length g - 8 * length data)"
    "8 * length data \<le> 5 * length g"
    using convert_bits_8_5 [of data] a by (metis Pair_inject)+
  define p where "p = 5 * length g - 8 * length data"
  have p: "5 * length g = 8 * length data + p" "p < 5"
    using g(1,4) unfolding p_def by linarith+
  then have m: "5 * length g mod 8 = p" "5 * length g div 8 = length data" by simp_all
  have "convert_bits g 5 8 False = (True, data) \<longleftrightarrow>
    (\<forall>d\<in>set g. uint d < 2 ^ 5) \<and> 5 * length g mod 8 < 5
    \<and> horner (2 ^ 5) (digits_of g) mod 2 ^ (5 * length g mod 8) = 0
    \<and> length data = 5 * length g div 8 \<and> (\<forall>x\<in>set data. uint x < 2 ^ 8)
    \<and> horner (2 ^ 8) (digits_of data) = horner (2 ^ 5) (digits_of g) div 2 ^ (5 * length g mod 8)"
    by (rule convert_bits_nopad) simp_all
  then show ?thesis
    unfolding m g(3) p_def [symmetric] using g(2) p(2) uint_lt_pow8 by simp
qed

lemma convert_bits_unpad_pad:
  assumes "convert_bits g 5 8 False = (True, data)"
  shows "convert_bits data 8 5 True = (True, g)"
proof -
  define p where "p = 5 * length g mod 8"
  have a: "\<forall>d\<in>set g. uint d < 2 ^ 5" "p < 5" "horner (2 ^ 5) (digits_of g) mod 2 ^ p = 0"
    "length data = 5 * length g div 8"
    "horner (2 ^ 8) (digits_of data) = horner (2 ^ 5) (digits_of g) div 2 ^ p"
    using convert_bits_nopad [of 8 5 g data] assms by (simp_all add: p_def)
  have len: "5 * length g = 8 * length data + p" by (simp add: a(4) p_def)
  obtain h where h: "convert_bits data 8 5 True = (True, h)"
    "length h = (8 * length data + 4) div 5" "\<forall>x\<in>set h. uint x < 2 ^ 5"
    "horner (2 ^ 5) (digits_of h) = horner (2 ^ 8) (digits_of data) * 2 ^ (5 * length h - 8 * length data)"
    "8 * length data \<le> 5 * length h"
    by (rule convert_bits_8_5 [of data])
  have l: "length h = length g" using h(2) len a(2) by linarith
  have "horner (2 ^ 5) (digits_of h) = horner (2 ^ 5) (digits_of g) div 2 ^ p * 2 ^ p"
    unfolding h(4) l len a(5) by simp
  also have "\<dots> = horner (2 ^ 5) (digits_of g)"
    using a(3) by (metis add.right_neutral div_mult_mod_eq)
  finally have "digits_of h = digits_of g"
    using l h(3) a(1) by (intro horner_inj_length [of "2 ^ 5"]) auto
  then have "h = g" by (rule map_injective) (simp add: inj_on_def word_uint_eq_iff)
  then show ?thesis using h(1) by simp
qed

section \<open>The fixed-capacity variant never overflows its buffer\<close>

lemma emit_groups_length:
  "length (snd (emit_groups acc t bits out)) * t + fst (emit_groups acc t bits out) = length out * t + bits"
proof (induction bits arbitrary: out rule: less_induct)
  case (less bits)
  show ?case
  proof (cases "t \<le> bits \<and> 0 < t")
    case False
    then show ?thesis by (subst (1 2) emit_groups.simps) auto
  next
    case True
    define x where "x = (ucast (signed_drop_bit (bits - t) acc AND (push_bit t 1 - 1)) :: u8)"
    have "emit_groups acc t bits out = emit_groups acc t (bits - t) (out @ [x])"
      using True by (subst emit_groups.simps) (simp add: x_def Let_def)
    then show ?thesis using less.IH [of "bits - t" "out @ [x]"] True by simp
  qed
qed

lemma convert_bits_fixed_loop_eq:
  assumes "0 < t" "(length out * t + bits + f * length data) div t \<le> capacity"
  shows "convert_bits_fixed_loop capacity f t data acc bits out
    = (case convert_bits_loop f t data acc bits out of
         (None, _) \<Rightarrow> None | (Some (acc, bits), out) \<Rightarrow> Some (acc, bits, out))"
  using assms(2)
proof (induction data arbitrary: acc bits out)
  case Nil
  then show ?case by simp
next
  case (Cons d data)
  define acc' where "acc' = (push_bit f acc OR ucast d :: i32)"
  obtain bits' out' where e: "emit_groups acc' t (bits + f) out = (bits', out')" by (rule prod.exhaust)
  have len: "length out' * t + bits' = length out * t + (bits + f)"
    using emit_groups_length [of acc' t "bits + f" out] by (simp add: e)
  have "length out + (bits + f) div t = (length out * t + (bits + f)) div t" using assms(1) by simp
  also have "\<dots> \<le> (length out * t + bits + f * length (d # data)) div t" by (intro div_le_mono) simp
  also note Cons.prems
  finally have "emit_groups_fixed capacity acc' t (bits + f) out = Some (bits', out')"
    using emit_groups_fixed_eq [OF assms(1)] e by metis
  moreover have "(length out' * t + bits' + f * length data) div t \<le> capacity"
    unfolding len using Cons.prems by (simp add: algebra_simps)
  note Cons.IH [OF this]
  ultimately show ?case
    using e by (simp add: Let_def acc'_def split: prod.splits)
qed

lemma convert_bits_fixed_8_5:
  assumes "(8 * length data + 4) div 5 \<le> capacity"
  shows "convert_bits_fixed capacity data 8 5 True = Some (snd (convert_bits data 8 5 True))"
proof -
  have "(8 * length data) div 5 \<le> (8 * length data + 4) div 5" by (rule div_le_mono) simp
  then have le: "(length ([] :: bytes) * 5 + 0 + 8 * length data) div 5 \<le> capacity"
    using assms by simp
  obtain acc bits out where l: "convert_bits_loop 8 5 data 0 0 [] = (Some (acc, bits), out)"
    and b: "bits < 5" and g: "grouped 5 (horner (2 ^ 8) (digits_of data)) (8 * length data) bits out"
    using convert_bits_loop_start [of 5 8 data] uint_lt_pow8
    by (cases "convert_bits_loop 8 5 data 0 0 []") (auto split: option.splits)
  have "\<not> length out \<ge> capacity" if "bits > 0"
  proof -
    have "length out * 5 + bits = 8 * length data" using g by (simp add: grouped_def)
    then show ?thesis using that assms by linarith
  qed
  then show ?thesis
    using l by (simp add: convert_bits_fixed_def convert_bits_def convert_bits_fixed_loop_eq [OF _ le])
qed

section \<open>Properties\<close>

text \<open>regrouping bytes into padded 5-bit groups and regrouping back with the padding check are
  inverse relations for every length, although the 32-bit accumulator overflows: the strict
  direction accepts exactly the canonical groupings, with fewer than five zero padding bits.\<close>
theorem convert_bits_inverse:
  "convert_bits g 5 8 False = (True, data) \<longleftrightarrow> convert_bits data 8 5 True = (True, g)"
  using convert_bits_pad_unpad convert_bits_unpad_pad by blast

text \<open>the fixed-capacity variant used by the encoder, given the capacity the encoder computes,
  never reports an overflow and produces the same groups.\<close>
theorem convert_bits_fixed_total:
  "convert_bits_fixed ((length data * 8 + 4) div 5) data 8 5 True = Some (snd (convert_bits data 8 5 True))
   \<and> fst (convert_bits data 8 5 True)"
  using convert_bits_fixed_8_5 [of data "(length data * 8 + 4) div 5"] convert_bits_8_5 [of data]
  by (simp add: mult.commute) (metis fst_conv)

end
