(* ===== verification/Bch_Code.thy ===== *)
theory Bch_Code
  imports Positional
begin

text \<open>
  The checksum interface of the two BCH-coded address formats: \<open>n\<close> five-bit symbols over a
  register of \<open>5 n\<close> bits, fed one symbol at a time. The locale states the linearity of a step in
  its low bits; its lemmas say that appending the symbols of
  \<open>polymod (data, zeros) XOR constant\<close> is the only way to make \<open>polymod\<close> equal the constant.
  \<open>bech32_polymod\<close> (30 bits) and \<open>cashaddr_polymod\<close> (40 bits) interpret it.
\<close>

lemma horner_digits:
  assumes "0 < b"
  shows "horner b (map (\<lambda>i. x div b ^ (n - 1 - i) mod b) [0..<n]) = x mod b ^ n"
proof (induction n arbitrary: x)
  case 0
  then show ?case by simp
next
  case (Suc n)
  have "map (\<lambda>i. x div b ^ (Suc n - 1 - i) mod b) [0..<n] = map (\<lambda>i. x div b div b ^ (n - 1 - i) mod b) [0..<n]"
  proof (rule map_cong [OF refl])
    fix i
    assume "i \<in> set [0..<n]"
    then have "Suc n - 1 - i = Suc (n - 1 - i)" by auto
    then show "x div b ^ (Suc n - 1 - i) mod b = x div b div b ^ (n - 1 - i) mod b"
      using assms by (simp add: zdiv_zmult2_eq)
  qed
  then have "map (\<lambda>i. x div b ^ (Suc n - 1 - i) mod b) [0..<Suc n]
      = map (\<lambda>i. x div b div b ^ (n - 1 - i) mod b) [0..<n] @ [x mod b]"
    by (simp only: upt_Suc_append [OF le0] map_append list.map) simp
  then have "horner b (map (\<lambda>i. x div b ^ (Suc n - 1 - i) mod b) [0..<Suc n])
      = (x div b mod b ^ n) * b + x mod b"
    using Suc [of "x div b"] by (simp only: horner_snoc)
  also have "\<dots> = x mod b ^ Suc n"
    using assms by (simp add: zmod_zmult2_eq mult.commute)
  finally show ?case .
qed

definition pack5 :: "bytes \<Rightarrow> 'w :: len word" where
  "pack5 cs = foldl (\<lambda>d v. push_bit 5 d XOR ucast v) 0 cs"

definition unpack5 :: "nat \<Rightarrow> 'w :: len word \<Rightarrow> bytes" where
  "unpack5 n w = map (\<lambda>i. ucast (drop_bit (5 * (n - 1 - i)) w AND 31)) [0..<n]"

lemma length_unpack5 [simp]: "length (unpack5 n w) = n"
  by (simp add: unpack5_def)

lemma uint_and_31: "uint ((w :: 'w :: len word) AND 31) = uint w mod 32" if "5 \<le> LENGTH('w)"
proof -
  have "(31 :: 'w word) = mask 5" by (simp add: mask_eq_exp_minus_1)
  then show ?thesis using uint_and_mask [of w 5] by simp
qed

lemma pack5_snoc: "pack5 (cs @ [v]) = push_bit 5 (pack5 cs) XOR ucast v"
  by (simp add: pack5_def)

lemma uint_pack5:
  assumes "\<forall>v\<in>set cs. uint v < 32" "5 * length cs \<le> LENGTH('w)"
  shows "uint (pack5 cs :: 'w :: len word) = horner 32 (digits_of cs)"
  using assms
proof (induction cs rule: rev_induct)
  case Nil
  then show ?case by (simp add: pack5_def)
next
  case (snoc v cs)
  let ?d = "pack5 cs :: 'w word"
  have IH: "uint ?d = horner 32 (digits_of cs)" using snoc by simp
  have v: "uint v < 32" using snoc.prems by simp
  have L: "5 \<le> LENGTH('w)" using snoc.prems(2) by simp
  have "push_bit 5 ?d AND ucast v = 0"
  proof (rule bit_eqI)
    fix k
    have t: "take_bit 5 (uint v) = uint v" by (rule take_bit_int_eq_self) (simp_all add: v)
    have "\<not> bit v k" if "5 \<le> k"
    proof
      assume "bit v k"
      then have "bit (take_bit 5 (uint v)) k" unfolding t by (simp only: bit_uint_iff) (auto dest: bit_imp_le_length)
      then show False using that by (simp add: bit_take_bit_iff)
    qed
    then show "bit (push_bit 5 ?d AND ucast v) k = bit (0 :: 'w word) k"
      by (auto simp: bit_simps)
  qed
  then have e: "pack5 (cs @ [v]) = push_bit 5 ?d + ucast v"
    by (simp add: pack5_snoc disjunctive_add_eq_xor)
  have "horner 32 (digits_of (cs @ [v])) < 32 ^ length (digits_of (cs @ [v]))"
    using snoc.prems(1) by (intro horner_less) auto
  also have "(32 :: int) ^ length (digits_of (cs @ [v])) = 2 ^ (5 * length (cs @ [v]))"
    by (simp add: power_mult power_add)
  also have "\<dots> \<le> 2 ^ LENGTH('w)" using snoc.prems(2) by (intro power_increasing) simp_all
  finally have lt: "horner 32 (digits_of cs) * 32 + uint v < 2 ^ LENGTH('w)" by simp
  have nn: "0 \<le> horner 32 (digits_of cs)" by (rule horner_nonneg) auto
  have "horner 32 (digits_of cs) * 32 < 2 ^ LENGTH('w)" using lt uint_bounds(1) [of v] by linarith
  then have p: "uint (push_bit 5 ?d) = horner 32 (digits_of cs) * 32"
    using nn by (simp only: unsigned_push_bit_eq take_bit_eq_mod IH) (simp add: push_bit_eq_mult)
  have "(32 :: int) \<le> 2 ^ LENGTH('w)" using power_increasing [OF L, of "2 :: int"] by simp
  then have "uint (ucast v :: 'w word) = uint v"
    using v by (simp add: uint_ucast_mod)
  then have "uint (pack5 (cs @ [v]) :: 'w word) = (horner 32 (digits_of cs) * 32 + uint v) mod 2 ^ LENGTH('w)"
    unfolding e by (simp add: uint_word_ariths p)
  then show ?case using lt nn by simp
qed

lemma unpack5_range: "\<forall>v\<in>set (unpack5 n w). uint v < 32" if "5 \<le> LENGTH('w)" for w :: "'w :: len word"
  using that by (auto simp: unpack5_def uint_ucast_mod uint_and_31) 

lemma digits_unpack5:
  fixes w :: "'w :: len word"
  assumes "5 \<le> LENGTH('w)"
  shows "digits_of (unpack5 n w) = map (\<lambda>i. uint w div 32 ^ (n - 1 - i) mod 32) [0..<n]"
proof -
  have "uint (ucast (drop_bit (5 * k) w AND 31) :: u8) = uint w div 32 ^ k mod 32" for k
    using assms by (simp add: uint_ucast_mod uint_and_31 uint_drop_bit_div power_mult mod_mod_cancel)
  then show ?thesis by (simp add: unpack5_def)
qed

lemma horner_unpack5:
  fixes w :: "'w :: len word"
  assumes "5 \<le> LENGTH('w)"
  shows "horner 32 (digits_of (unpack5 n w)) = uint w mod 2 ^ (5 * n)"
  using horner_digits [of 32 "uint w" n] by (simp add: digits_unpack5 [OF assms] power_mult)

locale bch_code =
  fixes step :: "'w :: len word \<Rightarrow> u8 \<Rightarrow> 'w word" and n :: nat
  assumes fits: "0 < n" "5 * n \<le> LENGTH('w)"
    and step_low: "uint d < 2 ^ (5 * (n - 1)) \<Longrightarrow>
      step (s XOR d) v = step s 0 XOR (push_bit 5 d XOR ucast v)"
    and step_bound: "uint (step s v) < 2 ^ (5 * n)"
begin

lemma fold_symbols:
  assumes "\<forall>v\<in>set cs. uint v < 32" "length cs \<le> n"
  shows "foldl step s cs = foldl step s (replicate (length cs) 0) XOR pack5 cs"
  using assms
proof (induction cs rule: rev_induct)
  case Nil
  then show ?case by (simp add: pack5_def)
next
  case (snoc v cs)
  have "uint (pack5 cs :: 'w word) = horner 32 (digits_of cs)"
    using snoc.prems fits by (intro uint_pack5) auto
  also have "\<dots> < 32 ^ length (digits_of cs)" using snoc.prems(1) by (intro horner_less) auto
  also have "\<dots> = 2 ^ (5 * length cs)" by (simp add: power_mult)
  also have "\<dots> \<le> (2 :: int) ^ (5 * (n - 1))" using snoc.prems(2) by (intro power_increasing) simp_all
  finally have lt: "uint (pack5 cs :: 'w word) < 2 ^ (5 * (n - 1))" .
  have "foldl step s (cs @ [v]) = step (foldl step s (replicate (length cs) 0) XOR pack5 cs) v"
    using snoc by simp
  also have "\<dots> = step (foldl step s (replicate (length cs) 0)) 0 XOR pack5 (cs @ [v])"
    unfolding step_low [OF lt] pack5_snoc ..
  also have "step (foldl step s (replicate (length cs) 0)) 0 = foldl step s (replicate (length (cs @ [v])) 0)"
  proof -
    have "replicate (length (cs @ [v])) (0 :: u8) = replicate (length cs) 0 @ [0]"
      by (simp add: replicate_append_same)
    then show ?thesis by simp
  qed
  finally show ?case .
qed

lemma five_le: "5 \<le> LENGTH('w)"
  using fits by (cases n) auto

lemma fold_bound: "xs \<noteq> [] \<Longrightarrow> uint (foldl step s xs) < 2 ^ (5 * n)"
  by (cases xs rule: rev_cases) (simp_all add: step_bound)

definition checksum :: "'w word \<Rightarrow> 'w word \<Rightarrow> bytes" where
  "checksum c s = unpack5 n (foldl step s (replicate n 0) XOR c)"

lemma xor_bound:
  assumes "uint x < 2 ^ k" "uint y < 2 ^ k"
  shows "uint ((x :: 'w word) XOR y) < 2 ^ k"
proof -
  have "take_bit k x = x" "take_bit k y = y"
    using assms by (simp_all add: word_uint_eq_iff unsigned_take_bit_eq take_bit_int_eq_self)
  then have "take_bit k (x XOR y) = x XOR y" by simp
  then have "uint (x XOR y) = take_bit k (uint (x XOR y))" by (metis unsigned_take_bit_eq)
  also have "\<dots> < 2 ^ k" by simp
  finally show ?thesis .
qed

lemma verify_iff:
  assumes "length cs = n" "\<forall>v\<in>set cs. uint v < 32" "uint c < 2 ^ (5 * n)"
  shows "foldl step s cs = c \<longleftrightarrow> cs = checksum c s"
proof -
  let ?P = "foldl step s (replicate n 0)"
  have f: "foldl step s cs = ?P XOR pack5 cs"
    using fold_symbols [of cs s] assms by simp
  have b: "uint (?P XOR c) < 2 ^ (5 * n)"
    using fold_bound [of "replicate n 0" s] fits(1) assms(3) by (intro xor_bound) auto
  have pk: "uint (pack5 cs :: 'w word) = horner 32 (digits_of cs)"
    using assms fits by (intro uint_pack5) auto
  have "foldl step s cs = c \<longleftrightarrow> pack5 cs = ?P XOR c"
    unfolding f by (metis xor.assoc xor.left_neutral xor_self_eq)
  also have "\<dots> \<longleftrightarrow> horner 32 (digits_of cs) = uint (?P XOR c)"
    unfolding word_uint_eq_iff pk ..
  also have "uint (?P XOR c) = horner 32 (digits_of (checksum c s))"
    using b by (simp add: checksum_def horner_unpack5 [OF five_le])
  also have "horner 32 (digits_of cs) = horner 32 (digits_of (checksum c s))
      \<longleftrightarrow> digits_of cs = digits_of (checksum c s)"
  proof
    assume "horner 32 (digits_of cs) = horner 32 (digits_of (checksum c s))"
    then show "digits_of cs = digits_of (checksum c s)"
      using assms(1,2) unpack5_range [OF five_le]
      by (intro horner_inj_length [of 32]) (auto simp: checksum_def)
  qed simp
  also have "\<dots> \<longleftrightarrow> cs = checksum c s"
    by (auto dest: map_injective simp: inj_on_def word_uint_eq_iff)
  finally show ?thesis .
qed

lemma checksum_valid:
  assumes "uint c < 2 ^ (5 * n)"
  shows "foldl step s (checksum c s) = c" "length (checksum c s) = n"
    "\<forall>v\<in>set (checksum c s). uint v < 32"
  using verify_iff [of "checksum c s" c s] assms unpack5_range [OF five_le]
  by (simp_all add: checksum_def)

end

end
