(* ===== verification/Bech32.thy ===== *)
theory Bech32
  imports Bit_Groups Bch_Code
begin

text \<open>
  Bech32 and Bech32m of \<open>address.cpp\<close>: the charset, the three copies of the checksum polynomial,
  \<open>bech32_encode\<close>, \<open>bech32_decode\<close> and \<open>bech32m_paycode_decode\<close>. Encoding and decoding are shown
  to be inverse on well-formed witness programs; the decoder's two departures from BIP-173 (mixed
  case, and an embedded NUL read as a 33rd symbol) are stated as theorems.
\<close>

section \<open>Charset\<close>

definition BECH32_CHARSET :: string where
  "BECH32_CHARSET = ''qpzry9x8gf2tvdw0s3jn54khce6mua7l''"

text \<open>\<open>std::strchr\<close>: the first index, where the terminating NUL counts as part of the string.\<close>

fun strchr :: "string \<Rightarrow> char \<Rightarrow> nat option" where
  "strchr [] c = (if c = CHR 0x00 then Some 0 else None)"
| "strchr (x # xs) c = (if x = c then Some 0 else map_option Suc (strchr xs c))"

definition bech32_charset_value :: "char \<Rightarrow> int" where
  "bech32_charset_value c = (case strchr BECH32_CHARSET c of None \<Rightarrow> - 1 | Some p \<Rightarrow> int p)"

text \<open>Indexing the literal, whose byte 32 is the NUL.\<close>

definition bech32_char :: "u8 \<Rightarrow> char" where
  "bech32_char v = (BECH32_CHARSET @ [CHR 0x00]) ! nat (uint v)"

section \<open>Checksum polynomial\<close>

definition BECH32_GEN :: "u32 list" where
  "BECH32_GEN = [0x3b6a57b2, 0x26508e6d, 0x1ea119fa, 0x3d4233dd, 0x2a1462b3]"

definition bech32_polymod_step :: "u32 \<Rightarrow> u8 \<Rightarrow> u32" where
  "bech32_polymod_step chk v =
     (let top_bits = drop_bit 25 chk;
          chk = push_bit 5 (chk AND 0x1ffffff) XOR ucast v
      in foldl (\<lambda>chk i. if drop_bit i top_bits AND 1 \<noteq> 0 then chk XOR BECH32_GEN ! i else chk)
           chk [0..<5])"

text \<open>\<open>bech32_polymod\<close> is the same step inlined in a loop.\<close>

definition bech32_polymod :: "bytes \<Rightarrow> u32" where
  "bech32_polymod values =
     foldl (\<lambda>chk v.
       let top_bits = drop_bit 25 chk;
           chk = push_bit 5 (chk AND 0x1ffffff) XOR ucast v
       in foldl (\<lambda>chk i. if drop_bit i top_bits AND 1 \<noteq> 0 then chk XOR BECH32_GEN ! i else chk)
            chk [0..<5]) 1 values"

text \<open>A \<open>char\<close> as the unsigned byte it holds.\<close>

definition uchar :: "char \<Rightarrow> u8" where
  "uchar c = of_nat (of_char c)"

definition bech32_checksum_polymod :: "string \<Rightarrow> bytes \<Rightarrow> u32 \<Rightarrow> u32" where
  "bech32_checksum_polymod hrp data encoding_const =
     (let chk = 1;
          chk = foldl (\<lambda>chk c. bech32_polymod_step chk (drop_bit 5 (uchar c))) chk hrp;
          chk = bech32_polymod_step chk 0;
          chk = foldl (\<lambda>chk c. bech32_polymod_step chk (uchar c AND 31)) chk hrp;
          chk = foldl bech32_polymod_step chk data;
          chk = foldl (\<lambda>chk i. bech32_polymod_step chk 0) chk [0..<6]
      in chk XOR encoding_const)"

text \<open>Here \<open>c\<close> is shifted as a signed \<open>char\<close>.\<close>

definition bech32_hrp_expand :: "string \<Rightarrow> bytes" where
  "bech32_hrp_expand hrp =
     map (\<lambda>c. word_of_int (drop_bit 5 (schar c))) hrp @ [0]
     @ map (\<lambda>c. word_of_int (schar c AND 31)) hrp"

section \<open>Encoding\<close>

definition bech32_encode :: "string \<Rightarrow> u8 \<Rightarrow> bytes \<Rightarrow> string" where
  "bech32_encode hrp witness_version witness_program =
     (let encoding_const = (if witness_version = 0 then 1 else 0x2bc830a3);
          prog_len = length witness_program;
          data5_capacity = 1 + ((prog_len * 8 + 4) div 5)
      in case convert_bits_fixed (data5_capacity - 1) witness_program 8 5 True of
           None \<Rightarrow> []
         | Some conv \<Rightarrow>
             let data5 = witness_version # conv;
                 polymod = bech32_checksum_polymod hrp data5 encoding_const
             in hrp @ [CHR ''1''] @ map bech32_char data5
                @ map (\<lambda>i. bech32_char (ucast (drop_bit (5 * (5 - i)) polymod AND 31))) [0..<6])"

section \<open>Decoding\<close>

record Bech32DecodeResult =
  br_hrp :: string
  br_witness_version :: int
  br_witness_program :: bytes
  br_valid :: bool

definition bech32_invalid :: Bech32DecodeResult where
  "bech32_invalid = \<lparr>br_hrp = [], br_witness_version = - 1, br_witness_program = [], br_valid = False\<rparr>"

fun rfind :: "string \<Rightarrow> char \<Rightarrow> nat option" where
  "rfind [] c = None"
| "rfind (x # xs) c =
     (case rfind xs c of Some i \<Rightarrow> Some (Suc i) | None \<Rightarrow> if x = c then Some 0 else None)"

text \<open>\<open>c >= 'A' && c <= 'Z' ? c + 32 : c\<close>.\<close>

definition to_lower :: "char \<Rightarrow> char" where
  "to_lower c = (if schar CHR ''A'' \<le> schar c \<and> schar c \<le> schar CHR ''Z'' then char_of (of_char c + 32 :: nat) else c)"

fun bech32_read_hrp :: "string \<Rightarrow> string option" where
  "bech32_read_hrp [] = Some []"
| "bech32_read_hrp (c # cs) =
     (if schar c < 33 \<or> schar c > 126 then None
      else map_option (\<lambda>h. to_lower c # h) (bech32_read_hrp cs))"

fun bech32_read_data :: "string \<Rightarrow> bytes option" where
  "bech32_read_data [] = Some []"
| "bech32_read_data (c # cs) =
     (let val = bech32_charset_value (to_lower c) in
      if val < 0 then None
      else map_option (\<lambda>d. word_of_int val # d) (bech32_read_data cs))"

datatype Bech32Encoding = BECH32 | BECH32M

definition bech32_decode :: "string \<Rightarrow> Bech32DecodeResult" where
  "bech32_decode addr =
     (case rfind addr CHR ''1'' of
        None \<Rightarrow> bech32_invalid
      | Some sep \<Rightarrow>
          if sep < 1 \<or> sep + 8 > length addr then bech32_invalid
          else case bech32_read_hrp (take sep addr) of
            None \<Rightarrow> bech32_invalid
          | Some hrp_str \<Rightarrow>
            (case bech32_read_data (drop (sep + 1) addr) of
              None \<Rightarrow> bech32_invalid
            | Some data5 \<Rightarrow>
                if length data5 < 7 then bech32_invalid
                else
                  let polymod = bech32_polymod (bech32_hrp_expand hrp_str @ data5) in
                  case (if polymod = 1 then Some BECH32
                        else if polymod = 0x2bc830a3 then Some BECH32M else None) of
                    None \<Rightarrow> bech32_invalid
                  | Some enc \<Rightarrow>
                      let wit_ver = data5 ! 0 in
                      if wit_ver > 16 then bech32_invalid
                      else if wit_ver = 0 \<and> enc \<noteq> BECH32 then bech32_invalid
                      else if wit_ver \<noteq> 0 \<and> enc \<noteq> BECH32M then bech32_invalid
                      else
                        let (ok, prog) = convert_bits (take (length data5 - 7) (drop 1 data5)) 5 8 False in
                        if \<not> ok then bech32_invalid
                        else if length prog < 2 \<or> length prog > 40 then bech32_invalid
                        else if wit_ver = 0 \<and> length prog \<noteq> 20 \<and> length prog \<noteq> 32 then bech32_invalid
                        else \<lparr>br_hrp = hrp_str, br_witness_version = uint wit_ver,
                               br_witness_program = prog, br_valid = True\<rparr>))"

definition bech32m_paycode_decode :: "string \<Rightarrow> Bech32DecodeResult" where
  "bech32m_paycode_decode encoded =
     (case rfind encoded CHR ''1'' of
        None \<Rightarrow> bech32_invalid
      | Some sep \<Rightarrow>
          if sep < 1 \<or> sep + 8 > length encoded then bech32_invalid
          else case bech32_read_hrp (take sep encoded) of
            None \<Rightarrow> bech32_invalid
          | Some hrp_str \<Rightarrow>
            (case bech32_read_data (drop (sep + 1) encoded) of
              None \<Rightarrow> bech32_invalid
            | Some data5 \<Rightarrow>
                if length data5 < 7 then bech32_invalid
                else
                  let polymod = bech32_polymod (bech32_hrp_expand hrp_str @ data5) in
                  if polymod \<noteq> 0x2bc830a3 then bech32_invalid
                  else
                    let wit_ver = data5 ! 0 in
                    if wit_ver = 0 \<or> wit_ver > 16 then bech32_invalid
                    else
                      let (ok, prog) = convert_bits (take (length data5 - 7) (drop 1 data5)) 5 8 False in
                      if \<not> ok then bech32_invalid
                      else if prog = [] then bech32_invalid
                      else \<lparr>br_hrp = hrp_str, br_witness_version = uint wit_ver,
                             br_witness_program = prog, br_valid = True\<rparr>))"

section \<open>The checksum as a BCH code\<close>

definition bech32_gen :: "u32 \<Rightarrow> u32" where
  "bech32_gen top_bits = foldl (\<lambda>chk i. if drop_bit i top_bits AND 1 \<noteq> 0 then chk XOR BECH32_GEN ! i else chk)
     0 [0..<5]"

lemma cond_xor_fold:
  "foldl (\<lambda>chk i. if P i then chk XOR f i else chk) (x :: 'w :: len word) xs
    = x XOR foldl (\<lambda>chk i. if P i then chk XOR f i else chk) 0 xs"
  by (induction xs rule: rev_induct) (auto simp: ac_simps)

lemma bech32_step_eq:
  "bech32_polymod_step chk v
    = (push_bit 5 (chk AND 0x1ffffff) XOR ucast v) XOR bech32_gen (drop_bit 25 chk)"
  unfolding bech32_polymod_step_def Let_def bech32_gen_def by (rule cond_xor_fold)

lemma word_less_take_bit: "uint (w :: 'w :: len word) < 2 ^ k \<Longrightarrow> take_bit k w = w"
  by (simp add: word_uint_eq_iff unsigned_take_bit_eq take_bit_int_eq_self)

lemma take_bit_word_less: "take_bit k w = w \<Longrightarrow> uint (w :: 'w :: len word) < 2 ^ k"
  by (metis take_bit_int_less_exp unsigned_take_bit_eq)

lemma bech32_step_low:
  assumes "uint d < 2 ^ 25"
  shows "bech32_polymod_step (s XOR d) v = bech32_polymod_step s 0 XOR (push_bit 5 d XOR ucast v)"
proof -
  have m: "(0x1ffffff :: u32) = mask 25" by (simp add: mask_eq_exp_minus_1)
  have d: "take_bit 25 d = d" using assms by (rule word_less_take_bit)
  have "drop_bit 25 (take_bit 25 d) = 0"
    by (simp add: drop_bit_take_bit)
  then have "drop_bit 25 d = 0" by (simp only: d)
  then have "drop_bit 25 (s XOR d) = drop_bit 25 s" by (simp add: drop_bit_xor)
  moreover have "push_bit 5 ((s XOR d) AND 0x1ffffff) = push_bit 5 (s AND 0x1ffffff) XOR push_bit 5 d"
    unfolding m take_bit_eq_mask [symmetric] by (simp add: take_bit_xor push_bit_xor d)
  ultimately show ?thesis
    by (simp add: bech32_step_eq ac_simps)
qed

lemma bech32_gen_bound: "uint (bech32_gen t) < 2 ^ 30"
  by (rule take_bit_word_less) (simp add: bech32_gen_def BECH32_GEN_def upt_rec take_bit_xor)

lemma bech32_step_bound: "uint (bech32_polymod_step s v) < 2 ^ 30"
proof (rule take_bit_word_less)
  have m: "(0x1ffffff :: u32) = mask 25" by (simp add: mask_eq_exp_minus_1)
  have "take_bit 30 (push_bit 5 (s AND 0x1ffffff)) = push_bit 5 (s AND 0x1ffffff)"
    unfolding m take_bit_eq_mask [symmetric] by (intro bit_eqI) (auto simp: bit_simps)
  moreover have "take_bit 30 (ucast v :: u32) = ucast v"
    by (intro bit_eqI) (auto simp: bit_simps dest: bit_imp_le_length)
  moreover have "take_bit 30 (bech32_gen (drop_bit 25 s)) = bech32_gen (drop_bit 25 s)"
    using bech32_gen_bound by (rule word_less_take_bit)
  ultimately show "take_bit 30 (bech32_polymod_step s v) = bech32_polymod_step s v"
    by (simp add: bech32_step_eq take_bit_xor)
qed

interpretation b32: bch_code bech32_polymod_step 6
  by unfold_locales (simp_all add: bech32_step_low bech32_step_bound [simplified])

lemma bech32_polymod_foldl: "bech32_polymod xs = foldl bech32_polymod_step 1 xs"
  unfolding bech32_polymod_def bech32_polymod_step_def [abs_def] by (rule refl)

section \<open>Characters\<close>

lemma schar_letters: "schar CHR ''A'' = 65" "schar CHR ''Z'' = 90" "schar CHR ''1'' = 49"
  "schar CHR 0x00 = 0"
  by (simp_all add: schar_def)

lemma schar_to_lower:
  "schar (to_lower c) = (if 65 \<le> schar c \<and> schar c \<le> 90 then schar c + 32 else schar c)"
proof (cases "65 \<le> schar c \<and> schar c \<le> 90")
  case True
  have e: "(of_char c :: int) = int (of_char c)" by (simp only: of_nat_of_char)
  have "0 \<le> (of_char c :: int)" "of_char c < (256 :: int)" by (simp_all add: of_char_def)
  then have "schar c = of_char c"
    using True by (simp add: schar_def Let_def split: if_splits)
  then have s: "schar c = int (of_char c)" "(of_char c :: nat) \<le> 90" "65 \<le> (of_char c :: nat)"
    using True unfolding e by simp_all
  have "(of_char (char_of (of_char c + 32 :: nat)) :: nat) = of_char c + 32"
    using s by simp
  then have "(of_char (to_lower c) :: nat) = of_char c + 32"
    using True by (simp add: to_lower_def schar_letters)
  then have "(of_char (to_lower c) :: int) = int (of_char c + 32)"
    by (metis of_nat_of_char)
  then have "schar (to_lower c) = int (of_char c) + 32"
    using s by (simp add: schar_def)
  then show ?thesis using True s by simp
next
  case False
  then show ?thesis unfolding to_lower_def schar_letters by (simp only: if_False)
qed

lemma to_lower_idem [simp]: "to_lower (to_lower c) = to_lower c"
  by (rule schar_inj) (simp add: schar_to_lower)

lemma to_lower_eq_1 [simp]: "to_lower c = CHR ''1'' \<longleftrightarrow> c = CHR ''1''"
proof
  assume "to_lower c = CHR ''1''"
  then have "schar (to_lower c) = 49" by (simp add: schar_letters)
  then have "schar c = schar CHR ''1''" by (simp add: schar_to_lower schar_letters split: if_splits)
  then show "c = CHR ''1''" by (rule schar_inj)
qed (rule schar_inj, simp add: schar_to_lower schar_letters)

lemma to_lower_eq_NUL [simp]: "to_lower c = CHR 0x00 \<longleftrightarrow> c = CHR 0x00"
proof
  assume "to_lower c = CHR 0x00"
  then have "schar (to_lower c) = 0" by (simp add: schar_letters)
  then have "schar c = schar CHR 0x00" by (simp add: schar_to_lower schar_letters split: if_splits)
  then show "c = CHR 0x00" by (rule schar_inj)
qed (rule schar_inj, simp add: schar_to_lower schar_letters)

lemma to_lower_printable: "33 \<le> schar (to_lower c) \<and> schar (to_lower c) \<le> 126 \<longleftrightarrow> 33 \<le> schar c \<and> schar c \<le> 126"
  by (auto simp: schar_to_lower)

lemma strchr_Some: "strchr s c = Some i \<Longrightarrow> i \<le> length s \<and> (s @ [CHR 0x00]) ! i = c"
  by (induction s c arbitrary: i rule: strchr.induct) (auto split: if_splits)

lemma bech32_char_all:
  "list_all (\<lambda>n. let v = of_nat n; c = bech32_char v in
     bech32_charset_value c = int n \<and> to_lower c = c \<and> c \<noteq> CHR ''1'' \<and> c \<noteq> CHR 0x00) [0..<32]"
  by code_simp

lemma bech32_char_props:
  assumes "uint v < 32"
  shows "bech32_charset_value (bech32_char v) = uint v" "to_lower (bech32_char v) = bech32_char v"
    "bech32_char v \<noteq> CHR ''1''" "bech32_char v \<noteq> CHR 0x00"
proof -
  have "nat (uint v) < 32" using assms by linarith
  then have n: "nat (uint v) \<in> set [0..<32]" by (simp only: set_upt atLeastLessThan_iff le0 simp_thms)
  have v: "of_nat (nat (uint v)) = v" by simp
  show "bech32_charset_value (bech32_char v) = uint v" "to_lower (bech32_char v) = bech32_char v"
    "bech32_char v \<noteq> CHR ''1''" "bech32_char v \<noteq> CHR 0x00"
    using bech32_char_all [unfolded list_all_iff Let_def, rule_format, OF n] unfolding v by simp_all
qed

lemma bech32_charset_value_range:
  assumes "0 \<le> bech32_charset_value c" "c \<noteq> CHR 0x00"
  shows "bech32_charset_value c < 32" "bech32_char (word_of_int (bech32_charset_value c)) = c"
proof -
  obtain i where i: "strchr BECH32_CHARSET c = Some i" "bech32_charset_value c = int i"
    using assms(1) by (auto simp: bech32_charset_value_def split: option.splits)
  have l: "length BECH32_CHARSET = 32" by (simp add: BECH32_CHARSET_def)
  note p = strchr_Some [OF i(1)]
  have "i \<noteq> 32" using p assms(2) l by (metis nth_append_length)
  then have "i < 32" using p l by simp
  then show "bech32_charset_value c < 32" using i by simp
  have "uint (word_of_int (int i) :: u8) = int i"
    unfolding uint_word_of_int using \<open>i < 32\<close> by simp
  then show "bech32_char (word_of_int (bech32_charset_value c)) = c"
    using p i by (simp add: bech32_char_def)
qed

section \<open>Parsing\<close>

lemma rfind_None: "rfind s c = None \<longleftrightarrow> c \<notin> set s"
  by (induction s c rule: rfind.induct) (auto split: option.splits)

lemma rfind_Some:
  "rfind s c = Some i \<Longrightarrow> i < length s \<and> s ! i = c \<and> c \<notin> set (drop (Suc i) s)"
  by (induction s c arbitrary: i rule: rfind.induct) (auto simp: rfind_None split: option.splits if_splits)

lemma rfind_append: "c \<notin> set t \<Longrightarrow> rfind (h @ c # t) c = Some (length h)"
proof (induction h)
  case Nil
  then have "rfind t c = None" by (simp add: rfind_None)
  then show ?case by simp
qed simp

lemma bech32_read_hrp_iff:
  "bech32_read_hrp h = Some h' \<longleftrightarrow> (\<forall>c\<in>set h. 33 \<le> schar c \<and> schar c \<le> 126) \<and> h' = map to_lower h"
  by (induction h arbitrary: h') (auto simp: not_less)

lemma bech32_read_data_iff:
  "bech32_read_data s = Some d \<longleftrightarrow> (\<forall>c\<in>set s. 0 \<le> bech32_charset_value (to_lower c))
     \<and> d = map (\<lambda>c. word_of_int (bech32_charset_value (to_lower c))) s"
  by (induction s arbitrary: d) (auto simp: Let_def not_less)

definition valid_hrp :: "string \<Rightarrow> bool" where
  "valid_hrp h \<longleftrightarrow> h \<noteq> [] \<and> (\<forall>c\<in>set h. 33 \<le> schar c \<and> schar c \<le> 126 \<and> to_lower c = c)"

text \<open>The part the two decoders share: separator, human-readable part, symbols.\<close>

definition bech32_parse :: "string \<Rightarrow> (string \<times> bytes) option" where
  "bech32_parse s =
     (case rfind s CHR ''1'' of None \<Rightarrow> None
      | Some sep \<Rightarrow>
          if sep < 1 \<or> sep + 8 > length s then None
          else case bech32_read_hrp (take sep s) of None \<Rightarrow> None
          | Some h \<Rightarrow> (case bech32_read_data (drop (sep + 1) s) of None \<Rightarrow> None
             | Some d \<Rightarrow> if length d < 7 then None else Some (h, d)))"

lemma bech32_parse_map_lower: "bech32_parse (map to_lower s) = bech32_parse s"
proof -
  have r: "rfind (map to_lower s) CHR ''1'' = rfind s CHR ''1''"
    by (induction s) (auto split: option.splits)
  have h: "bech32_read_hrp (map to_lower xs) = bech32_read_hrp xs" for xs
  proof (induction xs)
    case (Cons c cs)
    then show ?case using to_lower_printable [of c] by auto
  qed simp
  have d: "bech32_read_data (map to_lower xs) = bech32_read_data xs" for xs
    by (induction xs) (simp_all add: Let_def)
  show ?thesis
    unfolding bech32_parse_def r
    by (auto simp: take_map drop_map h d split: option.split)
qed

lemma bech32_parse_render:
  assumes "valid_hrp h" "\<forall>v\<in>set d. uint v < 32" "7 \<le> length d"
  shows "bech32_parse (h @ CHR ''1'' # map bech32_char d) = Some (h, d)"
proof -
  let ?s = "h @ CHR ''1'' # map bech32_char d"
  have "CHR ''1'' \<notin> set (map bech32_char d)" using assms(2) bech32_char_props(3) by fastforce
  then have r: "rfind ?s CHR ''1'' = Some (length h)" by (rule rfind_append)
  have h: "bech32_read_hrp h = Some h"
    using assms(1) by (simp add: bech32_read_hrp_iff valid_hrp_def map_idI)
  have "map (\<lambda>c. word_of_int (bech32_charset_value (to_lower c))) (map bech32_char d) = d"
    using assms(2) by (auto simp: bech32_char_props intro: map_idI)
  then have d: "bech32_read_data (map bech32_char d) = Some d"
    using assms(2) by (simp add: bech32_read_data_iff bech32_char_props)
  show ?thesis
    using assms r h d by (simp add: bech32_parse_def valid_hrp_def Suc_le_eq)
qed

lemma bech32_parse_iff:
  assumes "CHR 0x00 \<notin> set s"
  shows "bech32_parse s = Some (h, d) \<longleftrightarrow>
    valid_hrp h \<and> (\<forall>v\<in>set d. uint v < 32) \<and> 7 \<le> length d
    \<and> map to_lower s = h @ CHR ''1'' # map bech32_char d" (is "?l \<longleftrightarrow> ?r")
proof
  assume ?r
  then show ?l using bech32_parse_render bech32_parse_map_lower by metis
next
  assume l: ?l
  obtain sep where sep: "rfind s CHR ''1'' = Some sep" "1 \<le> sep" "sep + 8 \<le> length s"
    and h: "bech32_read_hrp (take sep s) = Some h"
    and d: "bech32_read_data (drop (sep + 1) s) = Some d" "7 \<le> length d"
    using l by (auto simp: bech32_parse_def not_less split: option.splits if_splits)
  note r = rfind_Some [OF sep(1)]
  have s: "s = take sep s @ CHR ''1'' # drop (sep + 1) s"
    using r by (metis Suc_eq_plus1 id_take_nth_drop)
  have hr: "(\<forall>c\<in>set (take sep s). 33 \<le> schar c \<and> schar c \<le> 126)" "h = map to_lower (take sep s)"
    using h by (simp_all add: bech32_read_hrp_iff)
  have vh: "valid_hrp h"
    using hr sep r to_lower_printable by (auto simp: valid_hrp_def)
  let ?v = "\<lambda>c. bech32_charset_value (to_lower c)"
  have dr: "\<forall>c\<in>set (drop (sep + 1) s). 0 \<le> ?v c" "d = map (\<lambda>c. word_of_int (?v c)) (drop (sep + 1) s)"
    using d(1) by (simp_all add: bech32_read_data_iff)
  have nz: "\<forall>c\<in>set (drop (sep + 1) s). to_lower c \<noteq> CHR 0x00"
    using assms by (auto dest: in_set_dropD)
  have v: "?v c < 32 \<and> bech32_char (word_of_int (?v c)) = to_lower c" if "c \<in> set (drop (sep + 1) s)" for c
    using bech32_charset_value_range [of "to_lower c"] that dr nz by auto
  have "\<forall>x\<in>set d. uint x < 32"
  proof
    fix x
    assume "x \<in> set d"
    then obtain c where c: "c \<in> set (drop (sep + 1) s)" "x = word_of_int (?v c)" using dr(2) by auto
    then have "0 \<le> ?v c" "?v c < 32" using v dr(1) by blast+
    then show "uint x < 32" by (simp add: c(2) uint_word_of_int)
  qed
  moreover have "map bech32_char d = map to_lower (drop (sep + 1) s)"
    using v by (simp add: dr(2))
  then have "map to_lower s = h @ CHR ''1'' # map bech32_char d"
    by (subst s) (simp add: hr(2))
  ultimately show ?r using vh d(2) by simp
qed

section \<open>Encoder and decoder in terms of symbols\<close>

lemma uchar_shift: "0 \<le> schar c \<Longrightarrow> word_of_int (drop_bit 5 (schar c)) = drop_bit 5 (uchar c)"
  and uchar_low: "0 \<le> schar c \<Longrightarrow> word_of_int (schar c AND 31) = uchar c AND 31"
proof -
  assume "0 \<le> schar c"
  have "0 \<le> (of_char c :: int)" "of_char c < (256 :: int)" by (simp_all add: of_char_def)
  then have s: "schar c = of_char c"
    using \<open>0 \<le> schar c\<close> by (simp add: schar_def Let_def split: if_splits)
  have u: "uchar c = word_of_int (of_char c)"
    unfolding uchar_def of_nat_of_char [symmetric, where 'a = int] by simp
  have t: "take_bit 8 (of_char c :: int) = of_char c"
    using \<open>0 \<le> (of_char c :: int)\<close> \<open>of_char c < (256 :: int)\<close> by (simp add: take_bit_int_eq_self)
  have b: "k < 8" if "bit (of_char c :: int) k" for k
  proof -
    have "bit (take_bit 8 (of_char c :: int)) k" using that unfolding t .
    then show ?thesis by (simp add: bit_take_bit_iff)
  qed
  show "word_of_int (drop_bit 5 (schar c)) = drop_bit 5 (uchar c)"
    unfolding s u by (rule bit_eqI) (auto simp: bit_simps dest: b)
  show "word_of_int (schar c AND 31) = uchar c AND 31"
    unfolding s u by (rule bit_eqI) (auto simp: bit_simps)
qed

lemma length_checksum32 [simp]: "length (b32.checksum c s) = 6"
  by (simp add: b32.checksum_def)

definition enc_const :: "u8 \<Rightarrow> u32" where
  "enc_const v = (if v = 0 then 1 else 0x2bc830a3)"

lemma enc_const_bound: "uint (enc_const v) < 2 ^ (5 * 6)"
  by (simp add: enc_const_def)

definition expanded :: "string \<Rightarrow> u32" where
  "expanded h = foldl bech32_polymod_step 1 (bech32_hrp_expand h)"

lemma checksum_polymod_eq:
  assumes "\<forall>c\<in>set h. 0 \<le> schar c"
  shows "bech32_checksum_polymod h d c
    = foldl bech32_polymod_step (foldl bech32_polymod_step (expanded h) d) (replicate 6 0) XOR c"
proof -
  have e: "bech32_hrp_expand h = map (\<lambda>c. drop_bit 5 (uchar c)) h @ [0] @ map (\<lambda>c. uchar c AND 31) h"
    using assms by (simp add: bech32_hrp_expand_def uchar_shift uchar_low)
  have z: "foldl (\<lambda>chk i. bech32_polymod_step chk 0) x [0..<6] = foldl bech32_polymod_step x (replicate 6 0)" for x
    by (simp add: upt_rec numeral_eq_Suc)
  show ?thesis
    unfolding bech32_checksum_polymod_def Let_def z expanded_def e by (simp add: foldl_map)
qed

lemma bech32_encode_eq:
  assumes "\<forall>c\<in>set h. 0 \<le> schar c" "convert_bits p 8 5 True = (True, g)"
  shows "bech32_encode h v p = h @ CHR ''1'' # map bech32_char
    ((v # g) @ b32.checksum (enc_const v) (foldl bech32_polymod_step (expanded h) (v # g)))"
proof -
  have c: "convert_bits_fixed (1 + ((length p * 8 + 4) div 5) - 1) p 8 5 True = Some g"
    using convert_bits_fixed_8_5 [of p "(8 * length p + 4) div 5"] assms(2) by (simp add: mult.commute)
  have u: "map (\<lambda>i. bech32_char (ucast (drop_bit (5 * (5 - i)) P AND 31))) [0..<6]
      = map bech32_char (unpack5 6 P)" for P :: u32
    by (simp add: unpack5_def)
  show ?thesis
    unfolding bech32_encode_def Let_def c option.case u checksum_polymod_eq [OF assms(1)]
      enc_const_def [symmetric] b32.checksum_def by simp
qed

lemma bech32_polymod_data:
  assumes "6 \<le> length d"
  shows "bech32_polymod (bech32_hrp_expand h @ d)
    = foldl bech32_polymod_step (foldl bech32_polymod_step (expanded h) (take (length d - 6) d))
        (drop (length d - 6) d)"
  by (simp add: bech32_polymod_foldl expanded_def foldl_append [symmetric] del: foldl_append)

lemma bech32_verify:
  assumes "6 \<le> length d" "\<forall>v\<in>set d. uint v < 32" "uint c < 2 ^ (5 * 6)"
  shows "bech32_polymod (bech32_hrp_expand h @ d) = c \<longleftrightarrow>
    drop (length d - 6) d = b32.checksum c (foldl bech32_polymod_step (expanded h) (take (length d - 6) d))"
  unfolding bech32_polymod_data [OF assms(1)]
  using assms by (intro b32.verify_iff) (auto dest: in_set_dropD)

text \<open>What both decoders check of the symbols, as one predicate.\<close>

definition codeword :: "u32 \<Rightarrow> string \<Rightarrow> bytes \<Rightarrow> u8 \<Rightarrow> bytes \<Rightarrow> bool" where
  "codeword c h d v p \<longleftrightarrow> bech32_polymod (bech32_hrp_expand h @ d) = c \<and> d ! 0 = v
     \<and> convert_bits (take (length d - 7) (drop 1 d)) 5 8 False = (True, p)"

lemma codeword_iff:
  assumes "7 \<le> length d" "\<forall>x\<in>set d. uint x < 32" "uint c < 2 ^ (5 * 6)" "convert_bits p 8 5 True = (True, g)"
  shows "codeword c h d v p \<longleftrightarrow>
    d = (v # g) @ b32.checksum c (foldl bech32_polymod_step (expanded h) (v # g))"
proof
  assume cw: "codeword c h d v p"
  have "take (length d - 7) (drop 1 d) = g"
    using cw assms(4) convert_bits_inverse [of "take (length d - 7) (drop 1 d)" p] by (simp add: codeword_def)
  moreover obtain x xs where d: "d = x # xs" using assms(1) by (cases d) auto
  moreover have "x = v" using cw d by (simp add: codeword_def)
  moreover have "length d - 6 = Suc (length d - 7)" using assms(1) by simp
  ultimately have t: "take (length d - 6) d = v # g" by simp
  have "drop (length d - 6) d
      = b32.checksum c (foldl bech32_polymod_step (expanded h) (take (length d - 6) d))"
    using cw assms(1-3) by (simp add: codeword_def bech32_verify)
  then show "d = (v # g) @ b32.checksum c (foldl bech32_polymod_step (expanded h) (v # g))"
    using append_take_drop_id [of "length d - 6" d] unfolding t by simp
next
  let ?s = "foldl bech32_polymod_step (expanded h) (v # g)"
  assume d: "d = (v # g) @ b32.checksum c ?s"
  have k: "length d - 6 = length (v # g)" "length d - 7 = length g" by (simp_all add: d)
  have "bech32_polymod (bech32_hrp_expand h @ d) = c"
    using assms(1-3) by (subst bech32_verify) (simp_all only: k, simp_all add: d)
  moreover have "take (length d - 7) (drop 1 d) = g" unfolding k(2) by (simp add: d)
  ultimately show "codeword c h d v p"
    using assms(4) by (simp add: codeword_def convert_bits_inverse d)
qed

lemma enc_const_cases:
  "polymod = enc_const v \<longleftrightarrow> (v = 0 \<and> polymod = 1 \<or> v \<noteq> 0 \<and> polymod = 0x2bc830a3)"
  by (simp add: enc_const_def)

definition witness_program_ok :: "u8 \<Rightarrow> bytes \<Rightarrow> bool" where
  "witness_program_ok v p \<longleftrightarrow> v \<le> 16 \<and> 2 \<le> length p \<and> length p \<le> 40
     \<and> (v = 0 \<longrightarrow> length p = 20 \<or> length p = 32)"

definition decoded :: "string \<Rightarrow> u8 \<Rightarrow> bytes \<Rightarrow> Bech32DecodeResult" where
  "decoded h v p = \<lparr>br_hrp = h, br_witness_version = uint v, br_witness_program = p, br_valid = True\<rparr>"

lemma decoded_inj: "decoded h v p = decoded h' v' p' \<longleftrightarrow> h = h' \<and> v = v' \<and> p = p'"
  by (auto simp: decoded_def word_uint_eq_iff)

lemma decoded_not_invalid: "bech32_invalid \<noteq> decoded h v p"
  by (simp add: decoded_def bech32_invalid_def)

definition decode_body :: "string \<Rightarrow> bytes \<Rightarrow> Bech32DecodeResult" where
  "decode_body h d =
     (case (if bech32_polymod (bech32_hrp_expand h @ d) = 1 then Some BECH32
            else if bech32_polymod (bech32_hrp_expand h @ d) = 0x2bc830a3 then Some BECH32M else None) of
        None \<Rightarrow> bech32_invalid
      | Some enc \<Rightarrow>
          if d ! 0 > 16 then bech32_invalid
          else if d ! 0 = 0 \<and> enc \<noteq> BECH32 then bech32_invalid
          else if d ! 0 \<noteq> 0 \<and> enc \<noteq> BECH32M then bech32_invalid
          else case convert_bits (take (length d - 7) (drop 1 d)) 5 8 False of
            (ok, prog) \<Rightarrow>
              if \<not> ok then bech32_invalid
              else if length prog < 2 \<or> length prog > 40 then bech32_invalid
              else if d ! 0 = 0 \<and> length prog \<noteq> 20 \<and> length prog \<noteq> 32 then bech32_invalid
              else decoded h (d ! 0) prog)"

lemma bech32_decode_via_parse:
  "bech32_decode s = (case bech32_parse s of None \<Rightarrow> bech32_invalid | Some (h, d) \<Rightarrow> decode_body h d)"
  unfolding bech32_decode_def bech32_parse_def decode_body_def [symmetric, unfolded decoded_def] Let_def
  by (simp split: option.split)

lemma decode_body_decoded:
  "decode_body h d = decoded h' v p \<longleftrightarrow> h = h' \<and> codeword (enc_const v) h d v p \<and> witness_program_ok v p"
proof -
  obtain ok prog where c: "convert_bits (take (length d - 7) (drop 1 d)) 5 8 False = (ok, prog)"
    by (rule prod.exhaust)
  consider "bech32_polymod (bech32_hrp_expand h @ d) = 1"
    | "bech32_polymod (bech32_hrp_expand h @ d) = 0x2bc830a3"
    | "bech32_polymod (bech32_hrp_expand h @ d) \<noteq> 1" "bech32_polymod (bech32_hrp_expand h @ d) \<noteq> 0x2bc830a3"
    by blast
  then show ?thesis
    by cases (auto simp: decode_body_def c [simplified] codeword_def enc_const_def witness_program_ok_def
        decoded_not_invalid decoded_inj not_less)
qed

lemma bech32_decode_parse:
  "bech32_decode s = decoded h v p \<longleftrightarrow>
     (\<exists>d. bech32_parse s = Some (h, d) \<and> codeword (enc_const v) h d v p \<and> witness_program_ok v p)"
  by (auto simp: bech32_decode_via_parse decode_body_decoded decoded_not_invalid split: option.split)

definition paycode_body :: "string \<Rightarrow> bytes \<Rightarrow> Bech32DecodeResult" where
  "paycode_body h d =
     (if bech32_polymod (bech32_hrp_expand h @ d) \<noteq> 0x2bc830a3 then bech32_invalid
      else if d ! 0 = 0 \<or> d ! 0 > 16 then bech32_invalid
      else case convert_bits (take (length d - 7) (drop 1 d)) 5 8 False of
        (ok, prog) \<Rightarrow>
          if \<not> ok then bech32_invalid
          else if prog = [] then bech32_invalid
          else decoded h (d ! 0) prog)"

lemma bech32m_paycode_decode_via_parse:
  "bech32m_paycode_decode s = (case bech32_parse s of None \<Rightarrow> bech32_invalid | Some (h, d) \<Rightarrow> paycode_body h d)"
  unfolding bech32m_paycode_decode_def bech32_parse_def paycode_body_def [symmetric, unfolded decoded_def] Let_def
  by (simp split: option.split)

lemma paycode_body_decoded:
  "paycode_body h d = decoded h' v p \<longleftrightarrow>
     h = h' \<and> codeword (enc_const v) h d v p \<and> v \<noteq> 0 \<and> v \<le> 16 \<and> p \<noteq> []"
proof -
  obtain ok prog where c: "convert_bits (take (length d - 7) (drop 1 d)) 5 8 False = (ok, prog)"
    by (rule prod.exhaust)
  show ?thesis
    by (auto simp: paycode_body_def c [simplified] codeword_def enc_const_def decoded_not_invalid decoded_inj not_less)
qed

lemma bech32m_paycode_decode_parse:
  "bech32m_paycode_decode s = decoded h v p \<longleftrightarrow>
     (\<exists>d. bech32_parse s = Some (h, d) \<and> codeword (enc_const v) h d v p \<and> v \<noteq> 0 \<and> v \<le> 16 \<and> p \<noteq> [])"
  by (auto simp: bech32m_paycode_decode_via_parse paycode_body_decoded decoded_not_invalid split: option.split)

lemma codeword_encode:
  assumes "\<forall>c\<in>set h. 0 \<le> schar c" "\<forall>x\<in>set d. uint x < 32" "7 \<le> length d"
  shows "codeword (enc_const v) h d v p \<longleftrightarrow>
    bech32_encode h v p = h @ CHR ''1'' # map bech32_char d \<and> uint v < 32"
proof -
  obtain g where g: "convert_bits p 8 5 True = (True, g)" "\<forall>x\<in>set g. uint x < 2 ^ 5"
    by (rule convert_bits_8_5 [of p])
  let ?d = "(v # g) @ b32.checksum (enc_const v) (foldl bech32_polymod_step (expanded h) (v # g))"
  have "bech32_encode h v p = h @ CHR ''1'' # map bech32_char d \<longleftrightarrow>
      map bech32_char ?d = map bech32_char d"
    unfolding bech32_encode_eq [OF assms(1) g(1)] by (simp del: map_append append.simps)
  moreover have "?d = d" if "map bech32_char ?d = map bech32_char d" "uint v < 32"
  proof -
    have "\<forall>x\<in>set ?d. uint x < 32"
      using g(2) that(2) b32.checksum_valid(3) [OF enc_const_bound] by auto
    then have "map (bech32_charset_value \<circ> bech32_char) ?d = map uint ?d"
      "map (bech32_charset_value \<circ> bech32_char) d = map uint d"
      using assms(2) bech32_char_props(1) by (auto simp del: map_append)
    then have "map uint ?d = map uint d" using that(1) by (metis map_map)
    then show ?thesis by (rule map_injective) (simp add: inj_on_def word_uint_eq_iff)
  qed
  moreover have "codeword (enc_const v) h d v p \<longleftrightarrow> d = ?d"
    using assms(2,3) enc_const_bound g(1) by (intro codeword_iff)
  moreover have "d = ?d \<Longrightarrow> uint v < 32" using assms(2) by (metis append_Cons list.set_intros(1))
  ultimately show ?thesis by metis
qed

lemma parse_codeword_iff:
  assumes "CHR 0x00 \<notin> set s" "uint v < 32"
  shows "(\<exists>d. bech32_parse s = Some (h, d) \<and> codeword (enc_const v) h d v p) \<longleftrightarrow>
    valid_hrp h \<and> map to_lower s = bech32_encode h v p"
proof -
  have pos: "\<forall>c\<in>set h. 0 \<le> schar c" if "valid_hrp h"
    using that by (auto simp: valid_hrp_def)
  obtain g where g: "convert_bits p 8 5 True = (True, g)" "\<forall>x\<in>set g. uint x < 2 ^ 5"
    by (rule convert_bits_8_5 [of p])
  let ?d = "(v # g) @ b32.checksum (enc_const v) (foldl bech32_polymod_step (expanded h) (v # g))"
  have r: "\<forall>x\<in>set ?d. uint x < 32" "7 \<le> length ?d"
    using g(2) assms(2) b32.checksum_valid(3) [OF enc_const_bound] by auto
  show ?thesis
  proof
    assume "\<exists>d. bech32_parse s = Some (h, d) \<and> codeword (enc_const v) h d v p"
    then show "valid_hrp h \<and> map to_lower s = bech32_encode h v p"
      using pos by (auto simp: bech32_parse_iff [OF assms(1)] codeword_encode)
  next
    assume a: "valid_hrp h \<and> map to_lower s = bech32_encode h v p"
    then have e: "map to_lower s = h @ CHR ''1'' # map bech32_char ?d"
      using bech32_encode_eq [OF pos g(1)] by simp
    then have "bech32_parse s = Some (h, ?d)"
      using a r by (simp add: bech32_parse_iff [OF assms(1)] del: append.simps)
    moreover have "codeword (enc_const v) h ?d v p"
      using r g(1) enc_const_bound by (subst codeword_iff) (simp_all del: append.simps)
    ultimately show "\<exists>d. bech32_parse s = Some (h, d) \<and> codeword (enc_const v) h d v p" by blast
  qed
qed

lemma version_lt_32: "v \<le> (16 :: u8) \<Longrightarrow> uint v < 32"
  by (simp add: word_le_def)

lemma bech32_decode_decoded_iff:
  assumes "CHR 0x00 \<notin> set s"
  shows "bech32_decode s = decoded h v p \<longleftrightarrow>
    valid_hrp h \<and> witness_program_ok v p \<and> map to_lower s = bech32_encode h v p"
  using parse_codeword_iff [OF assms version_lt_32, of v h p]
  by (auto simp: bech32_decode_parse witness_program_ok_def)

lemma bech32_encode_clean:
  assumes "valid_hrp h" "uint v < 32"
  shows "CHR 0x00 \<notin> set (bech32_encode h v p)" "map to_lower (bech32_encode h v p) = bech32_encode h v p"
proof -
  obtain g where g: "convert_bits p 8 5 True = (True, g)" "\<forall>x\<in>set g. uint x < 2 ^ 5"
    by (rule convert_bits_8_5 [of p])
  have pos: "\<forall>c\<in>set h. 0 \<le> schar c" using assms(1) by (auto simp: valid_hrp_def)
  let ?d = "(v # g) @ b32.checksum (enc_const v) (foldl bech32_polymod_step (expanded h) (v # g))"
  have r: "\<forall>x\<in>set ?d. uint x < 32"
    using g(2) assms(2) b32.checksum_valid(3) [OF enc_const_bound] by auto
  have "CHR 0x00 \<notin> set h" using assms(1) by (auto simp: valid_hrp_def schar_letters)
  moreover have "CHR 0x00 \<notin> set (map bech32_char ?d)" using r bech32_char_props(4) by fastforce
  ultimately show "CHR 0x00 \<notin> set (bech32_encode h v p)"
    unfolding bech32_encode_eq [OF pos g(1)] by (simp del: map_append append.simps)
  define xs where "xs = ?d"
  have e: "bech32_encode h v p = h @ CHR ''1'' # map bech32_char xs"
    unfolding xs_def by (rule bech32_encode_eq [OF pos g(1)])
  have "\<forall>x\<in>set xs. uint x < 32" unfolding xs_def by (rule r)
  then have "map to_lower (map bech32_char xs) = map bech32_char xs"
    by (simp add: bech32_char_props)
  moreover have "map to_lower h = h" using assms(1) by (simp add: valid_hrp_def map_idI)
  ultimately show "map to_lower (bech32_encode h v p) = bech32_encode h v p"
    unfolding e by simp
qed

lemma bech32_decode_encode:
  assumes "valid_hrp h" "witness_program_ok v p"
  shows "bech32_decode (bech32_encode h v p) = decoded h v p"
proof -
  have "v \<le> 16" using assms(2) by (simp add: witness_program_ok_def)
  then have "uint v < 32" by (rule version_lt_32)
  note c = bech32_encode_clean [OF assms(1) this, of p]
  show ?thesis using bech32_decode_decoded_iff [OF c(1), of h v p] c(2) assms by blast
qed

section \<open>Properties\<close>

text \<open>C19: on strings without a NUL character, \<open>bech32_decode\<close> accepts exactly the case variants of the
  encodings of well-formed witness programs with a printable lower-case prefix, and returns the
  prefix, version and program that were encoded; whatever it accepts has this form.\<close>
theorem bech32_decode_iff_encode:
  assumes "CHR 0x00 \<notin> set s"
  shows "(bech32_decode s = \<lparr>br_hrp = h, br_witness_version = uint v, br_witness_program = p, br_valid = True\<rparr>
      \<longleftrightarrow> valid_hrp h \<and> witness_program_ok v p \<and> map to_lower s = bech32_encode h v p)
    \<and> (br_valid (bech32_decode s) \<longleftrightarrow> (\<exists>h (v :: u8) p. bech32_decode s =
      \<lparr>br_hrp = h, br_witness_version = uint v, br_witness_program = p, br_valid = True\<rparr>))"
proof -
  note bech32_decode_decoded_iff [OF assms, of h v p]
  moreover have "br_valid (decode_body a b) \<Longrightarrow> \<exists>h v p. decode_body a b = decoded h v p" for a b
    by (auto simp: decode_body_def bech32_invalid_def split: option.splits prod.splits if_splits)
  then have "br_valid (bech32_decode s) \<longleftrightarrow> (\<exists>h v p. bech32_decode s = decoded h v p)"
    by (auto simp: bech32_decode_via_parse bech32_invalid_def decoded_def split: option.splits)
  ultimately show ?thesis by (simp only: decoded_def)
qed

theorem bech32_decode_iff_encode_witness:
  "bech32_decode (bech32_encode ''bc'' 1 [7, 9])
    = \<lparr>br_hrp = ''bc'', br_witness_version = 1, br_witness_program = [7, 9], br_valid = True\<rparr>"
proof -
  have n: "CHR 0x00 \<notin> set (bech32_encode ''bc'' 1 [7, 9])"
    by code_simp
  have "valid_hrp ''bc''" "witness_program_ok 1 [7, 9]"
    "map to_lower (bech32_encode ''bc'' 1 [7, 9]) = bech32_encode ''bc'' 1 [7, 9]"
    by code_simp+
  then show ?thesis
    using bech32_decode_iff_encode [OF n, of "''bc''" 1 "[7, 9]"] by (simp only: unsigned_1 simp_thms)
qed

text \<open>the paycode decoder accepts exactly the case variants of Bech32m encodings (versions 1 to
  16) of non-empty programs of any length.\<close>
theorem bech32m_paycode_decode_iff_encode:
  assumes "CHR 0x00 \<notin> set s"
  shows "bech32m_paycode_decode s
      = \<lparr>br_hrp = h, br_witness_version = uint v, br_witness_program = p, br_valid = True\<rparr>
    \<longleftrightarrow> valid_hrp h \<and> v \<noteq> 0 \<and> v \<le> 16 \<and> p \<noteq> [] \<and> map to_lower s = bech32_encode h v p"
  unfolding decoded_def [symmetric]
  using parse_codeword_iff [OF assms version_lt_32, of v h p]
  by (auto simp: bech32m_paycode_decode_parse)

theorem bech32m_paycode_decode_iff_encode_witness:
  "bech32m_paycode_decode (bech32_encode ''sp'' 1 [7])
    = \<lparr>br_hrp = ''sp'', br_witness_version = 1, br_witness_program = [7], br_valid = True\<rparr>"
proof -
  have n: "CHR 0x00 \<notin> set (bech32_encode ''sp'' 1 [7])"
    by code_simp
  have "valid_hrp ''sp''"
    "map to_lower (bech32_encode ''sp'' 1 [7]) = bech32_encode ''sp'' 1 [7]"
    by code_simp+
  then show ?thesis
    using bech32m_paycode_decode_iff_encode [OF n, of "''sp''" 1 "[7]"] by simp
qed

text \<open>where the decoder is laxer than BIP-173: letter case does not matter at all, so mixed-case
  strings are accepted, and a string with an embedded NUL, which \<open>strchr\<close> finds at the end of the
  charset, is accepted too and decodes to the program of another address.\<close>
theorem bech32_decode_lax:
  "bech32_decode (map to_lower s) = bech32_decode s
   \<and> bech32_decode ''bc1pqqQqqcnjqs'' = bech32_decode ''bc1pqqqqqcnjqs''
   \<and> br_valid (bech32_decode ''bc1pqqQqqcnjqs'')
   \<and> bech32_decode (''bc1pqqqqqcnn'' @ [CHR 0x00] @ ''s'') = bech32_decode ''bc1pqqqqqcnjqs''"
proof -
  have a: "bech32_decode (map to_lower s) = bech32_decode s"
    by (simp add: bech32_decode_via_parse bech32_parse_map_lower)
  have b: "bech32_decode ''bc1pqqQqqcnjqs'' = decoded ''bc'' 1 [0, 0]"
    by code_simp
  have c: "bech32_decode ''bc1pqqqqqcnjqs'' = decoded ''bc'' 1 [0, 0]"
    by code_simp
  have d: "bech32_decode (''bc1pqqqqqcnn'' @ [CHR 0x00] @ ''s'') = decoded ''bc'' 1 [0, 0]"
    by code_simp
  show ?thesis unfolding b c d using a by (simp add: decoded_def)
qed

end
