(* ===== verification/Addresses.thy ===== *)
theory Addresses
  imports Scalar Base58 Bech32
begin

text \<open>
  Address derivation, CashAddr encoding and WIF of \<open>address.cpp\<close>. A point only enters through its
  33-byte compressed form or its 32-byte x-coordinate, so the point type and those two functions
  (\<open>Point::to_compressed\<close>, \<open>Point::x().to_bytes()\<close>) are arguments of the definitions.
\<close>

section \<open>Addresses\<close>

datatype Network = Mainnet | Testnet

definition address_p2pkh :: "('p \<Rightarrow> bytes) \<Rightarrow> 'p \<Rightarrow> Network \<Rightarrow> string" where
  "address_p2pkh to_compressed pubkey net =
     (let compressed = to_compressed pubkey;
          h160 = hash160 compressed;
          payload = (if net = Mainnet then 0x00 else 0x6F) # h160
      in base58check_encode payload)"

definition address_p2wpkh :: "('p \<Rightarrow> bytes) \<Rightarrow> 'p \<Rightarrow> Network \<Rightarrow> string" where
  "address_p2wpkh to_compressed pubkey net =
     (let compressed = to_compressed pubkey;
          h160 = hash160 compressed;
          hrp = (if net = Mainnet then ''bc'' else ''tb'')
      in bech32_encode hrp 0 h160)"

definition address_p2tr_raw :: "bytes \<Rightarrow> Network \<Rightarrow> string" where
  "address_p2tr_raw output_key_x net =
     (let hrp = (if net = Mainnet then ''bc'' else ''tb'') in bech32_encode hrp 1 output_key_x)"

definition address_p2tr :: "('p \<Rightarrow> bytes) \<Rightarrow> 'p \<Rightarrow> Network \<Rightarrow> string" where
  "address_p2tr x_bytes internal_key net = address_p2tr_raw (x_bytes internal_key) net"

definition address_p2sh_p2wpkh :: "('p \<Rightarrow> bytes) \<Rightarrow> 'p \<Rightarrow> Network \<Rightarrow> string" where
  "address_p2sh_p2wpkh to_compressed pubkey net =
     (let compressed = to_compressed pubkey;
          keyhash = hash160 compressed;
          witness_script = [0x00, 0x14] @ keyhash;
          script_hash = hash160 witness_script;
          payload = (if net = Mainnet then 0x05 else 0xC4) # script_hash
      in base58check_encode payload)"

definition address_p2sh :: "bytes \<Rightarrow> Network \<Rightarrow> string" where
  "address_p2sh script_hash net =
     (let payload = (if net = Mainnet then 0x05 else 0xC4) # script_hash
      in base58check_encode payload)"

definition address_p2wsh :: "bytes \<Rightarrow> Network \<Rightarrow> string" where
  "address_p2wsh witness_script_hash net =
     (let hrp = (if net = Mainnet then ''bc'' else ''tb'') in bech32_encode hrp 0 witness_script_hash)"

section \<open>CashAddr\<close>

definition CASHADDR_GEN :: "u64 list" where
  "CASHADDR_GEN = [0x98f2bc8e61, 0x79b76d99e2, 0xf33e5fb3c4, 0xae2eabe2a8, 0x1e4f43e470]"

definition cashaddr_step :: "u64 \<Rightarrow> u8 \<Rightarrow> u64" where
  "cashaddr_step c d =
     (let c0 = drop_bit 35 c;
          c = push_bit 5 (c AND 0x07ffffffff) XOR ucast d
      in foldl (\<lambda>c i. if drop_bit i c0 AND 1 \<noteq> 0 then c XOR CASHADDR_GEN ! i else c) c [0..<5])"

definition cashaddr_polymod :: "bytes \<Rightarrow> u64" where
  "cashaddr_polymod v = foldl cashaddr_step 1 v XOR 1"

definition cashaddr_prefix_expand :: "string \<Rightarrow> bytes" where
  "cashaddr_prefix_expand prefix = map (\<lambda>c. word_of_int (schar c AND 0x1f)) prefix @ [0]"

definition CASHADDR_CHARSET :: string where
  "CASHADDR_CHARSET = ''qpzry9x8gf2tvdw0s3jn54khce6mua7l''"

text \<open>The result flag of \<open>convert_bits\<close> is ignored.\<close>

definition cashaddr_encode :: "bytes \<Rightarrow> string \<Rightarrow> u8 \<Rightarrow> string" where
  "cashaddr_encode hash prefix type =
     (let version_byte = push_bit 3 type;
          payload = version_byte # hash;
          data5 = snd (convert_bits payload 8 5 True);
          values = cashaddr_prefix_expand prefix @ data5 @ replicate 8 0;
          poly = cashaddr_polymod values
      in prefix @ [CHR '':''] @ map (\<lambda>v. CASHADDR_CHARSET ! nat (uint v)) data5
         @ map (\<lambda>i. CASHADDR_CHARSET ! nat (uint (drop_bit (5 * (7 - i)) poly AND 31))) [0..<8])"

definition address_cashaddr :: "('p \<Rightarrow> bytes) \<Rightarrow> 'p \<Rightarrow> string \<Rightarrow> string" where
  "address_cashaddr to_compressed pubkey prefix =
     (let compressed = to_compressed pubkey; h160 = hash160 compressed
      in cashaddr_encode h160 prefix 0)"

section \<open>WIF\<close>

definition wif_encode :: "scalar \<Rightarrow> bool \<Rightarrow> Network \<Rightarrow> string" where
  "wif_encode private_key compressed net =
     (let key_bytes = to_bytes private_key;
          payload = ((if net = Mainnet then 0x80 else 0xEF) # key_bytes)
                    @ (if compressed then [0x01] else [])
      in base58check_encode payload)"

record WIFDecodeResult =
  wif_key :: scalar
  wif_compressed :: bool
  wif_network :: Network
  wif_valid :: bool

text \<open>\<open>WIFDecodeResult result{}\<close>.\<close>

definition wif_result0 :: WIFDecodeResult where
  "wif_result0 = \<lparr>wif_key = scalar_zero, wif_compressed = False, wif_network = Mainnet, wif_valid = False\<rparr>"

definition wif_decode :: "string \<Rightarrow> WIFDecodeResult" where
  "wif_decode wif =
     (let (data, valid) = base58check_decode wif;
          result = wif_result0
      in if \<not> valid \<or> data = [] then result
         else
           let version = data ! 0 in
           if version \<noteq> 0x80 \<and> version \<noteq> 0xEF then result
           else
             let result = result\<lparr>wif_network := (if version = 0x80 then Mainnet else Testnet)\<rparr>;
                 key_bytes = take 32 (drop 1 data);
                 finish = (\<lambda>c. result\<lparr>wif_compressed := c, wif_key := from_bytes key_bytes, wif_valid := True\<rparr>)
             in if length data = 34 \<and> data ! 33 = 0x01 then finish True
                else if length data = 33 then finish False
                else result)"

section \<open>CashAddr as a BCH code\<close>

definition cashaddr_gen :: "u64 \<Rightarrow> u64" where
  "cashaddr_gen c0 = foldl (\<lambda>c i. if drop_bit i c0 AND 1 \<noteq> 0 then c XOR CASHADDR_GEN ! i else c) 0 [0..<5]"

lemma cashaddr_step_eq:
  "cashaddr_step c d = (push_bit 5 (c AND 0x07ffffffff) XOR ucast d) XOR cashaddr_gen (drop_bit 35 c)"
  unfolding cashaddr_step_def Let_def cashaddr_gen_def by (rule cond_xor_fold)

lemma cashaddr_step_low:
  assumes "uint x < 2 ^ 35"
  shows "cashaddr_step (s XOR x) v = cashaddr_step s 0 XOR (push_bit 5 x XOR ucast v)"
proof -
  have m: "(0x07ffffffff :: u64) = mask 35" by (simp add: mask_eq_exp_minus_1)
  have x: "take_bit 35 x = x" using assms by (rule word_less_take_bit)
  have "drop_bit 35 (take_bit 35 x) = 0" by (simp add: drop_bit_take_bit)
  then have "drop_bit 35 x = 0" by (simp only: x)
  then have "drop_bit 35 (s XOR x) = drop_bit 35 s" by (simp add: drop_bit_xor)
  moreover have "push_bit 5 ((s XOR x) AND 0x07ffffffff) = push_bit 5 (s AND 0x07ffffffff) XOR push_bit 5 x"
    unfolding m take_bit_eq_mask [symmetric] by (simp add: take_bit_xor push_bit_xor x)
  ultimately show ?thesis
    by (simp add: cashaddr_step_eq ac_simps)
qed

lemma take_bit_cond_xor:
  assumes "\<forall>i\<in>set xs. take_bit k (f i) = f i" "take_bit k x = x"
  shows "take_bit k (foldl (\<lambda>c i. if P i then c XOR f i else c) x xs)
    = foldl (\<lambda>c i. if P i then c XOR f i else c) (x :: 'w :: len word) xs"
  using assms by (induction xs rule: rev_induct) (auto simp: take_bit_xor)

lemma cashaddr_gen_bound: "take_bit 40 (cashaddr_gen t) = cashaddr_gen t"
  unfolding cashaddr_gen_def
proof (rule take_bit_cond_xor)
  have "list_all (\<lambda>i. take_bit 40 (CASHADDR_GEN ! i) = CASHADDR_GEN ! i) [0..<5]" by code_simp
  then show "\<forall>i\<in>set [0..<5]. take_bit 40 (CASHADDR_GEN ! i) = CASHADDR_GEN ! i"
    by (simp only: list_all_iff)
qed simp

lemma cashaddr_step_bound: "uint (cashaddr_step s v) < 2 ^ 40"
proof (rule take_bit_word_less)
  have m: "(0x07ffffffff :: u64) = mask 35" by (simp add: mask_eq_exp_minus_1)
  have "take_bit 40 (push_bit 5 (s AND 0x07ffffffff)) = push_bit 5 (s AND 0x07ffffffff)"
    unfolding m take_bit_eq_mask [symmetric] by (intro bit_eqI) (auto simp: bit_simps)
  moreover have "take_bit 40 (ucast v :: u64) = ucast v"
    by (intro bit_eqI) (auto simp: bit_simps dest: bit_imp_le_length)
  moreover note cashaddr_gen_bound [of "drop_bit 35 s"]
  ultimately show "take_bit 40 (cashaddr_step s v) = cashaddr_step s v"
    by (simp add: cashaddr_step_eq take_bit_xor)
qed

interpretation cash: bch_code cashaddr_step 8
  by unfold_locales (simp_all add: cashaddr_step_low cashaddr_step_bound [simplified])

section \<open>Properties\<close>

lemma version_payload_ok:
  "length h = 20 \<Longrightarrow> v \<noteq> 0 \<or> (\<exists>b\<in>set h. b \<noteq> 0) \<Longrightarrow>
   base58check_decode (base58check_encode (v # h)) = (v # h, True)"
  by (rule base58_decode_encode) auto

text \<open>the Base58 addresses decode to version byte and hash: P2PKH to the HASH160 of the
  compressed key, the wrapped SegWit address to the HASH160 of the script 0x00 0x14 key-hash; the
  only case left open is the all-zero mainnet payload.\<close>
theorem base58_addresses_decode:
  assumes "net = Testnet \<or> (\<exists>b\<in>set (hash160 (to_compressed pk)). b \<noteq> 0)" "length sh = 20"
  shows "base58check_decode (address_p2pkh to_compressed pk net)
      = ((if net = Mainnet then 0x00 else 0x6F) # hash160 (to_compressed pk), True)
    \<and> base58check_decode (address_p2sh sh net) = ((if net = Mainnet then 0x05 else 0xC4) # sh, True)
    \<and> address_p2sh_p2wpkh to_compressed pk net
      = address_p2sh (hash160 ([0x00, 0x14] @ hash160 (to_compressed pk))) net"
proof (intro conjI)
  show "base58check_decode (address_p2pkh to_compressed pk net)
      = ((if net = Mainnet then 0x00 else 0x6F) # hash160 (to_compressed pk), True)"
    unfolding address_p2pkh_def Let_def
    using assms(1) by (intro version_payload_ok) auto
  show "base58check_decode (address_p2sh sh net) = ((if net = Mainnet then 0x05 else 0xC4) # sh, True)"
    unfolding address_p2sh_def Let_def
    using assms(2) by (intro version_payload_ok) auto
qed (simp add: address_p2sh_p2wpkh_def address_p2sh_def)

theorem base58_addresses_decode_witness:
  "base58check_decode (address_p2pkh (\<lambda>p. p) [2, 3] Testnet) = (0x6F # hash160 [2, 3], True)"
  using base58_addresses_decode [of Testnet "\<lambda>p. p" "[2, 3]" "replicate 20 0"] by simp

lemma hrp_valid: "valid_hrp (if net = Mainnet then ''bc'' else ''tb'')"
  by (simp add: valid_hrp_def schar_def to_lower_def)

lemma segwit_decoded:
  fixes net :: Network
  assumes "length wsh = 32" "length x = 32"
  defines "hrp \<equiv> (if net = Mainnet then ''bc'' else ''tb'')"
  shows "bech32_decode (address_p2wpkh to_compressed pk net)
      = \<lparr>br_hrp = hrp, br_witness_version = 0, br_witness_program = hash160 (to_compressed pk), br_valid = True\<rparr>
    \<and> bech32_decode (address_p2wsh wsh net)
      = \<lparr>br_hrp = hrp, br_witness_version = 0, br_witness_program = wsh, br_valid = True\<rparr>
    \<and> bech32_decode (address_p2tr_raw x net)
      = \<lparr>br_hrp = hrp, br_witness_version = 1, br_witness_program = x, br_valid = True\<rparr>"
proof -
  have d: "bech32_decode (bech32_encode hrp v p)
      = \<lparr>br_hrp = hrp, br_witness_version = uint v, br_witness_program = p, br_valid = True\<rparr>"
    if "witness_program_ok v p" for v p
    using bech32_decode_encode [OF hrp_valid that] by (simp add: hrp_def decoded_def)
  show ?thesis
    using d [of 0 "hash160 (to_compressed pk)"] d [of 0 wsh] d [of 1 x] assms(1,2)
    by (simp add: witness_program_ok_def address_p2wpkh_def address_p2wsh_def address_p2tr_raw_def
        hrp_def [symmetric] Let_def)
qed

text \<open>the SegWit addresses decode to the network's prefix, the witness version and the program
  they were made from: the key hash, the script hash, and the x-only output key.\<close>
theorem segwit_addresses_decode:
  fixes net :: Network
  assumes "length wsh = 32" "length x = 32"
  defines "hrp \<equiv> (if net = Mainnet then ''bc'' else ''tb'')"
  shows "bech32_decode (address_p2wpkh to_compressed pk net)
      = \<lparr>br_hrp = hrp, br_witness_version = 0, br_witness_program = hash160 (to_compressed pk), br_valid = True\<rparr>
    \<and> bech32_decode (address_p2wsh wsh net)
      = \<lparr>br_hrp = hrp, br_witness_version = 0, br_witness_program = wsh, br_valid = True\<rparr>
    \<and> bech32_decode (address_p2tr_raw x net)
      = \<lparr>br_hrp = hrp, br_witness_version = 1, br_witness_program = x, br_valid = True\<rparr>"
  unfolding hrp_def by (rule segwit_decoded [OF assms(1,2)])

theorem segwit_addresses_decode_witness:
  "bech32_decode (address_p2tr_raw (replicate 32 5) Testnet)
    = \<lparr>br_hrp = ''tb'', br_witness_version = 1, br_witness_program = replicate 32 5, br_valid = True\<rparr>"
  using segwit_addresses_decode [where net = Testnet and wsh = "replicate 32 0" and x = "replicate 32 5"
      and to_compressed = "\<lambda>p. p" and pk = "[]"]
  by simp

lemma wif_payload_decode:
  assumes "length kb = 32"
  shows "wif_decode (base58check_encode (((if net = Mainnet then 0x80 else 0xEF) # kb) @ (if c then [0x01] else [])))
    = \<lparr>wif_key = from_bytes kb, wif_compressed = c, wif_network = net, wif_valid = True\<rparr>"
proof -
  have "base58check_decode (base58check_encode (((if net = Mainnet then 0x80 else 0xEF) # kb) @ (if c then [0x01] else [])))
      = (((if net = Mainnet then 0x80 else 0xEF) # kb) @ (if c then [0x01] else []), True)"
    using assms by (intro base58_decode_encode) auto
  moreover have "net = Mainnet \<or> net = Testnet" by (cases net) auto
  ultimately show ?thesis
    using assms by (auto simp: wif_decode_def wif_result0_def nth_append)
qed

text \<open>decoding the WIF form of a canonical key returns the key, the compression flag and the
  network.\<close>
theorem wif_roundtrip:
  assumes "scalar_ok k"
  shows "wif_decode (wif_encode k c net)
    = \<lparr>wif_key = k, wif_compressed = c, wif_network = net, wif_valid = True\<rparr>"
  using wif_payload_decode [of "to_bytes k" net c] assms from_bytes_to_bytes [of k]
  by (simp add: wif_encode_def)

theorem wif_roundtrip_witness:
  "wif_key (wif_decode (wif_encode scalar_one True Testnet)) = scalar_one"
proof -
  have "scalar_ok scalar_one" by (simp add: scalar_ok_one)
  from wif_roundtrip [OF this, of True Testnet] show ?thesis by simp
qed

text \<open>\<open>wif_decode\<close> does not check the key range: any 32 key bytes are accepted and reduced, so the
  bytes of the group order decode as a valid zero key, and a second WIF string decodes to a key
  that the encoder writes differently.\<close>
theorem wif_decode_unchecked:
  "wif_decode (base58check_encode (0x80 # be_bytes 32 group_order @ [1]))
      = \<lparr>wif_key = scalar_zero, wif_compressed = True, wif_network = Mainnet, wif_valid = True\<rparr>
   \<and> wif_decode (base58check_encode (0x80 # be_bytes 32 (group_order + 1) @ [1]))
      = wif_decode (wif_encode scalar_one True Mainnet)"
proof -
  have z: "from_bytes (be_bytes 32 group_order) = scalar_zero"
    by (rule sval_inj) (simp add: from_bytes_value be_val_be_bytes scalar_zero_def)
  have o: "from_bytes (be_bytes 32 (group_order + 1)) = scalar_one"
    by (rule sval_inj) (simp add: from_bytes_value be_val_be_bytes scalar_ok_one)
  have k: "from_bytes (to_bytes scalar_one) = scalar_one"
    by (rule from_bytes_to_bytes) (rule scalar_ok_one)
  show ?thesis
    using wif_payload_decode [of "be_bytes 32 group_order" Mainnet True]
      wif_payload_decode [of "be_bytes 32 (group_order + 1)" Mainnet True]
      wif_payload_decode [of "to_bytes scalar_one" Mainnet True]
    by (simp add: z o [simplified] k wif_encode_def)
qed

text \<open>a CashAddr encoding carries a valid 40-bit checksum over the prefix and the payload, and its
  payload symbols regroup to the version byte (the type shifted by three) and the hash.\<close>
theorem cashaddr_encode_checksum:
  "\<exists>data5 chk. cashaddr_encode h prefix t
      = prefix @ [CHR '':''] @ map (\<lambda>v. CASHADDR_CHARSET ! nat (uint v)) (data5 @ chk)
    \<and> length chk = 8 \<and> (\<forall>v\<in>set (data5 @ chk). uint v < 32)
    \<and> convert_bits data5 5 8 False = (True, push_bit 3 t # h)
    \<and> cashaddr_polymod (cashaddr_prefix_expand prefix @ data5 @ chk) = 0"
proof -
  obtain g where g: "convert_bits (push_bit 3 t # h) 8 5 True = (True, g)" "\<forall>x\<in>set g. uint x < 2 ^ 5"
    by (rule convert_bits_8_5 [of "push_bit 3 t # h"])
  define s where "s = foldl cashaddr_step 1 (cashaddr_prefix_expand prefix @ g)"
  define chk where "chk = cash.checksum 1 s"
  have one: "uint (1 :: u64) < 2 ^ (5 * 8)" by simp
  note v = cash.checksum_valid [OF one, of s, folded chk_def]
  have p: "cashaddr_polymod (cashaddr_prefix_expand prefix @ g @ replicate 8 0) = foldl cashaddr_step s (replicate 8 0) XOR 1"
    by (simp add: cashaddr_polymod_def s_def del: replicate.simps)
  have "map (\<lambda>i. CASHADDR_CHARSET ! nat (uint (drop_bit (5 * (7 - i)) (foldl cashaddr_step s (replicate 8 0) XOR 1) AND 31))) [0..<8]
      = map (\<lambda>v. CASHADDR_CHARSET ! nat (uint v)) chk"
  proof -
    have "uint (w AND 31) = uint (ucast (w AND 31) :: u8)" for w :: u64
      by (simp add: uint_ucast_mod uint_and_31)
    then show ?thesis by (simp add: chk_def cash.checksum_def unpack5_def)
  qed
  then have "cashaddr_encode h prefix t
      = prefix @ [CHR '':''] @ map (\<lambda>v. CASHADDR_CHARSET ! nat (uint v)) (g @ chk)"
    unfolding cashaddr_encode_def Let_def g(1) snd_conv p by simp
  moreover have "cashaddr_polymod (cashaddr_prefix_expand prefix @ g @ chk) = 0"
    using v(1) by (simp add: cashaddr_polymod_def s_def)
  moreover have "convert_bits g 5 8 False = (True, push_bit 3 t # h)"
    using convert_bits_pad_unpad [OF g(1)] .
  ultimately show ?thesis
    using v(2,3) g(2) by (intro exI [of _ g] exI [of _ chk]) auto
qed

theorem cashaddr_encode_checksum_witness:
  "length (cashaddr_encode [] ''x'' 0) = 12"
proof -
  obtain data5 chk where d: "cashaddr_encode [] ''x'' 0
      = ''x'' @ [CHR '':''] @ map (\<lambda>v. CASHADDR_CHARSET ! nat (uint v)) (data5 @ chk)"
    "length chk = 8" "convert_bits data5 5 8 False = (True, push_bit 3 0 # [])"
    using cashaddr_encode_checksum [of "[]" "''x''" 0] by blast
  have "convert_bits [push_bit 3 0] 8 5 True = (True, data5)" using d(3) by (rule convert_bits_unpad_pad)
  moreover obtain g where "convert_bits [push_bit 3 0] 8 5 True = (True, g)" "length g = 2"
    by (rule convert_bits_8_5 [of "[push_bit 3 0]"]) simp
  ultimately show ?thesis using d(1,2) by simp
qed

end
