(* ===== verification/Segwit.thy ===== *)
theory Segwit
  imports Transactions Addresses
begin

text \<open>
  \<open>segwit.cpp\<close>: witness programs (BIP-141), the witness checks, and the weight of
  a witness stack; with the properties that tie them to the addresses of \<open>address.cpp\<close>
  and the transaction weight of \<open>bip144.cpp\<close>.
\<close>

section \<open>Witness programs\<close>

datatype WitnessProgramType = WPT_NONE | P2WPKH | P2WSH | P2TR | WPT_UNKNOWN

record WitnessProgram =
  wp_version :: int
  wp_program :: bytes
  wp_type :: WitnessProgramType

definition segwit_scriptpubkey_p2wpkh :: "bytes \<Rightarrow> bytes" where
  "segwit_scriptpubkey_p2wpkh pubkey_hash =
     (let spk = replicate 22 0;
          spk = spk[0 := 0x00];
          spk = spk[1 := 0x14]
      in memcpy_at spk 2 (take 20 pubkey_hash))"

definition segwit_scriptpubkey_p2wsh :: "bytes \<Rightarrow> bytes" where
  "segwit_scriptpubkey_p2wsh script_hash =
     (let spk = replicate 34 0;
          spk = spk[0 := 0x00];
          spk = spk[1 := 0x20]
      in memcpy_at spk 2 (take 32 script_hash))"

definition segwit_scriptpubkey_p2tr :: "bytes \<Rightarrow> bytes" where
  "segwit_scriptpubkey_p2tr output_key =
     (let spk = replicate 34 0;
          spk = spk[0 := 0x51];
          spk = spk[1 := 0x20]
      in memcpy_at spk 2 (take 32 output_key))"

definition segwit_scriptpubkey :: "u8 \<Rightarrow> bytes \<Rightarrow> bytes" where
  "segwit_scriptpubkey version prog =
     (if length prog < 2 \<or> length prog > 40 \<or> version > 16 then []
      else [if version = 0 then 0x00 else 0x50 + version] @ [of_nat (length prog)] @ prog)"

definition is_witness_program :: "bytes \<Rightarrow> bool" where
  "is_witness_program script =
     (let script_len = length script in
      if script_len < 4 \<or> script_len > 42 then False
      else let opcode = script ! 0 in
      if opcode \<noteq> 0x00 \<and> (opcode < 0x51 \<or> opcode > 0x60) then False
      else let push_len = script ! 1 in
      if push_len < 2 \<or> push_len > 40 then False
      else uint push_len + 2 = uint (of_nat script_len :: u8))"

definition parse_witness_program :: "bytes \<Rightarrow> WitnessProgram" where
  "parse_witness_program script =
     (let wp = \<lparr>wp_version = -1, wp_program = [], wp_type = WPT_NONE\<rparr> in
      if \<not> is_witness_program script then wp
      else
        let opcode = script ! 0;
            wp = wp\<lparr>wp_version := (if opcode = 0x00 then 0 else uint opcode - 0x50)\<rparr>;
            plen = unat (script ! 1);
            wp = wp\<lparr>wp_program := take plen (drop 2 script)\<rparr>
        in if wp_version wp = 0 \<and> plen = 20 then wp\<lparr>wp_type := P2WPKH\<rparr>
           else if wp_version wp = 0 \<and> plen = 32 then wp\<lparr>wp_type := P2WSH\<rparr>
           else if wp_version wp = 1 \<and> plen = 32 then wp\<lparr>wp_type := P2TR\<rparr>
           else wp\<lparr>wp_type := WPT_UNKNOWN\<rparr>)"

definition witness_script_hash :: "bytes \<Rightarrow> bytes" where
  "witness_script_hash script = sha256_hash script"

definition p2wpkh_script_code :: "bytes \<Rightarrow> bytes" where
  "p2wpkh_script_code pubkey_hash =
     (let sc = replicate 25 0;
          sc = sc[0 := 0x76];
          sc = sc[1 := 0xA9];
          sc = sc[2 := 0x14];
          sc = memcpy_at sc 3 (take 20 pubkey_hash);
          sc = sc[23 := 0x88]
      in sc[24 := 0xAC])"

section \<open>Witness checks and weight\<close>

definition local_hash160 :: "bytes \<Rightarrow> bytes" where
  "local_hash160 data = accel_hash160 data"

definition validate_p2wpkh_witness :: "witness_stack \<Rightarrow> bytes \<Rightarrow> bool" where
  "validate_p2wpkh_witness witness prog =
     (if length witness \<noteq> 2 then False
      else let pubkey = witness ! 1 in
      if length pubkey \<noteq> 33 then False
      else if pubkey ! 0 \<noteq> 0x02 \<and> pubkey ! 0 \<noteq> 0x03 then False
      else let h = local_hash160 pubkey in take 20 h = take 20 prog)"

definition validate_p2wsh_witness :: "witness_stack \<Rightarrow> bytes \<Rightarrow> bool" where
  "validate_p2wsh_witness witness prog =
     (if witness = [] then False
      else let witness_script = last witness in
      if witness_script = [] then False
      else let h = sha256_hash witness_script in take 32 h = take 32 prog)"

definition size_prefix :: "u64 \<Rightarrow> u64" where
  "size_prefix n = (if n < 253 then 1 else if n \<le> 0xFFFF then 3 else 5)"

definition witness_weight :: "witness_stack \<Rightarrow> u64" where
  "witness_weight witness =
     (let w = 0;
          n = of_nat (length witness);
          w = w + size_prefix n
      in fold (\<lambda>item w.
           let ilen = of_nat (length item);
               w = w + size_prefix ilen
           in w + ilen) witness w)"

section \<open>Scripts and programs\<close>

lemma uint_of_nat_u8: "m < 256 \<Longrightarrow> uint (of_nat m :: u8) = int m"
  by (simp add: uint_nat unat_of_nat)

lemma program_len_uint: "length p \<le> 40 \<Longrightarrow> uint (of_nat (length p) :: u8) = int (length p)"
  by (simp add: uint_nat unat_of_nat)

lemma fixed_scriptpubkeys:
  "length h = 20 \<Longrightarrow> segwit_scriptpubkey_p2wpkh h = segwit_scriptpubkey 0 h"
  "length k = 32 \<Longrightarrow> segwit_scriptpubkey_p2wsh k = segwit_scriptpubkey 0 k"
  "length k = 32 \<Longrightarrow> segwit_scriptpubkey_p2tr k = segwit_scriptpubkey 1 k"
proof -
  have r: "replicate 22 (0 :: u8) = 0 # 0 # replicate 20 0" "replicate 34 (0 :: u8) = 0 # 0 # replicate 32 0"
    by (simp_all add: eval_nat_numeral)
  show "length h = 20 \<Longrightarrow> segwit_scriptpubkey_p2wpkh h = segwit_scriptpubkey 0 h"
    by (simp add: segwit_scriptpubkey_p2wpkh_def segwit_scriptpubkey_def memcpy_at_def r)
  show "length k = 32 \<Longrightarrow> segwit_scriptpubkey_p2wsh k = segwit_scriptpubkey 0 k"
    by (simp add: segwit_scriptpubkey_p2wsh_def segwit_scriptpubkey_def memcpy_at_def r)
  show "length k = 32 \<Longrightarrow> segwit_scriptpubkey_p2tr k = segwit_scriptpubkey 1 k"
    by (simp add: segwit_scriptpubkey_p2tr_def segwit_scriptpubkey_def memcpy_at_def r)
qed

definition program_type :: "u8 \<Rightarrow> nat \<Rightarrow> WitnessProgramType" where
  "program_type v n = (if v = 0 \<and> n = 20 then P2WPKH else if v = 0 \<and> n = 32 then P2WSH
     else if v = 1 \<and> n = 32 then P2TR else WPT_UNKNOWN)"

lemma opcode_version:
  assumes "v \<le> (16 :: u8)"
  shows "v \<noteq> 0 \<Longrightarrow> uint (0x50 + v) = 0x50 + uint v"
    and "v \<noteq> 0 \<Longrightarrow> \<not> (0x50 + v < 0x51 \<or> 0x60 < 0x50 + v) \<and> 0x50 + v \<noteq> 0"
proof -
  have b: "uint v \<le> 16" using assms by (simp add: word_le_def)
  then have e: "uint (0x50 + v) = 0x50 + uint v"
    using uint_bounds(1) [of v] by (simp add: uint_word_ariths)
  then show "uint (0x50 + v) = 0x50 + uint v" .
  assume "v \<noteq> 0"
  then have "uint v \<noteq> 0" by (simp add: word_uint_eq_iff)
  then have "0 < uint v" using uint_bounds(1) [of v] by linarith
  with e b show "\<not> (0x50 + v < 0x51 \<or> 0x60 < 0x50 + v) \<and> 0x50 + v \<noteq> 0"
    by (auto simp: word_less_def word_uint_eq_iff)
qed

lemma is_witness_program_Cons:
  "is_witness_program (a # b # p) \<longleftrightarrow> 2 \<le> length p \<and> length p \<le> 40
     \<and> (a = 0 \<or> 0x51 \<le> a \<and> a \<le> 0x60) \<and> b = of_nat (length p)"
proof (cases "2 \<le> length p \<and> length p \<le> 40")
  case True
  have u: "uint (of_nat (length p + 2) :: u8) = int (length p) + 2"
    using True uint_of_nat_u8 [of "length p + 2"] by linarith
  have n: "uint (of_nat (length p) :: u8) = int (length p)"
    using True program_len_uint by blast
  have b: "b = of_nat (length p) \<longleftrightarrow> \<not> b < 2 \<and> \<not> 40 < b \<and> uint b + 2 = int (length p) + 2"
  proof -
    have "b = of_nat (length p) \<longleftrightarrow> uint b = int (length p)" by (simp only: word_uint_eq_iff n)
    moreover have "b < 2 \<longleftrightarrow> uint b < 2" "40 < b \<longleftrightarrow> 40 < uint b" by (simp_all add: word_less_def)
    ultimately show ?thesis using True by linarith
  qed
  have l: "length (a # b # p) = length p + 2" "(a # b # p) ! 0 = a" "(a # b # p) ! 1 = b" by simp_all
  show ?thesis
    unfolding is_witness_program_def Let_def l u b using True by auto
next
  case False
  then show ?thesis by (auto simp: is_witness_program_def)
qed

lemma is_witness_program_long: "is_witness_program s \<Longrightarrow> \<exists>a b p. s = a # b # p"
  by (cases s rule: remdups_adj.cases) (auto simp: is_witness_program_def)

lemma spk_eq: "2 \<le> length p \<Longrightarrow> length p \<le> 40 \<Longrightarrow> v \<le> 16 \<Longrightarrow>
   segwit_scriptpubkey v p = (if v = 0 then 0 else 0x50 + v) # of_nat (length p) # p"
  by (simp add: segwit_scriptpubkey_def not_less linorder_not_le [symmetric])

lemma parse_Cons:
  assumes "is_witness_program (a # b # p)" "v \<le> 16" "a = (if v = 0 then 0 else 0x50 + v)"
  shows "parse_witness_program (a # b # p) =
    \<lparr>wp_version = uint v, wp_program = p, wp_type = program_type v (length p)\<rparr>"
proof -
  have l: "length p \<le> 40" "b = of_nat (length p)"
    using assms(1) by (simp_all add: is_witness_program_Cons)
  then have "unat b = length p" by (simp add: unat_of_nat)
  moreover have "(if a = 0 then 0 else uint a - 0x50) = uint v"
    using assms(2,3) opcode_version [of v] by auto
  moreover have "uint v = 0 \<longleftrightarrow> v = 0" "uint v = 1 \<longleftrightarrow> v = 1" by (simp_all add: word_uint_eq_iff)
  ultimately show ?thesis
    using assms(1) by (simp add: parse_witness_program_def program_type_def Let_def)
qed

lemma opcode_to_version:
  assumes "a = 0 \<or> (0x51 \<le> a \<and> a \<le> (0x60 :: u8))"
  obtains v where "v \<le> 16" "a = (if v = 0 then 0 else 0x50 + v)"
proof (cases "a = 0")
  case True
  then show ?thesis using that [of 0] by simp
next
  case False
  then have "0x51 \<le> uint a \<and> uint a \<le> 0x60" using assms by (auto simp: word_le_def)
  then have "uint (a - 0x50) = uint a - 0x50" by (simp add: uint_word_ariths)
  then show ?thesis
    using \<open>0x51 \<le> uint a \<and> uint a \<le> 0x60\<close> that [of "a - 0x50"]
    by (auto simp: word_le_def word_uint_eq_iff)
qed

lemma parse_iff:
  "parse_witness_program s = \<lparr>wp_version = uint v, wp_program = p, wp_type = t\<rparr> \<longleftrightarrow>
     v \<le> 16 \<and> 2 \<le> length p \<and> length p \<le> 40 \<and> t = program_type v (length p) \<and> s = segwit_scriptpubkey v p"
proof (cases "is_witness_program s")
  case True
  then obtain a b q where s: "s = a # b # q" using is_witness_program_long by blast
  with True have q: "2 \<le> length q" "length q \<le> 40" "a = 0 \<or> 0x51 \<le> a \<and> a \<le> 0x60" "b = of_nat (length q)"
    by (simp_all add: is_witness_program_Cons)
  from q(3) obtain w where w: "w \<le> 16" "a = (if w = 0 then 0 else 0x50 + w)"
    by (rule opcode_to_version)
  have p: "parse_witness_program s =
      \<lparr>wp_version = uint w, wp_program = q, wp_type = program_type w (length q)\<rparr>"
    using parse_Cons True w unfolding s by blast
  have spk: "s = segwit_scriptpubkey w q" using q w by (simp add: s spk_eq)
  show ?thesis
  proof
    assume "parse_witness_program s = \<lparr>wp_version = uint v, wp_program = p, wp_type = t\<rparr>"
    with p have "v = w" "p = q" "t = program_type w (length q)" by (simp_all add: word_uint_eq_iff)
    with spk q w show "v \<le> 16 \<and> 2 \<le> length p \<and> length p \<le> 40 \<and> t = program_type v (length p)
        \<and> s = segwit_scriptpubkey v p" by simp
  next
    assume r: "v \<le> 16 \<and> 2 \<le> length p \<and> length p \<le> 40 \<and> t = program_type v (length p)
        \<and> s = segwit_scriptpubkey v p"
    then have e: "s = (if v = 0 then 0 else 0x50 + v) # of_nat (length p) # p" by (simp add: spk_eq)
    have "v \<le> 16" "t = program_type v (length p)" using r by blast+
    with parse_Cons [OF True [unfolded e] _ refl] show
      "parse_witness_program s = \<lparr>wp_version = uint v, wp_program = p, wp_type = t\<rparr>"
      unfolding e by blast
  qed
next
  case False
  have "is_witness_program (segwit_scriptpubkey v p)" if "v \<le> 16" "2 \<le> length p" "length p \<le> 40"
    using that opcode_version(2) [of v] by (auto simp: spk_eq is_witness_program_Cons)
  moreover have "-1 \<noteq> uint v" using uint_bounds(1) [of v] by linarith
  ultimately show ?thesis
    using False by (auto simp: parse_witness_program_def)
qed

section \<open>Weights\<close>

lemma fold_add_u64: "fold (\<lambda>x w. w + f x) xs (w :: u64) = w + sum_list (map f xs)"
  by (induction xs arbitrary: w) (simp_all add: add.assoc)

lemma size_prefix_compact:
  "n \<le> 0xFFFFFFFF \<Longrightarrow> of_nat (length (compact n)) = size_prefix n"
  by (simp add: size_prefix_def compact_def)

definition short_stack :: "witness_stack \<Rightarrow> bool" where
  "short_stack stack \<longleftrightarrow> length stack < 2 ^ 32 \<and> (\<forall>item\<in>set stack. length item < 2 ^ 32)"

lemma of_nat_32: "n < 2 ^ 32 \<Longrightarrow> (of_nat n :: u64) \<le> 0xFFFFFFFF"
  by (simp add: word_le_def uint_nat unat_of_nat)

lemma length_sum_u64: "(of_nat (length (concat (map f xs))) :: u64) = sum_list (map (\<lambda>x. of_nat (length (f x))) xs)"
  by (induction xs) simp_all

lemma witness_weight_bytes:
  assumes "short_stack stack"
  shows "witness_weight stack = of_nat (length (stack_bytes stack))"
proof -
  have "map (\<lambda>item. size_prefix (of_nat (length item)) + of_nat (length item)) stack
      = map (\<lambda>item. of_nat (length (var_bytes item))) stack"
    using assms of_nat_32 by (auto simp: short_stack_def var_bytes_def size_prefix_compact [symmetric])
  moreover have "witness_weight stack = size_prefix (of_nat (length stack))
      + sum_list (map (\<lambda>item. size_prefix (of_nat (length item)) + of_nat (length item)) stack)"
    unfolding witness_weight_def Let_def add.assoc fold_add_u64 by simp
  moreover have "(of_nat (length (compact (of_nat (length stack)))) :: u64) = size_prefix (of_nat (length stack))"
    using assms of_nat_32 by (simp add: short_stack_def size_prefix_compact)
  ultimately show ?thesis
    by (simp only: stack_bytes_def counted_def length_append of_nat_add length_sum_u64)
qed

lemma witness_length: "length (witness_serialize tx) =
    length (legacy_serialize tx) + 2 + length (concat (map stack_bytes (input_stacks tx)))"
  by (simp add: witness_bytes legacy_bytes)

lemma weight_formula:
  assumes "\<forall>stack\<in>set (input_stacks tx). short_stack stack"
  shows "tx_weight tx = 4 * of_nat (length (legacy_serialize tx)) + 2
      + sum_list (map witness_weight (input_stacks tx))"
proof -
  have "(\<Sum>stack\<leftarrow>input_stacks tx. of_nat (length (stack_bytes stack)))
      = sum_list (map witness_weight (input_stacks tx))"
    using assms by (auto intro!: arg_cong [where f = sum_list] map_cong simp: witness_weight_bytes)
  then show ?thesis
    unfolding tx_weight_def Let_def witness_length by (simp only: of_nat_add length_sum_u64) simp
qed

lemma vsize_formula:
  assumes "unat (tx_weight tx) + 3 < 2 ^ 64"
  shows "unat (tx_vsize tx) = (unat (tx_weight tx) + 3) div 4"
proof -
  have "unat (tx_weight tx + 3) = unat (tx_weight tx) + 3"
    using assms by (simp add: unat_word_ariths)
  then show ?thesis by (simp add: tx_vsize_def Let_def unat_div_distrib)
qed

lemma validate_p2wpkh_iff:
  "length prog = 20 \<Longrightarrow> validate_p2wpkh_witness witness prog \<longleftrightarrow>
    (\<exists>sig pk. witness = [sig, pk] \<and> length pk = 33 \<and> (pk ! 0 = 2 \<or> pk ! 0 = 3) \<and> hash160 pk = prog)"
  by (auto simp: validate_p2wpkh_witness_def local_hash160_def accel_hash160_eq Let_def length_Suc_conv
      numeral_2_eq_2 split: if_splits)

lemma validate_p2wsh_iff:
  "length prog = 32 \<Longrightarrow> validate_p2wsh_witness witness prog \<longleftrightarrow>
    (\<exists>items script. witness = items @ [script] \<and> script \<noteq> [] \<and> sha256_hash script = prog)"
  by (cases witness rule: rev_cases) (auto simp: validate_p2wsh_witness_def Let_def)

section \<open>Properties\<close>

text \<open>a script parses as a witness program of a version, a program and a type exactly when it is
  the script that \<open>segwit_scriptpubkey\<close> builds from a version up to 16 and 2 to 40 program bytes, and
  the type is the one BIP-141 and BIP-341 give them; the three fixed-size constructors are instances,
  and every other script yields the version -1 and the type NONE.\<close>
theorem witness_program_parse_iff:
  "(parse_witness_program s = \<lparr>wp_version = uint v, wp_program = p, wp_type = t\<rparr> \<longleftrightarrow>
      v \<le> 16 \<and> 2 \<le> length p \<and> length p \<le> 40 \<and> t = program_type v (length p)
      \<and> s = segwit_scriptpubkey v p)
   \<and> (is_witness_program s \<longleftrightarrow> parse_witness_program s \<noteq>
      \<lparr>wp_version = -1, wp_program = [], wp_type = WPT_NONE\<rparr>)
   \<and> segwit_scriptpubkey_p2wpkh (take 20 (h @ replicate 20 0))
      = segwit_scriptpubkey 0 (take 20 (h @ replicate 20 0))
   \<and> segwit_scriptpubkey_p2wsh (take 32 (h @ replicate 32 0))
      = segwit_scriptpubkey 0 (take 32 (h @ replicate 32 0))
   \<and> segwit_scriptpubkey_p2tr (take 32 (h @ replicate 32 0))
      = segwit_scriptpubkey 1 (take 32 (h @ replicate 32 0))"
  by (intro conjI parse_iff fixed_scriptpubkeys) (auto simp: parse_witness_program_def Let_def)

text \<open>the weight of a transaction is four times its stripped size plus the two marker bytes plus
  the witness weights of its inputs (as 64-bit numbers, for stacks and items below 2^32 entries), and
  the virtual size is a quarter of the weight, rounded up.\<close>
theorem tx_weight_spec:
  assumes "\<forall>stack\<in>set (input_stacks tx). short_stack stack" "unat (tx_weight tx) + 3 < 2 ^ 64"
  shows "tx_weight tx = 4 * of_nat (length (legacy_serialize tx)) + 2
      + sum_list (map witness_weight (input_stacks tx))
    \<and> unat (tx_vsize tx) = (unat (tx_weight tx) + 3) div 4"
  using weight_formula vsize_formula assms by blast

theorem tx_weight_spec_witness:
  "tx_weight \<lparr>tx_version = 2, tx_inputs = [\<lparr>prev_txid = replicate 32 7, prev_vout = 1,
      script_sig = [], in_sequence = 5\<rparr>], tx_outputs = [], tx_witness = [[[1, 2]]], tx_locktime = 0\<rparr> = 4 * 51 + 2 + 4"
proof -
  let ?tx = "\<lparr>tx_version = 2, tx_inputs = [\<lparr>prev_txid = replicate 32 7, prev_vout = 1,
      script_sig = [], in_sequence = 5\<rparr>], tx_outputs = [], tx_witness = [[[1, 2]]], tx_locktime = 0\<rparr>"
  have s: "input_stacks ?tx = [[[1, 2]]]" by (simp add: input_stacks_def)
  have l: "length (legacy_serialize ?tx) = 51"
    by (simp add: legacy_bytes counted_def compact_def input_bytes_def var_bytes_def)
  have "length (witness_serialize ?tx) = 57"
    by (simp add: witness_length l s stack_bytes_def counted_def compact_def var_bytes_def)
  then have "unat (tx_weight ?tx) + 3 < 2 ^ 64"
    by (simp add: tx_weight_def l Let_def)
  with tx_weight_spec [of ?tx] show ?thesis
    by (simp add: s l short_stack_def witness_weight_def size_prefix_def)
qed

text \<open>the pieces of a SegWit payment fit together: the program in a P2WPKH address is the one its
  script carries, its type is recognised, and the witness check accepts exactly the two-item stacks
  whose compressed key hashes to it, the owner's among them; likewise for P2WSH with the last item as
  the script. Here \<open>pk\<close> is the owner's compressed key.\<close>
theorem segwit_payment:
  fixes net :: Network
  assumes "length (to_compressed pk) = 33" "to_compressed pk ! 0 = 2 \<or> to_compressed pk ! 0 = 3" "script \<noteq> []"
  defines "kp \<equiv> br_witness_program (bech32_decode (address_p2wpkh to_compressed pk net))"
    and "sp \<equiv> br_witness_program (bech32_decode (address_p2wsh (witness_script_hash script) net))"
  shows "parse_witness_program (segwit_scriptpubkey_p2wpkh kp)
      = \<lparr>wp_version = 0, wp_program = hash160 (to_compressed pk), wp_type = P2WPKH\<rparr>
    \<and> validate_p2wpkh_witness [sig, to_compressed pk] kp
    \<and> (validate_p2wpkh_witness witness kp \<longleftrightarrow> (\<exists>sig k. witness = [sig, k] \<and> length k = 33
        \<and> (k ! 0 = 2 \<or> k ! 0 = 3) \<and> hash160 k = hash160 (to_compressed pk)))
    \<and> parse_witness_program (segwit_scriptpubkey_p2wsh sp)
      = \<lparr>wp_version = 0, wp_program = sha256_hash script, wp_type = P2WSH\<rparr>
    \<and> validate_p2wsh_witness (items @ [script]) sp
    \<and> (validate_p2wsh_witness witness sp \<longleftrightarrow> (\<exists>items s. witness = items @ [s] \<and> s \<noteq> []
        \<and> sha256_hash s = sha256_hash script))"
proof -
  have p: "kp = hash160 (to_compressed pk)" "sp = sha256_hash script"
    using segwit_decoded [of "sha256_hash script" "replicate 32 0" to_compressed pk net]
    by (simp_all add: kp_def sp_def witness_script_hash_def)
  have "parse_witness_program (segwit_scriptpubkey 0 (hash160 (to_compressed pk)))
      = \<lparr>wp_version = uint (0 :: u8), wp_program = hash160 (to_compressed pk), wp_type = P2WPKH\<rparr>"
    "parse_witness_program (segwit_scriptpubkey 0 (sha256_hash script))
      = \<lparr>wp_version = uint (0 :: u8), wp_program = sha256_hash script, wp_type = P2WSH\<rparr>"
    by (simp_all only: parse_iff) (simp_all add: program_type_def)
  then show ?thesis
    unfolding p using assms(1-3) by (simp add: fixed_scriptpubkeys validate_p2wpkh_iff validate_p2wsh_iff)
qed

theorem segwit_payment_witness:
  "validate_p2wpkh_witness [[9], replicate 33 2]
     (br_witness_program (bech32_decode (address_p2wpkh (\<lambda>p. p) (replicate 33 2) Testnet)))"
  using segwit_payment [of "\<lambda>p. p" "replicate 33 2" "[1]" Testnet "[9]" "[]" "[]"] by simp

end
