(* ===== verification/Sighash.thy ===== *)
theory Sighash
  imports Transactions
begin

text \<open>
  \<open>bip143.cpp\<close>: the three shared hashes and the signature hash of a version-0 witness
  input, streamed into a SHA-256 context field by field, against the double SHA-256 of one
  message; and what that message commits to.
\<close>

section \<open>Data (bip143.hpp)\<close>

record Outpoint =
  op_txid :: bytes
  op_vout :: u32

record TxOutput =
  o_value :: u64
  o_script :: bytes

record Bip143Preimage =
  pre_version :: u32
  hash_prevouts :: bytes
  hash_sequence :: bytes
  hash_outputs :: bytes
  pre_locktime :: u32

section \<open>The code (bip143.cpp)\<close>

definition put_le32 :: "u32 \<Rightarrow> bytes" where
  "put_le32 v = [ucast v, ucast (drop_bit 8 v), ucast (drop_bit 16 v), ucast (drop_bit 24 v)]"

definition put_le64 :: "u64 \<Rightarrow> bytes" where
  "put_le64 v = [ucast v, ucast (drop_bit 8 v), ucast (drop_bit 16 v), ucast (drop_bit 24 v),
     ucast (drop_bit 32 v), ucast (drop_bit 40 v), ucast (drop_bit 48 v), ucast (drop_bit 56 v)]"

definition bip143_hash_prevouts :: "Outpoint list \<Rightarrow> bytes" where
  "bip143_hash_prevouts outpoints =
     (let ctx = fold (\<lambda>out ctx.
            let ctx = sha256_update ctx (op_txid out) in sha256_update ctx (put_le32 (op_vout out)))
          outpoints sha256_new;
          h1 = fst (sha256_finalize ctx)
      in sha256_hash h1)"

definition bip143_hash_sequence :: "u32 list \<Rightarrow> bytes" where
  "bip143_hash_sequence sequences =
     (let ctx = fold (\<lambda>s ctx. sha256_update ctx (put_le32 s)) sequences sha256_new;
          h1 = fst (sha256_finalize ctx)
      in sha256_hash h1)"

text \<open>The CompactSize length that precedes a script, written inline at both places.\<close>

definition update_script_len :: "sha256 \<Rightarrow> u64 \<Rightarrow> sha256" where
  "update_script_len ctx slen =
     (if slen < 253 then sha256_update ctx [ucast slen]
      else if slen \<le> 0xFFFF then
        let ctx = sha256_update ctx [0xFD]
        in sha256_update ctx [ucast (slen AND 0xFF), ucast (drop_bit 8 slen AND 0xFF)]
      else
        let ctx = sha256_update ctx [0xFE] in sha256_update ctx (put_le32 (ucast slen)))"

definition bip143_hash_outputs :: "TxOutput list \<Rightarrow> bytes" where
  "bip143_hash_outputs outputs =
     (let ctx = fold (\<lambda>out ctx.
            let ctx = sha256_update ctx (put_le64 (o_value out));
                ctx = update_script_len ctx (of_nat (length (o_script out)))
            in sha256_update ctx (o_script out))
          outputs sha256_new;
          h1 = fst (sha256_finalize ctx)
      in sha256_hash h1)"

definition bip143_build_preimage ::
  "u32 \<Rightarrow> Outpoint list \<Rightarrow> u32 list \<Rightarrow> TxOutput list \<Rightarrow> u32 \<Rightarrow> Bip143Preimage" where
  "bip143_build_preimage version outpoints sequences outputs locktime =
     \<lparr>pre_version = version, hash_prevouts = bip143_hash_prevouts outpoints,
      hash_sequence = bip143_hash_sequence sequences, hash_outputs = bip143_hash_outputs outputs,
      pre_locktime = locktime\<rparr>"

definition SIGHASH_NONE :: u32 where "SIGHASH_NONE = 0x02"
definition SIGHASH_SINGLE :: u32 where "SIGHASH_SINGLE = 0x03"
definition SIGHASH_ANYONECANPAY :: u32 where "SIGHASH_ANYONECANPAY = 0x80"

definition bip143_sighash ::
  "Bip143Preimage \<Rightarrow> Outpoint \<Rightarrow> bytes \<Rightarrow> u64 \<Rightarrow> u32 \<Rightarrow> u32 \<Rightarrow> bytes" where
  "bip143_sighash preimage outpoint script_code value_sat seqn sighash_type =
     (let base_type = sighash_type AND 0x1F;
          anyone = (sighash_type AND SIGHASH_ANYONECANPAY \<noteq> 0);
          zeros = replicate 32 0;
          ctx = sha256_new;
          ctx = sha256_update ctx (put_le32 (pre_version preimage));
          ctx = (if \<not> anyone then sha256_update ctx (hash_prevouts preimage)
                 else sha256_update ctx zeros);
          ctx = (if \<not> anyone \<and> base_type \<noteq> SIGHASH_NONE \<and> base_type \<noteq> SIGHASH_SINGLE
                 then sha256_update ctx (hash_sequence preimage)
                 else sha256_update ctx zeros);
          ctx = sha256_update ctx (op_txid outpoint);
          ctx = sha256_update ctx (put_le32 (op_vout outpoint));
          ctx = update_script_len ctx (of_nat (length script_code));
          ctx = sha256_update ctx script_code;
          ctx = sha256_update ctx (put_le64 value_sat);
          ctx = sha256_update ctx (put_le32 seqn);
          ctx = (if base_type \<noteq> SIGHASH_NONE then sha256_update ctx (hash_outputs preimage)
                 else sha256_update ctx zeros);
          ctx = sha256_update ctx (put_le32 (pre_locktime preimage));
          ctx = sha256_update ctx (put_le32 sighash_type);
          h1 = fst (sha256_finalize ctx)
      in sha256_hash h1)"

definition bip143_p2wpkh_script_code :: "bytes \<Rightarrow> bytes" where
  "bip143_p2wpkh_script_code pubkey_hash =
     (let sc = replicate 25 0;
          sc = sc[0 := 0x76];
          sc = sc[1 := 0xA9];
          sc = sc[2 := 0x14];
          sc = memcpy_at sc 3 (take 20 pubkey_hash);
          sc = sc[23 := 0x88]
      in sc[24 := 0xAC])"

section \<open>The message that is hashed\<close>

definition outpoint_bytes :: "Outpoint \<Rightarrow> bytes" where
  "outpoint_bytes out = op_txid out @ le_bytes 4 (uint (op_vout out))"

definition txout_bytes :: "TxOutput \<Rightarrow> bytes" where
  "txout_bytes out = output_bytes \<lparr>out_value = o_value out, script_pubkey = o_script out\<rparr>"

definition covers_inputs :: "u32 \<Rightarrow> bool" where
  "covers_inputs ht \<longleftrightarrow> ht AND SIGHASH_ANYONECANPAY = 0"

definition covers_sequences :: "u32 \<Rightarrow> bool" where
  "covers_sequences ht \<longleftrightarrow> covers_inputs ht \<and> ht AND 0x1F \<noteq> SIGHASH_NONE \<and> ht AND 0x1F \<noteq> SIGHASH_SINGLE"

definition covers_outputs :: "u32 \<Rightarrow> bool" where
  "covers_outputs ht \<longleftrightarrow> ht AND 0x1F \<noteq> SIGHASH_NONE"

definition or_zeros :: "bool \<Rightarrow> bytes \<Rightarrow> bytes" where
  "or_zeros b h = (if b then h else replicate 32 0)"

text \<open>The ten fields as the code hashes them. For SIGHASH_SINGLE field 8 is whatever the caller has left in
  \<open>hash_outputs\<close>; what BIP-143 asks for there is \<open>bip143_outputs_hash\<close> below.\<close>

definition sighash_message ::
  "Bip143Preimage \<Rightarrow> Outpoint \<Rightarrow> bytes \<Rightarrow> u64 \<Rightarrow> u32 \<Rightarrow> u32 \<Rightarrow> bytes" where
  "sighash_message pre out sc v s ht =
     le_bytes 4 (uint (pre_version pre)) @ or_zeros (covers_inputs ht) (hash_prevouts pre)
     @ or_zeros (covers_sequences ht) (hash_sequence pre) @ outpoint_bytes out @ var_bytes sc
     @ le_bytes 8 (uint v) @ le_bytes 4 (uint s) @ or_zeros (covers_outputs ht) (hash_outputs pre)
     @ le_bytes 4 (uint (pre_locktime pre)) @ le_bytes 4 (uint ht)"

text \<open>The digest of BIP-143 for input \<open>i\<close> of a transaction, from the whole transaction: the shared hashes
  and the output that the hash type selects are part of the definition.\<close>

definition bip143_outputs_hash :: "u32 \<Rightarrow> TxOutput list \<Rightarrow> nat \<Rightarrow> bytes" where
  "bip143_outputs_hash ht outputs i =
     (if ht AND 0x1F = SIGHASH_SINGLE
      then if i < length outputs then hash256 (txout_bytes (outputs ! i)) else replicate 32 0
      else if ht AND 0x1F = SIGHASH_NONE then replicate 32 0
      else hash256 (concat (map txout_bytes outputs)))"

definition bip143_digest ::
  "u32 \<Rightarrow> Outpoint list \<Rightarrow> u32 list \<Rightarrow> TxOutput list \<Rightarrow> u32 \<Rightarrow> nat \<Rightarrow> bytes \<Rightarrow> u64 \<Rightarrow> u32 \<Rightarrow> bytes" where
  "bip143_digest version outpoints sequences outputs locktime i sc v ht =
     hash256 (le_bytes 4 (uint version)
       @ or_zeros (covers_inputs ht) (hash256 (concat (map outpoint_bytes outpoints)))
       @ or_zeros (covers_sequences ht) (hash256 (concat (map (\<lambda>s. le_bytes 4 (uint s)) sequences)))
       @ outpoint_bytes (outpoints ! i) @ var_bytes sc @ le_bytes 8 (uint v) @ le_bytes 4 (uint (sequences ! i))
       @ bip143_outputs_hash ht outputs i @ le_bytes 4 (uint locktime) @ le_bytes 4 (uint ht))"

text \<open>What a caller has to store in \<open>hash_outputs\<close> before signing with SIGHASH_SINGLE.\<close>

definition single_output_preimage :: "Bip143Preimage \<Rightarrow> TxOutput list \<Rightarrow> nat \<Rightarrow> Bip143Preimage" where
  "single_output_preimage pre outputs i =
     pre\<lparr>hash_outputs := (if i < length outputs then bip143_hash_outputs [outputs ! i] else replicate 32 0)\<rparr>"

section \<open>Streaming and concatenating are the same\<close>

abbreviation hashing :: "sha256 \<Rightarrow> bytes \<Rightarrow> bool" where
  "hashing \<equiv> sha.represents SHA256_IV"

lemma hashing_new: "hashing sha256_new []"
  by (rule sha.init_represents_Nil)

lemma hashing_fold:
  assumes "hashing c msg"
    and "\<And>x c msg. x \<in> set xs \<Longrightarrow> hashing c msg \<Longrightarrow> hashing (f x c) (msg @ g x)"
  shows "hashing (fold f xs c) (msg @ concat (map g xs))"
  using assms
proof (induction xs arbitrary: c msg)
  case (Cons x xs)
  from Cons.IH [of "f x c" "msg @ g x"] Cons.prems show ?case by simp
qed simp

lemma hashing_final: "hashing c msg \<Longrightarrow> sha256_hash (fst (sha256_finalize c)) = hash256 msg"
  by (simp add: hash256_def sha256_hash_digest sha.fin_represents Let_def)

lemma put_le32_bytes: "put_le32 v = le_bytes 4 (uint v)"
  by (simp only: put_le32_def le32_bytes)

lemma put_le64_bytes: "put_le64 v = le_bytes 8 (uint v)"
  by (simp only: put_le64_def le64_bytes)

lemma hashing_two: "hashing c msg \<Longrightarrow> hashing (sha256_update (sha256_update c x) y) (msg @ x @ y)"
  using sha.represents_upd [OF sha.represents_upd] by simp

lemma hashing_script_len:
  assumes "hashing c msg" "n \<le> 0xFFFFFFFF"
  shows "hashing (update_script_len c n) (msg @ compact n)"
proof -
  have e: "compact n = ser_compact_size [] n" by (simp add: ser_compact_size_app)
  show ?thesis
    using assms(2) sha.represents_upd [OF assms(1), of "[ucast n]"]
      hashing_two [OF assms(1), of "[0xFD]" "[ucast (n AND 0xFF), ucast (drop_bit 8 n AND 0xFF)]"]
      hashing_two [OF assms(1), of "[0xFE]" "put_le32 (ucast n)"]
    by (simp add: e update_script_len_def ser_compact_size_def ser_le32_def put_le32_def)
qed

lemma script_len_ok: "length sc < 2 ^ 32 \<Longrightarrow> (of_nat (length sc) :: u64) \<le> 0xFFFFFFFF"
  by (simp add: word_le_def uint_nat unat_of_nat)

lemma hash_prevouts_message: "bip143_hash_prevouts outpoints = hash256 (concat (map outpoint_bytes outpoints))"
  unfolding bip143_hash_prevouts_def Let_def
  by (rule hashing_final, rule hashing_fold [OF hashing_new, simplified])
    (simp add: outpoint_bytes_def put_le32_bytes hashing_two)

lemma hash_sequence_message:
  "bip143_hash_sequence sequences = hash256 (concat (map (\<lambda>s. le_bytes 4 (uint s)) sequences))"
  unfolding bip143_hash_sequence_def Let_def
  by (rule hashing_final, rule hashing_fold [OF hashing_new, simplified])
    (simp add: put_le32_bytes sha.represents_upd)

lemma hashing_txout:
  assumes "hashing c msg" "length (o_script out) < 2 ^ 32"
  shows "hashing (sha256_update (update_script_len (sha256_update c (put_le64 (o_value out)))
    (of_nat (length (o_script out)))) (o_script out)) (msg @ txout_bytes out)"
  using sha.represents_upd [OF hashing_script_len [OF sha.represents_upd [OF assms(1)]
      script_len_ok [OF assms(2)]], of "put_le64 (o_value out)" "o_script out"]
  by (simp add: txout_bytes_def output_bytes_def var_bytes_def put_le64_bytes)

lemma hash_outputs_message:
  "\<forall>out\<in>set outputs. length (o_script out) < 2 ^ 32 \<Longrightarrow>
   bip143_hash_outputs outputs = hash256 (concat (map txout_bytes outputs))"
  unfolding bip143_hash_outputs_def Let_def
  by (rule hashing_final, rule hashing_fold [OF hashing_new, simplified]) (blast intro: hashing_txout)

lemma update_or_zeros: "(if b then sha256_update c h else sha256_update c (replicate 32 0))
    = sha256_update c (or_zeros b h)"
  by (simp add: or_zeros_def)

lemma sighash_of_message:
  assumes "length sc < 2 ^ 32"
  shows "bip143_sighash pre out sc v s ht = hash256 (sighash_message pre out sc v s ht)"
  unfolding bip143_sighash_def Let_def update_or_zeros
  by (rule trans, rule hashing_final,
      (rule sha.represents_upd hashing_script_len hashing_new script_len_ok assms)+)
    (simp add: sighash_message_def outpoint_bytes_def var_bytes_def put_le32_bytes put_le64_bytes
      covers_inputs_def covers_sequences_def covers_outputs_def)

section \<open>What the message commits to\<close>

definition preimage_ok :: "Bip143Preimage \<Rightarrow> bool" where
  "preimage_ok pre \<longleftrightarrow> length (hash_prevouts pre) = 32 \<and> length (hash_sequence pre) = 32
     \<and> length (hash_outputs pre) = 32"

definition same_covered :: "u32 \<Rightarrow> Bip143Preimage \<Rightarrow> Bip143Preimage \<Rightarrow> bool" where
  "same_covered ht p q \<longleftrightarrow> pre_version p = pre_version q \<and> pre_locktime p = pre_locktime q
     \<and> (covers_inputs ht \<longrightarrow> hash_prevouts p = hash_prevouts q)
     \<and> (covers_sequences ht \<longrightarrow> hash_sequence p = hash_sequence q)
     \<and> (covers_outputs ht \<longrightarrow> hash_outputs p = hash_outputs q)"

lemma length_or_zeros [simp]: "length h = 32 \<Longrightarrow> length (or_zeros b h) = 32"
  by (simp add: or_zeros_def)

lemma length_outpoint_bytes [simp]: "length (op_txid out) = 32 \<Longrightarrow> length (outpoint_bytes out) = 36"
  by (simp add: outpoint_bytes_def)

lemma outpoint_bytes_inj:
  "length (op_txid a) = 32 \<Longrightarrow> length (op_txid b) = 32 \<Longrightarrow> outpoint_bytes a = outpoint_bytes b \<longleftrightarrow> a = b"
  by (auto simp: outpoint_bytes_def field_inj)

lemma or_zeros_eq: "or_zeros b h = or_zeros b h' \<longleftrightarrow> (b \<longrightarrow> h = h')"
  by (simp add: or_zeros_def)

lemma last_field:
  assumes "length a = length b" "xs @ a = ys @ b"
  shows "xs = ys \<and> a = b"
  using assms by simp

lemmas var_bytes_inj = var_bytes_delimited [where r = "[]" and s = "[]", simplified]

lemma message_determines:
  assumes "preimage_ok p" "preimage_ok q" "length (op_txid a) = 32" "length (op_txid b) = 32"
    "length sc < 2 ^ 64" "length sc' < 2 ^ 64"
  shows "sighash_message p a sc v s ht = sighash_message q b sc' v' s' ht' \<longleftrightarrow>
    ht = ht' \<and> a = b \<and> sc = sc' \<and> v = v' \<and> s = s' \<and> same_covered ht p q"
proof (cases "ht = ht'")
  case True
  with assms show ?thesis
    by (auto simp: sighash_message_def preimage_ok_def field_inj var_bytes_delimited var_bytes_inj
        outpoint_bytes_inj or_zeros_eq same_covered_def)
next
  case False
  have "\<exists>m. sighash_message x c z w r t = m @ le_bytes 4 (uint t)" for x c z w r t
    unfolding sighash_message_def by (metis append.assoc)
  then obtain m m' where "sighash_message p a sc v s ht = m @ le_bytes 4 (uint ht)"
    "sighash_message q b sc' v' s' ht' = m' @ le_bytes 4 (uint ht')" by metis
  with False show ?thesis by (simp add: field_inj)
qed

section \<open>Properties\<close>

text \<open>C14: for every hash type but SINGLE, the streamed hash of input \<open>i\<close> over the preimage built from the
  transaction is the digest BIP-143 defines from that transaction. For SINGLE it is so when the caller
  has replaced the stored outputs hash by that of the output with the same index, or zeros if there is
  none; with the preimage as it is built it commits to all outputs instead.\<close>
theorem bip143_sighash_spec:
  fixes version locktime ht :: u32 and outpoints :: "Outpoint list" and sequences :: "u32 list"
  assumes "length sc < 2 ^ 32" "\<forall>out\<in>set outputs. length (o_script out) < 2 ^ 32"
  defines "pre \<equiv> bip143_build_preimage version outpoints sequences outputs locktime"
  shows "(ht AND 0x1F \<noteq> SIGHASH_SINGLE \<longrightarrow>
      bip143_sighash pre (outpoints ! i) sc v (sequences ! i) ht
        = bip143_digest version outpoints sequences outputs locktime i sc v ht)
    \<and> (ht AND 0x1F = SIGHASH_SINGLE \<longrightarrow>
      bip143_sighash (single_output_preimage pre outputs i) (outpoints ! i) sc v (sequences ! i) ht
        = bip143_digest version outpoints sequences outputs locktime i sc v ht
      \<and> hash_outputs pre = hash256 (concat (map txout_bytes outputs)))"
proof -
  have "bip143_hash_outputs [outputs ! i] = hash256 (txout_bytes (outputs ! i))" if "i < length outputs"
    using hash_outputs_message [of "[outputs ! i]"] assms(2) that by simp
  moreover have "SIGHASH_SINGLE \<noteq> SIGHASH_NONE" by (simp add: SIGHASH_SINGLE_def SIGHASH_NONE_def)
  ultimately show ?thesis
    by (simp add: pre_def bip143_build_preimage_def single_output_preimage_def sighash_of_message [OF assms(1)]
        sighash_message_def bip143_digest_def bip143_outputs_hash_def hash_prevouts_message hash_sequence_message
        hash_outputs_message [OF assms(2)] covers_outputs_def or_zeros_def)
qed

theorem bip143_sighash_spec_witness:
  "let ops = [\<lparr>op_txid = replicate 32 1, op_vout = 0\<rparr>, \<lparr>op_txid = replicate 32 2, op_vout = 7\<rparr>];
       outs = [\<lparr>o_value = 5, o_script = [0x51]\<rparr>]; pre = bip143_build_preimage 2 ops [1, 2] outs 0
   in bip143_sighash pre (ops ! 1) [0x52] 9 ([1, 2] ! 1) 0x81 = bip143_digest 2 ops [1, 2] outs 0 1 [0x52] 9 0x81
    \<and> bip143_sighash (single_output_preimage pre outs 1) (ops ! 1) [0x52] 9 ([1, 2] ! 1) 3
        = bip143_digest 2 ops [1, 2] outs 0 1 [0x52] 9 3"
  using bip143_sighash_spec [where sc = "[0x52]" and outputs = "[\<lparr>o_value = 5, o_script = [0x51]\<rparr>]" and ht = "0x81" and version = 2
      and locktime = 0 and sequences = "[1, 2]" and i = 1 and v = 9]
    bip143_sighash_spec [where sc = "[0x52]" and outputs = "[\<lparr>o_value = 5, o_script = [0x51]\<rparr>]" and ht = "3" and version = 2
      and locktime = 0 and sequences = "[1, 2]" and i = 1 and v = 9]
  by (simp add: Let_def SIGHASH_SINGLE_def)

text \<open>the hashed message commits to everything the hash type covers: two messages are equal exactly
  when hash type, outpoint, script code, amount, sequence, version, lock time and the covered shared
  hashes are equal, so no two different signing requests produce the same message.\<close>
theorem bip143_message_commits:
  assumes "preimage_ok p" "preimage_ok q" "length (op_txid a) = 32" "length (op_txid b) = 32"
    "length sc < 2 ^ 64" "length sc' < 2 ^ 64"
  shows "sighash_message p a sc v s ht = sighash_message q b sc' v' s' ht' \<longleftrightarrow>
    ht = ht' \<and> a = b \<and> sc = sc' \<and> v = v' \<and> s = s' \<and> same_covered ht p q"
  by (rule message_determines [OF assms])

theorem bip143_message_commits_witness:
  "\<forall>v s v' s'. sighash_message \<lparr>pre_version = 2, hash_prevouts = replicate 32 1, hash_sequence = replicate 32 2,
        hash_outputs = replicate 32 3, pre_locktime = 0\<rparr>
       \<lparr>op_txid = replicate 32 4, op_vout = 0\<rparr> [5] v s 1
     = sighash_message \<lparr>pre_version = 2, hash_prevouts = replicate 32 1, hash_sequence = replicate 32 2,
        hash_outputs = replicate 32 3, pre_locktime = 0\<rparr>
       \<lparr>op_txid = replicate 32 4, op_vout = 0\<rparr> [5] v' s' 1
   \<longleftrightarrow> v = v' \<and> s = s'"
  by (intro allI, subst bip143_message_commits) (simp_all add: preimage_ok_def same_covered_def)

end
