(* ===== verification/Cashaddr.thy ===== *)
theory Cashaddr
  imports Addresses
begin

text \<open>
  \<open>bch/src/cashaddr.cpp\<close>: the CashAddr encoder and decoder of the Bitcoin Cash module.
  The checksum and the regrouping are its own copies; they are shown equal to those of
  \<open>address.cpp\<close>, so its interpretation of the BCH code locale serves here too.
\<close>

section \<open>The code\<close>

datatype BchNetwork = BchMainnet | BchTestnet | BchChipnet | BchRegtest
datatype AddrType = AT_P2PKH | AT_P2SH | AT_P2SH32

record CashAddr =
  ca_hash :: bytes
  ca_hash_len :: nat
  ca_type :: AddrType
  ca_network :: BchNetwork

fun network_prefix :: "BchNetwork \<Rightarrow> string" where
  "network_prefix BchMainnet = ''bitcoincash''"
| "network_prefix BchTestnet = ''bchtest''"
| "network_prefix BchChipnet = ''chipnet''"
| "network_prefix BchRegtest = ''bchreg''"

definition bch_polymod_step :: "u64 \<Rightarrow> u8 \<Rightarrow> u64" where
  "bch_polymod_step c d =
     (let c0 = (ucast (drop_bit 35 c) :: u8);
          c = push_bit 5 (c AND 0x07ffffffff) XOR ucast d
      in foldl (\<lambda>c j. if drop_bit j c0 AND 1 \<noteq> 0 then c XOR CASHADDR_GEN ! j else c) c [0..<5])"

definition bch_polymod :: "bytes \<Rightarrow> u64" where
  "bch_polymod data = foldl bch_polymod_step 1 data XOR 1"

fun bch_convert_loop :: "nat \<Rightarrow> nat \<Rightarrow> bytes \<Rightarrow> i32 \<Rightarrow> nat \<Rightarrow> bytes \<Rightarrow> i32 \<times> nat \<times> bytes" where
  "bch_convert_loop from_bits to_bits [] acc bits out = (acc, bits, out)"
| "bch_convert_loop from_bits to_bits (d # data) acc bits out =
     (let acc = push_bit from_bits acc OR ucast d;
          bits = bits + from_bits;
          (bits, out) = emit_groups acc to_bits bits out
      in bch_convert_loop from_bits to_bits data acc bits out)"

definition bch_convert_bits :: "bytes \<Rightarrow> bytes \<Rightarrow> nat \<Rightarrow> nat \<Rightarrow> bool \<Rightarrow> bytes" where
  "bch_convert_bits out data from_bits to_bits pad =
     (let maxv = push_bit to_bits 1 - 1;
          (acc, bits, out) = bch_convert_loop from_bits to_bits data 0 0 out
      in if pad \<and> bits > 0 then out @ [ucast (push_bit (to_bits - bits) acc AND maxv)] else out)"

definition prefix_values :: "string \<Rightarrow> bytes" where
  "prefix_values prefix = map (\<lambda>c. uchar c AND 0x1f) prefix @ [0]"

definition bch_cashaddr_encode :: "bytes \<Rightarrow> AddrType \<Rightarrow> BchNetwork \<Rightarrow> string" where
  "bch_cashaddr_encode hash type network =
     (let version = (case type of AT_P2PKH \<Rightarrow> 0x00 | AT_P2SH \<Rightarrow> 0x08 | AT_P2SH32 \<Rightarrow> 0x28);
          version = (if length hash = 20 then version OR 0x00
                     else if length hash = 32 then version OR 0x03 else version);
          payload = version # hash;
          data5 = bch_convert_bits [] payload 8 5 True;
          pfx = network_prefix network;
          chk_input = prefix_values pfx @ data5 @ replicate 8 0;
          checksum = bch_polymod chk_input
      in pfx @ '':'' @ map (\<lambda>v. CASHADDR_CHARSET ! unat v) data5
         @ map (\<lambda>i. CASHADDR_CHARSET ! unat (drop_bit (5 * i) checksum AND 0x1f)) (rev [0..<8]))"

fun bch_read_symbols :: "string \<Rightarrow> bytes option" where
  "bch_read_symbols [] = Some []"
| "bch_read_symbols (c # cs) =
     (case strchr CASHADDR_CHARSET (to_lower c) of
        None \<Rightarrow> None
      | Some p \<Rightarrow> map_option (\<lambda>d. of_nat p # d) (bch_read_symbols cs))"

fun split_colon :: "string \<Rightarrow> (string \<times> string) option" where
  "split_colon [] = None"
| "split_colon (c # cs) = (if c = CHR '':'' then Some ([], cs)
     else map_option (\<lambda>(p, r). (c # p, r)) (split_colon cs))"

definition prefix_network :: "string \<Rightarrow> BchNetwork option" where
  "prefix_network prefix =
     (if prefix = ''bitcoincash'' then Some BchMainnet
      else if prefix = ''bchtest'' then Some BchTestnet
      else if prefix = ''chipnet'' then Some BchChipnet
      else if prefix = ''bchreg'' then Some BchRegtest
      else None)"

definition bch_cashaddr_decode :: "string \<Rightarrow> CashAddr option" where
  "bch_cashaddr_decode addr =
     (let (prefix, payload_str) = (case split_colon addr of
            None \<Rightarrow> (''bitcoincash'', addr) | Some pr \<Rightarrow> pr)
      in case bch_read_symbols payload_str of
           None \<Rightarrow> None
         | Some data5 \<Rightarrow>
             if length data5 < 8 then None
             else if bch_polymod (prefix_values prefix @ data5) \<noteq> 0 then None
             else
               let data5 = take (length data5 - 8) data5;
                   decoded = bch_convert_bits [] data5 5 8 False
               in if decoded = [] then None
                  else
                    let version = decoded ! 0;
                        type_bits = drop_bit 3 version AND 0x1f;
                        size_bits = version AND 0x07;
                        hash_len = (if size_bits < 3 then 20 else 32);
                        type = (if type_bits = 0x00 then Some AT_P2PKH
                                else if type_bits = 0x01 then Some AT_P2SH
                                else if type_bits = 0x05 then Some AT_P2SH32 else None)
                    in case type of
                         None \<Rightarrow> None
                       | Some type \<Rightarrow>
                           if length decoded - 1 \<noteq> hash_len then None
                           else
                             let hash = memcpy_at (replicate 32 0) 0 (take hash_len (drop 1 decoded))
                             in map_option (\<lambda>net. \<lparr>ca_hash = hash, ca_hash_len = hash_len,
                                  ca_type = type, ca_network = net\<rparr>) (prefix_network prefix))"

definition cashaddr_from_pubkey :: "bytes \<Rightarrow> BchNetwork \<Rightarrow> string" where
  "cashaddr_from_pubkey pubkey33 network =
     (let h160 = hash160 (take 33 pubkey33) in bch_cashaddr_encode (take 20 h160) AT_P2PKH network)"

definition cashaddr_from_script_hash :: "bytes \<Rightarrow> BchNetwork \<Rightarrow> string" where
  "cashaddr_from_script_hash hash20 network = bch_cashaddr_encode (take 20 hash20) AT_P2SH network"

definition cashaddr_is_valid :: "string \<Rightarrow> bool" where
  "cashaddr_is_valid addr \<longleftrightarrow> bch_cashaddr_decode addr \<noteq> None"

section \<open>The copies of the checksum and the regrouping\<close>

lemma and_one_bit: "(w AND 1 \<noteq> 0) = bit w 0" for w :: "'a :: len word"
  by (simp add: and_one_eq bit_0 odd_iff_mod_2_eq_one)

lemma bch_polymod_step_eq: "bch_polymod_step c d = cashaddr_step c d"
proof -
  have b: "drop_bit j (ucast (drop_bit 35 c) :: u8) AND 1 \<noteq> 0 \<longleftrightarrow> drop_bit j (drop_bit 35 c) AND 1 \<noteq> 0"
    if "j \<in> set [0..<5]" for j
    using that unfolding and_one_bit by (simp add: bit_simps add.commute [of 35])
  show ?thesis
    unfolding bch_polymod_step_def cashaddr_step_def Let_def
    by (rule foldl_cong [OF refl refl]) (simp only: b)
qed

lemma bch_polymod_eq: "bch_polymod data = cashaddr_polymod data"
proof -
  have "bch_polymod_step = cashaddr_step" by (intro ext) (rule bch_polymod_step_eq)
  then show ?thesis by (simp add: bch_polymod_def cashaddr_polymod_def)
qed

lemma bch_convert_loop_eq:
  "fst (convert_bits_loop f t data acc bits out) = Some (acc', bits') \<Longrightarrow>
   bch_convert_loop f t data acc bits out = (acc', bits', snd (convert_bits_loop f t data acc bits out))"
proof (induction data arbitrary: acc bits out)
  case Nil
  then show ?case by simp
next
  case (Cons d data)
  then show ?case by (auto simp: Let_def split: prod.splits if_splits)
qed

lemma bch_convert_bits_eq:
  assumes "convert_bits data f t pad = (True, out)"
  shows "bch_convert_bits [] data f t pad = out"
proof (cases "fst (convert_bits_loop f t data 0 0 [])")
  case None
  with assms show ?thesis by (auto simp: convert_bits_def split: prod.splits)
next
  case (Some ab)
  then obtain acc bits out' where l: "convert_bits_loop f t data 0 0 [] = (Some (acc, bits), out')"
    by (metis prod.collapse)
  with bch_convert_loop_eq [of f t data 0 0 "[]" acc bits] assms show ?thesis
    by (auto simp: convert_bits_def bch_convert_bits_def Let_def split: if_splits)
qed

section \<open>Strings of symbols\<close>

definition symbol :: "u8 \<Rightarrow> char" where
  "symbol v = CASHADDR_CHARSET ! unat v"

lemma charsets_equal: "CASHADDR_CHARSET = BECH32_CHARSET"
  by (simp add: CASHADDR_CHARSET_def BECH32_CHARSET_def)

lemma length_charset: "length BECH32_CHARSET = 32"
  by (simp add: BECH32_CHARSET_def)

lemma symbol_props:
  assumes "uint v < 32"
  shows "strchr CASHADDR_CHARSET (to_lower (symbol v)) = Some (unat v)" "symbol v \<noteq> CHR '':''"
proof -
  have n: "unat v < 32" using assms by (simp only: uint_nat)
  have "symbol v = bech32_char v"
    using n length_charset by (simp add: symbol_def bech32_char_def charsets_equal nth_append nat_uint_eq)
  then have "bech32_charset_value (to_lower (symbol v)) = uint v"
    using bech32_char_props [OF assms] by simp
  then have "(case strchr CASHADDR_CHARSET (to_lower (symbol v)) of None \<Rightarrow> - 1 | Some p \<Rightarrow> int p) = int (unat v)"
    by (simp only: bech32_charset_value_def charsets_equal uint_nat)
  moreover define k where "k = unat v"
  ultimately have "(case strchr CASHADDR_CHARSET (to_lower (symbol v)) of None \<Rightarrow> - 1 | Some p \<Rightarrow> int p) = int k"
    by (simp only:)
  then have "strchr CASHADDR_CHARSET (to_lower (symbol v)) = Some k"
    by (cases "strchr CASHADDR_CHARSET (to_lower (symbol v))") simp_all
  then show "strchr CASHADDR_CHARSET (to_lower (symbol v)) = Some (unat v)"
    by (simp only: k_def)
  have "CHR '':'' \<notin> set CASHADDR_CHARSET" by (simp add: CASHADDR_CHARSET_def)
  moreover have "symbol v \<in> set CASHADDR_CHARSET"
    using n unfolding symbol_def by (intro nth_mem) (simp add: CASHADDR_CHARSET_def)
  ultimately show "symbol v \<noteq> CHR '':''" by metis
qed

lemma bch_read_symbols_lower: "map to_lower s = map to_lower s' \<Longrightarrow> bch_read_symbols s = bch_read_symbols s'"
proof (induction s arbitrary: s')
  case (Cons c s)
  then obtain c' r where "s' = c' # r" "to_lower c = to_lower c'" "map to_lower s = map to_lower r"
    by (auto simp: Cons_eq_map_conv)
  with Cons.IH [of r] show ?case by (simp split: option.split)
qed simp

lemma bch_read_symbols_map: "\<forall>v\<in>set ds. uint v < 32 \<Longrightarrow> bch_read_symbols (map symbol ds) = Some ds"
  by (induction ds) (simp_all add: symbol_props)

lemma split_colon_prefix: "CHR '':'' \<notin> set p \<Longrightarrow> split_colon (p @ CHR '':'' # r) = Some (p, r)"
  by (induction p) auto

lemma split_colon_none: "CHR '':'' \<notin> set p \<Longrightarrow> split_colon p = None"
  by (induction p) auto

lemma prefix_network_prefix: "prefix_network (network_prefix net) = Some net" "CHR '':'' \<notin> set (network_prefix net)"
  by (cases net; simp add: prefix_network_def)+

lemma prefix_values_eq: "prefix_values (network_prefix net) = cashaddr_prefix_expand (network_prefix net)"
  by (cases net) (simp_all add: prefix_values_def cashaddr_prefix_expand_def uchar_def schar_def)

section \<open>Addresses of a payload\<close>

definition check_symbols :: "BchNetwork \<Rightarrow> bytes \<Rightarrow> bytes" where
  "check_symbols net g = cash.checksum 1 (foldl cashaddr_step 1 (cashaddr_prefix_expand (network_prefix net) @ g))"

definition payload_string :: "BchNetwork \<Rightarrow> bytes \<Rightarrow> string" where
  "payload_string net payload =
     (let g = snd (convert_bits payload 8 5 True) in map symbol (g @ check_symbols net g))"

definition decode_fields :: "BchNetwork \<Rightarrow> bytes \<Rightarrow> CashAddr option" where
  "decode_fields net payload =
     (let v = payload ! 0; t = drop_bit 3 v AND 0x1f; n = (if v AND 0x07 < 3 then 20 else 32);
          type = (if t = 0 then Some AT_P2PKH else if t = 1 then Some AT_P2SH
            else if t = 5 then Some AT_P2SH32 else None)
      in if length payload - 1 \<noteq> n then None
         else map_option (\<lambda>type. \<lparr>ca_hash = memcpy_at (replicate 32 0) 0 (drop 1 payload), ca_hash_len = n,
           ca_type = type, ca_network = net\<rparr>) type)"

lemma check_symbols_valid:
  "length (check_symbols net g) = 8" "\<forall>v\<in>set (check_symbols net g). uint v < 32"
  "bch_polymod (prefix_values (network_prefix net) @ g @ check_symbols net g) = 0"
proof -
  note v = cash.checksum_valid [of 1 "foldl cashaddr_step 1 (cashaddr_prefix_expand (network_prefix net) @ g)",
      folded check_symbols_def]
  show "length (check_symbols net g) = 8" "\<forall>v\<in>set (check_symbols net g). uint v < 32"
    using v(2,3) by simp_all
  show "bch_polymod (prefix_values (network_prefix net) @ g @ check_symbols net g) = 0"
    using v(1) by (simp add: bch_polymod_eq cashaddr_polymod_def prefix_values_eq)
qed

lemma read_payload:
  assumes "convert_bits payload 8 5 True = (True, g)" "\<forall>x\<in>set g. uint x < 2 ^ 5"
  shows "bch_read_symbols (payload_string net payload) = Some (g @ check_symbols net g)"
  using assms bch_read_symbols_map [of "g @ check_symbols net g"] check_symbols_valid(2)
  by (auto simp: payload_string_def)

lemma decode_payload:
  assumes "payload \<noteq> []" "map to_lower s = map to_lower (payload_string net payload)"
  shows "bch_cashaddr_decode (network_prefix net @ '':'' @ s) = decode_fields net payload"
proof -
  obtain g where g: "convert_bits payload 8 5 True = (True, g)" "\<forall>x\<in>set g. uint x < 2 ^ 5"
    by (rule convert_bits_8_5)
  have r: "bch_read_symbols s = Some (g @ check_symbols net g)"
    using bch_read_symbols_lower [OF assms(2)] read_payload [OF g] by simp
  have c: "bch_convert_bits [] g 5 8 False = payload"
    by (rule bch_convert_bits_eq) (rule convert_bits_pad_unpad [OF g(1)])
  show ?thesis
    using assms(1) check_symbols_valid [of net g]
    by (auto simp: bch_cashaddr_decode_def split_colon_prefix prefix_network_prefix r c decode_fields_def Let_def)
qed

lemma decode_payload_unprefixed:
  assumes "payload \<noteq> []" "map to_lower s = map to_lower (payload_string BchMainnet payload)" "CHR '':'' \<notin> set s"
  shows "bch_cashaddr_decode s = decode_fields BchMainnet payload"
  using decode_payload [OF assms(1,2)] split_colon_prefix [OF prefix_network_prefix(2), of BchMainnet s]
    split_colon_none [OF assms(3)]
  by (simp add: bch_cashaddr_decode_def del: split_colon.simps)

definition type_version :: "AddrType \<Rightarrow> nat \<Rightarrow> u8" where
  "type_version type n = (case type of AT_P2PKH \<Rightarrow> 0 | AT_P2SH \<Rightarrow> 8 | AT_P2SH32 \<Rightarrow> 0x28)
     OR (if n = 32 then 3 else 0)"

lemma bch_encode_payload:
  "bch_cashaddr_encode hash type net
    = network_prefix net @ '':'' @ payload_string net (type_version type (length hash) # hash)"
proof -
  let ?p = "type_version type (length hash) # hash"
  obtain g where g: "convert_bits ?p 8 5 True = (True, g)" by (rule convert_bits_8_5)
  define st where "st = foldl cashaddr_step 1 (cashaddr_prefix_expand (network_prefix net) @ g)"
  have v: "(if length hash = 20 then V OR 0 else if length hash = 32 then V OR 3 else V)
      = V OR (if length hash = 32 then 3 else 0)" for V :: u8
    by simp
  have poly: "bch_polymod (prefix_values (network_prefix net) @ g @ replicate 8 0)
      = foldl cashaddr_step st (replicate 8 0) XOR 1"
    by (simp add: bch_polymod_eq cashaddr_polymod_def prefix_values_eq st_def del: replicate.simps)
  have u: "unat (w AND 31) = unat (ucast (w AND 31) :: u8)" for w :: u64
  proof -
    have "uint (w AND 31) = uint (ucast (w AND 31) :: u8)" by (simp add: uint_ucast_mod uint_and_31)
    then show ?thesis by (metis nat_uint_eq)
  qed
  have "map (\<lambda>i. CASHADDR_CHARSET ! unat (drop_bit (5 * i) (foldl cashaddr_step st (replicate 8 0) XOR 1) AND 0x1f)) (rev [0..<8])
      = map symbol (check_symbols net g)"
    unfolding check_symbols_def st_def [symmetric] cash.checksum_def unpack5_def symbol_def u
    by (simp add: upt_rec)
  moreover have "bch_convert_bits [] ?p 8 5 True = g" by (rule bch_convert_bits_eq [OF g])
  ultimately show ?thesis
    unfolding bch_cashaddr_encode_def Let_def v type_version_def [symmetric] payload_string_def g snd_conv
    by (simp add: poly symbol_def [abs_def])
qed

lemma decode_fields_encode:
  assumes "length hash = 20 \<or> length hash = 32"
  shows "decode_fields net (type_version type (length hash) # hash)
    = Some \<lparr>ca_hash = hash @ replicate (32 - length hash) 0, ca_hash_len = length hash, ca_type = type, ca_network = net\<rparr>"
  using assms by (cases type) (auto simp: decode_fields_def type_version_def memcpy_at_def)

lemma payload_string_inj: "payload_string net p = payload_string net q \<longleftrightarrow> p = q"
proof
  assume e: "payload_string net p = payload_string net q"
  obtain g where g: "convert_bits p 8 5 True = (True, g)" "\<forall>x\<in>set g. uint x < 2 ^ 5"
    by (rule convert_bits_8_5)
  obtain g' where g': "convert_bits q 8 5 True = (True, g')" "\<forall>x\<in>set g'. uint x < 2 ^ 5"
    by (rule convert_bits_8_5)
  have "g = g'"
    using e read_payload [OF g, of net] read_payload [OF g', of net] check_symbols_valid(1) by auto
  then show "p = q" using convert_bits_pad_unpad g(1) g'(1) by (metis Pair_inject)
qed simp

lemma payload_string_no_colon: "CHR '':'' \<notin> set (payload_string net p)"
proof -
  obtain g where g: "convert_bits p 8 5 True = (True, g)" "\<forall>x\<in>set g. uint x < 2 ^ 5"
    by (rule convert_bits_8_5)
  then show ?thesis
    using check_symbols_valid(2) [of net g] symbol_props(2) by (fastforce simp: payload_string_def)
qed

lemma cashaddr_encode_payload:
  "cashaddr_encode h (network_prefix net) t = network_prefix net @ '':'' @ payload_string net (push_bit 3 t # h)"
proof -
  let ?p = "push_bit 3 t # h"
  obtain g where g: "convert_bits ?p 8 5 True = (True, g)" by (rule convert_bits_8_5)
  define st where "st = foldl cashaddr_step 1 (cashaddr_prefix_expand (network_prefix net) @ g)"
  have u: "nat (uint (w AND 31)) = unat (ucast (w AND 31) :: u8)" for w :: u64
    by (simp only: nat_uint_eq [symmetric] uint_ucast_mod) (simp add: uint_and_31)
  have poly: "cashaddr_polymod (cashaddr_prefix_expand (network_prefix net) @ g @ replicate 8 0)
      = foldl cashaddr_step st (replicate 8 0) XOR 1"
    by (simp add: cashaddr_polymod_def st_def del: replicate.simps)
  show ?thesis
    unfolding cashaddr_encode_def Let_def g snd_conv poly payload_string_def check_symbols_def st_def [symmetric]
      cash.checksum_def unpack5_def u
    by (simp add: symbol_def [abs_def] nat_uint_eq)
qed

section \<open>Properties\<close>

text \<open>C36: decoding a CashAddr encoding of a 20- or 32-byte hash returns the hash, its length, the type and
  the network, whatever the letter case of the part after the colon, and for mainnet also when the
  prefix is left out.\<close>
theorem cashaddr_roundtrip:
  assumes "length hash = 20 \<or> length hash = 32"
  shows "bch_cashaddr_encode hash type net = network_prefix net @ '':'' @ payload_string net (type_version type (length hash) # hash)
    \<and> (map to_lower s = map to_lower (payload_string net (type_version type (length hash) # hash)) \<longrightarrow>
       bch_cashaddr_decode (network_prefix net @ '':'' @ s)
       = Some \<lparr>ca_hash = hash @ replicate (32 - length hash) 0, ca_hash_len = length hash, ca_type = type, ca_network = net\<rparr>)
    \<and> bch_cashaddr_decode (bch_cashaddr_encode hash type net)
       = Some \<lparr>ca_hash = hash @ replicate (32 - length hash) 0, ca_hash_len = length hash, ca_type = type, ca_network = net\<rparr>
    \<and> bch_cashaddr_decode (payload_string BchMainnet (type_version type (length hash) # hash))
       = Some \<lparr>ca_hash = hash @ replicate (32 - length hash) 0, ca_hash_len = length hash, ca_type = type, ca_network = BchMainnet\<rparr>"
proof -
  let ?p = "type_version type (length hash) # hash"
  note d = decode_payload [of ?p, OF list.distinct(2)] decode_fields_encode [OF assms, of _ type]
  show ?thesis
    using d decode_payload_unprefixed [of ?p, OF list.distinct(2) refl payload_string_no_colon]
    by (simp only: bch_encode_payload) blast
qed

theorem cashaddr_roundtrip_witness:
  "bch_cashaddr_decode (bch_cashaddr_encode (replicate 20 7) AT_P2SH BchTestnet)
    = Some \<lparr>ca_hash = replicate 20 7 @ replicate 12 0, ca_hash_len = 20, ca_type = AT_P2SH, ca_network = BchTestnet\<rparr>"
proof -
  have "length (replicate 20 (7 :: u8)) = 20 \<or> length (replicate 20 (7 :: u8)) = 32" by simp
  from cashaddr_roundtrip [OF this, THEN conjunct2, THEN conjunct2, THEN conjunct1]
  show ?thesis by (simp del: replicate.simps)
qed

text \<open>the decoder reads the three size bits only as below three or not, so every 20-byte hash has
  three different strings with valid checksums that decode to it; the encoder writes the first.\<close>
theorem cashaddr_size_bits_lax:
  fixes type :: AddrType and net :: BchNetwork
  assumes "length hash = 20" "sz = 1 \<or> sz = 2"
  defines "s \<equiv> network_prefix net @ '':'' @ payload_string net ((type_version type 20 OR sz) # hash)"
  shows "bch_cashaddr_decode s = bch_cashaddr_decode (bch_cashaddr_encode hash type net)
    \<and> s \<noteq> bch_cashaddr_encode hash type net
    \<and> bch_cashaddr_decode s = Some \<lparr>ca_hash = hash @ replicate 12 0, ca_hash_len = 20, ca_type = type, ca_network = net\<rparr>"
proof -
  have f: "decode_fields net ((type_version type 20 OR sz) # hash) = decode_fields net (type_version type 20 # hash)"
    using assms(1,2) by (cases type) (auto simp: decode_fields_def type_version_def)
  have n: "type_version type 20 OR sz \<noteq> type_version type 20"
    using assms(2) by (cases type) (auto simp: type_version_def)
  have d: "bch_cashaddr_decode (network_prefix net @ '':'' @ payload_string net p) = decode_fields net p"
    if "p \<noteq> []" for p
    using decode_payload [OF that refl] .
  have e: "decode_fields net (type_version type 20 # hash)
      = Some \<lparr>ca_hash = hash @ replicate 12 0, ca_hash_len = 20, ca_type = type, ca_network = net\<rparr>"
    using decode_fields_encode [of hash net type] assms(1) by simp
  show ?thesis
    unfolding s_def bch_encode_payload assms(1) d [OF list.distinct(2)] f e
    using n by (simp add: payload_string_inj)
qed

theorem cashaddr_size_bits_lax_witness:
  "bch_cashaddr_decode (''bchreg:'' @ payload_string BchRegtest (1 # replicate 20 9))
    = bch_cashaddr_decode (bch_cashaddr_encode (replicate 20 9) AT_P2PKH BchRegtest)"
  using cashaddr_size_bits_lax [of "replicate 20 9" 1 BchRegtest AT_P2PKH]
  by (simp add: type_version_def del: replicate.simps)

text \<open>the two CashAddr encoders of the library agree: for a 20-byte hash the encoder of \<open>address.cpp\<close>
  with types 0 and 1 writes the P2PKH and P2SH strings of the Bitcoin Cash module, so the decoder of
  that module reads the addresses of \<open>address_cashaddr\<close> back to the HASH160 of the key.\<close>
theorem cashaddr_encoders_agree:
  assumes "length hash = 20" "length (to_compressed pk) = 33"
  shows "cashaddr_encode hash (network_prefix net) 0 = bch_cashaddr_encode hash AT_P2PKH net
    \<and> cashaddr_encode hash (network_prefix net) 1 = bch_cashaddr_encode hash AT_P2SH net
    \<and> address_cashaddr to_compressed pk (network_prefix net) = cashaddr_from_pubkey (to_compressed pk) net
    \<and> bch_cashaddr_decode (address_cashaddr to_compressed pk (network_prefix net))
      = Some \<lparr>ca_hash = hash160 (to_compressed pk) @ replicate 12 0, ca_hash_len = 20, ca_type = AT_P2PKH, ca_network = net\<rparr>"
proof -
  have a: "cashaddr_encode h (network_prefix net) 0 = bch_cashaddr_encode h AT_P2PKH net"
    "cashaddr_encode h (network_prefix net) 1 = bch_cashaddr_encode h AT_P2SH net" if "length h = 20" for h
    using that by (simp_all add: cashaddr_encode_payload bch_encode_payload type_version_def)
  have "bch_cashaddr_decode (bch_cashaddr_encode (hash160 (to_compressed pk)) AT_P2PKH net)
      = Some \<lparr>ca_hash = hash160 (to_compressed pk) @ replicate 12 0, ca_hash_len = 20, ca_type = AT_P2PKH, ca_network = net\<rparr>"
    unfolding bch_encode_payload using decode_payload [OF list.distinct(2) refl]
      decode_fields_encode [of "hash160 (to_compressed pk)" net AT_P2PKH] by simp
  then show ?thesis
    using assms a by (simp add: address_cashaddr_def cashaddr_from_pubkey_def Let_def)
qed

theorem cashaddr_encoders_agree_witness:
  "address_cashaddr (\<lambda>p. p) (replicate 33 2) ''chipnet'' = cashaddr_from_pubkey (replicate 33 2) BchChipnet"
  using cashaddr_encoders_agree [of "replicate 20 1" "\<lambda>p. p" "replicate 33 2" BchChipnet]
  by (simp del: replicate.simps)

end
