(* ===== verification/Bip32.thy ===== *)
theory Bip32
  imports Hmac Ct_Scalar Ripemd160 Wire_Format
begin

text \<open>
  \<open>bip32.cpp\<close>: extended keys, child derivation, the master key and path derivation. The
  field and point operations the file calls (\<open>field.cpp\<close>, \<open>point.cpp\<close>, \<open>ct_point.cpp\<close>) are
  the fields of \<open>curve_ops\<close>, an argument of every definition that uses them; the scalar
  arithmetic, HMAC-SHA512 and HASH160 are the modelled ones. Erasing local buffers does not
  change a result and is left out.
\<close>

section \<open>Data\<close>

record ('f, 'p) curve_ops =
  fe_parse_strict :: "bytes \<Rightarrow> 'f option"
  fe_mul :: "'f \<Rightarrow> 'f \<Rightarrow> 'f"
  fe_add :: "'f \<Rightarrow> 'f \<Rightarrow> 'f"
  fe_from_uint64 :: "u64 \<Rightarrow> 'f"
  fe_sqrt :: "'f \<Rightarrow> 'f"
  fe_negate :: "'f \<Rightarrow> 'f"
  fe_limb0 :: "'f \<Rightarrow> u64"
  pt_infinity :: 'p
  pt_from_affine :: "'f \<Rightarrow> 'f \<Rightarrow> 'p"
  pt_add :: "'p \<Rightarrow> 'p \<Rightarrow> 'p"
  pt_is_infinity :: "'p \<Rightarrow> bool"
  pt_to_compressed :: "'p \<Rightarrow> bytes"
  pt_x_bytes :: "'p \<Rightarrow> bytes"
  generator_mul :: "scalar \<Rightarrow> 'p"

record ExtendedKey =
  xk_key :: bytes
  xk_chain_code :: bytes
  xk_depth :: u8
  xk_child_number :: u32
  xk_parent_fingerprint :: bytes
  xk_is_private :: bool
  xk_pub_prefix :: u8

text \<open>\<open>ExtendedKey{}\<close>.\<close>

definition ExtendedKey0 :: ExtendedKey where
  "ExtendedKey0 = \<lparr>xk_key = replicate 32 0, xk_chain_code = replicate 32 0, xk_depth = 0,
     xk_child_number = 0, xk_parent_fingerprint = replicate 4 0, xk_is_private = False, xk_pub_prefix = 0\<rparr>"

section \<open>Keys\<close>

text \<open>The x coordinate and the parity prefix of a public key to a point.\<close>

definition decompress :: "('f, 'p) curve_ops \<Rightarrow> u8 \<Rightarrow> bytes \<Rightarrow> 'p" where
  "decompress C pub_prefix key =
     (case fe_parse_strict C key of
        None \<Rightarrow> pt_infinity C
      | Some x \<Rightarrow>
          let x2 = fe_mul C x x;
              x3 = fe_mul C x2 x;
              seven = fe_from_uint64 C 7;
              y2 = fe_add C x3 seven;
              y = fe_sqrt C y2
          in if fe_mul C y y \<noteq> y2 then pt_infinity C
             else
               let y_is_odd = (fe_limb0 C y AND 1 \<noteq> 0);
                   need_odd = (pub_prefix = 0x03);
                   y = (if y_is_odd \<noteq> need_odd then fe_negate C y else y)
               in pt_from_affine C x y)"

definition public_key :: "('f, 'p) curve_ops \<Rightarrow> ExtendedKey \<Rightarrow> 'p" where
  "public_key C k =
     (if xk_is_private k then
        case parse_bytes_strict_nonzero (xk_key k) of
          None \<Rightarrow> pt_infinity C
        | Some sk \<Rightarrow> generator_mul C sk
      else decompress C (xk_pub_prefix k) (xk_key k))"

definition private_key :: "ExtendedKey \<Rightarrow> scalar" where
  "private_key k =
     (case parse_bytes_strict_nonzero (xk_key k) of None \<Rightarrow> scalar_zero | Some sk \<Rightarrow> sk)"

definition to_public :: "('f, 'p) curve_ops \<Rightarrow> ExtendedKey \<Rightarrow> ExtendedKey" where
  "to_public C k =
     (if \<not> xk_is_private k then k
      else
        let pk = public_key C k;
            compressed = pt_to_compressed C pk;
            x_bytes = pt_x_bytes C pk
        in ExtendedKey0\<lparr>xk_pub_prefix := compressed ! 0, xk_key := x_bytes,
             xk_chain_code := xk_chain_code k, xk_depth := xk_depth k,
             xk_child_number := xk_child_number k,
             xk_parent_fingerprint := xk_parent_fingerprint k, xk_is_private := False\<rparr>)"

definition fingerprint_from_compressed :: "bytes \<Rightarrow> bytes" where
  "fingerprint_from_compressed compressed = (let h = bip32_hash160 compressed in take 4 h)"

definition fingerprint :: "('f, 'p) curve_ops \<Rightarrow> ExtendedKey \<Rightarrow> bytes" where
  "fingerprint C k =
     (let pk = public_key C k; compressed = pt_to_compressed C pk; h = bip32_hash160 compressed
      in take 4 h)"

definition be32 :: "u32 \<Rightarrow> bytes" where
  "be32 v = [ucast (drop_bit 24 v), ucast (drop_bit 16 v), ucast (drop_bit 8 v), ucast v]"

definition serialize :: "ExtendedKey \<Rightarrow> bytes" where
  "serialize k =
     (let out = replicate 78 0;
          version = (if xk_is_private k then 0x0488ADE4 else 0x0488B21E);
          out = memcpy_at out 0 (be32 version);
          out = out[4 := xk_depth k];
          out = memcpy_at out 5 (xk_parent_fingerprint k);
          out = memcpy_at out 9 (be32 (xk_child_number k));
          out = memcpy_at out 13 (xk_chain_code k)
      in if xk_is_private k then
           let out = out[45 := 0x00] in memcpy_at out 46 (xk_key k)
         else
           let out = out[45 := xk_pub_prefix k] in memcpy_at out 46 (xk_key k))"

section \<open>Derivation\<close>

definition derive_child :: "('f, 'p) curve_ops \<Rightarrow> ExtendedKey \<Rightarrow> u32 \<Rightarrow> ExtendedKey \<times> bool" where
  "derive_child C k index =
     (let hardened = (index AND 0x80000000 \<noteq> 0) in
      if hardened \<and> \<not> xk_is_private k then (ExtendedKey0, False)
      else
        let parent_pk = public_key C k;
            parent_comp = pt_to_compressed C parent_pk;
            data = (if hardened then 0x00 # xk_key k else parent_comp) @ be32 index;
            I = hmac_sha512 (xk_chain_code k) data;
            IL = take 32 I;
            IR = drop 32 I
        in case parse_bytes_strict IL of
             None \<Rightarrow> (ExtendedKey0, False)
           | Some il_scalar \<Rightarrow>
               if is_zero_ct il_scalar then (ExtendedKey0, False)
               else
                 let child = ExtendedKey0\<lparr>xk_chain_code := IR\<rparr> in
                 if xk_depth k = 0xFF then (ExtendedKey0, False)
                 else
                   let child = child\<lparr>xk_depth := xk_depth k + 1, xk_child_number := index,
                         xk_parent_fingerprint := fingerprint_from_compressed parent_comp\<rparr>
                   in if xk_is_private k then
                        case parse_bytes_strict_nonzero (xk_key k) of
                          None \<Rightarrow> (ExtendedKey0, False)
                        | Some parent_scalar \<Rightarrow>
                            let child_scalar = ct_scalar_add il_scalar parent_scalar in
                            if is_zero_ct child_scalar then (ExtendedKey0, False)
                            else (child\<lparr>xk_key := to_bytes child_scalar, xk_is_private := True\<rparr>, True)
                      else
                        let IL_point = generator_mul C il_scalar;
                            child_point = pt_add C IL_point parent_pk
                        in if pt_is_infinity C child_point then (ExtendedKey0, False)
                           else
                             let compressed = pt_to_compressed C child_point
                             in (child\<lparr>xk_pub_prefix := compressed ! 0,
                                   xk_key := pt_x_bytes C child_point, xk_is_private := False\<rparr>, True))"

definition derive_normal :: "('f, 'p) curve_ops \<Rightarrow> ExtendedKey \<Rightarrow> u32 \<Rightarrow> ExtendedKey \<times> bool" where
  "derive_normal C k index = derive_child C k index"

definition derive_hardened :: "('f, 'p) curve_ops \<Rightarrow> ExtendedKey \<Rightarrow> u32 \<Rightarrow> ExtendedKey \<times> bool" where
  "derive_hardened C k index = derive_child C k (index OR 0x80000000)"

definition hmac_key :: bytes where
  "hmac_key = map (\<lambda>c. of_nat (of_char c)) ''Bitcoin seed''"

definition bip32_master_key :: "bytes \<Rightarrow> ExtendedKey \<times> bool" where
  "bip32_master_key seed =
     (if length seed < 16 \<or> length seed > 64 then (ExtendedKey0, False)
      else
        let I = hmac_sha512 hmac_key seed;
            IL = take 32 I;
            IR = drop 32 I
        in case parse_bytes_strict_nonzero IL of
             None \<Rightarrow> (ExtendedKey0, False)
           | Some master_key \<Rightarrow>
               let master_bytes = to_bytes master_key
               in (ExtendedKey0\<lparr>xk_key := master_bytes, xk_chain_code := IR, xk_depth := 0,
                     xk_child_number := 0, xk_parent_fingerprint := [0, 0, 0, 0],
                     xk_is_private := True\<rparr>, True))"

section \<open>Paths\<close>

definition is_digit :: "char \<Rightarrow> bool" where
  "is_digit c \<longleftrightarrow> 48 \<le> (of_char c :: nat) \<and> (of_char c :: nat) \<le> 57"

fun read_index :: "u64 \<Rightarrow> bool \<Rightarrow> string \<Rightarrow> (u64 \<times> bool \<times> string) option" where
  "read_index index64 has_digit [] = Some (index64, has_digit, [])"
| "read_index index64 has_digit (c # cs) =
     (if is_digit c then
        let index64 = index64 * 10 + of_nat (of_char c - 48)
        in if index64 > 0x7FFFFFFF then None else read_index index64 True cs
      else Some (index64, has_digit, c # cs))"

definition read_marker :: "string \<Rightarrow> bool \<times> string" where
  "read_marker s = (case s of [] \<Rightarrow> (False, []) | c # cs \<Rightarrow>
     if c = CHR 0x27 \<or> c = CHR ''h'' \<or> c = CHR ''H'' then (True, cs) else (False, c # cs))"

lemma read_index_length: "read_index v h s = Some (v', h', r) \<Longrightarrow> length r \<le> length s"
  by (induction v h s rule: read_index.induct) (auto simp: Let_def split: if_splits)

lemma read_marker_length: "length (snd (read_marker s)) \<le> length s"
  by (auto simp: read_marker_def split: list.split)

function derive_loop :: "('f, 'p) curve_ops \<Rightarrow> ExtendedKey \<Rightarrow> string \<Rightarrow> ExtendedKey \<times> bool" where
  "derive_loop C current [] = (current, True)"
| "derive_loop C current (c # cs) =
     (if c \<noteq> CHR ''/'' then (ExtendedKey0, False)
      else if cs = [] then (ExtendedKey0, False)
      else case read_index 0 False cs of
             None \<Rightarrow> (ExtendedKey0, False)
           | Some (index64, has_digit, rest) \<Rightarrow>
               if \<not> has_digit then (ExtendedKey0, False)
               else
                 let index = (ucast index64 :: u32);
                     hardened = fst (read_marker rest);
                     rest = snd (read_marker rest)
                 in if rest \<noteq> [] \<and> hd rest \<noteq> CHR ''/'' then (ExtendedKey0, False)
                    else
                      let child_index = (if hardened then index OR 0x80000000 else index)
                      in if \<not> snd (derive_child C current child_index) then (ExtendedKey0, False)
                         else derive_loop C (fst (derive_child C current child_index)) rest)"
  by pat_completeness auto

termination
proof (relation "measure (\<lambda>(C, k, s). length s)")
  fix c cs x v y h r and C :: "('f, 'p) curve_ops" and k :: ExtendedKey
  fix i hd' rest ci
  assume "read_index 0 False cs = Some x" "(v, y) = x" "(h, r) = y" "rest = snd (read_marker r)"
  then have "length r \<le> length cs" using read_index_length by fastforce
  moreover have "length rest \<le> length r"
    using \<open>rest = snd (read_marker r)\<close> read_marker_length by simp
  ultimately show "((C, fst (derive_child C k ci), rest), C, k, c # cs) \<in> measure (\<lambda>(C, k, s). length s)"
    by simp
qed simp

definition bip32_derive_path :: "('f, 'p) curve_ops \<Rightarrow> ExtendedKey \<Rightarrow> string \<Rightarrow> ExtendedKey \<times> bool" where
  "bip32_derive_path C master path =
     (if path = [] \<or> hd path \<noteq> CHR ''m'' then (ExtendedKey0, False)
      else if length path = 1 then (master, True)
      else let current = master in derive_loop C current (drop 1 path))"

section \<open>Scalars in keys\<close>

lemma parse_nonzero_iff: "length p = 32 \<Longrightarrow>
    parse_bytes_strict_nonzero p = Some s \<longleftrightarrow> scalar_ok s \<and> to_bytes s = p \<and> sval s \<noteq> 0"
  using parse_strict_facts by blast

lemma parse_nonzero_to_bytes: "scalar_ok s \<Longrightarrow> sval s \<noteq> 0 \<Longrightarrow> parse_bytes_strict_nonzero (to_bytes s) = Some s"
  by (simp add: parse_nonzero_iff)

lemma parse_strict_ok: "length p = 32 \<Longrightarrow> parse_bytes_strict p = Some s \<Longrightarrow> scalar_ok s"
  using parse_strict_facts by blast

lemma scalar_add_ok: "scalar_ok a \<Longrightarrow> scalar_ok b \<Longrightarrow> scalar_ok (scalar_add a b)"
  by (simp only: scalar_ok_def scalar_add_def scalar.sel add_impl_mod mod_order_bounds)

definition private_ok :: "ExtendedKey \<Rightarrow> bool" where
  "private_ok k \<longleftrightarrow> xk_is_private k \<and> length (xk_chain_code k) = 32 \<and> length (xk_parent_fingerprint k) = 4
     \<and> (\<exists>sk. scalar_ok sk \<and> sval sk \<noteq> 0 \<and> xk_key k = to_bytes sk)"

lemma private_ok_key:
  assumes "private_ok k"
  shows "parse_bytes_strict_nonzero (xk_key k) = Some (private_key k)" "scalar_ok (private_key k)"
    "sval (private_key k) \<noteq> 0" "xk_key k = to_bytes (private_key k)" "xk_is_private k"
    "parse_bytes_strict_nonzero (to_bytes (private_key k)) = Some (private_key k)"
  using assms parse_nonzero_to_bytes by (auto simp: private_ok_def private_key_def)

section \<open>Private and public derivation\<close>

text \<open>The tweak of a derivation: the left half of the HMAC when it is a canonical non-zero scalar.\<close>

definition child_data :: "('f, 'p) curve_ops \<Rightarrow> ExtendedKey \<Rightarrow> u32 \<Rightarrow> bytes" where
  "child_data C k index = (if index AND 0x80000000 \<noteq> 0 then 0x00 # xk_key k
     else pt_to_compressed C (public_key C k)) @ be32 index"

definition child_tweak :: "('f, 'p) curve_ops \<Rightarrow> ExtendedKey \<Rightarrow> u32 \<Rightarrow> scalar option" where
  "child_tweak C k index = parse_bytes_strict_nonzero (take 32 (hmac_sha512 (xk_chain_code k) (child_data C k index)))"

definition child_base :: "('f, 'p) curve_ops \<Rightarrow> ExtendedKey \<Rightarrow> u32 \<Rightarrow> ExtendedKey" where
  "child_base C k index = ExtendedKey0\<lparr>xk_chain_code := drop 32 (hmac_sha512 (xk_chain_code k) (child_data C k index)),
     xk_depth := xk_depth k + 1, xk_child_number := index, xk_parent_fingerprint := fingerprint C k\<rparr>"

lemma tweak_ok: "child_tweak C k index = Some il \<Longrightarrow> scalar_ok il \<and> sval il \<noteq> 0"
  by (simp add: child_tweak_def parse_nonzero_iff)

lemma tweak_cases: "child_tweak C k index =
    (case parse_bytes_strict (take 32 (hmac_sha512 (xk_chain_code k) (child_data C k index))) of
       None \<Rightarrow> None | Some il \<Rightarrow> if is_zero_ct il then None else Some il)"
  unfolding child_tweak_def parse_bytes_strict_nonzero_def is_zero_ct_iff ..

lemma derive_child_private:
  assumes "private_ok k"
  shows "derive_child C k index =
    (case child_tweak C k index of None \<Rightarrow> (ExtendedKey0, False) | Some il \<Rightarrow>
       let sk = scalar_add il (private_key k) in
       if xk_depth k = 0xFF \<or> is_zero sk then (ExtendedKey0, False)
       else ((child_base C k index)\<lparr>xk_key := to_bytes sk, xk_is_private := True\<rparr>, True))"
proof -
  let ?IL = "parse_bytes_strict (take 32 (hmac_sha512 (xk_chain_code k) (child_data C k index)))"
  note unf = tweak_cases derive_child_def child_data_def [symmetric] Let_def
  show ?thesis
  proof (cases ?IL)
    case None
    then show ?thesis unfolding unf by (simp add: private_ok_key(5) [OF assms])
  next
    case (Some il)
    have "ct_scalar_add il (private_key k) = scalar_add il (private_key k)"
      using ct_scalar_add_eq [OF parse_strict_ok [OF _ Some] private_ok_key(2) [OF assms]] by simp
    then show ?thesis unfolding unf Some
      by (simp add: private_ok_key(1,5) [OF assms] is_zero_ct_iff child_base_def fingerprint_def
          fingerprint_from_compressed_def Let_def)
  qed
qed

lemma derive_child_public:
  assumes "\<not> xk_is_private k" "index AND 0x80000000 = 0"
  shows "derive_child C k index =
    (case child_tweak C k index of None \<Rightarrow> (ExtendedKey0, False) | Some il \<Rightarrow>
       let pt = pt_add C (generator_mul C il) (public_key C k) in
       if xk_depth k = 0xFF \<or> pt_is_infinity C pt then (ExtendedKey0, False)
       else ((child_base C k index)\<lparr>xk_pub_prefix := pt_to_compressed C pt ! 0,
          xk_key := pt_x_bytes C pt, xk_is_private := False\<rparr>, True))"
  unfolding tweak_cases derive_child_def child_data_def [symmetric] Let_def
  using assms by (simp add: child_base_def fingerprint_def fingerprint_from_compressed_def Let_def split: option.split)

lemma derive_hardened_public: "\<not> xk_is_private k \<Longrightarrow> index AND 0x80000000 \<noteq> 0 \<Longrightarrow>
    derive_child C k index = (ExtendedKey0, False)"
  by (simp add: derive_child_def)

lemma private_ok_child:
  assumes "private_ok k" "derive_child C k index = (c, True)"
  shows "private_ok c \<and> xk_depth k \<noteq> 0xFF \<and> xk_depth c = xk_depth k + 1 \<and> xk_child_number c = index
    \<and> xk_parent_fingerprint c = fingerprint C k
    \<and> (\<exists>il. child_tweak C k index = Some il \<and> sval (private_key c) = (sval il + sval (private_key k)) mod group_order)"
proof -
  obtain il where il: "child_tweak C k index = Some il"
    using assms by (auto simp: derive_child_private split: option.splits)
  let ?sk = "scalar_add il (private_key k)"
  have c: "c = (child_base C k index)\<lparr>xk_key := to_bytes ?sk, xk_is_private := True\<rparr>"
    and z: "xk_depth k \<noteq> 0xFF" "\<not> is_zero ?sk"
    using assms il by (auto simp: derive_child_private Let_def split: if_splits)
  have ok: "scalar_ok ?sk" using tweak_ok [OF il] private_ok_key [OF assms(1)] by (simp add: scalar_add_ok)
  have nz: "sval ?sk \<noteq> 0" using z(2) by (simp add: is_zero_iff)
  have l: "length (bip32_hash160 x) = 20" for x by (simp add: bip32_hash160_eq)
  have p: "private_ok c"
    using ok nz by (auto simp: private_ok_def c child_base_def ExtendedKey0_def fingerprint_def Let_def l)
  have "private_key c = ?sk"
    using ok nz by (simp add: private_key_def c parse_nonzero_to_bytes)
  then have "sval (private_key c) = (sval il + sval (private_key k)) mod group_order"
    using tweak_ok [OF il] private_ok_key(2) [OF assms(1)]
    by (simp only: scalar_add_def scalar.sel add_impl_mod scalar_ok_def)
  with p z il show ?thesis by (simp add: c child_base_def)
qed

section \<open>Descendants of a key\<close>

text \<open>The keys a program can reach from a key by successive derivations, with their indices.\<close>

inductive descends :: "('f, 'p) curve_ops \<Rightarrow> ExtendedKey \<Rightarrow> u32 list \<Rightarrow> ExtendedKey \<Rightarrow> bool"
  for C :: "('f, 'p) curve_ops" and root :: ExtendedKey where
  here: "descends C root [] root"
| child: "descends C root is k \<Longrightarrow> derive_child C k i = (c, True) \<Longrightarrow> descends C root (is @ [i]) c"

inductive_cases descends_NilE: "descends C root [] k"
inductive_simps descends_snoc: "descends C root (is @ [i]) c"

lemma public_child:
  assumes "\<not> xk_is_private k" "derive_child C k i = (c, True)"
  shows "\<not> xk_is_private c \<and> i AND 0x80000000 = 0 \<and> xk_depth k \<noteq> 0xFF \<and> xk_depth c = xk_depth k + 1
    \<and> xk_child_number c = i"
proof -
  have n: "i AND 0x80000000 = 0" using assms derive_hardened_public [of k i C] by auto
  show ?thesis
    using assms(2) n unfolding derive_child_public [OF assms(1) n]
    by (auto simp: child_base_def Let_def split: option.splits if_splits)
qed

lemma descends_kind:
  assumes "descends C root is k" "xk_is_private root \<Longrightarrow> private_ok root" "xk_depth root = 0"
  shows "xk_is_private k = xk_is_private root \<and> length is < 256 \<and> unat (xk_depth k) = length is
    \<and> xk_child_number k = last (xk_child_number root # is)
    \<and> (if xk_is_private root then private_ok k else list_all (\<lambda>i. i AND 0x80000000 = 0) is)"
  using assms
proof (induction rule: descends.induct)
  case here
  then show ?case by simp
next
  case (child "is" k i c)
  then have k: "xk_is_private k = xk_is_private root" "unat (xk_depth k) = length is"
    "if xk_is_private root then private_ok k else list_all (\<lambda>i. i AND 0x80000000 = 0) is" by simp_all
  have c: "xk_is_private c = xk_is_private k" "xk_depth k \<noteq> 0xFF" "xk_depth c = xk_depth k + 1" "xk_child_number c = i"
    "if xk_is_private root then private_ok c else i AND 0x80000000 = 0"
    using k(1,3) private_ok_child [OF _ child.hyps(2)] public_child [OF _ child.hyps(2)] private_ok_key(5)
    by (auto split: if_splits)
  have "unat (xk_depth k) \<noteq> 255" using c(2) by (auto simp: word_unat_eq_iff)
  moreover have "unat (xk_depth k) < 2 ^ LENGTH(8)" by (rule unsigned_less)
  ultimately have lt: "unat (xk_depth k) < 255" by simp
  then have "unat (xk_depth k + 1) = unat (xk_depth k) + 1" by (simp add: unat_word_ariths)
  then show ?case using c k lt by (auto split: if_splits)
qed

lemma master_private:
  assumes "bip32_master_key seed = (m, True)"
  shows "private_ok m \<and> xk_depth m = 0 \<and> 16 \<le> length seed \<and> length seed \<le> 64
    \<and> xk_key m @ xk_chain_code m = hmac_sha512 hmac_key seed"
proof -
  let ?I = "hmac_sha512 hmac_key seed"
  obtain sk where sk: "parse_bytes_strict_nonzero (take 32 ?I) = Some sk"
    using assms by (auto simp: bip32_master_key_def Let_def split: if_splits option.splits)
  then have s: "scalar_ok sk" "to_bytes sk = take 32 ?I" "sval sk \<noteq> 0" by (simp_all add: parse_nonzero_iff)
  then show ?thesis
    using assms sk by (auto simp: bip32_master_key_def Let_def private_ok_def ExtendedKey0_def split: if_splits)
qed

lemma master_iff:
  "snd (bip32_master_key seed) \<longleftrightarrow> 16 \<le> length seed \<and> length seed \<le> 64
    \<and> 0 < be_val (take 32 (hmac_sha512 hmac_key seed)) \<and> be_val (take 32 (hmac_sha512 hmac_key seed)) < group_order"
proof -
  let ?IL = "take 32 (hmac_sha512 hmac_key seed)"
  have "parse_bytes_strict_nonzero ?IL \<noteq> None \<longleftrightarrow> 0 < be_val ?IL \<and> be_val ?IL < group_order"
  proof -
    have v: "sval (from_bytes ?IL) = be_val ?IL mod group_order" by (simp add: from_bytes_value)
    have "be_val ?IL mod group_order = be_val ?IL" if "be_val ?IL < group_order"
      using that by (intro mod_pos_pos_trivial) simp_all
    moreover have "be_val ?IL \<noteq> 0 \<longleftrightarrow> 0 < be_val ?IL" using be_val_nonneg [of ?IL] by linarith
    ultimately show ?thesis
      using v by (auto simp: parse_bytes_strict_nonzero_def parse_bytes_strict_iff is_zero_iff split: if_splits)
  qed
  then show ?thesis by (auto simp: bip32_master_key_def Let_def split: option.split)
qed

section \<open>The path grammar\<close>

definition dec_value :: "string \<Rightarrow> int" where
  "dec_value ds = foldl (\<lambda>v c. v * 10 + int (of_char c - 48)) 0 ds"

inductive component_path :: "string \<Rightarrow> u32 list \<Rightarrow> bool" where
  path_end: "component_path [] []"
| path_step: "ds \<noteq> [] \<Longrightarrow> list_all is_digit ds \<Longrightarrow> dec_value ds < 2 ^ 31 \<Longrightarrow>
    marker \<in> {'''', [CHR 0x27], ''h'', ''H''} \<Longrightarrow> component_path rest is \<Longrightarrow>
    component_path (''/'' @ ds @ marker @ rest)
      ((word_of_int (dec_value ds) OR (if marker = '''' then 0 else 0x80000000)) # is)"

fun derive_all :: "('f, 'p) curve_ops \<Rightarrow> ExtendedKey \<Rightarrow> u32 list \<Rightarrow> ExtendedKey option" where
  "derive_all C k [] = Some k"
| "derive_all C k (i # is) = (case derive_child C k i of (c, ok) \<Rightarrow> if ok then derive_all C c is else None)"

fun_cases derive_all_ConsE: "derive_all C k (i # is) = Some c"

lemma derive_all_step:
  assumes "derive_all C k (i # is) = Some c"
  obtains k' where "derive_child C k i = (k', True)" "derive_all C k' is = Some c"
  using assms that by (elim derive_all_ConsE) (auto split: prod.splits if_splits)

lemma foldl_dec: "foldl (\<lambda>v c. v * 10 + int (of_char c - 48)) v ds = v * 10 ^ length ds + dec_value ds"
proof (induction ds rule: rev_induct)
  case Nil
  then show ?case by (simp add: dec_value_def)
next
  case (snoc d ds)
  then show ?case by (simp add: dec_value_def algebra_simps)
qed

lemma dec_value_Cons: "dec_value (c # ds) = int (of_char c - 48) * 10 ^ length ds + dec_value ds"
  using foldl_dec [of "int (of_char c - 48)" ds] by (simp add: dec_value_def)

lemma dec_value_nonneg: "0 \<le> dec_value ds"
  by (induction ds) (simp_all add: dec_value_Cons, simp add: dec_value_def)

lemma read_index_step:
  assumes "is_digit c" "uint v \<le> 0x7FFFFFFF"
  shows "uint (v * 10 + of_nat (of_char c - 48) :: u64) = uint v * 10 + int (of_char c - 48)"
proof -
  define n :: nat where "n = of_char c - 48"
  have "(of_char c :: nat) \<le> 57" using assms(1) by (simp add: is_digit_def)
  then have n: "n \<le> 9" unfolding n_def by linarith
  then have un: "uint (of_nat n :: u64) = int n" by (simp add: uint_nat unat_of_nat)
  have "uint v * 10 < 18446744073709551616" using assms(2) by linarith
  then have "uint (v * 10) = uint v * 10" by (simp add: uint_word_ariths)
  then show ?thesis
    using n assms(2) unfolding n_def [symmetric] by (simp add: uint_plus_if' un)
qed

lemma read_index_iff:
  assumes "uint v \<le> 0x7FFFFFFF" "list_all is_digit ds" "rest = [] \<or> \<not> is_digit (hd rest)"
  shows "read_index v h (ds @ rest) =
    (if uint v * 10 ^ length ds + dec_value ds \<le> 0x7FFFFFFF
     then Some (word_of_int (uint v * 10 ^ length ds + dec_value ds), h \<or> ds \<noteq> [], rest) else None)"
  using assms(1,2)
proof (induction ds arbitrary: v h)
  case Nil
  have "read_index v h rest = Some (v, h, rest)" using assms(3) by (cases rest) auto
  then show ?case using Nil by (simp add: dec_value_def)
next
  case (Cons c ds)
  define w where "w = v * 10 + of_nat (of_char c - 48)"
  have w: "uint w = uint v * 10 + int (of_char c - 48)"
    unfolding w_def using Cons.prems by (intro read_index_step) simp_all
  have e: "uint v * 10 ^ length (c # ds) + dec_value (c # ds) = uint w * 10 ^ length ds + dec_value ds"
    by (simp add: w dec_value_Cons algebra_simps)
  show ?case
  proof (cases "uint w \<le> 0x7FFFFFFF")
    case True
    then have "\<not> w > 0x7FFFFFFF" by (simp add: word_less_def)
    then have "read_index v h ((c # ds) @ rest) = read_index w True (ds @ rest)"
      using Cons.prems by (simp add: w_def Let_def)
    also have "\<dots> = (if uint w * 10 ^ length ds + dec_value ds \<le> 0x7FFFFFFF
        then Some (word_of_int (uint w * 10 ^ length ds + dec_value ds), True \<or> ds \<noteq> [], rest) else None)"
      using Cons.IH [of w True] Cons.prems True by simp
    finally show ?thesis by (simp only: e) simp
  next
    case False
    have "uint w * 1 \<le> uint w * 10 ^ length ds" by (intro mult_left_mono) simp_all
    then have "\<not> uint w * 10 ^ length ds + dec_value ds \<le> 0x7FFFFFFF"
      using False dec_value_nonneg [of ds] by linarith
    moreover have "w > 0x7FFFFFFF" using False by (simp add: word_less_def)
    ultimately show ?thesis using Cons.prems by (simp only: e) (simp add: w_def Let_def)
  qed
qed

definition marker_index :: "string \<Rightarrow> string \<Rightarrow> u32" where
  "marker_index ds marker = word_of_int (dec_value ds) OR (if marker = '''' then 0 else 0x80000000)"

definition path_head :: "string \<Rightarrow> string \<Rightarrow> string \<Rightarrow> bool" where
  "path_head ds marker rest \<longleftrightarrow> ds \<noteq> [] \<and> list_all is_digit ds \<and> dec_value ds < 2 ^ 31
     \<and> marker \<in> {'''', [CHR 0x27], ''h'', ''H''} \<and> (rest = [] \<or> hd rest = CHR ''/'')"

declare derive_loop.simps(2) [simp del]

lemma not_digits: "\<not> is_digit CHR ''/''" "\<not> is_digit CHR 0x27" "\<not> is_digit CHR ''h''" "\<not> is_digit CHR ''H''"
  by (simp_all add: is_digit_def)

lemma read_marker_head:
  "marker \<in> {'''', [CHR 0x27], ''h'', ''H''} \<Longrightarrow> rest = [] \<or> hd rest = CHR ''/'' \<Longrightarrow>
   read_marker (marker @ rest) = (marker \<noteq> '''', rest)"
  by (cases rest) (auto simp: read_marker_def)

lemma read_index_head:
  assumes "path_head ds marker rest"
  shows "read_index 0 False (ds @ marker @ rest) = Some (word_of_int (dec_value ds), True, marker @ rest)"
proof -
  have "marker @ rest = [] \<or> \<not> is_digit (hd (marker @ rest))"
    using assms by (cases rest) (auto simp: path_head_def not_digits)
  then show ?thesis
    using assms read_index_iff [of 0 ds "marker @ rest" False] by (auto simp: path_head_def)
qed

lemma loop_head:
  assumes "path_head ds marker rest"
  shows "derive_loop C k (CHR ''/'' # ds @ marker @ rest) =
    (if snd (derive_child C k (marker_index ds marker))
     then derive_loop C (fst (derive_child C k (marker_index ds marker))) rest else (ExtendedKey0, False))"
proof -
  let ?i = "marker_index ds marker"
  have m: "read_marker (marker @ rest) = (marker \<noteq> '''', rest)"
    using assms by (intro read_marker_head) (simp_all add: path_head_def)
  have r: "(rest \<noteq> [] \<and> hd rest \<noteq> CHR ''/'') = False" and ne: "(ds @ marker @ rest = []) = False"
    using assms by (auto simp: path_head_def)
  have i: "(if marker \<noteq> '''' then (ucast (word_of_int (dec_value ds) :: u64) :: u32) OR 0x80000000
      else ucast (word_of_int (dec_value ds) :: u64)) = ?i"
  proof -
    have "(ucast (word_of_int (dec_value ds) :: u64) :: u32) = word_of_int (dec_value ds)"
      by transfer (simp add: take_bit_take_bit min_def)
    then show ?thesis by (simp add: marker_index_def)
  qed
  show ?thesis
    unfolding derive_loop.simps(2) read_index_head [OF assms] option.case prod.case m fst_conv snd_conv Let_def i r ne
    by simp
qed

lemma loop_decompose:
  assumes "snd (derive_loop C k (c # cs))"
  shows "\<exists>ds marker rest. c # cs = CHR ''/'' # ds @ marker @ rest \<and> path_head ds marker rest"
proof -
  define ds where "ds = takeWhile is_digit cs"
  define r where "r = dropWhile is_digit cs"
  have cs: "cs = ds @ r" by (simp add: ds_def r_def)
  have dg: "list_all is_digit ds" by (auto simp: ds_def list_all_iff dest: set_takeWhileD)
  have hr: "r = [] \<or> \<not> is_digit (hd r)" unfolding r_def using hd_dropWhile by blast
  have c: "c = CHR ''/''" using assms by (auto simp: derive_loop.simps(2) split: if_splits)
  have ri: "read_index 0 False cs = (if dec_value ds \<le> 0x7FFFFFFF
      then Some (word_of_int (dec_value ds), ds \<noteq> [], r) else None)"
    using read_index_iff [of 0 ds r False] dg hr by (simp add: cs)
  have le: "dec_value ds \<le> 0x7FFFFFFF" and ne: "ds \<noteq> []"
    and tl: "snd (read_marker r) = [] \<or> hd (snd (read_marker r)) = CHR ''/''"
    using assms unfolding derive_loop.simps(2) ri by (auto simp: Let_def split: if_splits)
  obtain marker rest where m: "r = marker @ rest" "marker \<in> {'''', [CHR 0x27], ''h'', ''H''}" "snd (read_marker r) = rest"
  proof (cases r)
    case Nil
    then show ?thesis using that [of "''''" "[]"] by (simp add: read_marker_def)
  next
    case (Cons a as)
    show ?thesis
    proof (cases "a = CHR 0x27 \<or> a = CHR ''h'' \<or> a = CHR ''H''")
      case True
      then show ?thesis using that [of "[a]" as] Cons by (auto simp: read_marker_def)
    next
      case False
      then show ?thesis using that [of "''''" r] Cons by (auto simp: read_marker_def)
    qed
  qed
  have "path_head ds marker rest" using dg le ne m tl by (auto simp: path_head_def)
  then show ?thesis using c cs m(1) by blast
qed

lemma component_path_start: "component_path s is \<Longrightarrow> s = [] \<or> hd s = CHR ''/''"
  by (induction rule: component_path.induct) auto

lemma path_stepI:
  "path_head ds marker rest \<Longrightarrow> component_path rest is \<Longrightarrow>
   component_path (CHR ''/'' # ds @ marker @ rest) (marker_index ds marker # is)"
  using path_step [of ds marker rest "is"] by (simp add: path_head_def marker_index_def)

lemma loop_complete: "component_path s is \<Longrightarrow> derive_all C k is = Some c \<Longrightarrow> derive_loop C k s = (c, True)"
proof (induction arbitrary: k rule: component_path.induct)
  case path_end
  then show ?case by simp
next
  case (path_step ds marker rest "is")
  have h: "path_head ds marker rest"
    using path_step component_path_start [OF path_step.hyps(5)] by (simp add: path_head_def)
  have "derive_all C k (marker_index ds marker # is) = Some c"
    using path_step.prems by (simp add: marker_index_def)
  then obtain k' where "derive_child C k (marker_index ds marker) = (k', True)" "derive_all C k' is = Some c"
    by (rule derive_all_step)
  then show ?case using loop_head [OF h, of C k] path_step.IH [of k'] by simp
qed

lemma loop_sound: "derive_loop C k s = (c, True) \<Longrightarrow> \<exists>is. component_path s is \<and> derive_all C k is = Some c"
proof (induction "length s" arbitrary: k s rule: less_induct)
  case less
  show ?case
  proof (cases s)
    case Nil
    then have "derive_all C k [] = Some c" using less.prems by simp
    then show ?thesis using path_end Nil by blast
  next
    case (Cons a as)
    then obtain ds marker rest where s: "s = CHR ''/'' # ds @ marker @ rest" and h: "path_head ds marker rest"
      using loop_decompose [of C k a as] less.prems by auto
    obtain k' where k': "derive_child C k (marker_index ds marker) = (k', True)"
      and l: "derive_loop C k' rest = (c, True)"
      using less.prems by (cases "derive_child C k (marker_index ds marker)") (auto simp: s loop_head [OF h] split: if_splits)
    obtain "is" where "component_path rest is" "derive_all C k' is = Some c"
      using less.hyps [OF _ l] s by auto
    then have "component_path s (marker_index ds marker # is) \<and> derive_all C k (marker_index ds marker # is) = Some c"
      using path_stepI [OF h] k' s by simp
    then show ?thesis by blast
  qed
qed

lemma failed_guard: "c \<noteq> e \<Longrightarrow> (if p then (e, False) else x) = (c, False) \<longleftrightarrow> \<not> p \<and> x = (c, False)"
  by auto

lemma derive_loop_failed: "derive_loop C k s = (c, False) \<Longrightarrow> c = ExtendedKey0"
proof (induction C k s rule: derive_loop.induct)
  case (2 C k a as)
  show ?case
  proof (rule ccontr)
    assume n: "c \<noteq> ExtendedKey0"
    note g = failed_guard [OF n]
    obtain v h r where ri: "read_index 0 False as = Some (v, h, r)"
    proof (cases "read_index 0 False as")
      case None
      have False using "2.prems" n unfolding derive_loop.simps(2) None by (simp split: if_splits)
      then show ?thesis ..
    qed (use that in auto)
    note facts = "2.prems" [unfolded derive_loop.simps(2) ri option.case prod.case Let_def g]
    from facts have "c = ExtendedKey0"
      by (intro "2.IH" [OF _ _ ri refl refl _ refl refl refl _ refl]) simp_all
    with n show False ..
  qed
qed simp

lemma path_result:
  "bip32_derive_path C m path = (c, True) \<longleftrightarrow>
     (\<exists>s is. path = CHR ''m'' # s \<and> component_path s is \<and> derive_all C m is = Some c)"
proof (cases path)
  case Nil
  then show ?thesis by (simp add: bip32_derive_path_def)
next
  case (Cons a s)
  have e: "bip32_derive_path C m path = (if a = CHR ''m'' then derive_loop C m s else (ExtendedKey0, False))"
    using Cons by (cases s) (simp_all add: bip32_derive_path_def)
  have l: "derive_loop C m s = (c, True) \<longleftrightarrow> (\<exists>is. component_path s is \<and> derive_all C m is = Some c)"
    by (metis loop_sound loop_complete)
  show ?thesis unfolding e l [symmetric] using Cons by (auto simp: l)
qed

lemma derive_all_descends:
  assumes "derive_all C k is = Some c" "descends C root js k"
  shows "descends C root (js @ is) c"
  using assms
proof (induction C k "is" arbitrary: js rule: derive_all.induct)
  case (2 C k i "is")
  then obtain k' where k': "derive_child C k i = (k', True)" "derive_all C k' is = Some c"
    using derive_all_step [OF "2.prems"(1)] by blast
  then have "descends C root (js @ [i]) k'" using "2.prems" descends.child by blast
  then show ?case using "2.IH" [OF k'(1) [symmetric], of "js @ [i]"] k' by simp
qed simp

section \<open>Serialisation\<close>

definition extended_ok :: "ExtendedKey \<Rightarrow> bool" where
  "extended_ok k \<longleftrightarrow> length (xk_key k) = 32 \<and> length (xk_chain_code k) = 32 \<and> length (xk_parent_fingerprint k) = 4
     \<and> (xk_is_private k \<longrightarrow> xk_pub_prefix k = 0)"

lemma be32_length [simp]: "length (be32 v) = 4"
  by (simp add: be32_def)

lemma be32_rev: "be32 v = rev (le_bytes 4 (uint v))"
  unfolding be32_def le32_bytes [symmetric] by simp

lemma be32_inj: "be32 v = be32 w \<longleftrightarrow> v = w"
  by (simp add: be32_rev le32.enc_inj)

lemma list_update_segment: "length a = pos \<Longrightarrow> (a @ [b] @ c)[pos := x] = a @ [x] @ c"
  by (simp add: list_update_append)

lemma serialize_eq:
  assumes "length (xk_key k) = 32" "length (xk_chain_code k) = 32" "length (xk_parent_fingerprint k) = 4"
  shows "serialize k = be32 (if xk_is_private k then 0x0488ADE4 else 0x0488B21E) @ [xk_depth k]
     @ xk_parent_fingerprint k @ be32 (xk_child_number k) @ xk_chain_code k
     @ [if xk_is_private k then 0 else xk_pub_prefix k] @ xk_key k"
proof -
  define v where "v = be32 (if xk_is_private k then 0x0488ADE4 else 0x0488B21E)"
  define b where "b = (if xk_is_private k then 0 else xk_pub_prefix k)"
  define z :: "nat \<Rightarrow> bytes" where "z = (\<lambda>n. replicate n 0)"
  have lz: "length (z n) = n" for n by (simp add: z_def)
  let ?f = "xk_parent_fingerprint k" and ?n = "be32 (xk_child_number k)" and ?c = "xk_chain_code k"
  have lv: "length v = 4" by (simp add: v_def)
  have "serialize k = memcpy_at ((memcpy_at (memcpy_at (memcpy_at ((memcpy_at (z 78) 0 v)[4 := xk_depth k]) 5 ?f)
      9 ?n) 13 ?c)[45 := b]) 46 (xk_key k)"
    by (simp add: serialize_def Let_def v_def b_def z_def)
  also have "z 78 = [] @ z 4 @ [0] @ z 4 @ z 4 @ z 32 @ [0] @ z 32"
    by (simp add: z_def replicate_add [symmetric] flip: replicate_Suc replicate_append_same)
  also have "memcpy_at \<dots> 0 v = v @ [0] @ z 4 @ z 4 @ z 32 @ [0] @ z 32"
    by (subst memcpy_at_segment) (simp_all add: lv lz)
  also have "\<dots>[4 := xk_depth k] = (v @ [xk_depth k]) @ z 4 @ z 4 @ z 32 @ [0] @ z 32"
    by (subst list_update_segment) (simp_all add: lv)
  also have "memcpy_at \<dots> 5 ?f = (v @ [xk_depth k] @ ?f) @ z 4 @ z 32 @ [0] @ z 32"
    by (subst memcpy_at_segment) (simp_all add: lv lz assms)
  also have "memcpy_at \<dots> 9 ?n = (v @ [xk_depth k] @ ?f @ ?n) @ z 32 @ [0] @ z 32"
    by (subst memcpy_at_segment) (simp_all add: lv lz assms)
  also have "memcpy_at \<dots> 13 ?c = (v @ [xk_depth k] @ ?f @ ?n @ ?c) @ [0] @ z 32"
    by (subst memcpy_at_segment) (simp_all add: lv lz assms)
  also have "\<dots>[45 := b] = (v @ [xk_depth k] @ ?f @ ?n @ ?c @ [b]) @ z 32 @ []"
    by (subst list_update_segment) (simp_all add: lv assms)
  also have "memcpy_at \<dots> 46 (xk_key k) = (v @ [xk_depth k] @ ?f @ ?n @ ?c @ [b]) @ xk_key k @ []"
    by (subst memcpy_at_segment) (simp_all add: lv lz assms)
  finally show ?thesis by (simp add: v_def b_def)
qed

lemma serialize_inj:
  assumes "extended_ok k" "extended_ok l" "serialize k = serialize l"
  shows "k = l"
proof -
  have "be32 (0x0488ADE4) \<noteq> be32 0x0488B21E" by (simp add: be32_inj)
  then show ?thesis
    using assms by (auto simp: extended_ok_def serialize_eq be32_inj split: if_splits)
qed

section \<open>Concrete instances\<close>

text \<open>A concrete value of the parameter, for the instances: a point is its discrete logarithm.\<close>

definition log_curve :: "(int, int) curve_ops" where
  "log_curve = \<lparr>fe_parse_strict = (\<lambda>bs. if be_val bs = 0 then None else Some (be_val bs)), fe_mul = (\<lambda>a b. 0),
     fe_add = (\<lambda>a b. 0), fe_from_uint64 = uint, fe_sqrt = (\<lambda>a. 0), fe_negate = (\<lambda>a. - a), fe_limb0 = (\<lambda>a. 0),
     pt_infinity = 0, pt_from_affine = (\<lambda>x y. x), pt_add = (\<lambda>p q. (p + q) mod group_order),
     pt_is_infinity = (\<lambda>p. p = 0), pt_to_compressed = (\<lambda>p. 2 # be_bytes 32 p), pt_x_bytes = be_bytes 32,
     generator_mul = sval\<rparr>"

definition sample_private :: ExtendedKey where
  "sample_private = ExtendedKey0\<lparr>xk_key := to_bytes scalar_one, xk_is_private := True\<rparr>"

lemma sample_private_ok: "private_ok sample_private"
proof -
  have v: "sval scalar_one = 1" by (simp add: scalar_one_def ONE_def)
  show ?thesis unfolding private_ok_def
    by (intro conjI exI [of _ scalar_one])
      (simp_all add: sample_private_def ExtendedKey0_def scalar_ok_def v)
qed

section \<open>Paths from a master key\<close>

lemma path_failed: "bip32_derive_path C m path = (c, False) \<Longrightarrow> c = ExtendedKey0"
  using derive_loop_failed by (auto simp: bip32_derive_path_def Let_def split: if_splits)

lemma path_descendants:
  assumes "xk_is_private m \<Longrightarrow> private_ok m" "xk_depth m = 0" "bip32_derive_path C m path = (k, True)"
  shows "\<exists>js. component_path (tl path) js \<and> derive_all C m js = Some k
    \<and> xk_is_private k = xk_is_private m \<and> length js < 256 \<and> unat (xk_depth k) = length js
    \<and> xk_child_number k = last (xk_child_number m # js)
    \<and> (if xk_is_private m then private_ok k else list_all (\<lambda>i. i AND 0x80000000 = 0) js)"
proof -
  obtain s js where s: "path = CHR ''m'' # s" "component_path s js" "derive_all C m js = Some k"
    using assms(3) path_result by blast
  have d: "descends C m js k" using derive_all_descends [OF s(3) descends.here] by simp
  show ?thesis
    using s descends_kind [OF d assms(1,2)] by (intro exI [of _ js]) simp
qed











section \<open>Properties\<close>



text \<open>the master key exists exactly for seeds of 16 to 64 bytes whose HMAC-SHA512 under the key
  "Bitcoin seed" has a left half that is a canonical non-zero scalar, and is then those two halves
  at depth 0; every other seed gives the zero key and the failure flag.\<close>
theorem bip32_master_key_spec:
  "bip32_master_key seed =
     (let I = hmac_sha512 hmac_key seed; v = be_val (take 32 I) in
      if 16 \<le> length seed \<and> length seed \<le> 64 \<and> 0 < v \<and> v < group_order
      then (ExtendedKey0\<lparr>xk_key := take 32 I, xk_chain_code := drop 32 I, xk_is_private := True\<rparr>, True)
      else (ExtendedKey0, False))"
proof (cases "snd (bip32_master_key seed)")
  case True
  then obtain m where m: "bip32_master_key seed = (m, True)" by (cases "bip32_master_key seed") simp
  have "m = ExtendedKey0\<lparr>xk_key := take 32 (hmac_sha512 hmac_key seed),
      xk_chain_code := drop 32 (hmac_sha512 hmac_key seed), xk_is_private := True\<rparr>"
  proof -
    obtain sk where sk: "parse_bytes_strict_nonzero (take 32 (hmac_sha512 hmac_key seed)) = Some sk"
      using m by (auto simp: bip32_master_key_def Let_def split: if_splits option.splits)
    then have "to_bytes sk = take 32 (hmac_sha512 hmac_key seed)" by (simp add: parse_nonzero_iff)
    then show ?thesis using m sk
      by (auto simp: bip32_master_key_def Let_def ExtendedKey0_def numeral_eq_Suc split: if_splits)
  qed
  with m True show ?thesis unfolding master_iff by (simp add: Let_def)
next
  case False
  then have "fst (bip32_master_key seed) = ExtendedKey0"
    by (auto simp: bip32_master_key_def Let_def split: option.splits if_splits)
  with False have "bip32_master_key seed = (ExtendedKey0, False)" by (cases "bip32_master_key seed") simp
  then show ?thesis using False unfolding master_iff by (simp add: Let_def)
qed

text \<open>C21: a path derivation succeeds exactly on an "m" followed by components in the grammar (a slash,
  decimal digits below 2 to the 31, an optional hardening mark) all of whose child derivations
  succeed, and then gives the last child; otherwise it gives the zero key and the failure flag.\<close>
theorem bip32_derive_path_spec:
  "((bip32_derive_path C m path = (k, True)) =
      (\<exists>s js. path = CHR ''m'' # s \<and> component_path s js \<and> derive_all C m js = Some k))
   \<and> (snd (bip32_derive_path C m path) \<or> bip32_derive_path C m path = (ExtendedKey0, False))"
proof -
  have "snd (bip32_derive_path C m path) \<or> bip32_derive_path C m path = (ExtendedKey0, False)"
    using path_failed [of C m path] by (cases "bip32_derive_path C m path") auto
  then show ?thesis using path_result by blast
qed

text \<open>C23: what a path reaches from a depth-0 key. From a private root every key is private with a
  canonical non-zero secret; from a public root every key is public and no component was hardened;
  the depth is the number of components (so at most 255), the child number the last component. A
  path that fails gives the zero key.\<close>
theorem bip32_path_descendants:
  assumes "xk_is_private m \<Longrightarrow> private_ok m" "xk_depth m = 0"
  shows "case bip32_derive_path C m path of (k, ok) \<Rightarrow>
    if ok then \<exists>js. component_path (tl path) js \<and> derive_all C m js = Some k
       \<and> xk_is_private k = xk_is_private m \<and> length js < 256 \<and> unat (xk_depth k) = length js
       \<and> xk_child_number k = last (xk_child_number m # js)
       \<and> (if xk_is_private m then private_ok k else list_all (\<lambda>i. i AND 0x80000000 = 0) js)
    else k = ExtendedKey0"
proof -
  obtain k ok where k: "bip32_derive_path C m path = (k, ok)" by (cases "bip32_derive_path C m path")
  show ?thesis
    using k path_descendants [OF assms, of C path k] path_failed [of C m path k]
    by (cases ok) simp_all
qed

lemma bip32_path_descendants_witness:
  "case bip32_derive_path log_curve sample_private ''m/44h/7'' of (k, ok) \<Rightarrow>
    if ok then \<exists>js. component_path ''/44h/7'' js \<and> derive_all log_curve sample_private js = Some k
       \<and> xk_is_private k = True \<and> length js < 256 \<and> unat (xk_depth k) = length js
       \<and> xk_child_number k = last (0 # js)
       \<and> (if True then private_ok k else list_all (\<lambda>i. i AND 0x80000000 = 0) js)
    else k = ExtendedKey0"
proof -
  have n: "xk_child_number sample_private = 0" "xk_depth sample_private = 0" "xk_is_private sample_private = True"
    "tl ''m/44h/7'' = ''/44h/7''"
    by (simp_all add: sample_private_def ExtendedKey0_def)
  show ?thesis
    using bip32_path_descendants [where m = sample_private and C = log_curve and path = "''m/44h/7''",
        OF sample_private_ok n(2)]
    unfolding n .
qed

end
